(* ===== verification/Prelude.thy ===== *)
theory Prelude
  imports Main "HOL-Library.Word" "HOL-Library.Monad_Syntax" "HOL-Library.Signed_Division"
begin

text \<open>
  Shared vocabulary of the development.

  C++ code is modelled in the option monad. \<open>None\<close> is "the program does not get past this
  point": a failed \<open>ASSERT\<close>, \<open>UNREACHABLE()\<close> or \<open>UNIMPLEMENTED()\<close>, an access of a
  \<open>Vector\<close> outside its bounds, a shift by an amount C++ leaves undefined, or a loop that
  does not end. A theorem that says \<open>ok m Q\<close> therefore says that the code returns and that
  its result satisfies \<open>Q\<close>.

  A C++ \<open>int\<close> is an Isabelle \<open>int\<close>; the unsigned fixed-width types are words. Arrays are
  lists of fixed length that are read with \<open>rd\<close> and written with \<open>wr\<close>.
\<close>

unbundle bit_operations_syntax

type_synonym u8 = "8 word"
type_synonym u16 = "16 word"
type_synonym u32 = "32 word"
type_synonym u64 = "64 word"

named_theorems wp \<open>weakest preconditions of the option monad\<close>
named_theorems word_ints \<open>words read as integers\<close>

subsection \<open>Checked operations\<close>

definition ensure :: "bool \<Rightarrow> unit option" where
  "ensure b = (if b then Some () else None)"

definition rd :: "'a list \<Rightarrow> int \<Rightarrow> 'a option" where
  "rd xs i = (if 0 \<le> i \<and> i < int (length xs) then Some (xs ! nat i) else None)"

definition wr :: "'a list \<Rightarrow> int \<Rightarrow> 'a \<Rightarrow> 'a list option" where
  "wr xs i v = (if 0 \<le> i \<and> i < int (length xs) then Some (xs[nat i := v]) else None)"

text \<open>Shifts of 64-bit values by an \<open>int\<close>: C++ defines them for amounts from 0 to 63 only.\<close>

definition shl64 :: "u64 \<Rightarrow> int \<Rightarrow> u64 option" where
  "shl64 x n = (if 0 \<le> n \<and> n < 64 then Some (push_bit (nat n) x) else None)"

definition shr64 :: "u64 \<Rightarrow> int \<Rightarrow> u64 option" where
  "shr64 x n = (if 0 \<le> n \<and> n < 64 then Some (drop_bit (nat n) x) else None)"

text \<open>Unsigned division, which C++ leaves undefined for a zero divisor.\<close>

definition udiv :: "'a::len word \<Rightarrow> 'a word \<Rightarrow> 'a word option" where
  "udiv a b = (if b = 0 then None else Some (a div b))"

text \<open>\<open>static_cast<int>\<close> of a 64-bit value keeps its low 32 bits.\<close>

definition c_int :: "u64 \<Rightarrow> int" where
  "c_int x = sint (ucast x :: u32)"

text \<open>A C \<open>char\<close>, as the byte the code computes with.\<close>

definition ch :: "char \<Rightarrow> u8" where
  "ch c = of_char c"

subsection \<open>Loops\<close>

text \<open>\<open>for (i = lo; i < hi; ++i)\<close> over a state the body updates.\<close>

function for_up :: "int \<Rightarrow> int \<Rightarrow> (int \<Rightarrow> 's \<Rightarrow> 's option) \<Rightarrow> 's \<Rightarrow> 's option" where
  "for_up i hi body s =
     (if i < hi then Option.bind (body i s) (for_up (i + 1) hi body) else Some s)"
  by pat_completeness auto
termination
  by (relation "measure (\<lambda>(i, hi, body, s). nat (hi - i))") auto

declare for_up.simps [simp del]

text \<open>\<open>for (i = hi; i >= lo; --i)\<close>.\<close>

function for_down :: "int \<Rightarrow> int \<Rightarrow> (int \<Rightarrow> 's \<Rightarrow> 's option) \<Rightarrow> 's \<Rightarrow> 's option" where
  "for_down i lo body s =
     (if lo \<le> i then Option.bind (body i s) (for_down (i - 1) lo body) else Some s)"
  by pat_completeness auto
termination
  by (relation "measure (\<lambda>(i, lo, body, s). nat (i + 1 - lo))") auto

declare for_down.simps [simp del]

text \<open>\<open>while (b) c\<close>, where the guard may read an array; not ending is \<open>None\<close>.\<close>

partial_function (option) while_do ::
    "('s \<Rightarrow> bool option) \<Rightarrow> ('s \<Rightarrow> 's option) \<Rightarrow> 's \<Rightarrow> 's option" where
  [code]: "while_do b c s =
     Option.bind (b s) (\<lambda>t. if t then Option.bind (c s) (while_do b c) else Some s)"

subsection \<open>Weakest preconditions\<close>

definition ok :: "'a option \<Rightarrow> ('a \<Rightarrow> bool) \<Rightarrow> bool" where
  "ok m Q \<longleftrightarrow> (\<exists>x. m = Some x \<and> Q x)"

lemma ok_Some [wp, simp]: "ok (Some x) Q \<longleftrightarrow> Q x"
  by (simp add: ok_def)

lemma ok_None [wp, simp]: "\<not> ok None Q"
  by (simp add: ok_def)

lemma ok_bind [wp]: "ok (Option.bind m f) Q \<longleftrightarrow> ok m (\<lambda>x. ok (f x) Q)"
  by (cases m) (simp_all add: ok_def)

lemma ok_ensure [wp]: "ok (ensure b) Q \<longleftrightarrow> b \<and> Q ()"
  by (simp add: ok_def ensure_def)

lemma ok_rd [wp]: "ok (rd xs i) Q \<longleftrightarrow> 0 \<le> i \<and> i < int (length xs) \<and> Q (xs ! nat i)"
  by (auto simp: ok_def rd_def)

lemma ok_wr [wp]: "ok (wr xs i v) Q \<longleftrightarrow> 0 \<le> i \<and> i < int (length xs) \<and> Q (xs[nat i := v])"
  by (auto simp: ok_def wr_def)

lemma ok_shl64 [wp]: "ok (shl64 x n) Q \<longleftrightarrow> 0 \<le> n \<and> n < 64 \<and> Q (push_bit (nat n) x)"
  by (auto simp: ok_def shl64_def)

lemma ok_shr64 [wp]: "ok (shr64 x n) Q \<longleftrightarrow> 0 \<le> n \<and> n < 64 \<and> Q (drop_bit (nat n) x)"
  by (auto simp: ok_def shr64_def)

lemma ok_udiv [wp]: "ok (udiv a b) Q \<longleftrightarrow> b \<noteq> 0 \<and> Q (a div b)"
  by (auto simp: ok_def udiv_def)

lemma ok_if [wp]: "ok (if b then m else n) Q \<longleftrightarrow> (b \<longrightarrow> ok m Q) \<and> (\<not> b \<longrightarrow> ok n Q)"
  by simp

lemma ok_split [wp]: "ok (case p of (x, y) \<Rightarrow> f x y) Q \<longleftrightarrow> (case p of (x, y) \<Rightarrow> ok (f x y) Q)"
  by (cases p) simp

lemma ok_mono: "ok m P \<Longrightarrow> (\<And>x. P x \<Longrightarrow> Q x) \<Longrightarrow> ok m Q"
  by (auto simp: ok_def)

lemma okE: "ok m Q \<Longrightarrow> (\<And>x. m = Some x \<Longrightarrow> Q x \<Longrightarrow> thesis) \<Longrightarrow> thesis"
  by (auto simp: ok_def)

lemma ok_SomeI: "m = Some x \<Longrightarrow> Q x \<Longrightarrow> ok m Q"
  by (simp add: ok_def)

lemma ok_conj: "ok m P \<Longrightarrow> ok m Q \<Longrightarrow> ok m (\<lambda>x. P x \<and> Q x)"
  by (auto simp: ok_def)

text \<open>Loop rules: an invariant, and for \<open>while_do\<close> a measure the body decreases.\<close>

lemma ok_for_up_inv:
  assumes "i \<le> hi" "P i s"
    and "\<And>j t. i \<le> j \<Longrightarrow> j < hi \<Longrightarrow> P j t \<Longrightarrow> ok (body j t) (P (j + 1))"
  shows "ok (for_up i hi body s) (P hi)"
  using assms
proof (induction i hi body s rule: for_up.induct)
  case (1 i hi body s)
  note step = "1.prems"(3)
  show ?case
  proof (cases "i < hi")
    case True
    with step "1.prems"(2) have "ok (body i s) (P (i + 1))" by blast
    then obtain t where t: "body i s = Some t" "P (i + 1) t" by (rule okE)
    have le: "i + 1 \<le> hi" using True by simp
    have st: "\<And>j u. i + 1 \<le> j \<Longrightarrow> j < hi \<Longrightarrow> P j u \<Longrightarrow> ok (body j u) (P (j + 1))"
      by (rule step) simp_all
    have "ok (for_up (i + 1) hi body t) (P hi)"
      by (rule "1.IH"[OF True t(1) le t(2) st])
    moreover have "for_up i hi body s = for_up (i + 1) hi body t"
      by (subst for_up.simps) (simp only: True t if_True bind.simps option.simps)
    ultimately show ?thesis by simp
  next
    case False
    moreover have "for_up i hi body s = Some s"
      by (subst for_up.simps) (simp only: False if_False)
    moreover have "i = hi" using False "1.prems"(1) by simp
    ultimately show ?thesis using "1.prems"(2) by simp
  qed
qed

lemma ok_for_up:
  assumes "i \<le> hi" "P i s"
    and "\<And>j t. i \<le> j \<Longrightarrow> j < hi \<Longrightarrow> P j t \<Longrightarrow> ok (body j t) (P (j + 1))"
    and "\<And>t. P hi t \<Longrightarrow> Q t"
  shows "ok (for_up i hi body s) Q"
  by (rule ok_mono[OF ok_for_up_inv[of i hi P s body]]) (use assms in auto)

lemma ok_for_down:
  assumes "lo - 1 \<le> i" "P i s"
    and "\<And>j t. lo \<le> j \<Longrightarrow> j \<le> i \<Longrightarrow> P j t \<Longrightarrow> ok (body j t) (P (j - 1))"
    and "\<And>t. P (lo - 1) t \<Longrightarrow> Q t"
  shows "ok (for_down i lo body s) Q"
  using assms
proof (induction i lo body s rule: for_down.induct)
  case (1 i lo body s)
  note step = "1.prems"(3) and fin = "1.prems"(4)
  show ?case
  proof (cases "lo \<le> i")
    case True
    with step "1.prems"(2) have "ok (body i s) (P (i - 1))" by blast
    then obtain t where t: "body i s = Some t" "P (i - 1) t" by (rule okE)
    have le: "lo - 1 \<le> i - 1" using True by simp
    have st: "\<And>j u. lo \<le> j \<Longrightarrow> j \<le> i - 1 \<Longrightarrow> P j u \<Longrightarrow> ok (body j u) (P (j - 1))"
      by (rule step) simp_all
    have "ok (for_down (i - 1) lo body t) Q"
      by (rule "1.IH"[OF True t(1) le t(2) st fin])
    moreover have "for_down i lo body s = for_down (i - 1) lo body t"
      by (subst for_down.simps) (simp only: True t if_True bind.simps option.simps)
    ultimately show ?thesis by simp
  next
    case False
    moreover have "for_down i lo body s = Some s"
      by (subst for_down.simps) (simp only: False if_False)
    moreover have "i = lo - 1" using False "1.prems"(1) by simp
    ultimately show ?thesis using "1.prems"(2) fin by simp
  qed
qed

lemma ok_while_do:
  fixes m :: "'s \<Rightarrow> nat"
  assumes "P s"
    and "\<And>t. P t \<Longrightarrow> ok (b t) (\<lambda>g. if g then ok (c t) (\<lambda>u. P u \<and> m u < m t) else Q t)"
  shows "ok (while_do b c s) Q"
  using assms(1)
proof (induction "m s" arbitrary: s rule: less_induct)
  case less
  from assms(2)[OF less.prems] obtain g where
    g: "b s = Some g" "if g then ok (c s) (\<lambda>u. P u \<and> m u < m s) else Q s"
    by (auto simp: ok_def)
  show ?case
  proof (cases g)
    case True
    with g obtain u where u: "c s = Some u" "P u" "m u < m s"
      by (auto simp: ok_def)
    from less.hyps[OF u(3) u(2)] show ?thesis
      using g(1) u(1) True by (simp add: while_do.simps[of b c s])
  next
    case False
    with g show ?thesis by (simp add: while_do.simps[of b c s])
  qed
qed

subsection \<open>C integer division\<close>

lemma sdiv_nonneg [simp]: "0 \<le> a \<Longrightarrow> 0 < b \<Longrightarrow> (a::int) sdiv b = a div b"
  by (auto simp: signed_divide_int_def sgn_if)

lemma smod_nonneg [simp]: "0 \<le> a \<Longrightarrow> 0 < b \<Longrightarrow> (a::int) smod b = a mod b"
  by (cases "a = 0") (simp_all add: signed_modulo_int_def signed_divide_int_def minus_div_mult_eq_mod)

subsection \<open>Words as integers\<close>

lemma uint_drop_bit [word_ints]: "uint (drop_bit n (w :: 'a::len word)) = uint w div 2 ^ n"
  by (simp only: unsigned_drop_bit_eq) (simp add: drop_bit_eq_div take_bit_eq_mod)

lemma uint_and_mask [word_ints]: "uint (w AND mask n :: 'a::len word) = uint w mod 2 ^ n"
  by (simp only: take_bit_eq_mask [symmetric] unsigned_take_bit_eq) (simp add: take_bit_eq_mod)

lemma uint_lt_2p: "uint (w :: 'a::len word) < 2 ^ LENGTH('a)"
  by (rule uint_bounded)

lemma uint_add_exact [word_ints]:
  "uint a + uint b < 2 ^ LENGTH('a) \<Longrightarrow> uint (a + b :: 'a::len word) = uint a + uint b"
  by (simp add: uint_word_ariths)

lemma uint_mult_exact [word_ints]:
  "uint a * uint b < 2 ^ LENGTH('a) \<Longrightarrow> uint (a * b :: 'a::len word) = uint a * uint b"
  by (simp add: uint_word_ariths)

lemma uint_sub_exact [word_ints]:
  "uint b \<le> uint a \<Longrightarrow> uint (a - b :: 'a::len word) = uint a - uint b"
  by (metis uint_sub_lem)

lemma uint_push_bit_exact [word_ints]:
  "uint a * 2 ^ n < 2 ^ LENGTH('a) \<Longrightarrow> uint (push_bit n a :: 'a::len word) = uint a * 2 ^ n"
  by (simp only: unsigned_push_bit_eq) (simp add: push_bit_eq_mult take_bit_eq_mod)

lemma uint_push_bit_mod: "uint (push_bit n a :: 'a::len word) = uint a * 2 ^ n mod 2 ^ LENGTH('a)"
  by (simp only: unsigned_push_bit_eq) (simp add: push_bit_eq_mult take_bit_eq_mod)

end
