(* ===== verification/Bignum.thy ===== *)
theory Bignum
  imports Prelude
begin

text \<open>
  The arbitrary-precision integers of double-conversion (\<open>bignum.h\<close>, \<open>bignum.cc\<close>): a fixed
  array of 128 chunks of 28 bits, a count of used chunks and an exponent that counts hidden
  zero chunks. The definitions follow the methods one by one; a method that changes \<open>*this\<close>
  takes the object last and returns the new one.
\<close>

section \<open>The object\<close>

record bignum =
  bigits :: "u32 list"
  used_digits :: int
  bexp :: int

definition kChunkSize :: int where [simp]: "kChunkSize = 32"
definition kBigitSize :: int where [simp]: "kBigitSize = 28"
definition kBigitMask :: u32 where "kBigitMask = mask 28"
definition kMaxSignificantBits :: int where [simp]: "kMaxSignificantBits = 3584"
definition kBigitCapacity :: int where [simp]: "kBigitCapacity = kMaxSignificantBits div kBigitSize"

definition Bignum0 :: bignum where
  "Bignum0 = \<lparr>bigits = replicate (nat kBigitCapacity) 0, used_digits = 0, bexp = 0\<rparr>"

definition EnsureCapacity :: "int \<Rightarrow> unit option" where
  "EnsureCapacity sz = (if sz > kBigitCapacity then None else Some ())"

definition BigitLength :: "bignum \<Rightarrow> int" where
  "BigitLength b = used_digits b + bexp b"

definition IsClamped :: "bignum \<Rightarrow> bool option" where
  "IsClamped b =
     (if used_digits b = 0 then Some True
      else do { top \<leftarrow> rd (bigits b) (used_digits b - 1); Some (top \<noteq> 0) })"

definition assert_clamped :: "bignum \<Rightarrow> unit option" where
  "assert_clamped b = do { c \<leftarrow> IsClamped b; ensure c }"

definition Zero :: "bignum \<Rightarrow> bignum option" where
  "Zero b = do {
     bs \<leftarrow> for_up 0 (used_digits b) (\<lambda>i bs. wr bs i 0) (bigits b);
     Some \<lparr>bigits = bs, used_digits = 0, bexp = 0\<rparr> }"

definition Clamp :: "bignum \<Rightarrow> bignum option" where
  "Clamp b = do {
     u \<leftarrow> while_do
            (\<lambda>u. if u > 0 then do { x \<leftarrow> rd (bigits b) (u - 1); Some (x = 0) } else Some False)
            (\<lambda>u. Some (u - 1)) (used_digits b);
     Some (b\<lparr>used_digits := u, bexp := (if u = 0 then 0 else bexp b)\<rparr>) }"

section \<open>Assignment\<close>

definition AssignUInt16 :: "u16 \<Rightarrow> bignum \<Rightarrow> bignum option" where
  "AssignUInt16 value this = do {
     this \<leftarrow> Zero this;
     if value = 0 then Some this
     else do {
       EnsureCapacity 1;
       bs \<leftarrow> wr (bigits this) 0 (ucast value);
       Some (this\<lparr>bigits := bs, used_digits := 1\<rparr>) } }"

definition AssignUInt64 :: "u64 \<Rightarrow> bignum \<Rightarrow> bignum option" where
  "AssignUInt64 value this = do {
     this \<leftarrow> Zero this;
     if value = 0 then Some this
     else do {
       let needed_bits = 64 div kBigitSize + 1;
       EnsureCapacity needed_bits;
       (bs, _) \<leftarrow> for_up 0 needed_bits
         (\<lambda>i (bs, value). do {
            bs \<leftarrow> wr bs i (ucast (value AND ucast kBigitMask));
            Some (bs, drop_bit (nat kBigitSize) value) }) (bigits this, value);
       Clamp (this\<lparr>bigits := bs, used_digits := needed_bits\<rparr>) } }"

definition AssignBignum :: "bignum \<Rightarrow> bignum \<Rightarrow> bignum option" where
  "AssignBignum other this = do {
     bs \<leftarrow> for_up 0 (used_digits other)
       (\<lambda>i bs. do { x \<leftarrow> rd (bigits other) i; wr bs i x }) (bigits this);
     bs \<leftarrow> for_up (used_digits other) (used_digits this) (\<lambda>i bs. wr bs i 0) bs;
     Some \<lparr>bigits = bs, used_digits = used_digits other, bexp = bexp other\<rparr> }"

definition ReadUInt64 :: "u8 list \<Rightarrow> int \<Rightarrow> int \<Rightarrow> u64 option" where
  "ReadUInt64 buffer start digits_to_read =
     for_up start (start + digits_to_read)
       (\<lambda>i result. do {
          c \<leftarrow> rd buffer i;
          let digit = uint c - uint (ch CHR ''0'');
          ensure (0 \<le> digit \<and> digit \<le> 9);
          Some (result * 10 + word_of_int digit) }) 0"

section \<open>Shifts and small products\<close>

definition Align :: "bignum \<Rightarrow> bignum \<Rightarrow> bignum option" where
  "Align other this =
     (if bexp this > bexp other then do {
        let zero_digits = bexp this - bexp other;
        EnsureCapacity (used_digits this + zero_digits);
        bs \<leftarrow> for_down (used_digits this - 1) 0
          (\<lambda>i bs. do { x \<leftarrow> rd bs i; wr bs (i + zero_digits) x }) (bigits this);
        bs \<leftarrow> for_up 0 zero_digits (\<lambda>i bs. wr bs i 0) bs;
        let this = \<lparr>bigits = bs, used_digits = used_digits this + zero_digits,
                    bexp = bexp this - zero_digits\<rparr>;
        ensure (used_digits this \<ge> 0);
        ensure (bexp this \<ge> 0);
        Some this }
      else Some this)"

definition BigitsShiftLeft :: "int \<Rightarrow> bignum \<Rightarrow> bignum option" where
  "BigitsShiftLeft shift_amount this = do {
     ensure (shift_amount < kBigitSize);
     ensure (shift_amount \<ge> 0);
     (bs, carry) \<leftarrow> for_up 0 (used_digits this)
       (\<lambda>i (bs, carry). do {
          x \<leftarrow> rd bs i;
          let new_carry = drop_bit (nat (kBigitSize - shift_amount)) x;
          bs \<leftarrow> wr bs i ((push_bit (nat shift_amount) x + carry) AND kBigitMask);
          Some (bs, new_carry) }) (bigits this, 0);
     if carry \<noteq> 0 then do {
       bs \<leftarrow> wr bs (used_digits this) carry;
       Some (this\<lparr>bigits := bs, used_digits := used_digits this + 1\<rparr>) }
     else Some (this\<lparr>bigits := bs\<rparr>) }"

definition ShiftLeft :: "int \<Rightarrow> bignum \<Rightarrow> bignum option" where
  "ShiftLeft shift_amount this =
     (if used_digits this = 0 then Some this
      else do {
        let this = this\<lparr>bexp := bexp this + shift_amount sdiv kBigitSize\<rparr>;
        let local_shift = shift_amount smod kBigitSize;
        EnsureCapacity (used_digits this + 1);
        BigitsShiftLeft local_shift this })"

text \<open>The \<open>while (carry != 0)\<close> loop that ends both multiplications.\<close>

definition append_carry :: "u64 \<Rightarrow> bignum \<Rightarrow> bignum option" where
  "append_carry carry this = do {
     (this, _) \<leftarrow> while_do (\<lambda>(this, carry). Some (carry \<noteq> 0))
       (\<lambda>(this, carry). do {
          EnsureCapacity (used_digits this + 1);
          bs \<leftarrow> wr (bigits this) (used_digits this) (ucast (carry AND ucast kBigitMask));
          Some (this\<lparr>bigits := bs, used_digits := used_digits this + 1\<rparr>,
                drop_bit (nat kBigitSize) carry) }) (this, carry);
     Some this }"

definition MultiplyByUInt32 :: "u32 \<Rightarrow> bignum \<Rightarrow> bignum option" where
  "MultiplyByUInt32 factor this =
     (if factor = 1 then Some this
      else if factor = 0 then Zero this
      else if used_digits this = 0 then Some this
      else do {
        (bs, carry) \<leftarrow> for_up 0 (used_digits this)
          (\<lambda>i (bs, carry). do {
             x \<leftarrow> rd bs i;
             let product = (ucast factor :: u64) * ucast x + carry;
             bs \<leftarrow> wr bs i (ucast (product AND ucast kBigitMask));
             Some (bs, drop_bit (nat kBigitSize) product) }) (bigits this, 0);
        append_carry carry (this\<lparr>bigits := bs\<rparr>) })"

definition Times10 :: "bignum \<Rightarrow> bignum option" where
  "Times10 this = MultiplyByUInt32 10 this"

definition MultiplyByUInt64 :: "u64 \<Rightarrow> bignum \<Rightarrow> bignum option" where
  "MultiplyByUInt64 factor this =
     (if factor = 1 then Some this
      else if factor = 0 then Zero this
      else do {
        let low = factor AND 0xFFFFFFFF;
        let high = drop_bit 32 factor;
        (bs, carry) \<leftarrow> for_up 0 (used_digits this)
          (\<lambda>i (bs, carry). do {
             x \<leftarrow> rd bs i;
             let product_low = low * ucast x;
             let product_high = high * ucast x;
             let tmp = (carry AND ucast kBigitMask) + product_low;
             bs \<leftarrow> wr bs i (ucast (tmp AND ucast kBigitMask));
             Some (bs, drop_bit (nat kBigitSize) carry + drop_bit (nat kBigitSize) tmp +
                       push_bit (nat (32 - kBigitSize)) product_high) }) (bigits this, 0);
        append_carry carry (this\<lparr>bigits := bs\<rparr>) })"

definition kFive27 :: u64 where "kFive27 = 0x6765c793fa10079d"
definition kFive13 :: u32 where "kFive13 = 1220703125"
definition kFive1_to_12 :: "u32 list" where
  "kFive1_to_12 = [5, 25, 125, 625, 3125, 15625, 78125, 390625, 1953125, 9765625, 48828125, 244140625]"

definition MultiplyByPowerOfTen :: "int \<Rightarrow> bignum \<Rightarrow> bignum option" where
  "MultiplyByPowerOfTen e this = do {
     ensure (e \<ge> 0);
     if e = 0 then Some this
     else if used_digits this = 0 then Some this
     else do {
       (this, remaining_exponent) \<leftarrow> while_do (\<lambda>(this, r). Some (r \<ge> 27))
         (\<lambda>(this, r). do { this \<leftarrow> MultiplyByUInt64 kFive27 this; Some (this, r - 27) }) (this, e);
       (this, remaining_exponent) \<leftarrow> while_do (\<lambda>(this, r). Some (r \<ge> 13))
         (\<lambda>(this, r). do { this \<leftarrow> MultiplyByUInt32 kFive13 this; Some (this, r - 13) })
         (this, remaining_exponent);
       this \<leftarrow> (if remaining_exponent > 0 then do {
                  f \<leftarrow> rd kFive1_to_12 (remaining_exponent - 1);
                  MultiplyByUInt32 f this }
                else Some this);
       ShiftLeft e this } }"

section \<open>Comparison\<close>

definition BigitAt :: "bignum \<Rightarrow> int \<Rightarrow> u32 option" where
  "BigitAt b index =
     (if index \<ge> BigitLength b then Some 0
      else if index < bexp b then Some 0
      else rd (bigits b) (index - bexp b))"

function compare_from :: "bignum \<Rightarrow> bignum \<Rightarrow> int \<Rightarrow> int \<Rightarrow> int option" where
  "compare_from a b lo i =
     (if i \<ge> lo then do {
        bigit_a \<leftarrow> BigitAt a i;
        bigit_b \<leftarrow> BigitAt b i;
        if bigit_a < bigit_b then Some (-1)
        else if bigit_a > bigit_b then Some 1
        else compare_from a b lo (i - 1) }
      else Some 0)"
  by pat_completeness auto
termination
  by (relation "measure (\<lambda>(a, b, lo, i). nat (i + 1 - lo))") auto

definition Compare :: "bignum \<Rightarrow> bignum \<Rightarrow> int option" where
  "Compare a b = do {
     assert_clamped a;
     assert_clamped b;
     if BigitLength a < BigitLength b then Some (-1)
     else if BigitLength a > BigitLength b then Some 1
     else compare_from a b (min (bexp a) (bexp b)) (BigitLength a - 1) }"

definition Equal :: "bignum \<Rightarrow> bignum \<Rightarrow> bool option" where
  "Equal a b = do { c \<leftarrow> Compare a b; Some (c = 0) }"

definition LessEqual :: "bignum \<Rightarrow> bignum \<Rightarrow> bool option" where
  "LessEqual a b = do { c \<leftarrow> Compare a b; Some (c \<le> 0) }"

definition Less :: "bignum \<Rightarrow> bignum \<Rightarrow> bool option" where
  "Less a b = do { c \<leftarrow> Compare a b; Some (c < 0) }"

function plus_compare_from ::
    "bignum \<Rightarrow> bignum \<Rightarrow> bignum \<Rightarrow> int \<Rightarrow> int \<Rightarrow> u32 \<Rightarrow> int option" where
  "plus_compare_from a b c lo i borrow =
     (if i \<ge> lo then do {
        chunk_a \<leftarrow> BigitAt a i;
        chunk_b \<leftarrow> BigitAt b i;
        chunk_c \<leftarrow> BigitAt c i;
        let sum = chunk_a + chunk_b;
        if sum > chunk_c + borrow then Some 1
        else do {
          let borrow = chunk_c + borrow - sum;
          if borrow > 1 then Some (-1)
          else plus_compare_from a b c lo (i - 1) (push_bit (nat kBigitSize) borrow) } }
      else Some (if borrow = 0 then 0 else -1))"
  by pat_completeness auto
termination
  by (relation "measure (\<lambda>(a, b, c, lo, i, borrow). nat (i + 1 - lo))") auto

function PlusCompare :: "bignum \<Rightarrow> bignum \<Rightarrow> bignum \<Rightarrow> int option" where
  "PlusCompare a b c = do {
     assert_clamped a;
     assert_clamped b;
     assert_clamped c;
     if BigitLength a < BigitLength b then PlusCompare b a c
     else if BigitLength a + 1 < BigitLength c then Some (-1)
     else if BigitLength a > BigitLength c then Some 1
     else if bexp a \<ge> BigitLength b \<and> BigitLength a < BigitLength c then Some (-1)
     else plus_compare_from a b c (min (min (bexp a) (bexp b)) (bexp c)) (BigitLength c - 1) 0 }"
  by pat_completeness auto
termination
  by (relation "measure (\<lambda>(a, b, c). if BigitLength a < BigitLength b then 1 else 0)") auto

definition PlusEqual :: "bignum \<Rightarrow> bignum \<Rightarrow> bignum \<Rightarrow> bool option" where
  "PlusEqual a b c = do { s \<leftarrow> PlusCompare a b c; Some (s = 0) }"

definition PlusLessEqual :: "bignum \<Rightarrow> bignum \<Rightarrow> bignum \<Rightarrow> bool option" where
  "PlusLessEqual a b c = do { s \<leftarrow> PlusCompare a b c; Some (s \<le> 0) }"

definition PlusLess :: "bignum \<Rightarrow> bignum \<Rightarrow> bignum \<Rightarrow> bool option" where
  "PlusLess a b c = do { s \<leftarrow> PlusCompare a b c; Some (s < 0) }"

declare compare_from.simps [simp del] plus_compare_from.simps [simp del] PlusCompare.simps [simp del]

section \<open>Addition, subtraction, squaring, powers, division\<close>

definition AddBignum :: "bignum \<Rightarrow> bignum \<Rightarrow> bignum option" where
  "AddBignum other this = do {
     assert_clamped this;
     assert_clamped other;
     this \<leftarrow> Align other this;
     EnsureCapacity (1 + max (BigitLength this) (BigitLength other) - bexp this);
     let bigit_pos = bexp other - bexp this;
     ensure (bigit_pos \<ge> 0);
     (bs, bigit_pos, carry) \<leftarrow> for_up 0 (used_digits other)
       (\<lambda>i (bs, bigit_pos, carry). do {
          x \<leftarrow> rd bs bigit_pos;
          y \<leftarrow> rd (bigits other) i;
          let sum = x + y + carry;
          bs \<leftarrow> wr bs bigit_pos (sum AND kBigitMask);
          Some (bs, bigit_pos + 1, drop_bit (nat kBigitSize) sum) }) (bigits this, bigit_pos, 0);
     (bs, bigit_pos, carry) \<leftarrow> while_do (\<lambda>(bs, bigit_pos, carry). Some (carry \<noteq> 0))
       (\<lambda>(bs, bigit_pos, carry). do {
          x \<leftarrow> rd bs bigit_pos;
          let sum = x + carry;
          bs \<leftarrow> wr bs bigit_pos (sum AND kBigitMask);
          Some (bs, bigit_pos + 1, drop_bit (nat kBigitSize) sum) }) (bs, bigit_pos, carry);
     let this = this\<lparr>bigits := bs, used_digits := max bigit_pos (used_digits this)\<rparr>;
     assert_clamped this;
     Some this }"

definition AddUInt64 :: "u64 \<Rightarrow> bignum \<Rightarrow> bignum option" where
  "AddUInt64 operand this =
     (if operand = 0 then Some this
      else do { other \<leftarrow> AssignUInt64 operand Bignum0; AddBignum other this })"

definition SubtractBignum :: "bignum \<Rightarrow> bignum \<Rightarrow> bignum option" where
  "SubtractBignum other this = do {
     assert_clamped this;
     assert_clamped other;
     le \<leftarrow> LessEqual other this;
     ensure le;
     this \<leftarrow> Align other this;
     let offset = bexp other - bexp this;
     (bs, borrow) \<leftarrow> for_up 0 (used_digits other)
       (\<lambda>i (bs, borrow). do {
          ensure (borrow = 0 \<or> borrow = 1);
          x \<leftarrow> rd bs (i + offset);
          y \<leftarrow> rd (bigits other) i;
          let difference = x - y - borrow;
          bs \<leftarrow> wr bs (i + offset) (difference AND kBigitMask);
          Some (bs, drop_bit (nat (kChunkSize - 1)) difference) }) (bigits this, 0);
     (bs, _, _) \<leftarrow> while_do (\<lambda>(bs, borrow, i). Some (borrow \<noteq> 0))
       (\<lambda>(bs, borrow, i). do {
          x \<leftarrow> rd bs (i + offset);
          let difference = x - borrow;
          bs \<leftarrow> wr bs (i + offset) (difference AND kBigitMask);
          Some (bs, drop_bit (nat (kChunkSize - 1)) difference, i + 1) })
       (bs, borrow, used_digits other);
     Clamp (this\<lparr>bigits := bs\<rparr>) }"

definition SubtractTimes :: "bignum \<Rightarrow> int \<Rightarrow> bignum \<Rightarrow> bignum option" where
  "SubtractTimes other factor this = do {
     ensure (bexp this \<le> bexp other);
     if factor < 3 then for_up 0 factor (\<lambda>i this. SubtractBignum other this) this
     else do {
       let exponent_diff = bexp other - bexp this;
       (bs, borrow) \<leftarrow> for_up 0 (used_digits other)
         (\<lambda>i (bs, borrow). do {
            y \<leftarrow> rd (bigits other) i;
            let product = (word_of_int factor :: u64) * ucast y;
            let remove = ucast borrow + product;
            x \<leftarrow> rd bs (i + exponent_diff);
            let difference = (ucast (ucast x - (remove AND ucast kBigitMask)) :: u32);
            bs \<leftarrow> wr bs (i + exponent_diff) (difference AND kBigitMask);
            Some (bs, ucast (ucast (drop_bit (nat (kChunkSize - 1)) difference) +
                             drop_bit (nat kBigitSize) remove)) }) (bigits this, 0 :: u32);
       (bs, borrow, i) \<leftarrow> while_do
         (\<lambda>(bs, borrow, i). Some (i < used_digits this \<and> borrow \<noteq> 0))
         (\<lambda>(bs, borrow, i). do {
            x \<leftarrow> rd bs i;
            let difference = x - borrow;
            bs \<leftarrow> wr bs i (difference AND kBigitMask);
            Some (bs, drop_bit (nat (kChunkSize - 1)) difference, i + 1) })
         (bs, borrow, used_digits other + exponent_diff);
       if i < used_digits this then Some (this\<lparr>bigits := bs\<rparr>)
       else Clamp (this\<lparr>bigits := bs\<rparr>) } }"

definition Square :: "bignum \<Rightarrow> bignum option" where
  "Square this = do {
     assert_clamped this;
     let product_length = 2 * used_digits this;
     EnsureCapacity product_length;
     ensure (\<not> (2 ^ nat (2 * (kChunkSize - kBigitSize)) \<le> used_digits this));
     let copy_offset = used_digits this;
     bs \<leftarrow> for_up 0 (used_digits this)
       (\<lambda>i bs. do { x \<leftarrow> rd bs i; wr bs (copy_offset + i) x }) (bigits this);
     (bs, accumulator) \<leftarrow> for_up 0 (used_digits this)
       (\<lambda>i (bs, accumulator). do {
          (accumulator, _, _) \<leftarrow> while_do (\<lambda>(acc, index1, index2). Some (index1 \<ge> 0))
            (\<lambda>(acc, index1, index2). do {
               chunk1 \<leftarrow> rd bs (copy_offset + index1);
               chunk2 \<leftarrow> rd bs (copy_offset + index2);
               Some (acc + ucast chunk1 * ucast chunk2, index1 - 1, index2 + 1) })
            (accumulator, i, 0);
          bs \<leftarrow> wr bs i (ucast accumulator AND kBigitMask);
          Some (bs, drop_bit (nat kBigitSize) accumulator) }) (bs, 0 :: u64);
     (bs, accumulator) \<leftarrow> for_up (used_digits this) product_length
       (\<lambda>i (bs, accumulator). do {
          (accumulator, _, _) \<leftarrow> while_do (\<lambda>(acc, index1, index2). Some (index2 < used_digits this))
            (\<lambda>(acc, index1, index2). do {
               chunk1 \<leftarrow> rd bs (copy_offset + index1);
               chunk2 \<leftarrow> rd bs (copy_offset + index2);
               Some (acc + ucast chunk1 * ucast chunk2, index1 - 1, index2 + 1) })
            (accumulator, used_digits this - 1, i - (used_digits this - 1));
          bs \<leftarrow> wr bs i (ucast accumulator AND kBigitMask);
          Some (bs, drop_bit (nat kBigitSize) accumulator) }) (bs, accumulator);
     ensure (accumulator = 0);
     Clamp \<lparr>bigits = bs, used_digits = product_length, bexp = bexp this * 2\<rparr> }"

definition AssignPowerUInt16 :: "u16 \<Rightarrow> int \<Rightarrow> bignum \<Rightarrow> bignum option" where
  "AssignPowerUInt16 base power_exponent this = do {
     ensure (base \<noteq> 0);
     ensure (power_exponent \<ge> 0);
     if power_exponent = 0 then AssignUInt16 1 this
     else do {
       this \<leftarrow> Zero this;
       (base, shifts) \<leftarrow> while_do (\<lambda>(base, shifts). Some (base AND 1 = 0))
         (\<lambda>(base, shifts). Some (drop_bit 1 base, shifts + 1)) (base, 0 :: int);
       (_, bit_size) \<leftarrow> while_do (\<lambda>(tmp_base, bit_size). Some (tmp_base \<noteq> 0))
         (\<lambda>(tmp_base, bit_size). Some (tmp_base div 2, bit_size + 1)) (uint base, 0 :: int);
       let final_size = bit_size * power_exponent;
       EnsureCapacity (final_size sdiv kBigitSize + 2);
       mask \<leftarrow> while_do (\<lambda>mask. Some (power_exponent \<ge> mask)) (\<lambda>mask. Some (mask * 2)) 1;
       let mask = mask div 4;
       let this_value = (ucast base :: u64);
       (mask, this_value, delayed_multiplication) \<leftarrow> while_do
         (\<lambda>(mask, this_value, delayed). Some (mask \<noteq> 0 \<and> this_value \<le> 0xFFFFFFFF))
         (\<lambda>(mask, this_value, delayed). do {
            let this_value = this_value * this_value;
            (this_value, delayed) \<leftarrow>
              (if (power_exponent AND mask) \<noteq> 0 then do {
                 b \<leftarrow> shl64 1 (64 - bit_size);
                 let base_bits_mask = NOT (b - 1);
                 let high_bits_zero = ((this_value AND base_bits_mask) = 0);
                 if high_bits_zero then Some (this_value * ucast base, delayed)
                 else Some (this_value, True) }
               else Some (this_value, delayed));
            Some (mask div 2, this_value, delayed) }) (mask, this_value, False);
       this \<leftarrow> AssignUInt64 this_value this;
       this \<leftarrow> (if delayed_multiplication then MultiplyByUInt32 (ucast base) this else Some this);
       (_, this) \<leftarrow> while_do (\<lambda>(mask, this). Some (mask \<noteq> 0))
         (\<lambda>(mask, this). do {
            this \<leftarrow> Square this;
            this \<leftarrow> (if (power_exponent AND mask) \<noteq> 0
                      then MultiplyByUInt32 (ucast base) this else Some this);
            Some (mask div 2, this) }) (mask, this);
       ShiftLeft (shifts * power_exponent) this } }"

definition DivideModuloIntBignum :: "bignum \<Rightarrow> bignum \<Rightarrow> (u16 \<times> bignum) option" where
  "DivideModuloIntBignum other this = do {
     assert_clamped this;
     assert_clamped other;
     ensure (used_digits other > 0);
     if BigitLength this < BigitLength other then Some (0, this)
     else do {
       this \<leftarrow> Align other this;
       (result, this) \<leftarrow> while_do
         (\<lambda>(result, this). Some (BigitLength this > BigitLength other))
         (\<lambda>(result, this). do {
            other_top \<leftarrow> rd (bigits other) (used_digits other - 1);
            ensure (uint other_top \<ge> (2 ^ nat kBigitSize) div 16);
            top \<leftarrow> rd (bigits this) (used_digits this - 1);
            ensure (uint top < 0x10000);
            this \<leftarrow> SubtractTimes other (sint top) this;
            Some (result + ucast top, this) }) (0 :: u16, this);
       ensure (BigitLength this = BigitLength other);
       this_bigit \<leftarrow> rd (bigits this) (used_digits this - 1);
       other_bigit \<leftarrow> rd (bigits other) (used_digits other - 1);
       if used_digits other = 1 then do {
         quotient \<leftarrow> udiv this_bigit other_bigit;
         let quotient = sint quotient;
         bs \<leftarrow> wr (bigits this) (used_digits this - 1)
                 (this_bigit - other_bigit * word_of_int quotient);
         ensure (quotient < 0x10000);
         this \<leftarrow> Clamp (this\<lparr>bigits := bs\<rparr>);
         Some (result + word_of_int quotient, this) }
       else do {
         division_estimate \<leftarrow> udiv this_bigit (other_bigit + 1);
         let division_estimate = sint division_estimate;
         ensure (division_estimate < 0x10000);
         let result = result + word_of_int division_estimate;
         this \<leftarrow> SubtractTimes other division_estimate this;
         if other_bigit * word_of_int (division_estimate + 1) > this_bigit then Some (result, this)
         else while_do (\<lambda>(result, this). LessEqual other this)
                (\<lambda>(result, this). do {
                   this \<leftarrow> SubtractBignum other this;
                   Some (result + 1, this) }) (result, this) } } }"

section \<open>Strings\<close>

definition AssignDecimalString :: "u8 list \<Rightarrow> bignum \<Rightarrow> bignum option" where
  "AssignDecimalString value this = do {
     let kMaxUint64DecimalDigits = (19 :: int);
     this \<leftarrow> Zero this;
     (this, pos, len) \<leftarrow> while_do (\<lambda>(this, pos, len). Some (len \<ge> kMaxUint64DecimalDigits))
       (\<lambda>(this, pos, len). do {
          digits \<leftarrow> ReadUInt64 value pos kMaxUint64DecimalDigits;
          this \<leftarrow> MultiplyByPowerOfTen kMaxUint64DecimalDigits this;
          this \<leftarrow> AddUInt64 digits this;
          Some (this, pos + kMaxUint64DecimalDigits, len - kMaxUint64DecimalDigits) })
       (this, 0 :: int, int (length value));
     digits \<leftarrow> ReadUInt64 value pos len;
     this \<leftarrow> MultiplyByPowerOfTen len this;
     this \<leftarrow> AddUInt64 digits this;
     Clamp this }"

definition HexCharValue :: "u8 \<Rightarrow> int option" where
  "HexCharValue c =
     (if ch CHR ''0'' \<le> c \<and> c \<le> ch CHR ''9'' then Some (uint c - uint (ch CHR ''0''))
      else if ch CHR ''a'' \<le> c \<and> c \<le> ch CHR ''f'' then Some (10 + uint c - uint (ch CHR ''a''))
      else do {
        ensure (ch CHR ''A'' \<le> c \<and> c \<le> ch CHR ''F'');
        Some (10 + uint c - uint (ch CHR ''A'')) })"

definition AssignHexString :: "u8 list \<Rightarrow> bignum \<Rightarrow> bignum option" where
  "AssignHexString value this = do {
     this \<leftarrow> Zero this;
     let len = int (length value);
     let needed_bits = len * 4 sdiv kBigitSize + 1;
     EnsureCapacity needed_bits;
     (bs, string_index) \<leftarrow> for_up 0 (needed_bits - 1)
       (\<lambda>i (bs, string_index). do {
          (current_bigit, string_index) \<leftarrow> for_up 0 (kBigitSize div 4)
            (\<lambda>j (current_bigit, string_index). do {
               c \<leftarrow> rd value string_index;
               h \<leftarrow> HexCharValue c;
               Some (current_bigit + push_bit (nat (j * 4)) (word_of_int h), string_index - 1) })
            (0 :: u32, string_index);
          bs \<leftarrow> wr bs i current_bigit;
          Some (bs, string_index) }) (bigits this, len - 1);
     let used = needed_bits - 1;
     most_significant_bigit \<leftarrow> for_up 0 (string_index + 1)
       (\<lambda>j msb. do {
          c \<leftarrow> rd value j;
          h \<leftarrow> HexCharValue c;
          Some (push_bit 4 msb + word_of_int h) }) (0 :: u32);
     if most_significant_bigit \<noteq> 0 then do {
       bs \<leftarrow> wr bs used most_significant_bigit;
       Clamp (this\<lparr>bigits := bs, used_digits := used + 1\<rparr>) }
     else Clamp (this\<lparr>bigits := bs, used_digits := used\<rparr>) }"

definition SizeInHexChars :: "u32 \<Rightarrow> int option" where
  "SizeInHexChars number = do {
     ensure (number > 0);
     (_, result) \<leftarrow> while_do (\<lambda>(number, result). Some (number \<noteq> 0))
       (\<lambda>(number, result). Some (drop_bit 4 number, result + 1)) (number, 0);
     Some result }"

definition HexCharOfValue :: "int \<Rightarrow> u8 option" where
  "HexCharOfValue value = do {
     ensure (0 \<le> value \<and> value \<le> 16);
     if value < 10 then Some (word_of_int (value + uint (ch CHR ''0'')))
     else Some (word_of_int (value - 10 + uint (ch CHR ''A''))) }"

definition ToHexString :: "u8 list \<Rightarrow> int \<Rightarrow> bignum \<Rightarrow> (bool \<times> u8 list) option" where
  "ToHexString buffer buffer_size this = do {
     assert_clamped this;
     let kHexCharsPerBigit = kBigitSize div 4;
     if used_digits this = 0 then
       (if buffer_size < 2 then Some (False, buffer)
        else do {
          buffer \<leftarrow> wr buffer 0 (ch CHR ''0'');
          buffer \<leftarrow> wr buffer 1 0;
          Some (True, buffer) })
     else do {
       top \<leftarrow> rd (bigits this) (used_digits this - 1);
       top_size \<leftarrow> SizeInHexChars top;
       let needed_chars = (BigitLength this - 1) * kHexCharsPerBigit + top_size + 1;
       if needed_chars > buffer_size then Some (False, buffer)
       else do {
         let string_index = needed_chars - 1;
         buffer \<leftarrow> wr buffer string_index 0;
         let string_index = string_index - 1;
         (buffer, string_index) \<leftarrow> for_up 0 (bexp this)
           (\<lambda>i. for_up 0 kHexCharsPerBigit
              (\<lambda>j (buffer, string_index). do {
                 buffer \<leftarrow> wr buffer string_index (ch CHR ''0'');
                 Some (buffer, string_index - 1) })) (buffer, string_index);
         (buffer, string_index) \<leftarrow> for_up 0 (used_digits this - 1)
           (\<lambda>i (buffer, string_index). do {
              current_bigit \<leftarrow> rd (bigits this) i;
              (buffer, string_index, _) \<leftarrow> for_up 0 kHexCharsPerBigit
                (\<lambda>j (buffer, string_index, current_bigit). do {
                   h \<leftarrow> HexCharOfValue (uint (current_bigit AND 0xF));
                   buffer \<leftarrow> wr buffer string_index h;
                   Some (buffer, string_index - 1, drop_bit 4 current_bigit) })
                (buffer, string_index, current_bigit);
              Some (buffer, string_index) }) (buffer, string_index);
         (buffer, _, _) \<leftarrow> while_do (\<lambda>(buffer, string_index, msb). Some (msb \<noteq> 0))
           (\<lambda>(buffer, string_index, msb). do {
              h \<leftarrow> HexCharOfValue (uint (msb AND 0xF));
              buffer \<leftarrow> wr buffer string_index h;
              Some (buffer, string_index - 1, drop_bit 4 msb) }) (buffer, string_index, top);
         Some (True, buffer) } } }"

end
