(* ===== verification/Bignum_Value.thy ===== *)
theory Bignum_Value
  imports Bignum
begin

text \<open>Positional values of chunk lists, and the two invariants of a bignum object.\<close>

section \<open>Positional value\<close>

definition W :: "int \<Rightarrow> int" where
  "W i = 2 ^ (28 * nat i)"

lemma W_pos [simp]: "0 < W i"
  by (simp add: W_def)

lemma W_neq_0 [simp]: "W i \<noteq> 0"
  by (simp add: W_def)

lemma W_ge_1: "1 \<le> W i"
  by (simp add: W_def)

lemma W_0 [simp]: "W 0 = 1"
  by (simp add: W_def)

lemma W_1 [simp]: "W 1 = 268435456"
  by (simp add: W_def)

lemma W_add: "0 \<le> i \<Longrightarrow> 0 \<le> j \<Longrightarrow> W (i + j) = W i * W j"
  by (simp add: W_def nat_add_distrib algebra_simps power_add)

lemma W_Suc: "0 \<le> i \<Longrightarrow> W (i + 1) = 268435456 * W i"
  by (simp add: W_add)

lemma W_Suc_nat: "W (1 + int n) = 268435456 * W (int n)"
  using W_Suc[of "int n"] by (simp add: add.commute)

lemma W_mono: "i \<le> j \<Longrightarrow> W i \<le> W j"
  by (simp add: W_def power_increasing nat_mono)

lemma W_less: "0 \<le> i \<Longrightarrow> i < j \<Longrightarrow> 268435456 * W i \<le> W j"
  using W_mono[of "i + 1" j] W_Suc[of i] by simp

lemma W_less_iff:
  assumes "0 \<le> i" shows "W i < W j \<longleftrightarrow> i < j"
proof (cases "i < j")
  case True
  have "W i < W j" using W_less[OF assms True] W_pos[of i] by linarith
  then show ?thesis using True by simp
next
  case False
  then show ?thesis using W_mono[of j i] by simp
qed

primrec lval :: "u32 list \<Rightarrow> int" where
  "lval [] = 0"
| "lval (x # xs) = uint x + 268435456 * lval xs"

definition bounded :: "u32 list \<Rightarrow> bool" where
  "bounded xs \<longleftrightarrow> (\<forall>x \<in> set xs. uint x < 268435456)"

lemma bounded_nth: "bounded xs \<Longrightarrow> i < length xs \<Longrightarrow> uint (xs ! i) < 268435456"
  by (simp add: bounded_def)

lemma bounded_update: "bounded xs \<Longrightarrow> uint v < 268435456 \<Longrightarrow> bounded (xs[i := v])"
  by (auto simp: bounded_def dest!: set_update_subset_insert[THEN subsetD])

lemma bounded_take: "bounded xs \<Longrightarrow> bounded (take n xs)"
  by (auto simp: bounded_def dest: in_set_takeD)

lemma bounded_replicate_0 [simp]: "bounded (replicate n 0)"
  by (simp add: bounded_def)

lemma lval_nonneg [simp]: "0 \<le> lval xs"
  by (induction xs) auto

lemma lval_less: "bounded xs \<Longrightarrow> lval xs < W (int (length xs))"
proof (induction xs)
  case (Cons x xs)
  then have "uint x < 268435456" "lval xs + 1 \<le> W (int (length xs))"
    by (auto simp: bounded_def)
  then show ?case by (simp add: W_Suc_nat)
qed simp

lemma lval_append: "lval (xs @ ys) = lval xs + W (int (length xs)) * lval ys"
  by (induction xs) (simp_all add: W_Suc_nat algebra_simps)

lemma lval_replicate_0 [simp]: "lval (replicate n 0) = 0"
  by (induction n) simp_all

lemma lval_update:
  "i < length xs \<Longrightarrow> lval (xs[i := v]) = lval xs + (uint v - uint (xs ! i)) * W (int i)"
proof (induction xs arbitrary: i)
  case (Cons x xs)
  show ?case
  proof (cases i)
    case (Suc j)
    then have "lval (xs[j := v]) = lval xs + (uint v - uint (xs ! j)) * W (int j)"
      using Cons by simp
    then show ?thesis using Suc by (simp add: W_Suc_nat algebra_simps)
  qed simp
qed simp

lemma lval_take_Suc:
  "i < length xs \<Longrightarrow> lval (take (Suc i) xs) = lval (take i xs) + uint (xs ! i) * W (int i)"
  by (simp add: take_Suc_conv_app_nth lval_append)

lemma lval_split: "lval xs = lval (take n xs) + W (int (min n (length xs))) * lval (drop n xs)"
  by (subst append_take_drop_id[of n xs, symmetric], subst lval_append) (simp add: min.commute)

lemma lval_div: "bounded xs \<Longrightarrow> k \<le> length xs \<Longrightarrow> lval xs div W (int k) = lval (drop k xs)"
proof -
  assume b: "bounded xs" and k: "k \<le> length xs"
  have "lval (take k xs) < W (int k)"
    using lval_less[OF bounded_take[OF b, of k]] k by (simp add: min_absorb2)
  moreover have "lval xs = lval (take k xs) + W (int k) * lval (drop k xs)"
    using lval_split[of xs k] k by (simp add: min_absorb1)
  ultimately show ?thesis by simp
qed

lemma lval_digit:
  "bounded xs \<Longrightarrow> k < length xs \<Longrightarrow> lval xs div W (int k) mod 268435456 = uint (xs ! k)"
proof -
  assume b: "bounded xs" and k: "k < length xs"
  have "lval xs div W (int k) = uint (xs ! k) + 268435456 * lval (drop (Suc k) xs)"
    using lval_div[OF b, of k] k by (simp add: Cons_nth_drop_Suc[symmetric])
  then show ?thesis using bounded_nth[OF b k] by simp
qed

lemma lval_digit_le: "k < length xs \<Longrightarrow> uint (xs ! k) * W (int k) \<le> lval xs"
proof -
  assume k: "k < length xs"
  have "lval xs = lval (take k xs) + W (int k) * lval (drop k xs)"
    using lval_split[of xs k] k by (simp add: min_absorb1)
  also have "lval (drop k xs) = uint (xs ! k) + 268435456 * lval (drop (Suc k) xs)"
    using k by (simp add: Cons_nth_drop_Suc[symmetric])
  finally have "lval xs = lval (take k xs) + W (int k) * (268435456 * lval (drop (Suc k) xs)) +
      uint (xs ! k) * W (int k)"
    by (simp add: algebra_simps)
  moreover have "0 \<le> W (int k) * (268435456 * lval (drop (Suc k) xs))"
    by (simp add: less_imp_le)
  ultimately show ?thesis using lval_nonneg[of "take k xs"] by linarith
qed

lemma lval_small_zero:
  assumes "bounded xs" "lval xs < W (int k)" "k \<le> i" "i < length xs"
  shows "xs ! i = 0"
proof -
  have "uint (xs ! i) * W (int i) < W (int k)" using lval_digit_le[of i xs] assms by linarith
  moreover have "W (int k) \<le> W (int i)" using assms by (simp add: W_mono)
  ultimately have "uint (xs ! i) * W (int i) < 1 * W (int i)" by linarith
  then have "uint (xs ! i) < 1" using mult_less_cancel_right_pos[of "W (int i)"] by simp
  then have "uint (xs ! i) = 0" using uint_nonnegative[of "xs ! i"] by linarith
  then show ?thesis by (simp add: uint_0_iff)
qed

lemma lval_take_small:
  assumes "bounded xs" "lval xs < W (int k)" "k \<le> length xs"
  shows "lval (take k xs) = lval xs"
proof -
  have "lval xs div W (int k) = 0" using assms by (simp add: div_pos_pos_trivial)
  then have "lval (drop k xs) = 0" using lval_div[of xs k] assms by simp
  then show ?thesis using lval_split[of xs k] by simp
qed

section \<open>The value and the invariants of a bignum\<close>

definition bval :: "bignum \<Rightarrow> int" where
  "bval b = lval (bigits b) * W (bexp b)"

text \<open>
  \<open>wf\<close>: the array has its capacity, every chunk fits in a bigit, and everything above
  \<open>used_digits_\<close> is zero (the additions and carries read and rely on those zeros).
\<close>

definition wf :: "bignum \<Rightarrow> bool" where
  "wf b \<longleftrightarrow> length (bigits b) = 128 \<and> bounded (bigits b) \<and> 0 \<le> used_digits b \<and>
     used_digits b \<le> 128 \<and> 0 \<le> bexp b \<and> lval (bigits b) < W (used_digits b)"

text \<open>\<open>norm\<close>: moreover the top used chunk is not zero, and zero has exponent zero.\<close>

definition norm :: "bignum \<Rightarrow> bool" where
  "norm b \<longleftrightarrow> wf b \<and> (used_digits b = 0 \<longrightarrow> bexp b = 0) \<and>
     (0 < used_digits b \<longrightarrow> W (used_digits b - 1) \<le> lval (bigits b))"

lemma div_less_mult:
  assumes "0 < d" "(x::int) < d * c" shows "x div d < c"
proof (rule ccontr)
  assume "\<not> x div d < c"
  then have "d * c \<le> d * (x div d)" using assms(1) by simp
  also have "\<dots> \<le> x" using assms(1) mult_div_mod_eq[of d x] pos_mod_sign[of d x] by linarith
  finally show False using assms(2) by simp
qed

lemma wfD:
  assumes "wf b"
  shows "length (bigits b) = 128" "bounded (bigits b)" "0 \<le> used_digits b" "used_digits b \<le> 128"
    "0 \<le> bexp b" "lval (bigits b) < W (used_digits b)"
  using assms by (auto simp: wf_def)

lemma norm_wf: "norm b \<Longrightarrow> wf b"
  by (simp add: norm_def)

lemma bval_nonneg [simp]: "0 \<le> bval b"
  by (simp add: bval_def less_imp_le)

lemma lval_top:
  assumes "wf b" "0 < used_digits b"
  shows "lval (bigits b) div W (used_digits b - 1) = uint (bigits b ! nat (used_digits b - 1))"
proof -
  define k where "k = nat (used_digits b - 1)"
  have k: "int k = used_digits b - 1" "k < length (bigits b)" using assms by (auto simp: k_def wf_def)
  have "lval (bigits b) < 268435456 * W (int k)"
    using wfD(6)[OF assms(1)] W_Suc[of "int k"] k by simp
  then have "lval (bigits b) div W (int k) < 268435456"
    by (intro div_less_mult) (simp_all add: mult.commute)
  moreover have "0 \<le> lval (bigits b) div W (int k)"
    by (simp add: pos_imp_zdiv_nonneg_iff)
  ultimately show ?thesis
    using lval_digit[OF wfD(2)[OF assms(1)] k(2)] k by (simp add: k_def[symmetric] del: k_def)
qed

lemma top_nonzero_iff:
  assumes "wf b" "0 < used_digits b"
  shows "bigits b ! nat (used_digits b - 1) \<noteq> 0 \<longleftrightarrow> W (used_digits b - 1) \<le> lval (bigits b)"
proof -
  have "bigits b ! nat (used_digits b - 1) = 0 \<longleftrightarrow> lval (bigits b) div W (used_digits b - 1) = 0"
    using lval_top[OF assms] by (simp add: uint_0_iff)
  also have "\<dots> \<longleftrightarrow> lval (bigits b) < W (used_digits b - 1)"
    using lval_nonneg[of "bigits b"] W_pos[of "used_digits b - 1"]
    by (metis div_pos_pos_trivial pos_imp_zdiv_pos_iff linorder_not_less less_irrefl)
  finally show ?thesis by linarith
qed

lemma ok_assert_clamped [wp]:
  "norm b \<Longrightarrow> ok (assert_clamped b) Q \<longleftrightarrow> Q ()"
  using top_nonzero_iff[of b]
  by (auto simp: assert_clamped_def IsClamped_def wp norm_def wf_def)

lemma W_le_bval: "norm b \<Longrightarrow> 0 < used_digits b \<Longrightarrow> W (BigitLength b - 1) \<le> bval b"
proof -
  assume n: "norm b" and u: "0 < used_digits b"
  have "W (BigitLength b - 1) = W (used_digits b - 1) * W (bexp b)"
    using W_add[of "used_digits b - 1" "bexp b"] u wfD(5)[OF norm_wf[OF n]]
    by (simp add: BigitLength_def algebra_simps)
  then show ?thesis using n u by (simp add: norm_def bval_def)
qed

lemma bval_less_W: "wf b \<Longrightarrow> bval b < W (BigitLength b)"
  using wfD(3,5,6)[of b] W_add[of "used_digits b" "bexp b"]
  by (simp add: BigitLength_def bval_def)

lemma bval_0_iff: "norm b \<Longrightarrow> bval b = 0 \<longleftrightarrow> used_digits b = 0"
proof -
  assume n: "norm b"
  have "used_digits b = 0 \<Longrightarrow> bval b = 0"
    using bval_less_W[OF norm_wf[OF n]] n order_antisym[OF _ bval_nonneg[of b]]
    by (simp add: norm_def BigitLength_def)
  moreover have "0 < used_digits b \<Longrightarrow> 0 < bval b"
    using W_le_bval[OF n] W_pos[of "BigitLength b - 1"] by linarith
  ultimately show ?thesis using wfD(3)[OF norm_wf[OF n]] by linarith
qed

text \<open>The value bounds the length: the key to every capacity argument.\<close>

lemma BigitLength_le:
  assumes "norm b" "bval b < W k" "0 \<le> k"
  shows "BigitLength b \<le> k"
proof (cases "used_digits b = 0")
  case True
  then show ?thesis using assms by (simp add: BigitLength_def norm_def)
next
  case False
  then have "0 < used_digits b" using assms(1) by (auto simp: norm_def wf_def)
  then have "W (BigitLength b - 1) < W k" using W_le_bval[OF assms(1)] assms(2) by linarith
  then show ?thesis
    using W_mono[of k "BigitLength b - 1"] by linarith
qed

end
