(* ===== verification/Bignum_Basic.thy ===== *)
theory Bignum_Basic
  imports Bignum_Value
begin

text \<open>Bignum: zero, clamping, assignment, alignment and shifts.\<close>

section \<open>Reading chunks as integers\<close>

lemma mask28_ints [word_ints]:
  "uint (w AND kBigitMask) = uint w mod 268435456"
  "uint (v AND ucast kBigitMask :: u64) = uint v mod 268435456"
proof -
  show "uint (w AND kBigitMask) = uint w mod 268435456"
    by (simp add: kBigitMask_def uint_and_mask)
  have "(ucast kBigitMask :: u64) = mask 28" by (simp add: kBigitMask_def mask_eq_decr_exp)
  then show "uint (v AND ucast kBigitMask) = uint v mod 268435456"
    by (simp add: uint_and_mask)
qed

lemma uint_ucast_up [word_ints]: "uint (ucast (w :: u32) :: u64) = uint w"
  by (rule uint_up_ucast) (simp add: is_up_def source_size target_size)

lemma uint_ucast_16 [word_ints]: "uint (ucast (w :: u16) :: u32) = uint w"
  by (rule uint_up_ucast) (simp add: is_up_def source_size target_size)

lemma uint_ucast_16_64 [word_ints]: "uint (ucast (w :: u16) :: u64) = uint w"
  by (rule uint_up_ucast) (simp add: is_up_def source_size target_size)

lemma uint_ucast_down_small [word_ints]:
  "uint w < 4294967296 \<Longrightarrow> uint (ucast (w :: u64) :: u32) = uint w"
  by (simp add: unsigned_ucast_eq take_bit_eq_mod)

lemma uint_ucast_mask [word_ints]:
  "uint (ucast (v AND ucast kBigitMask :: u64) :: u32) = uint v mod 268435456"
proof -
  have "uint v mod 268435456 < 4294967296"
    using pos_mod_bound[of "268435456" "uint v"] by simp
  then show ?thesis using uint_ucast_down_small[of "v AND ucast kBigitMask"] mask28_ints(2)[of v] by simp
qed

lemma mod28_less [simp]: "x mod 268435456 < (268435456 :: int)"
  by simp

section \<open>Zero, Clamp and assignment\<close>

lemma norm_Bignum0 [simp]: "norm Bignum0" "bval Bignum0 = 0" "used_digits Bignum0 = 0" "wf Bignum0"
  by (auto simp: norm_def wf_def bval_def Bignum0_def)

lemma zero_lval_eq:
  assumes "length xs = 128" "lval xs = 0"
  shows "xs = replicate 128 0"
proof (rule nth_equalityI)
  fix i assume i: "i < length xs"
  have "uint (xs ! i) * W (int i) \<le> 0" using lval_digit_le[OF i] assms by simp
  then have "uint (xs ! i) \<le> 0" by (simp add: mult_le_0_iff) (metis W_pos linorder_not_less)
  then have "uint (xs ! i) = 0" using uint_nonnegative[of "xs ! i"] by linarith
  then show "xs ! i = replicate 128 0 ! i" using i assms by (simp add: uint_0_iff)
qed (simp add: assms)

lemma lval_zero_prefix:
  assumes "\<forall>k<n. xs ! k = 0" "n \<le> length xs"
  shows "lval (take n xs) = 0"
proof -
  have "take n xs = replicate n 0" using assms by (intro nth_equalityI) auto
  then show ?thesis by simp
qed

lemma Zero_eq: "wf b \<Longrightarrow> Zero b = Some Bignum0"
proof -
  assume w: "wf b"
  let ?P = "\<lambda>i bs. length bs = 128 \<and> bounded bs \<and> (\<forall>k<nat i. bs ! k = 0) \<and>
     (\<forall>k\<ge>nat (used_digits b). k < 128 \<longrightarrow> bs ! k = 0)"
  have beyond: "\<forall>k\<ge>nat (used_digits b). k < 128 \<longrightarrow> bigits b ! k = 0"
    using lval_small_zero[of "bigits b" "nat (used_digits b)"] wfD[OF w] by simp
  have "ok (for_up 0 (used_digits b) (\<lambda>i bs. wr bs i 0) (bigits b)) (\<lambda>bs. bs = replicate 128 0)"
  proof (rule ok_for_up[where P = ?P])
    fix j t assume "0 \<le> j" "j < used_digits b" "?P j t"
    then show "ok (wr t j 0) (?P (j + 1))"
      using wfD(4)[OF w]
      by (auto simp: wp bounded_update nth_list_update less_Suc_eq nat_add_distrib)
  next
    fix t assume p: "?P (used_digits b) t"
    then have "\<forall>k<128. t ! k = 0" by (metis linorder_not_less)
    with p show "t = replicate 128 0" by (intro nth_equalityI) auto
  qed (use w beyond wfD[OF w] in auto)
  then show ?thesis by (auto simp: Zero_def Bignum0_def ok_def)
qed

lemma ok_Zero [wp]: "wf b \<Longrightarrow> ok (Zero b) Q \<longleftrightarrow> Q Bignum0"
  by (simp add: Zero_eq)

text \<open>Clamping keeps the value and establishes \<open>norm\<close>.\<close>

lemma ok_Clamp:
  assumes w: "wf b" and Q: "\<And>r. norm r \<Longrightarrow> bval r = bval b \<Longrightarrow> bigits r = bigits b \<Longrightarrow>
      used_digits r \<le> used_digits b \<Longrightarrow> (0 < used_digits r \<Longrightarrow> bexp r = bexp b) \<Longrightarrow> Q r"
  shows "ok (Clamp b) Q"
proof -
  note D = wfD[OF w]
  let ?P = "\<lambda>u. 0 \<le> u \<and> u \<le> used_digits b \<and> lval (bigits b) < W u"
  let ?R = "\<lambda>u. ?P u \<and> (0 < u \<longrightarrow> W (u - 1) \<le> lval (bigits b))"
  have top: "bigits b ! nat (u - 1) \<noteq> 0 \<longleftrightarrow> W (u - 1) \<le> lval (bigits b)" if "?P u" "0 < u" for u
    using top_nonzero_iff[of "b\<lparr>used_digits := u\<rparr>"] that D by (simp add: wf_def)
  have "ok (while_do
          (\<lambda>u. if u > 0 then do { x \<leftarrow> rd (bigits b) (u - 1); Some (x = 0) } else Some False)
          (\<lambda>u. Some (u - 1)) (used_digits b)) ?R"
  proof (rule ok_while_do[where P = ?P and m = nat])
    fix u assume P: "?P u"
    then show "ok (if u > 0 then do { x \<leftarrow> rd (bigits b) (u - 1); Some (x = 0) } else Some False)
       (\<lambda>g. if g then ok (Some (u - 1)) (\<lambda>v. ?P v \<and> nat v < nat u) else ?R u)"
      using top[OF P] D by (auto simp: wp)
  qed (use D in auto)
  then obtain u where u: "while_do
          (\<lambda>u. if u > 0 then do { x \<leftarrow> rd (bigits b) (u - 1); Some (x = 0) } else Some False)
          (\<lambda>u. Some (u - 1)) (used_digits b) = Some u" "?R u" by (auto simp: ok_def)
  let ?r = "b\<lparr>used_digits := u, bexp := (if u = 0 then 0 else bexp b)\<rparr>"
  have z: "u = 0 \<Longrightarrow> lval (bigits b) = 0"
    using u(2) lval_nonneg[of "bigits b"] by (intro order_antisym) auto
  have "norm ?r" using u(2) D by (auto simp: norm_def wf_def)
  moreover have "bval ?r = bval b" using z by (auto simp: bval_def)
  ultimately have "Q ?r" using u(2) by (intro Q) auto
  then show ?thesis using u(1) by (simp add: Clamp_def ok_def)
qed

lemma Clamp_norm: "norm b \<Longrightarrow> Clamp b = Some b"
  apply (simp add: Clamp_def)
  apply (subst while_do.simps)
  using top_nonzero_iff[of b]
  apply (auto simp: norm_def wf_def rd_def)
  done

lemma ok_AssignUInt16:
  assumes w: "wf b" and Q: "\<And>r. norm r \<Longrightarrow> bval r = uint v \<Longrightarrow> bexp r = 0 \<Longrightarrow> used_digits r \<le> 1 \<Longrightarrow> Q r"
  shows "ok (AssignUInt16 v b) Q"
proof -
  have "uint v < 268435456" using uint_lt_2p[of v] by simp
  moreover have "v \<noteq> 0 \<Longrightarrow> 1 \<le> uint v"
    using uint_nonnegative[of v] uint_0_iff[of v] by linarith
  ultimately show ?thesis using w
    by (auto simp: AssignUInt16_def wp EnsureCapacity_def intro!: Q)
      (auto simp: norm_def wf_def bval_def Bignum0_def bounded_update lval_update word_ints)
qed


text \<open>Writing the first unused chunk.\<close>

lemma lval_push:
  assumes "bounded bs" "lval bs < W i" "0 \<le> i" "i < int (length bs)" "uint d < 268435456"
  shows "lval (bs[nat i := d]) = lval bs + uint d * W i" "bounded (bs[nat i := d])"
    "lval bs + uint d * W i < W (i + 1)"
proof -
  have z: "bs ! nat i = 0" using lval_small_zero[of bs "nat i" "nat i"] assms by simp
  show "lval (bs[nat i := d]) = lval bs + uint d * W i" using assms z by (simp add: lval_update)
  show "bounded (bs[nat i := d])" using assms by (simp add: bounded_update)
  have "(uint d + 1) * W i \<le> 268435456 * W i" using assms by (intro mult_right_mono) (auto simp: less_imp_le)
  then have "uint d * W i + W i \<le> 268435456 * W i" by (simp add: distrib_right)
  then show "lval bs + uint d * W i < W (i + 1)" using assms(2) W_Suc[OF assms(3)] by linarith
qed

text \<open>Splitting a column into the chunk that stays and the carry.\<close>

lemma chunk_split: "(x::int) * w = (x mod 268435456) * w + (x div 268435456) * (268435456 * w)"
proof -
  have "x * w = (x mod 268435456 + (x div 268435456) * 268435456) * w" by simp
  then show ?thesis by (simp only: distrib_right mult.assoc)
qed

lemma lval_less_drop:
  assumes "bounded bs" "length bs = length ys" "drop n bs = drop n ys" "bounded ys"
    "lval ys < W (int n)" "n \<le> length ys"
  shows "lval bs < W (int n)"
proof -
  have "lval (drop n ys) = 0"
    using lval_div[of ys n] assms lval_nonneg[of ys] by (simp add: div_pos_pos_trivial)
  then have "lval bs = lval (take n bs)"
    using lval_split[of bs n] assms by simp
  also have "\<dots> < W (int n)"
    using lval_less[OF bounded_take[OF assms(1), of n]] assms by (simp add: min_absorb2)
  finally show ?thesis .
qed

lemma ok_AssignUInt64:
  assumes w: "wf b" and Q: "\<And>r. norm r \<Longrightarrow> bval r = uint v \<Longrightarrow> bexp r = 0 \<Longrightarrow> Q r"
  shows "ok (AssignUInt64 v b) Q"
proof (cases "v = 0")
  case True
  then show ?thesis using w by (simp add: AssignUInt64_def wp Q Bignum0_def[THEN arg_cong[of _ _ bexp]])
next
  case False
  let ?P = "\<lambda>i (bs, x). length bs = 128 \<and> bounded bs \<and> lval bs < W i \<and>
      uint x = uint v div W i \<and> lval bs + uint x * W i = uint v"
  have v64: "uint v < 2 ^ 64" using uint_lt_2p[of v] by simp
  have loop: "ok (for_up 0 3 (\<lambda>i (bs, value). do {
            bs \<leftarrow> wr bs i (ucast (value AND ucast kBigitMask));
            Some (bs, drop_bit 28 value) }) (bigits Bignum0, v)) (?P 3)"
  proof (rule ok_for_up[where P = ?P])
    fix j and t :: "u32 list \<times> u64"
    assume j: "0 \<le> j" "j < 3" and P: "?P j t"
    obtain bs x where t: "t = (bs, x)" by (cases t)
    let ?d = "ucast (x AND ucast kBigitMask) :: u32"
    have d: "uint ?d = uint x mod 268435456" by (simp add: word_ints)
    have len: "j < int (length bs)" "uint ?d < 268435456" using P t j d by auto
    have PP: "length bs = 128" "bounded bs" "lval bs < W j" "uint x = uint v div W j"
      "lval bs + uint x * W j = uint v" using P t by auto
    note push = lval_push[OF PP(2,3) j(1) len]
    have e: "uint v div W (j + 1) = uint x div 268435456"
      using j by (simp add: W_Suc zdiv_zmult2_eq PP(4) mult.commute)
    have "uint x * W j = (uint x mod 268435456) * W j + (uint x div 268435456) * W (j + 1)"
      using chunk_split[of "uint x" "W j"] W_Suc[OF j(1)] by simp
    then show "ok (case t of (bs, value) \<Rightarrow> do {
            bs \<leftarrow> wr bs j (ucast (value AND ucast kBigitMask));
            Some (bs, drop_bit 28 value) }) (?P (j + 1))"
      using PP t j push d e by (simp add: wp uint_drop_bit)
  qed (auto simp: Bignum0_def)
  have "64 div kBigitSize + 1 = 3" by simp
  moreover have "W 3 = 2 ^ 84" by (simp add: W_def)
  ultimately show ?thesis using w False v64
    apply (simp only: AssignUInt64_def wp Let_def if_False)
    apply (simp add: EnsureCapacity_def wp)
    apply (rule ok_mono[OF loop])
    apply (auto simp: wp intro!: ok_Clamp Q)
     apply (auto simp: wf_def norm_def bval_def Bignum0_def)
    done
qed

lemma AssignBignum_eq:
  assumes o: "wf other" and t: "wf this"
  shows "AssignBignum other this = Some other"
proof -
  note O = wfD[OF o] and T = wfD[OF t]
  have zo: "\<And>k. nat (used_digits other) \<le> k \<Longrightarrow> k < 128 \<Longrightarrow> bigits other ! k = 0"
    using lval_small_zero[of "bigits other" "nat (used_digits other)"] O by simp
  have zt: "\<And>k. nat (used_digits this) \<le> k \<Longrightarrow> k < 128 \<Longrightarrow> bigits this ! k = 0"
    using lval_small_zero[of "bigits this" "nat (used_digits this)"] T by simp
  let ?P = "\<lambda>i bs. length bs = 128 \<and> (\<forall>k<nat i. bs ! k = bigits other ! k) \<and>
     (\<forall>k<128. nat i \<le> k \<longrightarrow> bs ! k = bigits this ! k)"
  let ?R = "\<lambda>i bs. length bs = 128 \<and> (\<forall>k<128. k < nat i \<longrightarrow> bs ! k = bigits other ! k) \<and>
     (\<forall>k<128. nat i \<le> k \<longrightarrow> bs ! k = bigits this ! k)"
  have one: "ok (for_up 0 (used_digits other)
       (\<lambda>i bs. do { x \<leftarrow> rd (bigits other) i; wr bs i x }) (bigits this)) (?P (used_digits other))"
    by (rule ok_for_up[where P = ?P]) (use O T in \<open>auto simp: wp nth_list_update nat_add_distrib less_Suc_eq\<close>)
  have two: "ok (for_up (used_digits other) (used_digits this) (\<lambda>i bs. wr bs i 0) bs)
      (\<lambda>bs. bs = bigits other)" if P: "?P (used_digits other) bs" for bs
  proof (cases "used_digits other \<le> used_digits this")
    case True
    show ?thesis
    proof (rule ok_for_up[where P = ?R])
      fix r assume R: "?R (used_digits this) r"
      then show "r = bigits other" using O zo zt True
        by (intro nth_equalityI) (metis, metis linorder_not_less nat_mono order_trans)
    qed (use O T P True zo in \<open>auto simp: wp nth_list_update nat_add_distrib less_Suc_eq nat_mono\<close>)
  next
    case False
    have "bs = bigits other" using P O zo zt False
      by (intro nth_equalityI) (metis, metis linorder_not_less nat_mono order_trans linorder_le_cases)
    then show ?thesis using False by (subst for_up.simps) simp
  qed
  have "ok (AssignBignum other this) (\<lambda>r. r = other)"
    unfolding AssignBignum_def wp
    by (rule ok_mono[OF one], rule ok_mono[OF two]) auto
  then show ?thesis by (auto simp: ok_def)
qed

lemma ok_AssignBignum [wp]: "wf other \<Longrightarrow> wf this \<Longrightarrow> ok (AssignBignum other this) Q \<longleftrightarrow> Q other"
  by (simp add: AssignBignum_eq)

text \<open>Alignment moves the chunks up and keeps the value.\<close>

lemma Align_id: "bexp this \<le> bexp other \<Longrightarrow> Align other this = Some this"
  by (simp add: Align_def)

lemma ok_Align:
  assumes w: "wf this" and e: "0 \<le> bexp other"
    and cap: "bexp other < bexp this \<Longrightarrow> used_digits this + (bexp this - bexp other) \<le> 128"
    and Q: "\<And>r. wf r \<Longrightarrow> bval r = bval this \<Longrightarrow> bexp r = min (bexp this) (bexp other) \<Longrightarrow>
       BigitLength r = BigitLength this \<Longrightarrow> (norm this \<Longrightarrow> 0 < used_digits this \<Longrightarrow> norm r) \<Longrightarrow> Q r"
  shows "ok (Align other this) Q"
proof (cases "bexp this > bexp other")
  case False
  then show ?thesis using w by (simp add: Align_id Q)
next
  case True
  note D = wfD[OF w]
  define z where "z = bexp this - bexp other"
  define u where "u = used_digits this"
  let ?o = "bigits this"
  have z: "0 < z" "z \<le> 128" "u + z \<le> 128" "0 \<le> u" using True cap D by (auto simp: z_def u_def)
  have zo: "\<And>k. nat u \<le> k \<Longrightarrow> k < 128 \<Longrightarrow> ?o ! k = 0"
    using lval_small_zero[of ?o "nat (used_digits this)"] D by (simp add: u_def)
  let ?P = "\<lambda>i bs. length bs = 128 \<and> (\<forall>k<128. int k \<le> i + z \<longrightarrow> bs ! k = ?o ! k) \<and>
     (\<forall>k<128. i + z < int k \<longrightarrow> bs ! k = ?o ! (k - nat z))"
  have down: "ok (for_down (u - 1) 0 (\<lambda>i bs. do { x \<leftarrow> rd bs i; wr bs (i + z) x }) ?o) (?P (-1))"
  proof (rule ok_for_down[where P = ?P])
    fix j t assume j: "0 \<le> j" "j \<le> u - 1" and P: "?P j t"
    then show "ok (do { x \<leftarrow> rd t j; wr t (j + z) x }) (?P (j - 1))"
      using z by (auto simp: wp nth_list_update nat_diff_distrib nat_add_distrib)
  next
    have "?o ! k = ?o ! (k - nat z)" if "k < 128" "u - 1 + z < int k" for k
    proof -
      have "nat u \<le> k" "nat u \<le> k - nat z" using that z by auto
      then show ?thesis using zo that by simp
    qed
    then show "?P (u - 1) ?o" using D by auto
  qed (use z in auto)
  let ?N = "replicate (nat z) 0 @ take (128 - nat z) ?o"
  let ?R = "\<lambda>i bs. length bs = 128 \<and> (\<forall>k<nat i. bs ! k = 0) \<and>
     (\<forall>k<128. z \<le> int k \<longrightarrow> bs ! k = ?o ! (k - nat z))"
  have up: "ok (for_up 0 z (\<lambda>i bs. wr bs i 0) bs) (\<lambda>bs. bs = ?N)" if P: "?P (-1) bs" for bs
  proof (rule ok_for_up[where P = ?R])
    fix r assume R: "?R z r"
    then show "r = ?N" using D z
      by (intro nth_equalityI) (auto simp: nth_append)
  qed (use z P in \<open>auto simp: wp nth_list_update nat_add_distrib less_Suc_eq\<close>)
  let ?r = "\<lparr>bigits = ?N, used_digits = u + z, bexp = bexp this - z\<rparr>"
  have "lval ?o < W (int (128 - nat z))"
    using D(6) W_mono[of u "int (128 - nat z)"] z by (simp add: u_def)
  then have lt: "lval (take (128 - nat z) ?o) = lval ?o"
    using D by (intro lval_take_small) auto
  have lN: "lval ?N = W z * lval ?o" using z lt by (simp add: lval_append)
  have bd: "bounded ?N" using bounded_take[OF D(2)] by (auto simp: bounded_def)
  have "W z * lval ?o < W z * W u" using D(6) by (simp add: u_def)
  then have "lval ?N < W (u + z)" using W_add[of u z] z lN by (simp add: mult.commute)
  then have wf: "wf ?r" using D z bd e True by (auto simp: wf_def z_def[symmetric]) (simp add: z_def)
  have "W (bexp this) = W (bexp this - z) * W z"
    using W_add[of "bexp this - z" z] z e by (simp add: z_def)
  then have bv: "bval ?r = bval this" by (simp add: bval_def lN mult.assoc mult.left_commute)
  have nm: "norm ?r" if n: "norm this" "0 < used_digits this"
  proof -
    have "W (u + z - 1) = W z * W (u - 1)" using W_add[of z "u - 1"] z n by (simp add: u_def algebra_simps)
    also have "\<dots> \<le> W z * lval ?o" using n by (intro mult_left_mono) (auto simp: norm_def u_def less_imp_le)
    finally show ?thesis using wf z by (simp add: norm_def lN)
  qed
  have "ok (Align other this) (\<lambda>r. r = ?r)"
    using True z e D up
    unfolding Align_def Let_def z_def[symmetric] u_def[symmetric]
    apply (simp add: wp EnsureCapacity_def z_def[symmetric] u_def[symmetric])
    apply (rule ok_mono[OF down])
    apply (rule ok_mono[OF up], assumption)
    apply (auto simp: z_def)
    done
  then show ?thesis
    by (rule ok_mono) (use wf bv nm True in \<open>auto intro!: Q simp: z_def u_def BigitLength_def\<close>)
qed

end
