(* ===== verification/Bignum_Mult.thy ===== *)
theory Bignum_Mult
  imports Bignum_Basic
begin

text \<open>Bignum: multiplication by one machine word.\<close>

section \<open>Products with one-word factors\<close>

text \<open>
  The invariant of the digit-serial multiplication loops: chunks from \<open>i\<close> on are untouched,
  and the chunks written so far plus the carry are the product of the lower part.
\<close>

lemma bounded_rd:
  "bounded xs \<Longrightarrow> 0 \<le> i \<Longrightarrow> i < int (length xs) \<Longrightarrow> uint (xs ! nat i) \<le> 268435455"
proof -
  assume "bounded xs" "0 \<le> i" "i < int (length xs)"
  then have "uint (xs ! nat i) < 268435456" by (intro bounded_nth) auto
  then show ?thesis by simp
qed

lemma div_mod_sum:
  fixes t :: int
  shows "t mod 268435456 + 268435456 * (a + t div 268435456 + h * 16) =
    t + 268435456 * a + h * 4294967296"
proof -
  have "t mod 268435456 + 268435456 * (a + t div 268435456 + h * 16) =
      (268435456 * (t div 268435456) + t mod 268435456) + 268435456 * a + h * 4294967296"
    by (simp only: distrib_left)
  then show ?thesis by simp
qed

definition mul_inv :: "int \<Rightarrow> u32 list \<Rightarrow> int \<Rightarrow> u32 list \<Rightarrow> int \<Rightarrow> bool" where
  "mul_inv f orig i bs c \<longleftrightarrow> length bs = length orig \<and> bounded bs \<and>
     drop (nat i) bs = drop (nat i) orig \<and>
     lval bs + c * W i = lval orig + (f - 1) * lval (take (nat i) orig)"

lemma mul_inv_init: "bounded orig \<Longrightarrow> mul_inv f orig 0 orig 0"
  by (simp add: mul_inv_def)

lemma mul_inv_nth:
  assumes "mul_inv f orig i bs c" "0 \<le> i" "i < int (length orig)"
  shows "bs ! nat i = orig ! nat i"
proof -
  have "hd (drop (nat i) bs) = hd (drop (nat i) orig)" "length bs = length orig"
    using assms by (simp_all add: mul_inv_def)
  moreover have "nat i < length orig" using assms by simp
  ultimately show ?thesis by (metis hd_drop_conv_nth)
qed

lemma mul_inv_step:
  assumes inv: "mul_inv f orig i bs c" and i: "0 \<le> i" "i < int (length orig)"
    and d: "uint d < 268435456" "uint d + 268435456 * c' = f * uint (orig ! nat i) + c"
  shows "mul_inv f orig (i + 1) (bs[nat i := d]) c'"
proof -
  have bi: "bs ! nat i = orig ! nat i" by (rule mul_inv_nth[OF inv i])
  have I: "length bs = length orig" "bounded bs" "drop (nat i) bs = drop (nat i) orig"
    "lval bs + c * W i = lval orig + (f - 1) * lval (take (nat i) orig)"
    using inv by (auto simp: mul_inv_def)
  have n: "nat (i + 1) = Suc (nat i)" using i by simp
  have "drop (Suc (nat i)) (bs[nat i := d]) = drop (Suc (nat i)) orig"
    using arg_cong[OF I(3), of "drop 1"] by (simp add: drop_drop)
  moreover have "lval (bs[nat i := d]) = lval bs + (uint d - uint (orig ! nat i)) * W i"
    using i I(1) bi by (simp add: lval_update)
  moreover have "lval (take (Suc (nat i)) orig) = lval (take (nat i) orig) + uint (orig ! nat i) * W i"
    using i by (simp add: lval_take_Suc)
  moreover have "c' * W (i + 1) = (f * uint (orig ! nat i) + c - uint d) * W i"
  proof -
    have "c' * W (i + 1) = (268435456 * c') * W i" using W_Suc[OF i(1)] by simp
    also have "268435456 * c' = f * uint (orig ! nat i) + c - uint d" using d by linarith
    finally show ?thesis .
  qed
  ultimately show ?thesis
    using I bounded_update[OF I(2) d(1)]
    unfolding mul_inv_def n by (simp add: algebra_simps)
qed

lemma mul_inv_final:
  assumes inv: "mul_inv f (bigits b) (used_digits b) bs c" and w: "wf b"
  shows "length bs = 128" "bounded bs" "lval bs < W (used_digits b)"
    "lval bs + c * W (used_digits b) = f * lval (bigits b)"
proof -
  note D = wfD[OF w]
  have I: "length bs = 128" "bounded bs"
      "drop (nat (used_digits b)) bs = drop (nat (used_digits b)) (bigits b)"
    using inv D by (auto simp: mul_inv_def)
  show "length bs = 128" "bounded bs" by (rule I)+
  show "lval bs < W (used_digits b)"
    using lval_less_drop[of bs "bigits b" "nat (used_digits b)"] I D by simp
  have "lval (take (nat (used_digits b)) (bigits b)) = lval (bigits b)"
    using D by (intro lval_take_small) auto
  then show "lval bs + c * W (used_digits b) = f * lval (bigits b)"
    using inv by (simp add: mul_inv_def algebra_simps)
qed

lemma ok_append_carry:
  assumes w: "wf b" and T: "lval (bigits b) + uint carry * W (used_digits b) < W 128"
    and top: "carry = 0 \<Longrightarrow> 0 < used_digits b \<Longrightarrow> W (used_digits b - 1) \<le> lval (bigits b)"
    and z: "carry = 0 \<Longrightarrow> used_digits b = 0 \<Longrightarrow> bexp b = 0"
    and Q: "\<And>r. norm r \<Longrightarrow> bexp r = bexp b \<Longrightarrow>
       lval (bigits r) = lval (bigits b) + uint carry * W (used_digits b) \<Longrightarrow> Q r"
  shows "ok (append_carry carry b) Q"
proof -
  let ?T = "lval (bigits b) + uint carry * W (used_digits b)"
  let ?P = "\<lambda>(r, c :: u64). wf r \<and> bexp r = bexp b \<and>
     lval (bigits r) + uint c * W (used_digits r) = ?T \<and>
     (c = 0 \<longrightarrow> 0 < used_digits r \<longrightarrow> W (used_digits r - 1) \<le> lval (bigits r)) \<and>
     (c = 0 \<longrightarrow> used_digits r = 0 \<longrightarrow> bexp b = 0)"
  show ?thesis
    unfolding append_carry_def wp
  proof (rule ok_while_do[where P = ?P and m = "\<lambda>(r, c). unat c"], goal_cases)
    case (2 t)
    then have P: "?P t" .
    obtain r c where t: "t = (r, c)" by (cases t)
    have w: "wf r" and e: "bexp r = bexp b" and l: "lval (bigits r) + uint c * W (used_digits r) = ?T"
      using P t by auto
    note D = wfD[OF w]
    let ?d = "ucast (c AND ucast kBigitMask) :: u32"
    have d: "uint ?d = uint c mod 268435456" by (simp add: word_ints)
    have c': "uint (drop_bit 28 c) = uint c div 268435456" by (simp add: uint_drop_bit)
    show ?case
    proof (cases "c = 0")
      case True
      then have "norm r" using P t by (auto simp: norm_def)
      then show ?thesis using True t e l Q by simp
    next
      case False
      then have c1: "1 \<le> uint c" using uint_nonnegative[of c] uint_0_iff[of c] by linarith
      then have "W (used_digits r) \<le> uint c * W (used_digits r)" by simp
      then have "W (used_digits r) < W 128" using l T lval_nonneg[of "bigits r"] by linarith
      then have u: "used_digits r < 128" using W_less_iff[of "used_digits r" 128] D by simp
      have dl: "uint ?d < 268435456" by (simp add: d)
      note push = lval_push[OF D(2,6,3) _ dl]
      have sum: "lval (bigits r) + uint ?d * W (used_digits r) +
          uint c div 268435456 * W (used_digits r + 1) = ?T"
        using l chunk_split[of "uint c" "W (used_digits r)"] W_Suc[OF D(3)] d by simp
      have topz: "W (used_digits r) \<le> lval (bigits r) + uint ?d * W (used_digits r)"
        if "uint c div 268435456 = 0"
      proof -
        have "uint ?d = uint c" using that d c1 mult_div_mod_eq[of 268435456 "uint c"] by simp
        then show ?thesis using \<open>W (used_digits r) \<le> uint c * W (used_digits r)\<close>
          lval_nonneg[of "bigits r"] by (simp only:)
      qed
      have z0: "drop_bit 28 c = 0 \<longleftrightarrow> uint c div 268435456 = 0" using c' uint_0_iff by metis
      have "uint c div 268435456 < uint c" using c1 by simp
      then have dec: "unat (drop_bit 28 c) < unat c"
        using c' by (simp only: unat_eq_nat_uint nat_less_eq_zless uint_nonnegative)
      show ?thesis using False t u push sum topz z0 dec D e c'
        by (simp add: wp EnsureCapacity_def wf_def)
    qed
  next
    case 1
    then show ?case using w top z by auto
  qed
qed

lemma W127_128: "268435456 * W 127 = W 128"
  using W_Suc[of 127] by simp

lemma lval_le_bval: "lval (bigits b) \<le> bval b"
  using mult_left_mono[OF W_ge_1[of "bexp b"] lval_nonneg[of "bigits b"]] by (simp add: bval_def)

text \<open>The end of both multiplications, once the loop over the chunks is done.\<close>

lemma mul_inv_append:
  assumes inv: "mul_inv F (bigits b) (used_digits b) bs (uint c)" and n: "norm b" and F: "1 \<le> F"
    and cap: "bval b * F < W 127" and Q: "\<And>r. norm r \<Longrightarrow> bval r = bval b * F \<Longrightarrow> Q r"
  shows "ok (append_carry c (b\<lparr>bigits := bs\<rparr>)) Q"
proof -
  note w = norm_wf[OF n] and D = wfD[OF norm_wf[OF n]]
  note fin = mul_inv_final[OF inv w]
  let ?b = "b\<lparr>bigits := bs\<rparr>"
  have w': "wf ?b" using fin D by (simp add: wf_def)
  have "F * lval (bigits b) \<le> bval b * F"
    using mult_right_mono[OF lval_le_bval[of b], of F] F by (simp add: mult.commute)
  then have cap': "lval bs + uint c * W (used_digits b) < W 128"
    using cap fin(4) W_mono[of 127 128] by linarith
  have ge: "lval (bigits b) \<le> F * lval (bigits b)"
    using mult_right_mono[of 1 F "lval (bigits b)"] F by simp
  show ?thesis
  proof (rule ok_append_carry[OF w'])
    fix r assume r: "norm r" "bexp r = bexp ?b"
      "lval (bigits r) = lval (bigits ?b) + uint c * W (used_digits ?b)"
    then have "bval r = bval b * F" using fin(4) by (simp add: bval_def algebra_simps)
    then show "Q r" by (rule Q[OF r(1)])
  qed (use cap' ge fin(4) n in \<open>auto simp: norm_def\<close>)
qed

lemma ok_MultiplyByUInt32:
  assumes n: "norm b" and cap: "bval b * uint f < W 127"
    and Q: "\<And>r. norm r \<Longrightarrow> bval r = bval b * uint f \<Longrightarrow> Q r"
  shows "ok (MultiplyByUInt32 f b) Q"
proof (cases "f = 1 \<or> f = 0 \<or> used_digits b = 0")
  case True
  then show ?thesis using n bval_0_iff[OF n] norm_wf[OF n]
    by (auto simp: MultiplyByUInt32_def wp intro!: Q)
next
  case False
  note w = norm_wf[OF n] and D = wfD[OF norm_wf[OF n]]
  have u: "0 < used_digits b" using False D by simp
  let ?F = "uint f"
  have F: "2 \<le> ?F" "?F < 4294967296"
  proof -
    have "?F \<noteq> 0" "?F \<noteq> 1" using False by (auto simp: word_uint_eq_iff)
    then show "2 \<le> ?F" using uint_nonnegative[of f] by linarith
    show "?F < 4294967296" using uint_lt_2p[of f] by simp
  qed
  let ?P = "\<lambda>i (bs, c :: u64). mul_inv ?F (bigits b) i bs (uint c) \<and> uint c \<le> ?F"
  have loop: "ok (for_up 0 (used_digits b)
          (\<lambda>i (bs, carry). do {
             x \<leftarrow> rd bs i;
             let product = (ucast f :: u64) * ucast x + carry;
             bs \<leftarrow> wr bs i (ucast (product AND ucast kBigitMask));
             Some (bs, drop_bit 28 product) }) (bigits b, 0)) (?P (used_digits b))"
  proof (rule ok_for_up[where P = ?P])
    fix j and t :: "u32 list \<times> u64"
    assume j: "0 \<le> j" "j < used_digits b" and P: "?P j t"
    obtain bs c where t: "t = (bs, c)" by (cases t)
    have j': "j < int (length (bigits b))" using j D by simp
    have inv: "mul_inv ?F (bigits b) j bs (uint c)" and c: "uint c \<le> ?F" using P t by auto
    have nth: "bs ! nat j = bigits b ! nat j" by (rule mul_inv_nth[OF inv j(1) j'])
    let ?x = "bigits b ! nat j"
    have x: "uint ?x \<le> 268435455" by (rule bounded_rd[OF D(2) j(1) j'])
    let ?p = "(ucast f :: u64) * ucast ?x + c"
    have "?F * uint ?x \<le> ?F * 268435455" using x F by (intro mult_left_mono) auto
    then have b: "?F * uint ?x + uint c \<le> ?F * 268435456" using c by (simp add: algebra_simps)
    then have lt: "?F * uint ?x + uint c < 2 ^ 64" using F by simp
    moreover have "0 \<le> uint c" by simp
    ultimately have "?F * uint ?x < 2 ^ 64" by linarith
    then have "uint ((ucast f :: u64) * ucast ?x) = ?F * uint ?x"
      by (subst uint_mult_exact) (simp_all add: uint_ucast_up)
    then have p: "uint ?p = ?F * uint ?x + uint c"
      using lt by (subst uint_add_exact) simp_all
    have c': "uint (drop_bit 28 ?p) \<le> ?F"
    proof -
      have "uint ?p div 268435456 \<le> ?F * 268435456 div 268435456"
        using b p by (intro zdiv_mono1) auto
      then show ?thesis by (simp add: uint_drop_bit)
    qed
    have "mul_inv ?F (bigits b) (j + 1) (bs[nat j := ucast (?p AND ucast kBigitMask)])
        (uint (drop_bit 28 ?p))"
      using mult_div_mod_eq[of 268435456 "uint ?p"] p
      by (intro mul_inv_step[OF inv j(1) j']) (simp_all add: uint_ucast_mask uint_drop_bit)
    then show "ok (case t of (bs, carry) \<Rightarrow> do {
             x \<leftarrow> rd bs j;
             let product = (ucast f :: u64) * ucast x + carry;
             bs \<leftarrow> wr bs j (ucast (product AND ucast kBigitMask));
             Some (bs, drop_bit 28 product) }) (?P (j + 1))"
      using t j' j nth c' inv by (simp add: wp Let_def mul_inv_def)
  qed (use D F in \<open>auto simp: mul_inv_init\<close>)
  have fin: "ok (append_carry c (b\<lparr>bigits := bs\<rparr>)) Q" if P: "?P (used_digits b) (bs, c)" for bs c
  proof -
    have inv: "mul_inv ?F (bigits b) (used_digits b) bs (uint c)" using P by simp
    show ?thesis using F cap Q by (intro mul_inv_append[OF inv n _ cap]) auto
  qed
  show ?thesis
    using False fin unfolding MultiplyByUInt32_def
    by (auto simp: wp intro!: ok_mono[OF loop])
qed

lemma ok_MultiplyByUInt64:
  assumes n: "norm b" and cap: "bval b * uint f < W 127"
    and Q: "\<And>r. norm r \<Longrightarrow> bval r = bval b * uint f \<Longrightarrow> Q r"
  shows "ok (MultiplyByUInt64 f b) Q"
proof (cases "f = 1 \<or> f = 0")
  case True
  then show ?thesis using n norm_wf[OF n]
    by (auto simp: MultiplyByUInt64_def wp intro!: Q)
next
  case False
  note w = norm_wf[OF n] and D = wfD[OF norm_wf[OF n]]
  let ?F = "uint f"
  have F: "2 \<le> ?F" "?F < 18446744073709551616"
  proof -
    have "?F \<noteq> 0" "?F \<noteq> 1" using False by (auto simp: word_uint_eq_iff)
    then show "2 \<le> ?F" using uint_nonnegative[of f] by linarith
    show "?F < 18446744073709551616" using uint_lt_2p[of f] by simp
  qed
  let ?lo = "f AND 0xFFFFFFFF" and ?hi = "drop_bit 32 f"
  have lo: "uint ?lo = ?F mod 4294967296"
    using uint_and_mask[of f 32] by (simp add: mask_eq_decr_exp)
  have hi: "uint ?hi = ?F div 4294967296" by (simp add: uint_drop_bit)
  have split: "?F = uint ?hi * 4294967296 + uint ?lo" using lo hi by simp
  have lo_b: "uint ?lo \<le> 4294967295"
    using pos_mod_bound[of 4294967296 ?F] lo by linarith
  let ?P = "\<lambda>i (bs, c :: u64). mul_inv ?F (bigits b) i bs (uint c) \<and> uint c \<le> ?F"
  have loop: "ok (for_up 0 (used_digits b)
          (\<lambda>i (bs, carry). do {
             x \<leftarrow> rd bs i;
             let product_low = ?lo * ucast x;
             let product_high = ?hi * ucast x;
             let tmp = (carry AND ucast kBigitMask) + product_low;
             bs \<leftarrow> wr bs i (ucast (tmp AND ucast kBigitMask));
             Some (bs, drop_bit 28 carry + drop_bit 28 tmp + push_bit 4 product_high) })
          (bigits b, 0)) (?P (used_digits b))"
  proof (rule ok_for_up[where P = ?P], goal_cases)
    case (3 j t)
    then have j: "0 \<le> j" "j < used_digits b" and P: "?P j t" by auto
    obtain bs c where t: "t = (bs, c)" by (cases t)
    have j': "j < int (length (bigits b))" using j D by simp
    have inv: "mul_inv ?F (bigits b) j bs (uint c)" and c: "uint c \<le> ?F" using P t by auto
    have nth: "bs ! nat j = bigits b ! nat j" by (rule mul_inv_nth[OF inv j(1) j'])
    let ?x = "bigits b ! nat j"
    have x: "uint ?x \<le> 268435455" "0 \<le> uint ?x" by (rule bounded_rd[OF D(2) j(1) j']) simp
    let ?pl = "?lo * ucast ?x" and ?ph = "?hi * ucast ?x"
    let ?tmp = "(c AND ucast kBigitMask) + ?pl"
    let ?c' = "drop_bit 28 c + drop_bit 28 ?tmp + push_bit 4 ?ph"
    have lx: "uint ?lo * uint ?x \<le> 4294967295 * 268435455" using x lo_b by (intro mult_mono) auto
    have pl: "uint ?pl = uint ?lo * uint ?x"
      using lx by (subst uint_mult_exact) (simp_all add: uint_ucast_up)
    have cm: "uint c mod 268435456 < 268435456" by simp
    have tmp: "uint ?tmp = uint c mod 268435456 + uint ?lo * uint ?x"
      using lx cm pl by (subst uint_add_exact) (simp_all only: mask28_ints pl, simp)
    have "?F * uint ?x \<le> ?F * 268435455" using x F by (intro mult_left_mono) auto
    then have b: "?F * uint ?x + uint c \<le> ?F * 268435456" using c by (simp add: algebra_simps)
    define S where "S = uint c div 268435456 + uint ?tmp div 268435456 + uint ?hi * uint ?x * 16"
    have S1: "uint ?tmp mod 268435456 + 268435456 * S = ?F * uint ?x + uint c"
    proof -
      have "uint ?tmp mod 268435456 + 268435456 * S =
          uint ?tmp + 268435456 * (uint c div 268435456) + uint ?hi * uint ?x * 4294967296"
        unfolding S_def by (rule div_mod_sum)
      also have "\<dots> = (268435456 * (uint c div 268435456) + uint c mod 268435456) +
          uint ?lo * uint ?x + uint ?hi * uint ?x * 4294967296"
        using tmp by (simp only: add.assoc add.commute add.left_commute)
      also have "\<dots> = uint c + uint ?lo * uint ?x + uint ?hi * uint ?x * 4294967296"
        by (simp only: mult_div_mod_eq)
      also have "\<dots> = uint c + (uint ?hi * 4294967296 + uint ?lo) * uint ?x"
        by (simp add: algebra_simps)
      finally show ?thesis using split by simp
    qed
    have "0 \<le> uint ?tmp mod 268435456" by simp
    then have S2: "S \<le> ?F" using S1 b by linarith
    have nn: "0 \<le> uint c div 268435456" "0 \<le> uint ?tmp div 268435456" "0 \<le> uint ?hi * uint ?x"
      by (simp_all add: pos_imp_zdiv_nonneg_iff)
    have ph: "uint ?ph = uint ?hi * uint ?x"
      using nn S2 F S_def by (subst uint_mult_exact) (simp_all add: uint_ucast_up)
    have hb: "uint ?hi * uint ?x * 16 < 18446744073709551616"
      using nn S2 F(2) unfolding S_def by linarith
    have ab: "uint c div 268435456 + uint ?tmp div 268435456 < 18446744073709551616"
      using nn S2 F(2) unfolding S_def by linarith
    have c': "uint ?c' = S"
    proof -
      have p4: "uint (push_bit 4 ?ph) = uint ?hi * uint ?x * 16"
        using hb ph by (subst uint_push_bit_exact) (simp_all add: mult.commute mult.left_commute)
      have a: "uint (drop_bit 28 c + drop_bit 28 ?tmp) = uint c div 268435456 + uint ?tmp div 268435456"
        using ab by (subst uint_add_exact) (simp_all add: uint_drop_bit)
      show ?thesis
        using S2 F(2) S_def by (subst uint_add_exact) (simp_all only: a p4, simp)
    qed
    have "mul_inv ?F (bigits b) (j + 1) (bs[nat j := ucast (?tmp AND ucast kBigitMask)]) (uint ?c')"
      using S1 c' by (intro mul_inv_step[OF inv j(1) j']) (simp_all add: uint_ucast_mask)
    then show ?case
      using t j' j nth c' S2 inv by (simp add: wp Let_def mul_inv_def)
  qed (use D F in \<open>auto simp: mul_inv_init\<close>)
  have fin: "ok (append_carry c (b\<lparr>bigits := bs\<rparr>)) Q" if P: "?P (used_digits b) (bs, c)" for bs c
  proof -
    have inv: "mul_inv ?F (bigits b) (used_digits b) bs (uint c)" using P by simp
    show ?thesis using F cap Q by (intro mul_inv_append[OF inv n _ cap]) auto
  qed
  show ?thesis
    using False fin unfolding MultiplyByUInt64_def
    by (auto simp: wp Let_def intro!: ok_mono[OF loop[unfolded Let_def]])
qed


section \<open>Shifting\<close>

lemma shift_chunk:
  fixes x c :: int
  assumes "0 \<le> x" "0 \<le> c" "c < 2 ^ s" "s < 28"
  shows "(x * 2 ^ s + c) mod 268435456 + 268435456 * (x div 2 ^ (28 - s)) = x * 2 ^ s + c"
proof -
  let ?q = "x div 2 ^ (28 - s)" and ?r = "x mod 2 ^ (28 - s)"
  have p: "(2::int) ^ (28 - s) * 2 ^ s = 268435456"
    using assms(4) by (simp add: power_add[symmetric])
  have x: "x = ?q * 2 ^ (28 - s) + ?r" by (rule div_mult_mod_eq[symmetric])
  have "x * 2 ^ s = ?q * (2 ^ (28 - s) * 2 ^ s) + ?r * 2 ^ s"
    by (subst x) (simp only: distrib_right mult.assoc)
  then have e: "x * 2 ^ s + c = (?r * 2 ^ s + c) + 268435456 * ?q" using p by simp
  have "?r + 1 \<le> 2 ^ (28 - s)" by (simp add: add1_zle_eq)
  then have "(?r + 1) * 2 ^ s \<le> 268435456" using p mult_right_mono[of "?r + 1" "2 ^ (28 - s)" "2 ^ s"] by simp
  then have "?r * 2 ^ s + c < 268435456" using assms(3) by (simp add: distrib_right)
  moreover have "0 \<le> ?r * 2 ^ s + c" using assms by simp
  ultimately have m: "(x * 2 ^ s + c) mod 268435456 = ?r * 2 ^ s + c"
    by (subst e, subst mod_mult_self2) (rule mod_pos_pos_trivial)
  show ?thesis unfolding m using e by linarith
qed

lemma uint_shift_chunk:
  fixes x c :: u32
  shows "uint ((push_bit s x + c) AND kBigitMask) = (uint x * 2 ^ s + uint c) mod 268435456"
proof -
  have "uint (push_bit s x + c) = (uint x * 2 ^ s mod 4294967296 + uint c) mod 4294967296"
    by (simp add: uint_word_ariths uint_push_bit_mod)
  also have "\<dots> = (uint x * 2 ^ s + uint c) mod 4294967296" by (simp add: mod_add_left_eq)
  finally have "uint (push_bit s x + c) mod 268435456 = (uint x * 2 ^ s + uint c) mod 4294967296 mod 268435456"
    by simp
  also have "\<dots> = (uint x * 2 ^ s + uint c) mod 268435456"
    by (rule mod_mod_cancel) simp
  finally show ?thesis by (simp add: mask28_ints)
qed

lemma ok_BigitsShiftLeft:
  assumes w: "wf b" and s: "0 \<le> s" "s < 28" and u: "used_digits b < 128"
    and Q: "\<And>r. wf r \<Longrightarrow> lval (bigits r) = lval (bigits b) * 2 ^ nat s \<Longrightarrow> bexp r = bexp b \<Longrightarrow>
       (0 < used_digits b \<Longrightarrow> W (used_digits b - 1) \<le> lval (bigits b) \<Longrightarrow>
          0 < used_digits r \<and> W (used_digits r - 1) \<le> lval (bigits r)) \<Longrightarrow> Q r"
  shows "ok (BigitsShiftLeft s b) Q"
proof -
  note D = wfD[OF w]
  let ?s = "nat s" and ?F = "(2::int) ^ nat s"
  let ?P = "\<lambda>i (bs, c :: u32). mul_inv ?F (bigits b) i bs (uint c) \<and> uint c < ?F"
  have loop: "ok (for_up 0 (used_digits b)
       (\<lambda>i (bs, carry). do {
          x \<leftarrow> rd bs i;
          let new_carry = drop_bit (nat (28 - s)) x;
          bs \<leftarrow> wr bs i ((push_bit ?s x + carry) AND kBigitMask);
          Some (bs, new_carry) }) (bigits b, 0)) (?P (used_digits b))"
  proof (rule ok_for_up[where P = ?P], goal_cases)
    case (3 j t)
    then have j: "0 \<le> j" "j < used_digits b" and P: "?P j t" by auto
    obtain bs c where t: "t = (bs, c)" by (cases t)
    have j': "j < int (length (bigits b))" using j D by simp
    have inv: "mul_inv ?F (bigits b) j bs (uint c)" and c: "uint c < ?F" using P t by auto
    have nth: "bs ! nat j = bigits b ! nat j" by (rule mul_inv_nth[OF inv j(1) j'])
    let ?x = "bigits b ! nat j"
    have x: "uint ?x < 268435456" using bounded_rd[OF D(2) j(1) j'] by linarith
    have n: "nat (28 - s) = 28 - ?s" using s by simp
    have c': "uint (drop_bit (nat (28 - s)) ?x) = uint ?x div 2 ^ (28 - ?s)"
      by (simp only: n uint_drop_bit)
    have "uint ?x < 2 ^ (28 - ?s) * ?F" using x s by (simp add: power_add[symmetric])
    then have c'': "uint ?x div 2 ^ (28 - ?s) < ?F" by (intro div_less_mult) simp_all
    have "mul_inv ?F (bigits b) (j + 1) (bs[nat j := (push_bit ?s ?x + c) AND kBigitMask])
        (uint (drop_bit (nat (28 - s)) ?x))"
      using shift_chunk[of "uint ?x" "uint c" ?s] s c
      by (intro mul_inv_step[OF inv j(1) j']) (simp_all only: uint_shift_chunk c' mod28_less, simp add: mult.commute)
    then show ?case using t j j' nth c' c'' inv by (simp add: wp Let_def mul_inv_def)
  qed (use D in \<open>auto simp: mul_inv_init\<close>)
  have fin: "ok (if c \<noteq> 0 then do {
       bs \<leftarrow> wr bs (used_digits b) c;
       Some (b\<lparr>bigits := bs, used_digits := used_digits b + 1\<rparr>) }
     else Some (b\<lparr>bigits := bs\<rparr>)) Q" if P: "?P (used_digits b) (bs, c)" for bs c
  proof -
    have inv: "mul_inv ?F (bigits b) (used_digits b) bs (uint c)" and c: "uint c < ?F" using P by auto
    note fin = mul_inv_final[OF inv w]
    have F28: "?F \<le> 134217728" using power_increasing[of "nat s" 27 "2::int"] s by simp
    show ?thesis
    proof (cases "c = 0")
      case True
      have "lval (bigits b) \<le> ?F * lval (bigits b)" using mult_right_mono[of 1 ?F "lval (bigits b)"] by simp
      then have "Q (b\<lparr>bigits := bs\<rparr>)" using True fin D by (intro Q) (auto simp: wf_def mult.commute)
      then show ?thesis using True by simp
    next
      case False
      then have c1: "1 \<le> uint c" using uint_nonnegative[of c] uint_0_iff[of c] by linarith
      have dl: "uint c < 268435456" using c F28 by linarith
      have u': "used_digits b < int (length bs)" using u fin by simp
      note push = lval_push[OF fin(2,3) D(3) u' dl]
      have "W (used_digits b) \<le> uint c * W (used_digits b)" using c1 by simp
      then have "W (used_digits b) \<le> lval bs + uint c * W (used_digits b)" using lval_nonneg[of bs] by linarith
      then have "Q (b\<lparr>bigits := bs[nat (used_digits b) := c], used_digits := used_digits b + 1\<rparr>)"
        using push fin D u by (intro Q) (auto simp: wf_def mult.commute)
      then show ?thesis using False u' D by (simp add: wp)
    qed
  qed
  show ?thesis
    using s fin unfolding BigitsShiftLeft_def kBigitSize_def
    by (auto simp: wp Let_def intro!: ok_mono[OF loop[unfolded Let_def]])
qed

lemma ok_ShiftLeft:
  assumes n: "norm b" and s: "0 \<le> s" and cap: "bval b < W 127"
    and Q: "\<And>r. norm r \<Longrightarrow> bval r = bval b * 2 ^ nat s \<Longrightarrow> Q r"
  shows "ok (ShiftLeft s b) Q"
proof (cases "used_digits b = 0")
  case True
  then show ?thesis using n bval_0_iff[OF n] by (simp add: ShiftLeft_def Q)
next
  case False
  note w = norm_wf[OF n] and D = wfD[OF norm_wf[OF n]]
  have "BigitLength b \<le> 127" by (rule BigitLength_le[OF n cap]) simp
  then have u: "used_digits b \<le> 127" using D by (simp add: BigitLength_def)
  let ?b = "b\<lparr>bexp := bexp b + s div 28\<rparr>"
  have w': "wf ?b" using D s by (simp add: wf_def pos_imp_zdiv_nonneg_iff)
  have ss: "s sdiv 28 = s div 28" "s smod 28 = s mod 28" "0 \<le> s div 28"
    using s by (simp_all add: pos_imp_zdiv_nonneg_iff)
  have "ok (BigitsShiftLeft (s mod 28) ?b) Q"
  proof (rule ok_BigitsShiftLeft[OF w'])
    fix r assume r: "wf r" "lval (bigits r) = lval (bigits ?b) * 2 ^ nat (s mod 28)" "bexp r = bexp ?b"
      "0 < used_digits ?b \<Longrightarrow> W (used_digits ?b - 1) \<le> lval (bigits ?b) \<Longrightarrow>
          0 < used_digits r \<and> W (used_digits r - 1) \<le> lval (bigits r)"
    have "norm r" using r n False D by (auto simp: norm_def)
    moreover have "bval r = bval b * 2 ^ nat s"
    proof -
      have "nat s = 28 * nat (s div 28) + nat (s mod 28)" using s by (simp add: nat_div_distrib nat_mod_distrib)
      then have "(2::int) ^ nat s = W (s div 28) * 2 ^ nat (s mod 28)" by (simp add: W_def power_add)
      moreover have "W (bexp r) = W (bexp b) * W (s div 28)" using r(3) D ss by (simp add: W_add)
      ultimately show ?thesis using r(2) by (simp add: bval_def)
    qed
    ultimately show "Q r" by (rule Q)
  qed (use u in auto)
  then show ?thesis using False u ss
    by (simp add: ShiftLeft_def Let_def EnsureCapacity_def wp)
qed


section \<open>Multiplication by a power of ten\<close>

lemma kFive_uint:
  "uint kFive27 = 5 ^ 27" "uint kFive13 = 5 ^ 13"
  by (simp_all add: kFive27_def kFive13_def)

lemma kFive1_to_12_nth:
  assumes "0 < r" "r < 13"
  shows "r - 1 < int (length kFive1_to_12)" "uint (kFive1_to_12 ! nat (r - 1)) = 5 ^ nat r"
proof -
  have "r = 1 \<or> r = 2 \<or> r = 3 \<or> r = 4 \<or> r = 5 \<or> r = 6 \<or> r = 7 \<or> r = 8 \<or> r = 9 \<or> r = 10 \<or> r = 11 \<or> r = 12"
    using assms by presburger
  then show "r - 1 < int (length kFive1_to_12)" "uint (kFive1_to_12 ! nat (r - 1)) = 5 ^ nat r"
    by (elim disjE; simp add: kFive1_to_12_def)+
qed

text \<open>One step: a factor \<open>5 ^ k\<close> moves from the pending exponent into the bignum.\<close>

lemma pow5_step:
  fixes v T :: int
  assumes "v * 5 ^ nat r = T" "T < B" "int k \<le> r" "0 \<le> v"
  shows "v * 5 ^ k < B" "v * 5 ^ k * 5 ^ nat (r - int k) = T"
proof -
  have "nat r = k + nat (r - int k)" using assms(3) by simp
  then have "(5::int) ^ nat r = 5 ^ k * 5 ^ nat (r - int k)" by (metis power_add)
  then show e: "v * 5 ^ k * 5 ^ nat (r - int k) = T" using assms(1) by (simp add: mult.assoc)
  have "v * 5 ^ k * 1 \<le> v * 5 ^ k * 5 ^ nat (r - int k)" using assms(4) by (intro mult_left_mono) auto
  then show "v * 5 ^ k < B" using e assms(2) by simp
qed

lemma pow5_less: "0 \<le> (v::int) \<Longrightarrow> v * 10 ^ k < B \<Longrightarrow> v * 5 ^ k < B"
  using mult_left_mono[of "5 ^ k" "10 ^ k" v] power_mono[of "5::int" 10 k] by linarith

lemma ok_MultiplyByPowerOfTen:
  assumes n: "norm b" and e: "0 \<le> e" and T: "bval b * 5 ^ nat e < W 127"
    and Q: "\<And>r. norm r \<Longrightarrow> bval r = bval b * 10 ^ nat e \<Longrightarrow> Q r"
  shows "ok (MultiplyByPowerOfTen e b) Q"
proof (cases "e = 0 \<or> used_digits b = 0")
  case True
  then show ?thesis using n e bval_0_iff[OF n] by (auto simp: MultiplyByPowerOfTen_def wp intro!: Q)
next
  case False
  let ?T = "bval b * 5 ^ nat e"
  have ten: "bval b * 10 ^ nat e = ?T * 2 ^ nat e"
    by (simp add: mult.assoc power_mult_distrib[symmetric])
  let ?I = "\<lambda>hi (t, r). norm t \<and> 0 \<le> r \<and> bval t * 5 ^ nat r = ?T \<and> r < hi"
  have one: "ok (while_do (\<lambda>(this, r). Some (r \<ge> 27))
         (\<lambda>(this, r). do { this \<leftarrow> MultiplyByUInt64 kFive27 this; Some (this, r - 27) }) (b, e)) (?I 27)"
  proof (rule ok_while_do[where P = "?I (e + 1)" and m = "\<lambda>(t, r). nat r"], goal_cases)
    case (2 u)
    obtain t r where u: "u = (t, r)" by (cases u)
    show ?case
    proof (cases "27 \<le> r")
      case True
      have P: "norm t" "bval t * 5 ^ nat r = ?T" "r < e + 1" using 2 u by auto
      note s = pow5_step[OF P(2) T, of 27]
      have "ok (MultiplyByUInt64 kFive27 t) (\<lambda>x. norm x \<and> bval x = bval t * 5 ^ 27)"
        by (rule ok_MultiplyByUInt64[OF P(1)]) (use s True in \<open>simp_all add: kFive_uint\<close>)
      then show ?thesis using u True s P by (auto simp: wp elim!: ok_mono)
    qed (use 2 u in auto)
  qed (use n e in auto)
  have two: "ok (while_do (\<lambda>(this, r). Some (r \<ge> 13))
         (\<lambda>(this, r). do { this \<leftarrow> MultiplyByUInt32 kFive13 this; Some (this, r - 13) }) (t, r)) (?I 13)"
    if I: "?I 27 (t, r)" for t r
  proof (rule ok_while_do[where P = "?I 27" and m = "\<lambda>(t, r). nat r"], goal_cases)
    case (2 u)
    obtain t r where u: "u = (t, r)" by (cases u)
    show ?case
    proof (cases "13 \<le> r")
      case True
      have P: "norm t" "bval t * 5 ^ nat r = ?T" "r < 27" using 2 u by auto
      note s = pow5_step[OF P(2) T, of 13]
      have "ok (MultiplyByUInt32 kFive13 t) (\<lambda>x. norm x \<and> bval x = bval t * 5 ^ 13)"
        by (rule ok_MultiplyByUInt32[OF P(1)]) (use s True in \<open>simp_all add: kFive_uint\<close>)
      then show ?thesis using u True s P by (auto simp: wp elim!: ok_mono)
    qed (use 2 u in auto)
  qed (use I in auto)
  have three: "ok (if 0 < r then do { f \<leftarrow> rd kFive1_to_12 (r - 1); MultiplyByUInt32 f t } else Some t)
      (\<lambda>x. norm x \<and> bval x = ?T)" if I: "?I 13 (t, r)" for t r
  proof (cases "0 < r")
    case True
    note k = kFive1_to_12_nth[of r]
    have "ok (MultiplyByUInt32 (kFive1_to_12 ! nat (r - 1)) t) (\<lambda>x. norm x \<and> bval x = ?T)"
      by (rule ok_MultiplyByUInt32) (use I k True T in auto)
    then show ?thesis using True k I by (simp add: wp)
  qed (use I in auto)
  have four: "ok (ShiftLeft e t) Q" if "norm t \<and> bval t = ?T" for t
    by (rule ok_ShiftLeft) (use that T e Q ten in auto)
  have five: "ok (do { t \<leftarrow> if 0 < r then do { f \<leftarrow> rd kFive1_to_12 (r - 1); MultiplyByUInt32 f t } else Some t;
      ShiftLeft e t }) Q" if I: "?I 13 (t, r)" for t r
    by (subst ok_bind, rule ok_mono[OF three[OF I]], rule four)
  have six: "ok (do { (t, r) \<leftarrow> while_do (\<lambda>(this, r). Some (r \<ge> 13))
         (\<lambda>(this, r). do { this \<leftarrow> MultiplyByUInt32 kFive13 this; Some (this, r - 13) }) (t, r);
      t \<leftarrow> if 0 < r then do { f \<leftarrow> rd kFive1_to_12 (r - 1); MultiplyByUInt32 f t } else Some t;
      ShiftLeft e t }) Q" if I: "?I 27 (t, r)" for t r
    by (subst ok_bind, rule ok_mono[OF two[OF I]]) (use five in auto)
  show ?thesis
    unfolding MultiplyByPowerOfTen_def
    using False e by (simp add: ok_bind[of "ensure _"] ok_ensure, subst ok_bind, intro ok_mono[OF one])
      (use six in auto)
qed

end
