(* ===== verification/Bignum_Compare.thy ===== *)
theory Bignum_Compare
  imports Bignum_Mult
begin

text \<open>Bignum: reading chunks and the two comparisons, which are exact.\<close>

section \<open>Reading chunks\<close>

definition digit :: "int \<Rightarrow> int \<Rightarrow> int" where
  "digit v i = v div W i mod 268435456"

lemma digit_bounds [simp]: "0 \<le> digit v i" "digit v i < 268435456"
  by (simp_all add: digit_def)

lemma div_W_step: "0 \<le> i \<Longrightarrow> v div W i = v div W (i + 1) * 268435456 + digit v i"
proof -
  assume i: "0 \<le> i"
  have "v div W (i + 1) = v div W i div 268435456"
    using i by (simp add: W_Suc zdiv_zmult2_eq mult.commute)
  then show ?thesis by (simp add: digit_def)
qed

lemma bval_dvd: "wf b \<Longrightarrow> i \<le> bexp b \<Longrightarrow> 0 \<le> i \<Longrightarrow> W i dvd bval b"
proof -
  assume "wf b" "i \<le> bexp b" "0 \<le> i"
  then have "W (bexp b) = W i * W (bexp b - i)" using W_add[of i "bexp b - i"] by simp
  then show ?thesis by (simp add: bval_def)
qed

lemma ok_BigitAt:
  assumes w: "wf b" and i: "0 \<le> i" and Q: "\<And>x. uint x = digit (bval b) i \<Longrightarrow> Q x"
  shows "ok (BigitAt b i) Q"
proof -
  note D = wfD[OF w]
  consider "BigitLength b \<le> i" | "i < bexp b" "i < BigitLength b" | "bexp b \<le> i" "i < BigitLength b" by linarith
  then show ?thesis
  proof cases
    case 1
    have "bval b < W i" using bval_less_W[OF w] W_mono[OF 1] by linarith
    then have "digit (bval b) i = 0" by (simp add: digit_def div_pos_pos_trivial)
    then show ?thesis using 1 by (simp add: BigitAt_def Q)
  next
    case 2
    have "W (i + 1) dvd bval b" using bval_dvd[OF w, of "i + 1"] 2 i by simp
    then obtain k where "bval b = W i * (268435456 * k)" using W_Suc[OF i] by (auto simp: dvd_def mult_ac)
    then have "digit (bval b) i = 0" by (simp add: digit_def)
    then show ?thesis using 2 by (simp add: BigitAt_def Q)
  next
    case 3
    let ?k = "nat (i - bexp b)"
    have k: "?k < length (bigits b)" using 3 D by (simp add: BigitLength_def)
    have "W i = W (int ?k) * W (bexp b)" using W_add[of "int ?k" "bexp b"] 3 D by simp
    then have "bval b div W i = lval (bigits b) div W (int ?k)" by (simp add: bval_def)
    then have "uint (bigits b ! ?k) = digit (bval b) i"
      using lval_digit[OF D(2) k] by (simp add: digit_def)
    then show ?thesis using 3 D k by (simp add: BigitAt_def wp Q)
  qed
qed

section \<open>Compare\<close>

lemma less_of_div: "0 < d \<Longrightarrow> (x::int) div d < y div d \<Longrightarrow> x < y"
  by (metis linorder_not_less zdiv_mono1)

lemma eq_of_div: "d dvd x \<Longrightarrow> d dvd y \<Longrightarrow> (x::int) div d = y div d \<Longrightarrow> x = y"
  by (metis dvd_div_mult_self)

lemma ok_compare_from:
  assumes a: "wf a" and b: "wf b" and "0 \<le> lo" "lo \<le> bexp a" "lo \<le> bexp b" "lo \<le> i + 1"
    and eq: "bval a div W (i + 1) = bval b div W (i + 1)" and Q: "Q (sgn (bval a - bval b))"
  shows "ok (compare_from a b lo i) Q"
  using assms(6) eq
proof (induction "nat (i + 1 - lo)" arbitrary: i rule: less_induct)
  case less
  note eq = less.prems(2)
  show ?case
  proof (cases "lo \<le> i")
    case True
    then have i: "0 \<le> i" using assms(3) by simp
    have "ok (BigitAt a i) (\<lambda>x. uint x = digit (bval a) i)" by (rule ok_BigitAt[OF a i])
    then obtain x where x: "BigitAt a i = Some x" "uint x = digit (bval a) i" by (rule okE)
    have "ok (BigitAt b i) (\<lambda>x. uint x = digit (bval b) i)" by (rule ok_BigitAt[OF b i])
    then obtain y where y: "BigitAt b i = Some y" "uint y = digit (bval b) i" by (rule okE)
    note s = div_W_step[OF i, of "bval a"] div_W_step[OF i, of "bval b"]
    show ?thesis
    proof (cases "x = y")
      case True
      have "ok (compare_from a b lo (i - 1)) Q"
        using s x y True eq \<open>lo \<le> i\<close> by (intro less.hyps) simp_all
      then show ?thesis using x y True \<open>lo \<le> i\<close> by (subst compare_from.simps) simp
    next
      case False
      have "bval a < bval b" if "x < y"
        by (rule less_of_div[OF W_pos[of i]]) (use that s x y eq in \<open>simp add: word_less_def\<close>)
      moreover have "bval b < bval a" if "y < x"
        by (rule less_of_div[OF W_pos[of i]]) (use that s x y eq in \<open>simp add: word_less_def\<close>)
      ultimately show ?thesis using False x y Q \<open>lo \<le> i\<close> by (subst compare_from.simps) auto
    qed
  next
    case False
    then have lo: "i + 1 = lo" using less.prems(1) by simp
    have "bval a div W lo = bval b div W lo" using lo eq by simp
    then have "bval a = bval b"
      by (rule eq_of_div[OF bval_dvd[OF a assms(4,3)] bval_dvd[OF b assms(5,3)]])
    then show ?thesis using False Q by (subst compare_from.simps) simp
  qed
qed

text \<open>A longer number is greater.\<close>

lemma bval_less_of_BigitLength:
  assumes "wf a" "norm b" "BigitLength a < BigitLength b"
  shows "bval a < bval b"
proof -
  note D = wfD[OF assms(1)] and E = wfD[OF norm_wf[OF assms(2)]]
  have "0 < BigitLength b" using assms(3) D by (simp add: BigitLength_def)
  then have "0 < used_digits b" using assms(2) E by (cases "used_digits b = 0") (auto simp: norm_def BigitLength_def)
  then have "W (BigitLength b - 1) \<le> bval b" by (rule W_le_bval[OF assms(2)])
  moreover have "W (BigitLength a) \<le> W (BigitLength b - 1)" using assms(3) by (simp add: W_mono)
  ultimately show ?thesis using bval_less_W[OF assms(1)] by linarith
qed

lemma ok_Compare [wp]:
  assumes a: "norm a" and b: "norm b"
  shows "ok (Compare a b) Q \<longleftrightarrow> Q (sgn (bval a - bval b))"
proof -
  note wa = norm_wf[OF a] and wb = norm_wf[OF b]
  note A = wfD[OF wa] and B = wfD[OF wb]
  have "ok (Compare a b) (\<lambda>x. x = sgn (bval a - bval b))"
  proof -
    consider "BigitLength a < BigitLength b" | "BigitLength b < BigitLength a" | "BigitLength a = BigitLength b"
      by linarith
    then show ?thesis
    proof cases
      case 1
      with bval_less_of_BigitLength[OF wa b 1] show ?thesis by (simp add: Compare_def wp a b)
    next
      case 2
      with bval_less_of_BigitLength[OF wb a 2] show ?thesis by (simp add: Compare_def wp a b)
    next
      case 3
      have z: "bval a div W (BigitLength a) = 0" "bval b div W (BigitLength a) = 0"
        using bval_less_W[OF wa] bval_less_W[OF wb] 3 by (simp_all add: div_pos_pos_trivial)
      have "ok (compare_from a b (min (bexp a) (bexp b)) (BigitLength a - 1)) (\<lambda>x. x = sgn (bval a - bval b))"
        by (rule ok_compare_from[OF wa wb]) (use A B 3 z in \<open>auto simp: BigitLength_def min_def\<close>)
      then show ?thesis using 3 by (simp add: Compare_def wp a b)
    qed
  qed
  then show ?thesis by (auto simp: ok_def)
qed

lemma ok_Equal [wp]: "norm a \<Longrightarrow> norm b \<Longrightarrow> ok (Equal a b) Q \<longleftrightarrow> Q (bval a = bval b)"
  by (simp add: Equal_def wp sgn_if)

lemma ok_LessEqual [wp]: "norm a \<Longrightarrow> norm b \<Longrightarrow> ok (LessEqual a b) Q \<longleftrightarrow> Q (bval a \<le> bval b)"
  by (simp add: LessEqual_def wp sgn_if)

lemma ok_Less [wp]: "norm a \<Longrightarrow> norm b \<Longrightarrow> ok (Less a b) Q \<longleftrightarrow> Q (bval a < bval b)"
  by (simp add: Less_def wp sgn_if)


section \<open>PlusCompare\<close>

lemma dvd_floor_eq: "d dvd x \<Longrightarrow> (x::int) = x div d * d"
  by simp

text \<open>
  The borrow of the loop is \<open>D = c_hi - (a_hi + b_hi)\<close> over the chunks read so far; unless it is
  0 or 1, the comparison is decided.
\<close>

lemma plus_decide:
  fixes a b c w :: int
  assumes w: "0 < w" and nn: "0 \<le> a" "0 \<le> b" "0 \<le> c"
  shows "c div w - (a div w + b div w) \<ge> 2 \<Longrightarrow> a + b < c"
    "c div w - (a div w + b div w) < 0 \<Longrightarrow> c < a + b"
proof -
  have e: "a = a div w * w + a mod w" "b = b div w * w + b mod w" "c = c div w * w + c mod w" by simp_all
  have m: "0 \<le> a mod w" "a mod w < w" "0 \<le> b mod w" "b mod w < w" "0 \<le> c mod w" "c mod w < w"
    using w by simp_all
  let ?D = "c div w - (a div w + b div w)"
  have d: "c - (a + b) = ?D * w + (c mod w - a mod w - b mod w)"
    by (subst (1 2 3) e) (simp add: algebra_simps)
  show "a + b < c" if "?D \<ge> 2"
  proof -
    have "2 * w \<le> ?D * w" using that w by (intro mult_right_mono) auto
    then show ?thesis using d m by linarith
  qed
  show "c < a + b" if "?D < 0"
  proof -
    have "?D * w \<le> (-1) * w" using that w by (intro mult_right_mono) auto
    then show ?thesis using d m by linarith
  qed
qed

lemma ok_plus_compare_from:
  assumes a: "wf a" and b: "wf b" and c: "wf c"
    and lo: "0 \<le> lo" "lo \<le> bexp a" "lo \<le> bexp b" "lo \<le> bexp c" "lo \<le> i + 1"
    and D: "bval c div W (i + 1) - (bval a div W (i + 1) + bval b div W (i + 1)) = D" "D = 0 \<or> D = 1"
    and borrow: "uint borrow = D * 268435456"
    and Q: "Q (sgn (bval a + bval b - bval c))"
  shows "ok (plus_compare_from a b c lo i borrow) Q"
  using lo(5) D borrow
proof (induction "nat (i + 1 - lo)" arbitrary: i D borrow rule: less_induct)
  case less
  note D = less.prems(2,3) and borrow = less.prems(4)
  show ?case
  proof (cases "lo \<le> i")
    case True
    then have i: "0 \<le> i" using lo(1) by simp
    obtain x where x: "BigitAt a i = Some x" "uint x = digit (bval a) i"
      using ok_BigitAt[OF a i, of "\<lambda>x. uint x = digit (bval a) i"] by (auto simp: ok_def)
    obtain y where y: "BigitAt b i = Some y" "uint y = digit (bval b) i"
      using ok_BigitAt[OF b i, of "\<lambda>x. uint x = digit (bval b) i"] by (auto simp: ok_def)
    obtain z where z: "BigitAt c i = Some z" "uint z = digit (bval c) i"
      using ok_BigitAt[OF c i, of "\<lambda>x. uint x = digit (bval c) i"] by (auto simp: ok_def)
    have b28: "uint x < 268435456" "uint y < 268435456" "uint z < 268435456"
      by (simp_all add: x y z)
    have s: "uint (x + y) = uint x + uint y" using b28 by (simp add: uint_add_exact)
    have t: "uint (z + borrow) = uint z + D * 268435456"
      using b28 borrow D(2) by (subst uint_add_exact) auto
    let ?D = "bval c div W i - (bval a div W i + bval b div W i)"
    have step: "?D = (uint z + D * 268435456) - (uint x + uint y)"
      using div_W_step[OF i, of "bval a"] div_W_step[OF i, of "bval b"] div_W_step[OF i, of "bval c"]
        D(1) x y z by (simp add: algebra_simps)
    note dec = plus_decide[OF W_pos[of i] bval_nonneg[of a] bval_nonneg[of b] bval_nonneg[of c]]
    consider "?D < 0" | "?D \<ge> 2" | "?D = 0 \<or> ?D = 1" by linarith
    then show ?thesis
    proof cases
      case 1
      then have "z + borrow < x + y" using step s t by (simp add: word_less_def)
      moreover have "sgn (bval a + bval b - bval c) = 1" using dec(2)[OF 1] by simp
      ultimately show ?thesis using True x y z Q by (subst plus_compare_from.simps) simp
    next
      case 2
      then have ge: "\<not> z + borrow < x + y" using step s t by (simp add: word_less_def)
      then have "uint (z + borrow - (x + y)) = ?D"
        using step s t by (subst uint_sub_exact) (auto simp: word_less_def)
      then have "1 < z + borrow - (x + y)" using 2 by (simp add: word_less_def)
      moreover have "sgn (bval a + bval b - bval c) = -1" using dec(1)[OF 2] by simp
      ultimately show ?thesis using True x y z Q ge by (subst plus_compare_from.simps) simp
    next
      case 3
      then have ge: "\<not> z + borrow < x + y" using step s t by (auto simp: word_less_def)
      then have u: "uint (z + borrow - (x + y)) = ?D"
        using step s t by (subst uint_sub_exact) (auto simp: word_less_def)
      then have n: "\<not> 1 < z + borrow - (x + y)" using 3 by (auto simp: word_less_def)
      have "uint (push_bit 28 (z + borrow - (x + y))) = ?D * 268435456"
        using u 3 by (subst uint_push_bit_exact) auto
      then have "ok (plus_compare_from a b c lo (i - 1) (push_bit 28 (z + borrow - (x + y)))) Q"
        using 3 True by (intro less.hyps[where D = ?D]) simp_all
      then show ?thesis using True x y z ge n by (subst plus_compare_from.simps) simp
    qed
  next
    case False
    then have i: "i + 1 = lo" using less.prems(1) by simp
    have "bval c - (bval a + bval b) = D * W lo"
      using D(1) dvd_floor_eq[OF bval_dvd[OF a lo(2,1)]] dvd_floor_eq[OF bval_dvd[OF b lo(3,1)]]
        dvd_floor_eq[OF bval_dvd[OF c lo(4,1)]] i by (metis (no_types) left_diff_distrib distrib_right)
    then have "sgn (bval a + bval b - bval c) = (if D = 0 then 0 else -1)"
    proof (cases "D = 0")
      case False
      then have "bval c - (bval a + bval b) = W lo" using \<open>bval c - _ = _\<close> D(2) by simp
      then have "bval a + bval b < bval c" using W_pos[of lo] by linarith
      then show ?thesis using False by (simp add: sgn_if)
    qed (use \<open>bval c - _ = _\<close> in simp)
    moreover have "borrow = 0 \<longleftrightarrow> D = 0" using borrow D(2) by (auto simp: word_uint_eq_iff)
    ultimately show ?thesis using False Q by (subst plus_compare_from.simps) simp
  qed
qed

lemma W_le_bval': "norm b \<Longrightarrow> 0 < BigitLength b \<Longrightarrow> W (BigitLength b - 1) \<le> bval b"
  using wfD[OF norm_wf, of b]
  by (intro W_le_bval) (cases "used_digits b = 0"; auto simp: norm_def BigitLength_def)+

lemma BigitLength_nonneg: "wf b \<Longrightarrow> 0 \<le> BigitLength b"
  by (simp add: wf_def BigitLength_def)

text \<open>The comparison once the longer summand comes first.\<close>

lemma ok_PlusCompare_ordered:
  assumes n: "norm a" "norm b" "norm c" and ab: "BigitLength b \<le> BigitLength a"
  shows "ok (PlusCompare a b c) (\<lambda>x. x = sgn (bval a + bval b - bval c))"
proof -
  note w = n[THEN norm_wf]
  note A = wfD[OF w(1)] and B = wfD[OF w(2)] and C = wfD[OF w(3)]
  note len = w[THEN BigitLength_nonneg] and up = w[THEN bval_less_W]
  have u2: "bval b < W (BigitLength a)" using up(2) W_mono[OF ab] by linarith
  consider (1) "BigitLength a + 1 < BigitLength c" | (2) "BigitLength c < BigitLength a"
    | (3) "BigitLength b \<le> bexp a" "BigitLength a < BigitLength c" "BigitLength c \<le> BigitLength a + 1"
    | (4) "\<not> (BigitLength b \<le> bexp a \<and> BigitLength a < BigitLength c)" "BigitLength a \<le> BigitLength c"
        "BigitLength c \<le> BigitLength a + 1" by linarith
  then show ?thesis
  proof cases
    case 1
    have "268435456 * W (BigitLength a) \<le> W (BigitLength c - 1)" using 1 len by (intro W_less) auto
    moreover have "W (BigitLength c - 1) \<le> bval c" using 1 len by (intro W_le_bval'[OF n(3)]) auto
    ultimately have "bval a + bval b < bval c" using up(1) u2 W_pos[of "BigitLength a"] by linarith
    then show ?thesis using 1 ab by (subst PlusCompare.simps) (simp add: wp n)
  next
    case 2
    have "W (BigitLength c) \<le> W (BigitLength a - 1)" using 2 by (simp add: W_mono)
    moreover have "W (BigitLength a - 1) \<le> bval a" using 2 len by (intro W_le_bval'[OF n(1)]) auto
    ultimately have "bval c < bval a + bval b" using up(3) bval_nonneg[of b] by linarith
    then show ?thesis using 2 ab by (subst PlusCompare.simps) (simp add: wp n)
  next
    case 3
    have "W (bexp a) dvd bval a" by (rule bval_dvd[OF w(1)]) (use A in auto)
    moreover have "W (bexp a) dvd W (BigitLength a)"
      using W_add[of "bexp a" "used_digits a"] A by (simp add: BigitLength_def add.commute)
    ultimately have "W (bexp a) dvd W (BigitLength a) - bval a" by (simp add: dvd_diff)
    then have "W (bexp a) \<le> W (BigitLength a) - bval a" using up(1) by (intro zdvd_imp_le) auto
    moreover have "bval b < W (bexp a)" using up(2) W_mono[OF 3(1)] by linarith
    moreover have "W (BigitLength a) \<le> W (BigitLength c - 1)" using 3 by (simp add: W_mono)
    moreover have "W (BigitLength c - 1) \<le> bval c" using 3 len by (intro W_le_bval'[OF n(3)]) auto
    ultimately have "bval a + bval b < bval c" by linarith
    then show ?thesis using 3 ab by (subst PlusCompare.simps) (simp add: wp n)
  next
    case 4
    have "W (BigitLength a) \<le> W (BigitLength c)" using 4 by (simp add: W_mono)
    then have z: "bval a div W (BigitLength c) = 0" "bval b div W (BigitLength c) = 0"
        "bval c div W (BigitLength c) = 0"
      using up u2 by (simp_all add: div_pos_pos_trivial)
    have "ok (plus_compare_from a b c (min (min (bexp a) (bexp b)) (bexp c)) (BigitLength c - 1) 0)
        (\<lambda>x. x = sgn (bval a + bval b - bval c))"
      by (rule ok_plus_compare_from[OF w, where D = 0])
        (use A B C z in \<open>auto simp: BigitLength_def min_def\<close>)
    then show ?thesis using 4 ab by (subst PlusCompare.simps) (auto simp: wp n)
  qed
qed

lemma ok_PlusCompare [wp]:
  assumes n: "norm a" "norm b" "norm c"
  shows "ok (PlusCompare a b c) Q \<longleftrightarrow> Q (sgn (bval a + bval b - bval c))"
proof -
  have "ok (PlusCompare a b c) (\<lambda>x. x = sgn (bval a + bval b - bval c))"
  proof (cases "BigitLength b \<le> BigitLength a")
    case True
    then show ?thesis by (rule ok_PlusCompare_ordered[OF n])
  next
    case False
    then have "ok (PlusCompare b a c) (\<lambda>x. x = sgn (bval b + bval a - bval c))"
      by (intro ok_PlusCompare_ordered n) simp
    then show ?thesis using False by (subst PlusCompare.simps) (simp add: wp n add.commute)
  qed
  then show ?thesis by (auto simp: ok_def)
qed

end
