(* ===== verification/Bignum_Add.thy ===== *)
theory Bignum_Add
  imports Bignum_Compare
begin

text \<open>Bignum: addition, subtraction and subtraction of a multiple.\<close>

section \<open>Addition\<close>

text \<open>
  What the loops over two numbers keep: the chunks from \<open>p\<close> on are those of \<open>orig\<close>, and the
  list with the pending carry (negative for a borrow) at \<open>p\<close> has the value \<open>T\<close>.
\<close>

definition pend_inv :: "u32 list \<Rightarrow> int \<Rightarrow> u32 list \<Rightarrow> int \<Rightarrow> int \<Rightarrow> bool" where
  "pend_inv orig p bs c T \<longleftrightarrow> length bs = length orig \<and> bounded bs \<and>
     drop (nat p) bs = drop (nat p) orig \<and> lval bs + c * W p = T"

lemma pend_inv_init: "bounded orig \<Longrightarrow> T = lval orig \<Longrightarrow> pend_inv orig p orig 0 T"
  by (simp add: pend_inv_def)

lemma pend_inv_nth:
  assumes "pend_inv orig p bs c T" "0 \<le> p" "p < int (length orig)"
  shows "bs ! nat p = orig ! nat p"
proof -
  have "hd (drop (nat p) bs) = hd (drop (nat p) orig)" "length bs = length orig"
    using assms by (simp_all add: pend_inv_def)
  moreover have "nat p < length orig" using assms by simp
  ultimately show ?thesis by (metis hd_drop_conv_nth)
qed

lemma pend_inv_step:
  assumes inv: "pend_inv orig p bs c T" and p: "0 \<le> p" "p < int (length orig)"
    and d: "uint d < 268435456" "uint d + 268435456 * c' = uint (orig ! nat p) + y + c"
    and T: "T' = T + y * W p"
  shows "pend_inv orig (p + 1) (bs[nat p := d]) c' T'"
proof -
  have I: "length bs = length orig" "bounded bs" "drop (nat p) bs = drop (nat p) orig"
    "lval bs + c * W p = T" using inv by (auto simp: pend_inv_def)
  have n: "nat (p + 1) = Suc (nat p)" using p by simp
  have "drop (Suc (nat p)) (bs[nat p := d]) = drop (Suc (nat p)) orig"
    using arg_cong[OF I(3), of "drop 1"] by (simp add: drop_drop)
  moreover have "lval (bs[nat p := d]) = lval bs + (uint d - uint (orig ! nat p)) * W p"
    using p I(1) pend_inv_nth[OF inv p] by (simp add: lval_update)
  moreover have "(uint d + 268435456 * c') * W p = (uint (orig ! nat p) + y + c) * W p"
    by (simp only: d(2))
  ultimately have "lval (bs[nat p := d]) + c' * W (p + 1) = T'"
    using I(4) T W_Suc[OF p(1)] by (simp add: algebra_simps)
  then show ?thesis
    using I d(1) n bounded_update[OF I(2) d(1)] \<open>drop (Suc _) _ = _\<close> by (simp add: pend_inv_def)
qed

lemma pend_inv_len: "pend_inv orig p bs c T \<Longrightarrow> length bs = length orig"
  by (simp add: pend_inv_def)

lemma pend_inv_final:
  assumes inv: "pend_inv orig p bs 0 T" and o: "bounded orig" "lval orig < W u" "p \<le> u" "0 \<le> u"
      "u \<le> int (length orig)"
  shows "lval bs = T" "bounded bs" "lval bs < W u"
proof -
  have I: "length bs = length orig" "bounded bs" "drop (nat p) bs = drop (nat p) orig" "lval bs = T"
    using inv by (auto simp: pend_inv_def)
  show "lval bs = T" "bounded bs" by (rule I)+
  have "drop (nat u) bs = drop (nat u - nat p) (drop (nat p) bs)" using o(3) by (simp add: nat_mono)
  also have "\<dots> = drop (nat u) orig" using o(3) by (simp add: I(3) nat_mono)
  finally show "lval bs < W u"
    using lval_less_drop[of bs orig "nat u"] I o by simp
qed

text \<open>The rest of a carry chain.\<close>

lemma ok_AddBignum:
  assumes n: "norm this" "norm other" and cap: "bval this + bval other < W 127"
    and Q: "\<And>r. norm r \<Longrightarrow> bval r = bval this + bval other \<Longrightarrow> Q r"
  shows "ok (AddBignum other this) Q"
proof -
  note w = n[THEN norm_wf]
  note A = wfD[OF w(1)] and B = wfD[OF w(2)]
  have bl: "BigitLength this \<le> 127" "BigitLength other \<le> 127"
  proof -
    have "bval this < W 127" "bval other < W 127"
      using cap bval_nonneg[of this] bval_nonneg[of other] by linarith+
    then show "BigitLength this \<le> 127" "BigitLength other \<le> 127"
      using BigitLength_le[OF n(1)] BigitLength_le[OF n(2)] by simp_all
  qed
  have al: "ok (Align other this) (\<lambda>r. wf r \<and> bval r = bval this \<and> bexp r = min (bexp this) (bexp other) \<and>
     BigitLength r = BigitLength this \<and> (0 < used_digits this \<longrightarrow> norm r))"
    by (rule ok_Align[OF w(1) B(5)]) (use bl n B A in \<open>auto simp: BigitLength_def\<close>)
  have core: "ok (do {
     EnsureCapacity (1 + max (BigitLength t) (BigitLength other) - bexp t);
     let bigit_pos = bexp other - bexp t;
     ensure (bigit_pos \<ge> 0);
     (bs, bigit_pos, carry) \<leftarrow> for_up 0 (used_digits other)
       (\<lambda>i (bs, bigit_pos, carry). do {
          x \<leftarrow> rd bs bigit_pos;
          y \<leftarrow> rd (bigits other) i;
          let sum = x + y + carry;
          bs \<leftarrow> wr bs bigit_pos (sum AND kBigitMask);
          Some (bs, bigit_pos + 1, drop_bit (nat kBigitSize) sum) }) (bigits t, bigit_pos, 0);
     (bs, bigit_pos, carry) \<leftarrow> while_do (\<lambda>(bs, bigit_pos, carry). Some (carry \<noteq> 0))
       (\<lambda>(bs, bigit_pos, carry). do {
          x \<leftarrow> rd bs bigit_pos;
          let sum = x + carry;
          bs \<leftarrow> wr bs bigit_pos (sum AND kBigitMask);
          Some (bs, bigit_pos + 1, drop_bit (nat kBigitSize) sum) }) (bs, bigit_pos, carry);
     let t = t\<lparr>bigits := bs, used_digits := max bigit_pos (used_digits t)\<rparr>;
     assert_clamped t;
     Some t }) Q"
    if t: "wf t \<and> bval t = bval this \<and> bexp t = min (bexp this) (bexp other) \<and>
     BigitLength t = BigitLength this \<and> (0 < used_digits this \<longrightarrow> norm t)" for t
  proof -
    define off where "off = bexp other - bexp t"
    define S where "S = lval (bigits t) + lval (bigits other) * W off"
    note C = wfD[OF conjunct1[OF t]]
    have off: "0 \<le> off" "off + used_digits other \<le> 127"
      using t bl A B C by (auto simp: off_def BigitLength_def min_def)
    have "BigitLength t \<le> 127" using t bl by simp
    then have tlen: "used_digits t \<le> 127" using C(5) by (simp add: BigitLength_def)
    have bv: "bval this + bval other = S * W (bexp t)"
    proof -
      have "bval this = lval (bigits t) * W (bexp t)" using t bval_def[of t] by metis
      moreover have "W (bexp other) = W off * W (bexp t)"
        using W_add[OF off(1) C(5)] by (simp only: off_def diff_add_cancel)
      ultimately show ?thesis by (simp add: bval_def[of other] S_def distrib_right mult.assoc)
    qed
    have Scap: "S < W 127"
    proof -
      have "0 \<le> S" by (simp add: S_def less_imp_le)
      then have "S * 1 \<le> S * W (bexp t)" by (intro mult_left_mono W_ge_1)
      then show ?thesis using cap bv by simp
    qed
    let ?P = "\<lambda>i (bs, p, c :: u32). p = off + i \<and> uint c \<le> 1 \<and>
       pend_inv (bigits t) (off + i) bs (uint c) (lval (bigits t) + lval (take (nat i) (bigits other)) * W off)"
    have one: "ok (for_up 0 (used_digits other)
       (\<lambda>i (bs, bigit_pos, carry). do {
          x \<leftarrow> rd bs bigit_pos;
          y \<leftarrow> rd (bigits other) i;
          let sum = x + y + carry;
          bs \<leftarrow> wr bs bigit_pos (sum AND kBigitMask);
          Some (bs, bigit_pos + 1, drop_bit 28 sum) }) (bigits t, off, 0)) (?P (used_digits other))"
    proof (rule ok_for_up[where P = ?P], goal_cases)
      case (3 j s)
      then have j: "0 \<le> j" "j < used_digits other" and P: "?P j s" by auto
      obtain bs p c where s: "s = (bs, p, c)" by (cases s)
      have inv: "pend_inv (bigits t) (off + j) bs (uint c)
          (lval (bigits t) + lval (take (nat j) (bigits other)) * W off)"
        and c: "uint c \<le> 1" and p: "p = off + j" using P s by auto
      have pr: "0 \<le> p" "p < int (length (bigits t))" "j < int (length (bigits other))" using p j off C B by auto
      note nth = pend_inv_nth[OF inv, folded p, OF pr(1,2)]
      let ?x = "bigits t ! nat p" and ?y = "bigits other ! nat j"
      have x: "uint ?x \<le> 268435455" by (rule bounded_rd[OF C(2) pr(1,2)])
      have y: "uint ?y \<le> 268435455" by (rule bounded_rd[OF B(2) j(1) pr(3)])
      have sum: "uint (?x + ?y + c) = uint ?x + uint ?y + uint c"
        using x y c by (simp add: uint_add_exact)
      have tk: "lval (take (nat (j + 1)) (bigits other)) = lval (take (nat j) (bigits other)) + uint ?y * W j"
        using lval_take_Suc[of "nat j" "bigits other"] j pr by (simp add: nat_add_distrib)
      have "pend_inv (bigits t) (p + 1) (bs[nat p := (?x + ?y + c) AND kBigitMask])
          (uint (drop_bit 28 (?x + ?y + c)))
          (lval (bigits t) + lval (take (nat (j + 1)) (bigits other)) * W off)"
      proof (rule pend_inv_step[OF inv[folded p] pr(1,2), where y = "uint ?y"])
        have "W p = W off * W j" using W_add[OF off(1) j(1)] by (simp only: p)
        then show "lval (bigits t) + lval (take (nat (j + 1)) (bigits other)) * W off =
            lval (bigits t) + lval (take (nat j) (bigits other)) * W off + uint ?y * W p"
          by (simp only: tk distrib_right) (simp add: mult_ac)
      qed (simp_all add: mask28_ints uint_drop_bit sum)
      moreover have "uint (drop_bit 28 (?x + ?y + c)) \<le> 1"
      proof -
        have "(uint ?x + uint ?y + uint c) div 268435456 < 2"
          by (rule div_less_mult) (use x y c in linarith)+
        then show ?thesis by (simp add: uint_drop_bit sum)
      qed
      ultimately show ?case
        using s p pr nth pend_inv_len[OF inv] j by (simp add: wp Let_def add.assoc)
    qed (use off B C in \<open>auto simp: pend_inv_init\<close>)
    define q where "q = off + used_digits other"
    have q: "0 \<le> q" "q \<le> 127" using off B by (simp_all add: q_def)
    have tno: "used_digits this = 0 \<Longrightarrow> used_digits t = 0 \<and> bexp t = 0"
      using t n C by (auto simp: norm_def BigitLength_def)
    have tn: "norm t" if "0 < used_digits t" using t tno that A(3) by (cases "used_digits this = 0") auto
    let ?R = "\<lambda>(bs, p, c :: u32). q \<le> p \<and> p \<le> 127 \<and> uint c \<le> 1 \<and>
       pend_inv (bigits t) p bs (uint c) S \<and> (q < p \<longrightarrow> W (p - 1) \<le> S)"
    have two: "ok (while_do (\<lambda>(bs, bigit_pos, carry). Some (carry \<noteq> 0))
       (\<lambda>(bs, bigit_pos, carry). do {
          x \<leftarrow> rd bs bigit_pos;
          let sum = x + carry;
          bs \<leftarrow> wr bs bigit_pos (sum AND kBigitMask);
          Some (bs, bigit_pos + 1, drop_bit 28 sum) }) (bs, p, c)) (\<lambda>(bs, p, c). c = 0 \<and> ?R (bs, p, c))"
      if P: "?P (used_digits other) (bs, p, c)" for bs p c
    proof (rule ok_while_do[where P = ?R and m = "\<lambda>(bs, p, c). nat (128 - p)"], goal_cases)
      case 1
      have "lval (take (nat (used_digits other)) (bigits other)) = lval (bigits other)"
        using B by (intro lval_take_small) auto
      then show ?case using P q by (simp add: q_def S_def)
    next
      case (2 s)
      obtain bs p c where s: "s = (bs, p, c)" by (cases s)
      have R: "q \<le> p" "p \<le> 127" "uint c \<le> 1" "pend_inv (bigits t) p bs (uint c) S"
        "q < p \<longrightarrow> W (p - 1) \<le> S" using 2 s by auto
      show ?case
      proof (cases "c = 0")
        case True
        then show ?thesis using 2 s by simp
      next
        case False
        then have c1: "uint c = 1" using R(3) uint_nonnegative[of c] uint_0_iff[of c] by linarith
        then have "lval bs + W p = S" using R(4) by (simp add: pend_inv_def)
        then have Wp: "W p \<le> S" using lval_nonneg[of bs] by linarith
        then have "W p < W 127" using Scap by linarith
        then have p127: "p < 127" using W_less_iff[of p 127] R(1) q by simp
        have pr: "0 \<le> p" "p < int (length (bigits t))" using R q p127 C by auto
        note nth = pend_inv_nth[OF R(4) pr]
        let ?x = "bigits t ! nat p"
        have x: "uint ?x \<le> 268435455" by (rule bounded_rd[OF C(2) pr])
        have sum: "uint (?x + c) = uint ?x + 1" using x c1 by (simp add: uint_add_exact)
        have "pend_inv (bigits t) (p + 1) (bs[nat p := (?x + c) AND kBigitMask]) (uint (drop_bit 28 (?x + c))) S"
          by (rule pend_inv_step[OF R(4) pr, where y = 0]) (simp_all add: mask28_ints uint_drop_bit sum c1)
        moreover have "uint (drop_bit 28 (?x + c)) \<le> 1"
        proof -
          have "(uint ?x + 1) div 268435456 < 2"
            by (rule div_less_mult) (use x in linarith)+
          then show ?thesis by (simp add: uint_drop_bit sum)
        qed
        ultimately show ?thesis
          using s False pr nth pend_inv_len[OF R(4)] R(1) Wp p127 by (simp add: wp Let_def)
      qed
    qed
    have three: "ok (do { assert_clamped (t\<lparr>bigits := bs, used_digits := max p (used_digits t)\<rparr>);
        Some (t\<lparr>bigits := bs, used_digits := max p (used_digits t)\<rparr>) }) Q" if R: "?R (bs, p, 0)" for bs p
    proof -
      let ?r = "t\<lparr>bigits := bs, used_digits := max p (used_digits t)\<rparr>"
      have lo: "lval (bigits t) < W (max p (used_digits t))"
        using C(6) W_mono[of "used_digits t" "max p (used_digits t)"] by linarith
      have inv: "pend_inv (bigits t) p bs 0 S" using R by simp
      note fin = pend_inv_final[OF inv C(2) lo]
      have F: "lval bs = S" "bounded bs" "lval bs < W (max p (used_digits t))"
        using fin R q tlen C by auto
      have w': "wf ?r" using F R q tlen C pend_inv_len[OF inv] by (auto simp: wf_def)
      have low: "W (max p (used_digits t) - 1) \<le> S" if u: "0 < max p (used_digits t)"
      proof (cases "p \<le> used_digits t")
        case True
        then have "norm t" using u tn by simp
        then have "W (used_digits t - 1) \<le> lval (bigits t)" using u True by (simp add: norm_def)
        then show ?thesis using True by (simp add: S_def add_increasing2 less_imp_le max_def)
      next
        case False
        show ?thesis
        proof (cases "q < p")
          case True
          then show ?thesis using False R by (simp add: max_def)
        next
          case nq: False
          then have pq: "p = q" using R by simp
          have "used_digits other \<noteq> 0"
          proof
            assume z: "used_digits other = 0"
            then have "bexp other = 0" using n(2) by (simp add: norm_def)
            then have "off = 0" using off C by (simp add: off_def)
            then show False using z pq False C by (simp add: q_def)
          qed
          then have uo: "0 < used_digits other" using B by simp
          then have "W (used_digits other - 1) \<le> lval (bigits other)" using n(2) by (simp add: norm_def)
          then have "W (used_digits other - 1) * W off \<le> lval (bigits other) * W off"
            by (intro mult_right_mono) (simp_all add: less_imp_le)
          moreover have "W (p - 1) = W (used_digits other - 1) * W off"
            using W_add[of "used_digits other - 1" off] uo off pq by (simp add: q_def algebra_simps)
          ultimately show ?thesis using False by (simp add: S_def add_increasing max_def)
        qed
      qed
      have zero: "max p (used_digits t) = 0 \<Longrightarrow> bexp t = 0"
      proof -
        assume z: "max p (used_digits t) = 0"
        then have "used_digits t = 0" "p = 0" using C R q by (auto simp: max_def split: if_splits)
        then have "used_digits other = 0" "off = 0" using R q off B by (auto simp: q_def)
        then have "bexp other = 0" using n(2) by (simp add: norm_def)
        then show ?thesis using \<open>off = 0\<close> C by (simp add: off_def)
      qed
      have "norm ?r" using w' low zero F by (simp add: norm_def)
      moreover have "bval ?r = bval this + bval other" using F bv by (simp add: bval_def)
      ultimately show ?thesis by (simp add: wp Q)
    qed
    have ec: "1 + max (BigitLength t) (BigitLength other) - bexp t \<le> 128"
    proof -
      have "BigitLength t = BigitLength this" using t by simp
      then show ?thesis using bl C(5) by linarith
    qed
    have fin: "ok (do { (bs, bigit_pos, carry) \<leftarrow> while_do (\<lambda>(bs, bigit_pos, carry). Some (carry \<noteq> 0))
       (\<lambda>(bs, bigit_pos, carry). do {
          x \<leftarrow> rd bs bigit_pos;
          let sum = x + carry;
          bs \<leftarrow> wr bs bigit_pos (sum AND kBigitMask);
          Some (bs, bigit_pos + 1, drop_bit 28 sum) }) (bs, p, c);
        assert_clamped (t\<lparr>bigits := bs, used_digits := max bigit_pos (used_digits t)\<rparr>);
        Some (t\<lparr>bigits := bs, used_digits := max bigit_pos (used_digits t)\<rparr>) }) Q"
      if P: "?P (used_digits other) (bs, p, c)" for bs p c
      by (subst ok_bind, rule ok_mono[OF two[OF P]]) (use three in auto)
    show ?thesis
      using ec off(1) unfolding off_def[symmetric]
      apply (simp add: EnsureCapacity_def ok_ensure ok_bind[of "ensure _"] Let_def)
      apply (subst ok_bind, rule ok_mono[OF one[unfolded Let_def]])
      apply (use fin in \<open>auto simp: Let_def\<close>)
      done
  qed
  show ?thesis
    unfolding AddBignum_def using n by (simp add: wp) (rule ok_mono[OF al], use core in \<open>simp add: wp\<close>)
qed


lemma ok_AddUInt64:
  assumes n: "norm this" and cap: "bval this + uint v < W 127"
    and Q: "\<And>r. norm r \<Longrightarrow> bval r = bval this + uint v \<Longrightarrow> Q r"
  shows "ok (AddUInt64 v this) Q"
proof (cases "v = 0")
  case True
  then show ?thesis using n by (simp add: AddUInt64_def Q)
next
  case False
  show ?thesis
    using False n cap unfolding AddUInt64_def
    by (simp add: wp, intro ok_AssignUInt64 ok_AddBignum) (auto intro: Q)
qed

section \<open>Subtraction\<close>

text \<open>One chunk of a subtraction: the chunk that stays and the borrow.\<close>

lemma borrow_chunk:
  fixes x s :: u32
  assumes x: "uint x < 268435456" and s: "uint s \<le> 268435456"
  shows "uint ((x - s) AND kBigitMask) - 268435456 * uint (drop_bit 31 (x - s)) = uint x - uint s"
    "uint (drop_bit 31 (x - s)) = (if uint x < uint s then 1 else 0)"
proof -
  have "uint ((x - s) AND kBigitMask) - 268435456 * uint (drop_bit 31 (x - s)) = uint x - uint s \<and>
    uint (drop_bit 31 (x - s)) = (if uint x < uint s then 1 else 0)"
  proof (cases "uint x < uint s")
    case False
    then have d: "uint (x - s) = uint x - uint s" by (simp add: uint_sub_exact)
    have "0 \<le> uint s" by simp
    then have r: "0 \<le> uint (x - s)" "uint (x - s) < 268435456" using x False d by linarith+
    then show ?thesis using False d by (simp add: mask28_ints uint_drop_bit div_pos_pos_trivial)
  next
    case True
    have d: "uint (x - s) = uint x - uint s + 4294967296"
      using True by (simp add: uint_sub_if')
    have "0 \<le> uint x" by simp
    then have lo: "2147483648 \<le> uint (x - s)" "uint (x - s) < 4294967296" using s True d by linarith+
    have "uint (x - s) mod 268435456 = (uint x - uint s + 268435456) mod 268435456"
    proof -
      have "uint (x - s) = (uint x - uint s + 268435456) + 268435456 * 15" using d by simp
      then show ?thesis by (simp only: mod_mult_self2)
    qed
    also have "\<dots> = uint x - uint s + 268435456"
    proof (rule mod_pos_pos_trivial)
      show "0 \<le> uint x - uint s + 268435456" using s \<open>0 \<le> uint x\<close> by linarith
    qed (use True in linarith)
    moreover have "uint (x - s) div 2147483648 = 1"
      using lo by (simp add: int_div_pos_eq[of _ _ 1 "uint (x - s) - 2147483648"])
    ultimately show ?thesis using True by (simp add: mask28_ints uint_drop_bit)
  qed
  then show "uint ((x - s) AND kBigitMask) - 268435456 * uint (drop_bit 31 (x - s)) = uint x - uint s"
    "uint (drop_bit 31 (x - s)) = (if uint x < uint s then 1 else 0)" by auto
qed

text \<open>Following a borrow to the left; shared by both subtractions.\<close>

lemma borrow_step:
  assumes inv: "pend_inv orig p bs (- uint b) T" and T: "0 \<le> T" and b: "b \<noteq> 0" "uint b \<le> 268435456"
    and p: "0 \<le> p" and o: "bounded orig" "lval orig < W u" "u \<le> int (length orig)" "0 \<le> u"
  shows "p < u" "p < int (length bs)" "bs ! nat p = orig ! nat p"
    "pend_inv orig (p + 1) (bs[nat p := (orig ! nat p - b) AND kBigitMask])
       (- uint (drop_bit 31 (orig ! nat p - b))) T"
    "uint (drop_bit 31 (orig ! nat p - b)) \<le> 1"
proof -
  have b1: "1 \<le> uint b" using b uint_nonnegative[of b] uint_0_iff[of b] by linarith
  have I: "length bs = length orig" "bounded bs" "drop (nat p) bs = drop (nat p) orig"
    "lval bs - uint b * W p = T" using inv by (auto simp: pend_inv_def)
  show pu: "p < u"
  proof (rule ccontr)
    assume "\<not> p < u"
    then have up: "u \<le> p" by simp
    have "W p \<le> uint b * W p" using b1 by simp
    then have "W p \<le> lval bs" using I(4) T by linarith
    moreover have "lval bs < W p"
    proof (cases "p \<le> int (length orig)")
      case True
      have "lval orig < W (int (nat p))" using o(2) W_mono[OF up] p by simp
      then show ?thesis using lval_less_drop[OF I(2,1,3) o(1)] True p by simp
    next
      case False
      then show ?thesis using lval_less[OF I(2)] W_mono[of "int (length bs)" p] I(1) by simp
    qed
    ultimately show False by simp
  qed
  then have pr: "p < int (length orig)" using o(3) by simp
  then show "p < int (length bs)" using I(1) by simp
  show "bs ! nat p = orig ! nat p" by (rule pend_inv_nth[OF inv p pr])
  have x: "uint (orig ! nat p) < 268435456" using bounded_rd[OF o(1) p pr] by simp
  note bc = borrow_chunk[OF x b(2)]
  show "pend_inv orig (p + 1) (bs[nat p := (orig ! nat p - b) AND kBigitMask])
       (- uint (drop_bit 31 (orig ! nat p - b))) T"
    by (rule pend_inv_step[OF inv p pr, where y = 0]) (use bc(1) in \<open>simp_all add: mask28_ints\<close>)
  show "uint (drop_bit 31 (orig ! nat p - b)) \<le> 1" using bc(2) by simp
qed

lemma lval_take_step:
  "0 \<le> j \<Longrightarrow> j < int (length ys) \<Longrightarrow> lval (take (nat (j + 1)) ys) = lval (take (nat j) ys) + uint (ys ! nat j) * W j"
  using lval_take_Suc[of "nat j" ys] by (simp add: nat_add_distrib)

lemma lval_take_used: "wf b \<Longrightarrow> lval (take (nat (used_digits b)) (bigits b)) = lval (bigits b)"
  by (intro lval_take_small) (auto simp: wf_def)

text \<open>One step of a loop that subtracts \<open>f * other\<close>, shifted by \<open>off\<close> chunks.\<close>

lemma sub_step:
  assumes inv: "pend_inv orig (off + j) bs (- b) (lval orig - f * lval (take (nat j) ys) * W off)"
    and j: "0 \<le> j" "j < int (length ys)" and off: "0 \<le> off" "off + j < int (length orig)"
    and d: "uint d < 268435456" "uint d - 268435456 * b' = uint (orig ! nat (off + j)) - f * uint (ys ! nat j) - b"
  shows "pend_inv orig (off + (j + 1)) (bs[nat (off + j) := d]) (- b') (lval orig - f * lval (take (nat (j + 1)) ys) * W off)"
proof -
  have p: "0 \<le> off + j" using j off by simp
  have "pend_inv orig (off + j + 1) (bs[nat (off + j) := d]) (- b') (lval orig - f * lval (take (nat (j + 1)) ys) * W off)"
  proof (rule pend_inv_step[OF inv p off(2) d(1), where y = "- f * uint (ys ! nat j)"])
    show "lval orig - f * lval (take (nat (j + 1)) ys) * W off =
      lval orig - f * lval (take (nat j) ys) * W off + - f * uint (ys ! nat j) * W (off + j)"
      unfolding W_add[OF off(1) j(1)] lval_take_step[OF j] by (simp add: algebra_simps)
  qed (use d(2) in simp)
  then show ?thesis by (simp add: add.assoc)
qed

lemma ok_SubtractBignum:
  assumes n: "norm this" "norm other" and le: "bval other \<le> bval this" and cap: "bval this < W 127"
    and Q: "\<And>r. norm r \<Longrightarrow> bval r = bval this - bval other \<Longrightarrow>
       bexp r \<le> max 0 (min (bexp this) (bexp other)) \<Longrightarrow> Q r"
  shows "ok (SubtractBignum other this) Q"
proof -
  note w = n[THEN norm_wf]
  note A = wfD[OF w(1)] and B = wfD[OF w(2)]
  have bl: "BigitLength this \<le> 127" by (rule BigitLength_le[OF n(1) cap]) simp
  have bl': "BigitLength other \<le> 127" using BigitLength_le[OF n(2), of 127] le cap by simp
  have al: "ok (Align other this) (\<lambda>r. wf r \<and> bval r = bval this \<and> bexp r = min (bexp this) (bexp other) \<and>
     BigitLength r = BigitLength this)"
    by (rule ok_Align[OF w(1) B(5)]) (use bl n B A in \<open>auto simp: BigitLength_def\<close>)
  have core: "ok (do {
     let offset = bexp other - bexp t;
     (bs, borrow) \<leftarrow> for_up 0 (used_digits other)
       (\<lambda>i (bs, borrow). do {
          ensure (borrow = 0 \<or> borrow = 1);
          x \<leftarrow> rd bs (i + offset);
          y \<leftarrow> rd (bigits other) i;
          let difference = x - y - borrow;
          bs \<leftarrow> wr bs (i + offset) (difference AND kBigitMask);
          Some (bs, drop_bit (nat (kChunkSize - 1)) difference) }) (bigits t, 0);
     (bs, _, _) \<leftarrow> while_do (\<lambda>(bs, borrow, i). Some (borrow \<noteq> 0))
       (\<lambda>(bs, borrow, i). do {
          x \<leftarrow> rd bs (i + offset);
          let difference = x - borrow;
          bs \<leftarrow> wr bs (i + offset) (difference AND kBigitMask);
          Some (bs, drop_bit (nat (kChunkSize - 1)) difference, i + 1) })
       (bs, borrow, used_digits other);
     Clamp (t\<lparr>bigits := bs\<rparr>) }) Q"
    if t: "wf t \<and> bval t = bval this \<and> bexp t = min (bexp this) (bexp other) \<and>
     BigitLength t = BigitLength this" for t
  proof -
    define off where "off = bexp other - bexp t"
    define T where "T = lval (bigits t) - lval (bigits other) * W off"
    note C = wfD[OF conjunct1[OF t]]
    have tl: "BigitLength t \<le> 127" using t bl by simp
    then have tlen: "used_digits t \<le> 127" using C(5) by (simp add: BigitLength_def)
    have off: "0 \<le> off" using t by (simp add: off_def)
    have Woe: "W (bexp other) = W off * W (bexp t)"
      using W_add[OF off C(5)] by (simp only: off_def diff_add_cancel)
    have bvt: "bval this = lval (bigits t) * W (bexp t)" using t bval_def[of t] by metis
    have bv: "bval this - bval other = T * W (bexp t)"
      using bvt Woe by (simp add: bval_def[of other] T_def left_diff_distrib mult.assoc)
    have T0: "0 \<le> T"
    proof -
      have "0 \<le> T * W (bexp t)" using bv le by simp
      then show ?thesis by (simp add: zero_le_mult_iff) (use W_pos[of "bexp t"] in linarith)
    qed
    have offu: "off + used_digits other \<le> 128" if "0 < used_digits other"
    proof -
      have "off + used_digits other = BigitLength other - bexp t" by (simp add: off_def BigitLength_def)
      then show ?thesis using bl' C(5) by linarith
    qed
    let ?P = "\<lambda>i (bs, b :: u32). uint b \<le> 1 \<and>
       pend_inv (bigits t) (off + i) bs (- uint b) (lval (bigits t) - 1 * lval (take (nat i) (bigits other)) * W off)"
    have one: "ok (for_up 0 (used_digits other)
       (\<lambda>i (bs, borrow). do {
          ensure (borrow = 0 \<or> borrow = 1);
          x \<leftarrow> rd bs (i + off);
          y \<leftarrow> rd (bigits other) i;
          let difference = x - y - borrow;
          bs \<leftarrow> wr bs (i + off) (difference AND kBigitMask);
          Some (bs, drop_bit 31 difference) }) (bigits t, 0)) (?P (used_digits other))"
    proof (rule ok_for_up[where P = ?P], goal_cases)
      case (3 j s)
      then have j: "0 \<le> j" "j < used_digits other" and P: "?P j s" by auto
      obtain bs b where s: "s = (bs, b)" by (cases s)
      have inv: "pend_inv (bigits t) (off + j) bs (- uint b)
          (lval (bigits t) - 1 * lval (take (nat j) (bigits other)) * W off)"
        and b: "uint b \<le> 1" using P s by auto
      have pr: "0 \<le> off + j" "off + j < int (length (bigits t))" "j < int (length (bigits other))"
        using j off offu C B by auto
      note nth = pend_inv_nth[OF inv pr(1,2)]
      let ?x = "bigits t ! nat (off + j)" and ?y = "bigits other ! nat j"
      have x: "uint ?x < 268435456" using bounded_rd[OF C(2) pr(1,2)] by simp
      have y: "uint ?y \<le> 268435455" by (rule bounded_rd[OF B(2) j(1) pr(3)])
      have s': "uint (?y + b) = uint ?y + uint b" using y b by (simp add: uint_add_exact)
      have bb: "uint (?y + b) \<le> 268435456" using s' y b by linarith
      note bc = borrow_chunk[OF x bb]
      let ?d = "?x - (?y + b)"
      have "pend_inv (bigits t) (off + (j + 1)) (bs[nat (off + j) := ?d AND kBigitMask])
          (- uint (drop_bit 31 ?d)) (lval (bigits t) - 1 * lval (take (nat (j + 1)) (bigits other)) * W off)"
        by (rule sub_step[OF inv j(1) pr(3) off pr(2)]) (use bc(1) s' in \<open>simp_all add: mask28_ints\<close>)
      moreover have "uint (drop_bit 31 ?d) \<le> 1" using bc(2) by simp
      moreover have "b = 0 \<or> b = 1"
      proof -
        have "uint b = 0 \<or> uint b = 1" using b uint_nonnegative[of b] by arith
        then show ?thesis by (simp add: word_uint_eq_iff)
      qed
      ultimately show ?case
        using s pr nth pend_inv_len[OF inv] j by (simp add: wp Let_def diff_diff_eq add.commute[of j off])
    qed (use C B in \<open>auto simp: pend_inv_init\<close>)
    let ?R = "\<lambda>(bs, b :: u32, i). used_digits other \<le> i \<and> uint b \<le> 1 \<and>
       pend_inv (bigits t) (off + i) bs (- uint b) T"
    have two: "ok (while_do (\<lambda>(bs, borrow, i). Some (borrow \<noteq> 0))
       (\<lambda>(bs, borrow, i). do {
          x \<leftarrow> rd bs (i + off);
          let difference = x - borrow;
          bs \<leftarrow> wr bs (i + off) (difference AND kBigitMask);
          Some (bs, drop_bit 31 difference, i + 1) })
       (bs, b, used_digits other)) (\<lambda>(bs, b, i). b = 0 \<and> ?R (bs, b, i))"
      if P: "?P (used_digits other) (bs, b)" for bs b
    proof (rule ok_while_do[where P = ?R and m = "\<lambda>(bs, b, i). nat (128 - (off + i))"], goal_cases)
      case 1
      then show ?case using P lval_take_used[OF w(2)] by (simp add: T_def)
    next
      case (2 s)
      obtain bs b i where s: "s = (bs, b, i)" by (cases s)
      have R: "used_digits other \<le> i" "uint b \<le> 1" "pend_inv (bigits t) (off + i) bs (- uint b) T" using 2 s by auto
      show ?case
      proof (cases "b = 0")
        case True
        then show ?thesis using 2 s by simp
      next
        case False
        have i: "0 \<le> off + i" using R(1) off B by simp
        have b: "uint b \<le> 268435456" using R(2) by simp
        note bs = borrow_step[OF R(3) T0 False b i C(2,6)]
        show ?thesis using s False bs C i R(1) by (simp add: wp Let_def add.commute[of i off] add.assoc)
      qed
    qed
    have three: "ok (Clamp (t\<lparr>bigits := bs\<rparr>)) Q" if R: "?R (bs, 0, i)" for bs i
    proof -
      have inv: "pend_inv (bigits t) (off + i) bs 0 T" using R by simp
      have I: "length bs = 128" "bounded bs" "lval bs = T" using inv C by (auto simp: pend_inv_def)
      have "0 \<le> lval (bigits other) * W off" by (simp add: less_imp_le)
      then have "T < W (used_digits t)" using C(6) by (simp add: T_def)
      then have w': "wf (t\<lparr>bigits := bs\<rparr>)" using I C by (simp add: wf_def)
      show ?thesis
      proof (rule ok_Clamp[OF w'])
        fix r assume r: "norm r" "bval r = bval (t\<lparr>bigits := bs\<rparr>)"
          "0 < used_digits r \<Longrightarrow> bexp r = bexp (t\<lparr>bigits := bs\<rparr>)"
        have "bexp r \<le> max 0 (min (bexp this) (bexp other))"
          using r(1,3) t wfD(3)[OF norm_wf[OF r(1)]] by (cases "used_digits r = 0") (auto simp: norm_def)
        then show "Q r" using r I bv by (intro Q) (auto simp: bval_def)
      qed
    qed
    have fin: "ok (do { (bs, _, _) \<leftarrow> while_do (\<lambda>(bs, borrow, i). Some (borrow \<noteq> 0))
       (\<lambda>(bs, borrow, i). do {
          x \<leftarrow> rd bs (i + off);
          let difference = x - borrow;
          bs \<leftarrow> wr bs (i + off) (difference AND kBigitMask);
          Some (bs, drop_bit 31 difference, i + 1) })
       (bs, b, used_digits other); Clamp (t\<lparr>bigits := bs\<rparr>) }) Q"
      if P: "?P (used_digits other) (bs, b)" for bs b
      by (subst ok_bind, rule ok_mono[OF two[OF P]]) (use three in auto)
    show ?thesis
      unfolding off_def[symmetric]
      apply (simp add: Let_def)
      apply (subst ok_bind, rule ok_mono[OF one[unfolded Let_def]])
      apply (use fin in \<open>auto simp: Let_def\<close>)
      done
  qed
  show ?thesis
    unfolding SubtractBignum_def using n le by (simp add: wp) (rule ok_mono[OF al], use core in \<open>simp add: wp\<close>)
qed


section \<open>Subtracting a multiple\<close>

lemma ucast_sub_chunk:
  "(ucast (ucast (x :: u32) - (r AND ucast kBigitMask) :: u64) :: u32) = x - ucast (r AND ucast kBigitMask)"
proof -
  have "uint (ucast (ucast x - (r AND ucast kBigitMask) :: u64) :: u32) =
      (uint x - uint r mod 268435456) mod 18446744073709551616 mod 4294967296"
    by (simp add: unsigned_ucast_eq take_bit_eq_mod uint_word_ariths mask28_ints mod_diff_left_eq)
  also have "\<dots> = (uint x - uint r mod 268435456) mod 4294967296"
    by (rule mod_mod_cancel) simp
  also have "\<dots> = uint (x - ucast (r AND ucast kBigitMask))"
    by (simp add: uint_word_ariths uint_ucast_mask)
  finally show ?thesis by (simp add: word_uint_eq_iff)
qed

text \<open>One chunk of \<open>this - factor * other\<close>.\<close>

lemma times_chunk:
  fixes x b y :: u32 and f :: int
  assumes f: "0 \<le> f" "f \<le> 65535" and x: "uint x < 268435456" and y: "uint y < 268435456"
    and b: "uint b \<le> f + 1"
  defines "remove \<equiv> (ucast b :: u64) + (word_of_int f :: u64) * ucast y"
  defines "d \<equiv> (ucast (ucast x - (remove AND ucast kBigitMask)) :: u32)"
  defines "b' \<equiv> (ucast (ucast (drop_bit 31 d) + drop_bit 28 remove :: u64) :: u32)"
  shows "uint (d AND kBigitMask) - 268435456 * uint b' = uint x - f * uint y - uint b"
    "uint b' \<le> f + 1"
proof -
  have fy: "0 \<le> f * uint y" "f * uint y \<le> f * 268435455"
    using f y by (auto intro!: mult_nonneg_nonneg mult_left_mono)
  have uf: "uint (word_of_int f :: u64) = f" using f by (simp add: unsigned_of_int take_bit_eq_mod)
  have prod: "uint ((word_of_int f :: u64) * ucast y) = f * uint y"
    using fy f by (subst uint_mult_exact) (simp_all add: uf uint_ucast_up)
  have "0 \<le> uint b" by simp
  have r: "uint remove = uint b + f * uint y"
    unfolding remove_def using fy f b by (subst uint_add_exact) (simp_all add: prod uint_ucast_up)
  have rb: "uint remove < 268435456 * (f + 1)" using r fy b f by simp
  have rd: "uint remove div 268435456 < f + 1" "0 \<le> uint remove div 268435456"
    using rb by (auto intro: div_less_mult simp: pos_imp_zdiv_nonneg_iff)
  let ?s = "ucast (remove AND ucast kBigitMask) :: u32"
  have d: "d = x - ?s" unfolding d_def by (rule ucast_sub_chunk)
  have s: "uint ?s = uint remove mod 268435456" by (simp add: uint_ucast_mask)
  have s28: "uint ?s \<le> 268435456" using s pos_mod_bound[of 268435456 "uint remove"] by simp
  note bc = borrow_chunk[OF x s28, folded d]
  have nb: "0 \<le> uint (drop_bit 31 d)" "uint (drop_bit 31 d) \<le> 1" using bc(2) by simp_all
  have sum: "uint (ucast (drop_bit 31 d) + drop_bit 28 remove :: u64) =
      uint (drop_bit 31 d) + uint remove div 268435456"
    using nb rd f by (subst uint_add_exact) (simp_all add: uint_ucast_up uint_drop_bit[of 28])
  have b': "uint b' = uint (drop_bit 31 d) + uint remove div 268435456"
    unfolding b'_def using sum nb rd f by (subst uint_ucast_down_small) simp_all
  show "uint b' \<le> f + 1" using b' nb rd by linarith
  have "268435456 * (uint remove div 268435456) + uint remove mod 268435456 = uint remove"
    by (rule mult_div_mod_eq)
  then show "uint (d AND kBigitMask) - 268435456 * uint b' = uint x - f * uint y - uint b"
    using bc(1) s b' r by linarith
qed

lemma ok_SubtractTimes_small:
  assumes n: "norm this" "norm other" and f: "0 \<le> f" and le: "f * bval other \<le> bval this"
    and cap: "bval this < W 127" and e: "bexp this \<le> bexp other"
    and Q: "\<And>r. norm r \<Longrightarrow> bval r = bval this - f * bval other \<Longrightarrow> bexp r \<le> bexp other \<Longrightarrow> Q r"
  shows "ok (for_up 0 f (\<lambda>i this. SubtractBignum other this) this) Q"
proof (rule ok_for_up[where P = "\<lambda>i t. norm t \<and> bval t = bval this - i * bval other \<and> bexp t \<le> bexp other"], goal_cases)
  case (3 j t)
  then have t: "norm t" "bval t = bval this - j * bval other" "bexp t \<le> bexp other" by auto
  have "(j + 1) * bval other \<le> f * bval other" using 3 by (intro mult_right_mono) auto
  then have le': "bval other \<le> bval t" using t le by (simp add: distrib_right)
  have "0 \<le> j * bval other" using 3 by simp
  then have cap': "bval t < W 127" using t(2) cap by linarith
  show ?case
    by (rule ok_SubtractBignum[OF t(1) n(2) le' cap'])
      (use t wfD(5)[OF norm_wf[OF n(2)]] in \<open>auto simp: distrib_right\<close>)
qed (use f n e Q in auto)

lemma ok_SubtractTimes:
  assumes n: "norm this" "norm other" and f: "0 \<le> f" "f \<le> 65535" and le: "f * bval other \<le> bval this"
    and cap: "bval this < W 127" and e: "bexp this \<le> bexp other" and o: "0 < used_digits other"
    and Q: "\<And>r. norm r \<Longrightarrow> bval r = bval this - f * bval other \<Longrightarrow> bexp r \<le> bexp other \<Longrightarrow> Q r"
  shows "ok (SubtractTimes other f this) Q"
proof (cases "f < 3")
  case True
  then show ?thesis
    using ok_SubtractTimes_small[OF n f(1) le cap e Q] e by (simp add: SubtractTimes_def wp)
next
  case False
  note w = n[THEN norm_wf]
  note A = wfD[OF w(1)] and B = wfD[OF w(2)]
  define off where "off = bexp other - bexp this"
  define T where "T = lval (bigits this) - f * lval (bigits other) * W off"
  have off: "0 \<le> off" using e by (simp add: off_def)
  have "1 * bval other \<le> f * bval other" using False by (intro mult_right_mono) auto
  then have "bval other \<le> bval this" using le by simp
  then have "\<not> BigitLength this < BigitLength other"
    using bval_less_of_BigitLength[OF w(1) n(2)] by linarith
  then have offu: "off + used_digits other \<le> used_digits this"
    by (simp add: off_def BigitLength_def)
  have u0: "0 < used_digits this" using offu o off by simp
  have Woe: "W (bexp other) = W off * W (bexp this)"
    using W_add[OF off A(5)] by (simp only: off_def diff_add_cancel)
  have bv: "bval this - f * bval other = T * W (bexp this)"
    using Woe by (simp add: bval_def T_def left_diff_distrib mult.assoc)
  have T0: "0 \<le> T"
  proof -
    have "0 \<le> T * W (bexp this)" using bv le by simp
    then show ?thesis by (simp add: zero_le_mult_iff) (use W_pos[of "bexp this"] in linarith)
  qed
  have "0 \<le> f * lval (bigits other) * W off" using f by (simp add: less_imp_le)
  then have Tu: "T < W (used_digits this)" using A(6) by (simp add: T_def)
  let ?P = "\<lambda>i (bs, b :: u32). uint b \<le> f + 1 \<and>
     pend_inv (bigits this) (off + i) bs (- uint b) (lval (bigits this) - f * lval (take (nat i) (bigits other)) * W off)"
  have one: "ok (for_up 0 (used_digits other)
         (\<lambda>i (bs, borrow). do {
            y \<leftarrow> rd (bigits other) i;
            let product = (word_of_int f :: u64) * ucast y;
            let remove = ucast borrow + product;
            x \<leftarrow> rd bs (i + off);
            let difference = (ucast (ucast x - (remove AND ucast kBigitMask)) :: u32);
            bs \<leftarrow> wr bs (i + off) (difference AND kBigitMask);
            Some (bs, ucast (ucast (drop_bit 31 difference) + drop_bit 28 remove)) })
         (bigits this, 0 :: u32)) (?P (used_digits other))"
  proof (rule ok_for_up[where P = ?P], goal_cases)
    case (3 j s)
    then have j: "0 \<le> j" "j < used_digits other" and P: "?P j s" by auto
    obtain bs b where s: "s = (bs, b)" by (cases s)
    have inv: "pend_inv (bigits this) (off + j) bs (- uint b)
        (lval (bigits this) - f * lval (take (nat j) (bigits other)) * W off)"
      and b: "uint b \<le> f + 1" using P s by auto
    have pr: "0 \<le> off + j" "off + j < int (length (bigits this))" "j < int (length (bigits other))"
      using j off offu A B by auto
    note nth = pend_inv_nth[OF inv pr(1,2)]
    have x: "uint (bigits this ! nat (off + j)) < 268435456" using bounded_rd[OF A(2) pr(1,2)] by simp
    have y: "uint (bigits other ! nat j) < 268435456" using bounded_rd[OF B(2) j(1) pr(3)] by simp
    note tc = times_chunk[OF f x y b]
    note step = sub_step[OF inv j(1) pr(3) off pr(2) _ tc(1)]
    show ?case
      using s pr nth pend_inv_len[OF inv] j tc(2) step
      by (simp add: wp Let_def add.commute[of j off] mask28_ints)
  qed (use A B f in \<open>auto simp: pend_inv_init\<close>)
  define q where "q = used_digits other + off"
  let ?R = "\<lambda>(bs, b :: u32, i). q \<le> i \<and> i \<le> used_digits this \<and> uint b \<le> f + 1 \<and>
     pend_inv (bigits this) i bs (- uint b) T"
  have two: "ok (while_do
         (\<lambda>(bs, borrow, i). Some (i < used_digits this \<and> borrow \<noteq> 0))
         (\<lambda>(bs, borrow, i). do {
            x \<leftarrow> rd bs i;
            let difference = x - borrow;
            bs \<leftarrow> wr bs i (difference AND kBigitMask);
            Some (bs, drop_bit 31 difference, i + 1) }) (bs, b, q))
       (\<lambda>(bs, b, i). b = 0 \<and> ?R (bs, b, i))"
    if P: "?P (used_digits other) (bs, b)" for bs b
  proof (rule ok_while_do[where P = ?R and m = "\<lambda>(bs, b, i). nat (128 - i)"], goal_cases)
    case 1
    then show ?case using P lval_take_used[OF w(2)] offu by (simp add: T_def q_def add.commute)
  next
    case (2 s)
    obtain bs b i where s: "s = (bs, b, i)" by (cases s)
    have R: "q \<le> i" "i \<le> used_digits this" "uint b \<le> f + 1" "pend_inv (bigits this) i bs (- uint b) T"
      using 2 s by auto
    have i: "0 \<le> i" using R(1) off B by (simp add: q_def)
    show ?case
    proof (cases "b = 0")
      case True
      then show ?thesis using 2 s by simp
    next
      case False
      have b: "uint b \<le> 268435456" using R(3) f by simp
      note bs = borrow_step[OF R(4) T0 False b i A(2,6)]
      show ?thesis using s False bs A i R(1) f by (simp add: wp Let_def)
    qed
  qed
  have three: "ok (if i < used_digits this then Some (this\<lparr>bigits := bs\<rparr>)
       else Clamp (this\<lparr>bigits := bs\<rparr>)) Q" if R: "?R (bs, 0, i)" for bs i
  proof -
    have inv: "pend_inv (bigits this) i bs 0 T" using R by simp
    have I: "length bs = 128" "bounded bs" "lval bs = T" using inv A by (auto simp: pend_inv_def)
    let ?r = "this\<lparr>bigits := bs\<rparr>"
    have w': "wf ?r" using I A Tu by (simp add: wf_def)
    have bvr: "bval ?r = bval this - f * bval other" using I bv by (simp add: bval_def)
    show ?thesis
    proof (cases "i < used_digits this")
      case True
      have i: "0 \<le> i" using R off B by (simp add: q_def)
      let ?k = "nat (used_digits this - 1)"
      have "drop (?k - nat i) (drop (nat i) bs) = drop (?k - nat i) (drop (nat i) (bigits this))"
        using inv by (simp add: pend_inv_def)
      then have "drop ?k bs = drop ?k (bigits this)" using True i by (simp add: nat_mono)
      then have "bs ! ?k = bigits this ! ?k"
        using hd_drop_conv_nth[of ?k bs] hd_drop_conv_nth[of ?k "bigits this"] I A u0 by simp
      moreover have "bigits this ! ?k \<noteq> 0" using n(1) u0 top_nonzero_iff[OF w(1) u0] by (simp add: norm_def)
      ultimately have "W (used_digits this - 1) \<le> lval bs" using top_nonzero_iff[OF w'] u0 by simp
      then have "norm ?r" using w' u0 by (simp add: norm_def)
      then show ?thesis using True bvr e by (simp add: Q)
    next
      case False
      have "ok (Clamp ?r) Q"
      proof (rule ok_Clamp[OF w'])
        fix r assume r: "norm r" "bval r = bval ?r" "0 < used_digits r \<Longrightarrow> bexp r = bexp ?r"
        have "bexp r \<le> bexp other"
          using r(1,3) e B(5) wfD(3)[OF norm_wf[OF r(1)]] by (cases "used_digits r = 0") (auto simp: norm_def)
        then show "Q r" using r bvr by (intro Q) auto
      qed
      then show ?thesis using False by simp
    qed
  qed
  have fin: "ok (do { (bs, b, i) \<leftarrow> while_do
         (\<lambda>(bs, borrow, i). Some (i < used_digits this \<and> borrow \<noteq> 0))
         (\<lambda>(bs, borrow, i). do {
            x \<leftarrow> rd bs i;
            let difference = x - borrow;
            bs \<leftarrow> wr bs i (difference AND kBigitMask);
            Some (bs, drop_bit 31 difference, i + 1) }) (bs, b, used_digits other + off);
       if i < used_digits this then Some (this\<lparr>bigits := bs\<rparr>) else Clamp (this\<lparr>bigits := bs\<rparr>) }) Q"
    if P: "?P (used_digits other) (bs, b)" for bs b
    unfolding q_def[symmetric]
    by (subst ok_bind, rule ok_mono[OF two[OF P]]) (use three in auto)
  show ?thesis
    using False e unfolding SubtractTimes_def
    apply (simp add: Let_def ok_bind[of "ensure _"] ok_ensure off_def[symmetric])
    apply (subst ok_bind, rule ok_mono[OF one[unfolded Let_def]])
    apply (use fin in \<open>auto simp: Let_def\<close>)
    done
qed

end
