(* ===== verification/Bignum_Div.thy ===== *)
theory Bignum_Div
  imports Bignum_Add
begin

text \<open>Bignum: division with a small quotient and its remainder.\<close>

section \<open>Division with a small quotient\<close>

lemma ok_Align_norm:
  assumes n: "norm this" and e: "0 \<le> bexp other" and cap: "bval this < W 127"
    and Q: "\<And>r. norm r \<Longrightarrow> bval r = bval this \<Longrightarrow> bexp r \<le> bexp other \<Longrightarrow>
       BigitLength r = BigitLength this \<Longrightarrow> Q r"
  shows "ok (Align other this) Q"
proof -
  note w = norm_wf[OF n] and D = wfD[OF norm_wf[OF n]]
  have bl: "BigitLength this \<le> 127" by (rule BigitLength_le[OF n cap]) simp
  show ?thesis
  proof (rule ok_Align[OF w e])
    fix r assume r: "wf r" "bval r = bval this" "bexp r = min (bexp this) (bexp other)"
      "BigitLength r = BigitLength this" "norm this \<Longrightarrow> 0 < used_digits this \<Longrightarrow> norm r"
    have "norm r"
    proof (cases "used_digits this = 0")
      case True
      then have "bexp this = 0" using n by (simp add: norm_def)
      then have "bexp r = 0" "used_digits r = 0" using r(3,4) e True by (simp_all add: BigitLength_def)
      then show ?thesis using r(1) by (simp add: norm_def)
    qed (use r(5) n D in auto)
    then show "Q r" using r by (intro Q) auto
  qed (use bl e in \<open>simp add: BigitLength_def\<close>)
qed

text \<open>The top chunk of a normalised number.\<close>

lemma top_chunk:
  assumes n: "norm b" and u: "0 < used_digits b"
  shows "used_digits b - 1 < int (length (bigits b))"
    "uint (bigits b ! nat (used_digits b - 1)) = bval b div W (BigitLength b - 1)"
    "uint (bigits b ! nat (used_digits b - 1)) < 268435456"
    "1 \<le> uint (bigits b ! nat (used_digits b - 1))"
proof -
  note w = norm_wf[OF n] and D = wfD[OF norm_wf[OF n]]
  show l: "used_digits b - 1 < int (length (bigits b))" using D by simp
  have "W (BigitLength b - 1) = W (used_digits b - 1) * W (bexp b)"
    using W_add[of "used_digits b - 1" "bexp b"] u D by (simp add: BigitLength_def algebra_simps)
  then show "uint (bigits b ! nat (used_digits b - 1)) = bval b div W (BigitLength b - 1)"
    using lval_top[OF w u] by (simp add: bval_def)
  show "uint (bigits b ! nat (used_digits b - 1)) < 268435456" using bounded_rd[OF D(2) _ l] u by simp
  have "bigits b ! nat (used_digits b - 1) \<noteq> 0" using top_nonzero_iff[OF w u] n u by (simp add: norm_def)
  then show "1 \<le> uint (bigits b ! nat (used_digits b - 1))"
    using uint_nonnegative uint_0_iff by (metis add_0 linorder_le_less_linear zless_imp_add1_zle int_one_le_iff_zero_less order_le_less)
qed

lemma sint_small: "uint (x :: u32) < 2147483648 \<Longrightarrow> sint x = uint x"
proof -
  assume "uint x < 2147483648"
  moreover have "- 2147483648 \<le> uint x" using uint_nonnegative[of x] by linarith
  ultimately show ?thesis
    by (simp only: sint_uint) (rule signed_take_bit_int_eq_self; simp)
qed

lemma uint_of_small: "0 \<le> k \<Longrightarrow> k < 4294967296 \<Longrightarrow> uint (word_of_int k :: u32) = k"
  by (simp add: unsigned_of_int take_bit_eq_mod)

lemma uint16_add:
  "0 \<le> k \<Longrightarrow> uint (q :: u16) + k < 65536 \<Longrightarrow> uint (q + word_of_int k) = uint q + k"
proof -
  assume k: "0 \<le> k" "uint q + k < 65536"
  then have "k < 65536" using uint_nonnegative[of q] by linarith
  then have "uint (word_of_int k :: u16) = k" using k by (simp add: unsigned_of_int take_bit_eq_mod)
  then show ?thesis using k by (subst uint_add_exact) simp_all
qed

text \<open>
  The first loop, which runs while this is longer than other: it removes top-chunk multiples.
  The bound on \<open>other\<close> is what the assertion of equal lengths after the loop needs.
\<close>

lemma ok_divide_loop:
  assumes n: "norm this" "norm other" and cap: "bval this < W 127" and e: "bexp this \<le> bexp other"
    and u: "0 < used_digits other" and r16: "bval this < 16 * bval other"
    and top: "BigitLength other < BigitLength this \<Longrightarrow> bval other + W (BigitLength other - 1) \<le> W (BigitLength other)"
    and len: "BigitLength other \<le> BigitLength this"
    and Q: "\<And>q r. norm r \<Longrightarrow> uint q * bval other + bval r = bval this \<Longrightarrow> bexp r \<le> bexp other \<Longrightarrow>
       BigitLength r = BigitLength other \<Longrightarrow> Q (q, r)"
  shows "ok (while_do
         (\<lambda>(result, this). Some (BigitLength this > BigitLength other))
         (\<lambda>(result, this). do {
            other_top \<leftarrow> rd (bigits other) (used_digits other - 1);
            ensure (uint other_top \<ge> (2 ^ nat kBigitSize) div 16);
            top \<leftarrow> rd (bigits this) (used_digits this - 1);
            ensure (uint top < 0x10000);
            this \<leftarrow> SubtractTimes other (sint top) this;
            Some (result + ucast top, this) }) (0 :: u16, this)) Q"
proof -
  note w = n[THEN norm_wf]
  note A = wfD[OF w(1)] and B = wfD[OF w(2)]
  define Lo where "Lo = BigitLength other"
  have Lo: "0 < Lo" using u B by (simp add: Lo_def BigitLength_def)
  have o1: "1 \<le> bval other" using bval_0_iff[OF n(2)] bval_nonneg[of other] u by linarith
  let ?P = "\<lambda>(q :: u16, t). norm t \<and> uint q * bval other + bval t = bval this \<and> bexp t \<le> bexp other \<and>
      Lo \<le> BigitLength t \<and> (Lo < BigitLength t \<longrightarrow> Lo < BigitLength this)"
  show ?thesis
  proof (rule ok_while_do[where P = ?P and m = "\<lambda>(q, t). nat (bval t)"], goal_cases)
    case 1
    then show ?case using n e len by (simp add: Lo_def)
  next
    case (2 s)
    obtain q t where s: "s = (q, t)" by (cases s)
    have P: "norm t" "uint q * bval other + bval t = bval this" "bexp t \<le> bexp other" "Lo \<le> BigitLength t"
      using 2 s by auto
    show ?case
    proof (cases "Lo < BigitLength t")
      case False
      then show ?thesis using P s by (simp add: Lo_def Q)
    next
      case True
      note wt = norm_wf[OF P(1)] and C = wfD[OF norm_wf[OF P(1)]]
      have qo: "0 \<le> uint q * bval other" by simp
      have tcap: "bval t \<le> bval this" using P(2) qo by linarith
      have ut: "0 < used_digits t"
        using True Lo P(1) C by (cases "used_digits t = 0") (auto simp: norm_def BigitLength_def)
      note T = top_chunk[OF P(1) ut] and O = top_chunk[OF n(2) u]
      let ?top = "bigits t ! nat (used_digits t - 1)"
      have "BigitLength t \<le> Lo + 1"
      proof (rule ccontr)
        assume "\<not> BigitLength t \<le> Lo + 1"
        then have "W (Lo + 1) \<le> W (BigitLength t - 1)" by (intro W_mono) simp
        then have "W (Lo + 1) \<le> bval t" using W_le_bval[OF P(1) ut] by linarith
        moreover have "bval other < W Lo" using bval_less_W[OF w(2)] by (simp add: Lo_def)
        ultimately show False using r16 tcap W_Suc[of Lo] Lo W_pos[of Lo] by linarith
      qed
      then have Lt: "BigitLength t - 1 = Lo" using True by simp
      have ttop: "uint ?top = bval t div W Lo" using T(2) Lt by simp
      have WLo: "W Lo \<le> bval t" using W_le_bval[OF P(1) ut] Lt by simp
      have WL: "W Lo = 268435456 * W (Lo - 1)" using W_Suc[of "Lo - 1"] Lo by simp
      have otop: "16777216 \<le> uint (bigits other ! nat (used_digits other - 1))"
      proof -
        have "16 * bval other > 268435456 * W (Lo - 1)" using WLo r16 tcap WL by linarith
        then have "16777216 * W (Lo - 1) \<le> bval other" by linarith
        then have "16777216 * W (Lo - 1) div W (Lo - 1) \<le> bval other div W (Lo - 1)"
          by (intro zdiv_mono1) simp_all
        then show ?thesis using O(2) by (simp add: Lo_def)
      qed
      have "bval t < 16 * W Lo" using r16 tcap bval_less_W[OF w(2)] by (simp add: Lo_def)
      then have t16: "uint ?top < 16" unfolding ttop by (intro div_less_mult) (simp_all add: mult.commute)
      have st: "sint ?top = uint ?top" using t16 by (simp add: sint_small)
      have "W Lo * (bval t div W Lo) \<le> bval t"
        using mult_div_mod_eq[of "W Lo" "bval t"] pos_mod_sign[OF W_pos[of Lo], of "bval t"] by linarith
      then have topmul: "uint ?top * W Lo \<le> bval t" by (simp add: ttop mult.commute)
      have oW: "bval other + W (Lo - 1) \<le> W Lo" using top 2 s True by (simp add: Lo_def)
      have gap: "uint ?top * bval other + uint ?top * W (Lo - 1) \<le> bval t"
        using mult_left_mono[OF oW, of "uint ?top"] topmul by (simp add: distrib_left)
      have W1: "W (Lo - 1) \<le> uint ?top * W (Lo - 1)" using T(4) by simp
      have le: "uint ?top * bval other \<le> bval t" using gap W1 W_pos[of "Lo - 1"] by linarith
      have "1 * bval other \<le> uint ?top * bval other" using T(4) by (intro mult_right_mono) auto
      then have ole: "bval other \<le> uint ?top * bval other" by simp
      have "ok (SubtractTimes other (sint ?top) t) (\<lambda>r. norm r \<and> bval r = bval t - uint ?top * bval other \<and> bexp r \<le> bexp other)"
        unfolding st by (rule ok_SubtractTimes[OF P(1) n(2) _ _ le _ P(3) u]) (use t16 tcap cap in auto)
      moreover have "?P (q + ucast ?top, r) \<and> nat (bval r) < nat (bval t)"
        if r: "norm r" "bval r = bval t - uint ?top * bval other" "bexp r \<le> bexp other" for r
      proof -
        have rlo: "W (Lo - 1) \<le> bval r" using gap W1 r(2) by linarith
        have "\<not> BigitLength r < Lo"
        proof
          assume "BigitLength r < Lo"
          then have "W (BigitLength r) \<le> W (Lo - 1)" by (intro W_mono) simp
          then show False using rlo bval_less_W[OF norm_wf[OF r(1)]] by linarith
        qed
        moreover have "uint (q + ucast ?top) = uint q + uint ?top"
        proof -
          have ut16: "uint (ucast ?top :: u16) = uint ?top" using t16 by (simp add: unsigned_ucast_eq take_bit_eq_mod)
          have "uint q * bval other < 16 * bval other"
            using P(2) r16 WLo W_pos[of Lo] by linarith
          then have "uint q < 16" using o1 by (simp add: mult_less_cancel_right)
          then show ?thesis using t16 ut16 by (subst uint_add_exact) simp_all
        qed
        moreover have "bval r < bval t" using r(2) ole o1 by linarith
        ultimately show ?thesis using r P(2) 2 s True bval_nonneg[of r] by (simp add: distrib_right)
      qed
      ultimately show ?thesis
        using s True T(1,3) O(1) otop t16 ut u by (simp add: wp Lo_def[symmetric]) (erule ok_mono, auto)
    qed
  qed
qed

text \<open>The quotient and the remainder of a one-chunk divisor.\<close>

lemma ok_divide_one_chunk:
  assumes n: "norm t" "norm other" and e: "bexp t \<le> bexp other" and u: "used_digits other = 1"
    and len: "BigitLength t = BigitLength other" and r16: "uint q * bval other + bval t < 16 * bval other"
    and Q: "\<And>p r. norm r \<Longrightarrow> uint p * bval other + bval r = uint q * bval other + bval t \<Longrightarrow>
       bval r < bval other \<Longrightarrow> Q (p, r)"
  defines "tb \<equiv> bigits t ! nat (used_digits t - 1)" and "ob \<equiv> bigits other ! nat (used_digits other - 1)"
  shows "ok (do {
         quotient \<leftarrow> udiv tb ob;
         let quotient = sint quotient;
         bs \<leftarrow> wr (bigits t) (used_digits t - 1) (tb - ob * word_of_int quotient);
         ensure (quotient < 0x10000);
         t \<leftarrow> Clamp (t\<lparr>bigits := bs\<rparr>);
         Some ((q :: u16) + word_of_int quotient, t) }) Q"
proof -
  note w = n[THEN norm_wf]
  note C = wfD[OF w(1)] and B = wfD[OF w(2)]
  have u0: "0 < used_digits other" using u by simp
  have o1: "1 \<le> bval other" using bval_0_iff[OF n(2)] bval_nonneg[of other] u by linarith
  have Lb: "BigitLength other - 1 = bexp other" using u by (simp add: BigitLength_def)
  have ut: "0 < used_digits t" using len u e by (simp add: BigitLength_def)
  note T = top_chunk[OF n(1) ut, folded tb_def] and O = top_chunk[OF n(2) u0, folded ob_def]
  define w1 where "w1 = W (bexp other)"
  have w1: "0 < w1" by (simp add: w1_def)
  have ob: "bval other = uint ob * w1"
  proof -
    have "lval (bigits other) = uint ob" using lval_top[OF w(2) u0] u by (simp add: ob_def)
    then show ?thesis by (simp add: bval_def w1_def)
  qed
  have tb: "uint tb = bval t div w1" using T(2) len Lb by (simp add: w1_def)
  define k where "k = uint tb div uint ob"
  have k0: "0 \<le> k" using O(4) by (simp add: k_def pos_imp_zdiv_nonneg_iff)
  have kk: "k * uint ob \<le> uint tb" "uint tb < k * uint ob + uint ob" 
    using mult_div_mod_eq[of "uint ob" "uint tb"] pos_mod_bound[of "uint ob" "uint tb"]
      pos_mod_sign[of "uint ob" "uint tb"] O(4) by (simp_all add: k_def mult.commute[of _ "uint ob"], linarith+)
  have tsplit: "bval t = uint tb * w1 + bval t mod w1" by (simp add: tb)
  have rest: "0 \<le> bval t mod w1" "bval t mod w1 < w1" using w1 by simp_all
  have ko: "k * bval other \<le> bval t"
  proof -
    have "k * bval other = (k * uint ob) * w1" by (simp add: ob)
    also have "\<dots> \<le> uint tb * w1" using kk(1) w1 by (intro mult_right_mono) auto
    finally show ?thesis using tsplit rest by linarith
  qed
  have rem: "bval t - k * bval other < bval other"
  proof -
    have "uint tb + 1 \<le> k * uint ob + uint ob" using kk(2) by simp
    then have "(uint tb + 1) * w1 \<le> (k * uint ob + uint ob) * w1" using w1 by (intro mult_right_mono) auto
    then have "uint tb * w1 + w1 \<le> k * bval other + bval other" by (simp add: ob distrib_right)
    then show ?thesis using tsplit rest by linarith
  qed
  have qk: "uint q + k < 16"
  proof -
    have "(uint q + k) * bval other < 16 * bval other" using ko r16 by (simp add: distrib_right)
    then show ?thesis using o1 by (simp add: mult_less_cancel_right)
  qed
  then have k16: "k < 16" using uint_nonnegative[of q] by linarith
  have ob0: "ob \<noteq> 0" using O(4) by auto
  have quo: "uint (tb div ob) = k" by (simp add: k_def uint_div)
  then have sq: "sint (tb div ob) = k" using k16 by (simp add: sint_small)
  have nd: "uint (tb - ob * word_of_int k) = uint tb - k * uint ob"
  proof -
    have "uint (ob * word_of_int k) = k * uint ob"
      using k0 k16 kk(1) T(3) by (subst uint_mult_exact) (simp_all add: uint_of_small mult.commute)
    then show ?thesis using kk(1) by (simp add: uint_sub_exact)
  qed
  let ?bs = "(bigits t)[nat (used_digits t - 1) := tb - ob * word_of_int k]"
  have lv: "lval ?bs = lval (bigits t) - k * uint ob * W (used_digits t - 1)"
    using T(1) ut nd by (simp add: lval_update tb_def left_diff_distrib)
  have Wsplit: "W (used_digits t - 1) * W (bexp t) = w1"
    using W_add[of "used_digits t - 1" "bexp t"] ut C(5) len Lb by (simp add: w1_def BigitLength_def algebra_simps)
  have bv: "lval ?bs * W (bexp t) = bval t - k * bval other"
    unfolding lv by (simp add: left_diff_distrib bval_def[of t] ob Wsplit[symmetric])
  have "0 \<le> k * uint ob * W (used_digits t - 1)" using k0 by (simp add: less_imp_le)
  then have "lval ?bs < W (used_digits t)" using lv C(6) by linarith
  moreover have "uint (tb - ob * word_of_int k) < 268435456"
  proof -
    have "0 \<le> k * uint ob" using k0 by simp
    then show ?thesis using nd T(3) by linarith
  qed
  ultimately have w': "wf (t\<lparr>bigits := ?bs\<rparr>)" using C by (simp add: wf_def bounded_update)
  have bv': "bval (t\<lparr>bigits := ?bs\<rparr>) = bval t - k * bval other" using bv by (simp add: bval_def)
  have pk: "uint (q + word_of_int k) = uint q + k" using qk k0 by (simp add: uint16_add)
  have "ok (Clamp (t\<lparr>bigits := ?bs\<rparr>)) (\<lambda>r. Q (q + word_of_int k, r))"
    by (rule ok_Clamp[OF w']) (use bv' rem pk in \<open>auto intro!: Q simp: distrib_right\<close>)
  then show ?thesis using ob0 k16 T(1) ut by (simp only: ok_bind ok_udiv Let_def sq) (simp add: wp)
qed

text \<open>A longer divisor: an estimate from the top chunks, then at most a few corrections.\<close>

lemma ok_divide_estimate:
  assumes n: "norm t" "norm other" and e: "bexp t \<le> bexp other" and u: "0 < used_digits other"
    and len: "BigitLength t = BigitLength other" and r16: "uint q * bval other + bval t < 16 * bval other"
    and cap: "bval t < W 127"
    and Q: "\<And>p r. norm r \<Longrightarrow> uint p * bval other + bval r = uint q * bval other + bval t \<Longrightarrow>
       bval r < bval other \<Longrightarrow> Q (p, r)"
  defines "tb \<equiv> bigits t ! nat (used_digits t - 1)" and "ob \<equiv> bigits other ! nat (used_digits other - 1)"
  shows "ok (do {
         division_estimate \<leftarrow> udiv tb (ob + 1);
         let division_estimate = sint division_estimate;
         ensure (division_estimate < 0x10000);
         let result = (q :: u16) + word_of_int division_estimate;
         t \<leftarrow> SubtractTimes other division_estimate t;
         if ob * word_of_int (division_estimate + 1) > tb then Some (result, t)
         else while_do (\<lambda>(result, t). LessEqual other t)
                (\<lambda>(result, t). do {
                   t \<leftarrow> SubtractBignum other t;
                   Some (result + 1, t) }) (result, t) }) Q"
proof -
  note w = n[THEN norm_wf]
  note C = wfD[OF w(1)] and B = wfD[OF w(2)]
  have o1: "1 \<le> bval other" using bval_0_iff[OF n(2)] bval_nonneg[of other] u by linarith
  have ut: "0 < used_digits t" using len u e by (simp add: BigitLength_def)
  note T = top_chunk[OF n(1) ut, folded tb_def] and O = top_chunk[OF n(2) u, folded ob_def]
  define w1 where "w1 = W (BigitLength other - 1)"
  have w1: "0 < w1" by (simp add: w1_def)
  have tb: "uint tb = bval t div w1" using T(2) len by (simp add: w1_def)
  have obd: "uint ob = bval other div w1" using O(2) by (simp add: w1_def)
  have tlo: "uint tb * w1 \<le> bval t" "bval t < uint tb * w1 + w1"
    using mult_div_mod_eq[of w1 "bval t"] pos_mod_bound[OF w1, of "bval t"] pos_mod_sign[OF w1, of "bval t"]
    by (simp_all add: tb mult.commute, linarith+)
  have olo: "uint ob * w1 \<le> bval other" "bval other < uint ob * w1 + w1"
    using mult_div_mod_eq[of w1 "bval other"] pos_mod_bound[OF w1, of "bval other"] pos_mod_sign[OF w1, of "bval other"]
    by (simp_all add: obd mult.commute, linarith+)
  have ob1: "uint (ob + 1) = uint ob + 1" using O(3) by (simp add: uint_add_exact)
  then have "uint (ob + 1) \<noteq> 0" using uint_nonnegative[of ob] by linarith
  then have ob10: "ob + 1 \<noteq> 0" by auto
  define k where "k = uint tb div (uint ob + 1)"
  have k0: "0 \<le> k" by (simp add: k_def pos_imp_zdiv_nonneg_iff add_increasing)
  have kk: "k * (uint ob + 1) \<le> uint tb"
  proof -
    have "(uint ob + 1) * k + uint tb mod (uint ob + 1) = uint tb" unfolding k_def by (rule mult_div_mod_eq)
    moreover have "0 \<le> uint tb mod (uint ob + 1)" using uint_nonnegative[of ob] by (intro pos_mod_sign) linarith
    ultimately have "(uint ob + 1) * k \<le> uint tb" by linarith
    then show ?thesis by (simp add: mult.commute)
  qed
  have quo: "uint (tb div (ob + 1)) = k" by (simp add: k_def uint_div ob1)
  have ko: "k * bval other \<le> bval t"
  proof -
    have "k * bval other \<le> k * (uint ob * w1 + w1)" using olo k0 by (intro mult_left_mono) auto
    also have "\<dots> = k * (uint ob + 1) * w1" by (simp add: algebra_simps)
    also have "\<dots> \<le> uint tb * w1" using kk w1 by (intro mult_right_mono) auto
    finally show ?thesis using tlo by linarith
  qed
  have qk: "uint q + k < 16"
  proof -
    have "(uint q + k) * bval other < 16 * bval other" using ko r16 by (simp add: distrib_right)
    then show ?thesis using o1 by (simp add: mult_less_cancel_right)
  qed
  then have k16: "k < 16" using uint_nonnegative[of q] by linarith
  then have sq: "sint (tb div (ob + 1)) = k" using quo by (simp add: sint_small)
  have pk: "uint (q + word_of_int k) = uint q + k" using qk k0 by (simp add: uint16_add)
  have k65: "k \<le> 65535" using k16 by simp
  have sub: "ok (SubtractTimes other k t) (\<lambda>r. norm r \<and> bval r = bval t - k * bval other)"
    by (rule ok_SubtractTimes[OF n k0 k65 ko cap e u]) auto
  have prod: "uint (ob * word_of_int (k + 1)) = uint ob * (k + 1)"
  proof -
    have "uint ob * (k + 1) = k * uint ob + uint ob" by (simp add: algebra_simps)
    also have "\<dots> < 4294967296" using kk O(3) T(3) k0 by (simp add: distrib_left) 
    finally have "uint ob * (k + 1) < 2 ^ LENGTH(32)" by simp
    moreover have "uint (word_of_int (k + 1) :: u32) = k + 1" by (rule uint_of_small) (use k0 k16 in auto)
    ultimately show ?thesis by (subst uint_mult_exact) (simp_all only:)
  qed
  have exact: "bval t - k * bval other < bval other" if "tb < ob * word_of_int (k + 1)"
  proof -
    have "uint tb + 1 \<le> uint ob * (k + 1)" using that prod by (simp add: word_less_def)
    then have "(uint tb + 1) * w1 \<le> uint ob * (k + 1) * w1" using w1 by (intro mult_right_mono) auto
    also have "\<dots> = (uint ob * w1) * (k + 1)" by (simp add: algebra_simps)
    also have "\<dots> \<le> bval other * (k + 1)" using olo k0 by (intro mult_right_mono) auto
    finally show ?thesis using tlo by (simp add: algebra_simps)
  qed
  have loop: "ok (while_do (\<lambda>(result, t). LessEqual other t)
                (\<lambda>(result, t). do { t \<leftarrow> SubtractBignum other t; Some (result + 1, t) }) (q + word_of_int k, r)) Q"
    if r: "norm r" "bval r = bval t - k * bval other" for r
  proof (rule ok_while_do[where P = "\<lambda>(p, s). norm s \<and> bval s \<le> bval t \<and>
        uint p * bval other + bval s = uint q * bval other + bval t" and m = "\<lambda>(p, s). nat (bval s)"], goal_cases)
    case 1
    have "0 \<le> k * bval other" using k0 by simp
    then show ?case using r pk by (simp add: distrib_right)
  next
    case (2 x)
    obtain p s where x: "x = (p, s)" by (cases x)
    have P: "norm s" "bval s \<le> bval t" "uint p * bval other + bval s = uint q * bval other + bval t" using 2 x by auto
    show ?case
    proof (cases "bval other \<le> bval s")
      case False
      then show ?thesis using x P n by (simp add: wp Q)
    next
      case True
      have scap: "bval s < W 127" using P(2) cap by linarith
      have "uint p * bval other < 16 * bval other" using P(3) r16 bval_nonneg[of s] by linarith
      then have "uint p < 16" using o1 by (simp add: mult_less_cancel_right)
      then have p1: "uint (p + 1) = uint p + 1" by (simp add: uint_add_exact)
      have "ok (SubtractBignum other s) (\<lambda>r. norm r \<and> bval r = bval s - bval other)"
        by (rule ok_SubtractBignum[OF P(1) n(2) True scap]) auto
      then have "ok (SubtractBignum other s) (\<lambda>r. (norm r \<and> bval r \<le> bval t \<and>
          uint (p + 1) * bval other + bval r = uint q * bval other + bval t) \<and> nat (bval r) < nat (bval s))"
        by (rule ok_mono) (use P o1 True p1 in \<open>auto simp: distrib_right\<close>)
      then show ?thesis using x P n True by (simp add: wp)
    qed
  qed
  have fin: "ok (if ob * word_of_int (k + 1) > tb then Some (q + word_of_int k, r)
         else while_do (\<lambda>(result, t). LessEqual other t)
                (\<lambda>(result, t). do { t \<leftarrow> SubtractBignum other t; Some (result + 1, t) }) (q + word_of_int k, r)) Q"
    if r: "norm r" "bval r = bval t - k * bval other" for r
  proof (cases "ob * word_of_int (k + 1) > tb")
    case True
    then show ?thesis using exact r pk by (simp add: distrib_right Q)
  next
    case False
    then show ?thesis using loop[OF r] by simp
  qed
  show ?thesis
    using ob10 k16
    apply (simp only: ok_bind[of "udiv _ _"] ok_udiv Let_def sq)
    apply (simp add: ok_bind[of "ensure _"] ok_ensure)
    apply (subst ok_bind, rule ok_mono[OF sub])
    apply (use fin in auto)
    done
qed

lemma ok_DivideModuloIntBignum:
  assumes n: "norm this" "norm other" and cap: "bval this < W 127"
    and u: "0 < used_digits other" and r16: "bval this < 16 * bval other"
    and top: "BigitLength other < BigitLength this \<Longrightarrow> bval other + W (BigitLength other - 1) \<le> W (BigitLength other)"
    and Q: "\<And>q r. norm r \<Longrightarrow> uint q = bval this div bval other \<Longrightarrow> bval r = bval this mod bval other \<Longrightarrow> Q (q, r)"
  shows "ok (DivideModuloIntBignum other this) Q"
proof -
  note w = n[THEN norm_wf]
  note B = wfD[OF w(2)]
  have o1: "0 < bval other" using bval_0_iff[OF n(2)] bval_nonneg[of other] u by linarith
  have Q': "Q (q, r)" if "norm r" "uint q * bval other + bval r = bval this" "bval r < bval other" for q r
  proof (rule Q[OF that(1)])
    have e: "bval this = bval r + bval other * uint q" using that(2) by (simp add: mult.commute)
    show "uint q = bval this div bval other" unfolding e using o1 that(3) by simp
    show "bval r = bval this mod bval other" unfolding e using o1 that(3) by simp
  qed
  show ?thesis
  proof (cases "BigitLength this < BigitLength other")
    case True
    then show ?thesis
      using bval_less_of_BigitLength[OF w(1) n(2)] n u by (simp add: DivideModuloIntBignum_def wp Q')
  next
    case False
    have al: "ok (Align other this) (\<lambda>t. norm t \<and> bval t = bval this \<and> bexp t \<le> bexp other \<and> BigitLength t = BigitLength this)"
      by (rule ok_Align_norm[OF n(1) B(5) cap]) auto
    have loop: "ok (while_do
         (\<lambda>(result, this). Some (BigitLength this > BigitLength other))
         (\<lambda>(result, this). do {
            other_top \<leftarrow> rd (bigits other) (used_digits other - 1);
            ensure (uint other_top \<ge> (2 ^ nat kBigitSize) div 16);
            top \<leftarrow> rd (bigits this) (used_digits this - 1);
            ensure (uint top < 0x10000);
            this \<leftarrow> SubtractTimes other (sint top) this;
            Some (result + ucast top, this) }) (0 :: u16, t))
        (\<lambda>(q, r). norm r \<and> uint q * bval other + bval r = bval this \<and> bexp r \<le> bexp other \<and> BigitLength r = BigitLength other)"
      if t: "norm t \<and> bval t = bval this \<and> bexp t \<le> bexp other \<and> BigitLength t = BigitLength this" for t
      by (rule ok_divide_loop) (use t n cap u r16 top False in auto)
    have tail: "ok (do {
       ensure (BigitLength t = BigitLength other);
       this_bigit \<leftarrow> rd (bigits t) (used_digits t - 1);
       other_bigit \<leftarrow> rd (bigits other) (used_digits other - 1);
       if used_digits other = 1 then do {
         quotient \<leftarrow> udiv this_bigit other_bigit;
         let quotient = sint quotient;
         bs \<leftarrow> wr (bigits t) (used_digits t - 1)
                 (this_bigit - other_bigit * word_of_int quotient);
         ensure (quotient < 0x10000);
         t \<leftarrow> Clamp (t\<lparr>bigits := bs\<rparr>);
         Some (q + word_of_int quotient, t) }
       else do {
         division_estimate \<leftarrow> udiv this_bigit (other_bigit + 1);
         let division_estimate = sint division_estimate;
         ensure (division_estimate < 0x10000);
         let result = q + word_of_int division_estimate;
         t \<leftarrow> SubtractTimes other division_estimate t;
         if other_bigit * word_of_int (division_estimate + 1) > this_bigit then Some (result, t)
         else while_do (\<lambda>(result, t). LessEqual other t)
                (\<lambda>(result, t). do {
                   t \<leftarrow> SubtractBignum other t;
                   Some (result + 1, t) }) (result, t) } }) Q"
      if t: "norm t \<and> uint q * bval other + bval t = bval this \<and> bexp t \<le> bexp other \<and> BigitLength t = BigitLength other"
      for q t
    proof -
      have ut: "0 < used_digits t" using t u by (auto simp: BigitLength_def)
      have nt: "norm t" using t by simp
      note T = top_chunk[OF nt ut] and O = top_chunk[OF n(2) u]
      have q0: "0 \<le> uint q * bval other" by simp
      have tcap: "bval t < W 127" using t q0 cap by linarith
      have Q2: "Q (p, r)" if "norm r" "uint p * bval other + bval r = uint q * bval other + bval t"
          "bval r < bval other" for p r
        using Q'[of r p] that t by simp
      show ?thesis
      proof (cases "used_digits other = 1")
        case True
        have r: "uint q * bval other + bval t < 16 * bval other" "bexp t \<le> bexp other"
          "BigitLength t = BigitLength other" using t r16 by auto
        show ?thesis
          using ok_divide_one_chunk[where Q = Q, OF nt n(2) r(2) True r(3,1) Q2] t True T(1) O(1) ut u
          by (simp add: ok_bind[of "ensure _"] ok_ensure ok_bind[of "rd _ _"] ok_rd)
      next
        case False
        have r: "uint q * bval other + bval t < 16 * bval other" "bexp t \<le> bexp other"
          "BigitLength t = BigitLength other" using t r16 by auto
        show ?thesis
          using ok_divide_estimate[where Q = Q, OF nt n(2) r(2) u r(3,1) tcap Q2] t False T(1) O(1) ut u
          by (simp add: ok_bind[of "ensure _"] ok_ensure ok_bind[of "rd _ _"] ok_rd)
      qed
    qed
    show ?thesis
      unfolding DivideModuloIntBignum_def
      using False n u
      apply (simp add: ok_bind[of "assert_clamped _"] ok_assert_clamped ok_bind[of "ensure _"] ok_ensure del: kBigitSize_def)
      apply (subst ok_bind, rule ok_mono[OF al])
      apply (subst ok_bind, rule ok_mono[OF loop])
       apply assumption
      apply (simp add: split_beta del: kBigitSize_def)
      apply (use tail in \<open>auto simp: split_beta\<close>)
      done
  qed
qed

end
