(* ===== verification/Bignum_Power.thy ===== *)
theory Bignum_Power
  imports Bignum_Div
begin

text \<open>Squaring a bignum is exact (the column sums fit the 64-bit accumulator), and so are the powers
  built by square-and-multiply.\<close>

section \<open>Squaring\<close>

lemma lval_take_sum: "n \<le> length xs \<Longrightarrow> lval (take n xs) = (\<Sum>k<n. uint (xs ! k) * W (int k))"
proof (induction n)
  case (Suc n)
  then show ?case by (simp add: lval_take_Suc)
qed simp

lemma W_nat_add: "W (int a) * W (int b) = W (int (a + b))"
  by (simp add: W_add)

text \<open>Column \<open>c\<close> of the product of a number with itself.\<close>

definition col :: "(nat \<Rightarrow> int) \<Rightarrow> nat \<Rightarrow> nat \<Rightarrow> int" where
  "col x u c = (\<Sum>k\<in>{Suc c - u..<min (Suc c) u}. x (c - k) * x k)"

lemma square_columns:
  "(\<Sum>k<u. x k * W (int k)) * (\<Sum>k<u. x k * W (int k)) = (\<Sum>c<2 * u. col x u c * W (int c))"
proof -
  let ?A = "{..<u} \<times> {..<u}"
  let ?f = "\<lambda>p. fst p + snd p :: nat"
  let ?g = "\<lambda>p. x (fst p) * x (snd p) * W (int (?f p))"
  have "(\<Sum>k<u. x k * W (int k)) * (\<Sum>k<u. x k * W (int k)) =
      (\<Sum>(a, b)\<in>?A. (x a * W (int a)) * (x b * W (int b)))"
    by (simp add: sum_product sum.cartesian_product)
  also have "\<dots> = (\<Sum>p\<in>?A. ?g p)"
    by (rule sum.cong) (auto simp: W_add mult_ac)
  also have "\<dots> = (\<Sum>c<2 * u. \<Sum>p\<in>{p \<in> ?A. ?f p = c}. ?g p)"
    by (rule sum.group[symmetric]) auto
  also have "\<dots> = (\<Sum>c<2 * u. col x u c * W (int c))"
  proof (rule sum.cong[OF refl])
    fix c
    have "(\<Sum>p\<in>{p \<in> ?A. ?f p = c}. ?g p) = (\<Sum>k\<in>{Suc c - u..<min (Suc c) u}. x (c - k) * x k * W (int c))"
      by (rule sum.reindex_bij_witness[of _ "\<lambda>k. (c - k, k)" snd]) auto
    then show "(\<Sum>p\<in>{p \<in> ?A. ?f p = c}. ?g p) = col x u c * W (int c)"
      by (simp add: col_def sum_distrib_right)
  qed
  finally show ?thesis .
qed

lemma col_bounds:
  assumes "\<And>k. k < u \<Longrightarrow> 0 \<le> x k \<and> x k \<le> 268435455" and "u \<le> 64"
  shows "0 \<le> col x u c" "col x u c \<le> 4611686018427387904"
proof -
  let ?S = "{Suc c - u..<min (Suc c) u}"
  have b: "0 \<le> x (c - k) * x k \<and> x (c - k) * x k \<le> 268435455 * 268435455" if "k \<in> ?S" for k
  proof -
    have "k < u" "c - k < u" using that by auto
    then have "0 \<le> x k" "x k \<le> 268435455" "0 \<le> x (c - k)" "x (c - k) \<le> 268435455" using assms(1) by blast+
    then show ?thesis by (intro conjI mult_mono mult_nonneg_nonneg) auto
  qed
  show "0 \<le> col x u c" unfolding col_def by (rule sum_nonneg) (use b in auto)
  have "col x u c \<le> of_nat (card ?S) * (268435455 * 268435455)"
    unfolding col_def by (rule sum_bounded_above) (use b in auto)
  also have "\<dots> \<le> 64 * (268435455 * 268435455)" using assms(2) by (intro mult_right_mono) auto
  finally show "col x u c \<le> 4611686018427387904" by simp
qed

text \<open>The inner loops add up a column; partial sums stay below the full column.\<close>

lemma col_partial:
  assumes "\<And>k. k < u \<Longrightarrow> 0 \<le> x k" and "m \<le> min (Suc c) u"
  shows "(\<Sum>k\<in>{Suc c - u..<m}. x (c - k) * x k) \<le> col x u c"
  unfolding col_def by (rule sum_mono2) (use assms in \<open>auto intro!: mult_nonneg_nonneg\<close>)

lemma uint_prod_add:
  fixes a b :: u32 and acc :: u64
  assumes "uint acc + uint a * uint b < 18446744073709551616"
  shows "uint (acc + ucast a * ucast b) = uint acc + uint a * uint b"
proof -
  have "0 \<le> uint acc" by simp
  then have p: "uint (ucast a * ucast b :: u64) = uint a * uint b"
  proof -
    have "uint a * uint b < 18446744073709551616" using assms \<open>0 \<le> uint acc\<close> by linarith
    then show ?thesis by (subst uint_mult_exact) (simp_all add: uint_ucast_up)
  qed
  show ?thesis using assms by (subst uint_add_exact) (simp_all add: p)
qed

text \<open>
  One column: the products of the copy at offset \<open>u\<close>, starting at index \<open>lo\<close>. The guard is
  that of either outer loop; it holds exactly for the indices of the column.
\<close>

lemma ok_column:
  fixes acc :: u64 and bs :: "u32 list" and x :: "nat \<Rightarrow> int"
  assumes u: "u \<le> 64" and len: "length bs = 128"
    and copy: "\<And>k. Suc c - u \<le> k \<Longrightarrow> k < u \<Longrightarrow> uint (bs ! (u + k)) = x k"
    and x: "\<And>k. k < u \<Longrightarrow> 0 \<le> x k \<and> x k \<le> 268435455"
    and acc: "uint acc \<le> 4611686018427387904"
    and lo: "Suc c - u \<le> min (Suc c) u"
    and guard: "\<And>a i j. i = int c - j \<Longrightarrow> int (Suc c - u) \<le> j \<Longrightarrow> j \<le> int (min (Suc c) u) \<Longrightarrow>
       g (a, i, j) = (j < int (min (Suc c) u))"
    and Q: "\<And>a i j. uint a = uint acc + col x u c \<Longrightarrow> Q (a, i, j)"
  shows "ok (while_do (\<lambda>s. Some (g s))
            (\<lambda>(acc, index1, index2). do {
               chunk1 \<leftarrow> rd bs (int u + index1);
               chunk2 \<leftarrow> rd bs (int u + index2);
               Some (acc + ucast chunk1 * ucast chunk2, index1 - 1, index2 + 1) })
            (acc, int c - int (Suc c - u), int (Suc c - u))) Q"
proof (rule ok_while_do[where P = "\<lambda>(a, i, j). i = int c - j \<and> int (Suc c - u) \<le> j \<and> j \<le> int (min (Suc c) u) \<and>
      uint a = uint acc + (\<Sum>k\<in>{Suc c - u..<nat j}. x (c - k) * x k)" and m = "\<lambda>(a, i, j). nat (int (min (Suc c) u) - j)"], goal_cases)
  case 1
  then show ?case using lo by simp
next
  case (2 s)
  obtain a i j where s: "s = (a, i, j)" by (cases s)
  have P: "i = int c - j" "int (Suc c - u) \<le> j" "j \<le> int (min (Suc c) u)"
    "uint a = uint acc + (\<Sum>k\<in>{Suc c - u..<nat j}. x (c - k) * x k)" using 2 s by auto
  have gj: "g s = (j < int (min (Suc c) u))" using guard[OF P(1-3)] s by simp
  show ?case
  proof (cases "j < int (min (Suc c) u)")
    case False
    then have "nat j = min (Suc c) u" using P by simp
    then show ?thesis using P s gj False Q by (simp add: col_def)
  next
    case True
    define k where "k = nat j"
    have k: "j = int k" "Suc c - u \<le> k" "k < u" "k \<le> c" using P True by (auto simp: k_def)
    have ck: "Suc c - u \<le> c - k" "c - k < u" using k by auto
    have i: "i = int (c - k)" using P k by simp
    have r1: "bs ! nat (int u + i) = bs ! (u + (c - k))" "bs ! nat (int u + j) = bs ! (u + k)"
      unfolding i k(1) by (simp_all only: nat_int_add)
    have v: "uint (bs ! (u + (c - k))) = x (c - k)" "uint (bs ! (u + k)) = x k"
      by (rule copy[OF ck]) (rule copy[OF k(2,3)])
    have S: "(\<Sum>k\<in>{Suc c - u..<Suc k}. x (c - k) * x k) = (\<Sum>k\<in>{Suc c - u..<k}. x (c - k) * x k) + x (c - k) * x k"
      using k by simp
    have "(\<Sum>k\<in>{Suc c - u..<Suc k}. x (c - k) * x k) \<le> col x u c"
      by (rule col_partial) (use x k in auto)
    then have "uint a + x (c - k) * x k \<le> uint acc + col x u c" using P(4) S k by simp
    then have lt: "uint a + x (c - k) * x k < 18446744073709551616"
      using acc col_bounds(2)[of u x c, OF x u] by simp
    have "uint (a + ucast (bs ! (u + (c - k))) * ucast (bs ! (u + k))) = uint a + x (c - k) * x k"
      using uint_prod_add[of a] lt v by simp
    then show ?thesis
      using s gj True r1 k i u len P(4) S by (simp add: wp nat_add_distrib del: int_plus) (auto simp: nat_add_distrib)
  qed
qed


lemma uint_ucast_and_mask: "uint ((ucast (a :: u64) :: u32) AND kBigitMask) = uint a mod 268435456"
proof -
  have "uint ((ucast a :: u32) AND kBigitMask) = uint a mod 4294967296 mod 268435456"
    by (simp add: mask28_ints unsigned_ucast_eq take_bit_eq_mod)
  also have "\<dots> = uint a mod 268435456" by (rule mod_mod_cancel) simp
  finally show ?thesis .
qed

text \<open>What holds before column \<open>c\<close> is computed.\<close>

definition square_inv :: "(nat \<Rightarrow> int) \<Rightarrow> nat \<Rightarrow> nat \<Rightarrow> u32 list \<Rightarrow> u64 \<Rightarrow> bool" where
  "square_inv x u c bs acc \<longleftrightarrow> length bs = 128 \<and> bounded bs \<and>
     (\<forall>k<u. c \<le> u + k \<longrightarrow> uint (bs ! (u + k)) = x k) \<and> (\<forall>k<128. 2 * u \<le> k \<longrightarrow> bs ! k = 0) \<and>
     lval (take c bs) + uint acc * W (int c) = (\<Sum>j<c. col x u j * W (int j)) \<and>
     uint acc \<le> 4611686018427387904"

lemma square_step:
  assumes inv: "square_inv x u c bs acc" and c: "c < 2 * u" and u: "u \<le> 64"
    and x: "\<And>k. k < u \<Longrightarrow> 0 \<le> x k \<and> x k \<le> 268435455"
    and a: "uint a = uint acc + col x u c"
  shows "square_inv x u (Suc c) (bs[c := ucast a AND kBigitMask]) (drop_bit 28 a)"
proof -
  have I: "length bs = 128" "bounded bs" "\<forall>k<u. c \<le> u + k \<longrightarrow> uint (bs ! (u + k)) = x k"
    "\<forall>k<128. 2 * u \<le> k \<longrightarrow> bs ! k = 0"
    "lval (take c bs) + uint acc * W (int c) = (\<Sum>j<c. col x u j * W (int j))"
    "uint acc \<le> 4611686018427387904" using inv by (auto simp: square_inv_def)
  let ?d = "ucast a AND kBigitMask :: u32"
  have d: "uint ?d = uint a mod 268435456" by (rule uint_ucast_and_mask)
  have c128: "c < length bs" using c u I(1) by simp
  have "lval (take (Suc c) (bs[c := ?d])) = lval (take c bs) + uint ?d * W (int c)"
    using c128 by (simp add: lval_take_Suc)
  moreover have "uint a * W (int c) = uint ?d * W (int c) + uint a div 268435456 * W (int (Suc c))"
    unfolding d using chunk_split[of "uint a" "W (int c)"] W_Suc_nat[of c] by simp
  ultimately have "lval (take (Suc c) (bs[c := ?d])) + uint a div 268435456 * W (int (Suc c)) =
      (\<Sum>j<Suc c. col x u j * W (int j))"
    using I(5) a by (simp add: distrib_right)
  moreover have "uint a div 268435456 < 4611686018427387904"
    by (rule div_less_mult) (use I(6) a col_bounds(2)[of u x c, OF x u] in simp_all)
  moreover have "bounded (bs[c := ?d])" using I(2) d by (simp add: bounded_update)
  ultimately show ?thesis using I c by (auto simp: square_inv_def uint_drop_bit)
qed

lemma ok_Square:
  assumes n: "norm b" and cap: "bval b * bval b < W 127"
    and Q: "\<And>r. norm r \<Longrightarrow> bval r = bval b * bval b \<Longrightarrow> Q r"
  shows "ok (Square b) Q"
proof -
  note w = norm_wf[OF n] and D = wfD[OF norm_wf[OF n]]
  define u where "u = nat (used_digits b)"
  have ui: "used_digits b = int u" using D by (simp add: u_def)
  have u64: "u \<le> 64"
  proof (rule ccontr)
    assume "\<not> u \<le> 64"
    then have "W 64 \<le> W (used_digits b - 1)" "0 < used_digits b" using ui by (simp_all add: W_mono)
    then have "W 64 \<le> lval (bigits b)" using n by (simp add: norm_def)
    then have "W 64 \<le> bval b" using lval_le_bval[of b] by linarith
    then have "W 64 * W 64 \<le> bval b * bval b" by (intro mult_mono) (auto simp: less_imp_le)
    moreover have "W 127 \<le> W 64 * W 64" by (simp add: W_add[symmetric] W_mono)
    ultimately show False using cap by linarith
  qed
  define x where "x k = uint (bigits b ! k)" for k
  have x: "0 \<le> x k \<and> x k \<le> 268435455" if "k < u" for k
    using bounded_nth[OF D(2), of k] that u64 D by (simp add: x_def)
  have zero: "bigits b ! k = 0" if "u \<le> k" "k < 128" for k
    using lval_small_zero[OF D(2), of u k] that D ui by simp
  let ?C = "\<lambda>i bs. length bs = 128 \<and> bounded bs \<and> (\<forall>k<nat i. bs ! (u + k) = bigits b ! k) \<and>
      (\<forall>k<u. bs ! k = bigits b ! k) \<and> (\<forall>k<128. 2 * u \<le> k \<longrightarrow> bs ! k = 0)"
  have copy: "ok (for_up 0 (int u) (\<lambda>i bs. do { x \<leftarrow> rd bs i; wr bs (int u + i) x }) (bigits b)) (?C (int u))"
  proof (rule ok_for_up[where P = ?C], goal_cases)
    case (3 j t)
    then have P: "length t = 128" "bounded t" "\<forall>k<nat j. t ! (u + k) = bigits b ! k"
      "\<forall>k<u. t ! k = bigits b ! k" "\<forall>k<128. 2 * u \<le> k \<longrightarrow> t ! k = 0" and j: "0 \<le> j" "j < int u" by auto
    have nj: "nat (int u + j) = u + nat j" "nat (j + 1) = Suc (nat j)" using j by (simp_all add: nat_add_distrib)
    have bd: "uint (t ! nat j) < 268435456" using bounded_nth[OF P(2)] j P(1) u64 by simp
    have "\<forall>k<Suc (nat j). t[u + nat j := t ! nat j] ! (u + k) = bigits b ! k"
      using P j u64 by (auto simp: nth_list_update less_Suc_eq)
    then show ?case using P j u64 bounded_update[OF P(2) bd] by (simp add: wp nj)
  qed (use D zero in auto)
  have one: "ok (for_up 0 (int u)
       (\<lambda>i (bs, accumulator). do {
          (accumulator, _, _) \<leftarrow> while_do (\<lambda>(acc, index1, index2). Some (index1 \<ge> 0))
            (\<lambda>(acc, index1, index2). do {
               chunk1 \<leftarrow> rd bs (int u + index1);
               chunk2 \<leftarrow> rd bs (int u + index2);
               Some (acc + ucast chunk1 * ucast chunk2, index1 - 1, index2 + 1) })
            (accumulator, i, 0);
          bs \<leftarrow> wr bs i (ucast accumulator AND kBigitMask);
          Some (bs, drop_bit 28 accumulator) }) (bs, 0 :: u64)) (\<lambda>(bs, acc). square_inv x u u bs acc)"
    if C: "?C (int u) bs" for bs
  proof (rule ok_for_up[where P = "\<lambda>i (bs, acc). square_inv x u (nat i) bs acc"], goal_cases)
    case (3 j t)
    obtain bs acc where t: "t = (bs, acc)" by (cases t)
    define c where "c = nat j"
    have j: "j = int c" "nat (j + 1) = Suc c" and c: "c < u" "c < 2 * u" using 3 by (simp_all add: c_def)
    have inv: "square_inv x u c bs acc" using 3 t by (simp add: c_def)
    have I: "length bs = 128" "uint acc \<le> 4611686018427387904"
      "\<And>k. Suc c - u \<le> k \<Longrightarrow> k < u \<Longrightarrow> uint (bs ! (u + k)) = x k"
      using inv c by (auto simp: square_inv_def)
    have z: "Suc c - u = 0" "min (Suc c) u = Suc c" using c by auto
    have le: "(j \<le> int c) = (j < 1 + int c)" for j by auto
    have "ok (while_do (\<lambda>(acc, index1, index2). Some (index1 \<ge> 0))
            (\<lambda>(acc, index1, index2). do {
               chunk1 \<leftarrow> rd bs (int u + index1);
               chunk2 \<leftarrow> rd bs (int u + index2);
               Some (acc + ucast chunk1 * ucast chunk2, index1 - 1, index2 + 1) })
            (acc, int c, 0)) (\<lambda>(a, i, k). square_inv x u (Suc c) (bs[c := ucast a AND kBigitMask]) (drop_bit 28 a))"
      using ok_column[where c = c and g = "\<lambda>(acc, index1, index2). index1 \<ge> 0", OF u64 I(1) I(3) x I(2), where Q = "\<lambda>(a, i, k). square_inv x u (Suc c) (bs[c := ucast a AND kBigitMask]) (drop_bit 28 a)"]
        square_step[OF inv c(2) u64 x] z c by (simp add: split_def le)
    then show ?case using t j c I u64 by (auto simp: wp elim!: ok_mono)
  qed (use C in \<open>auto simp: square_inv_def x_def\<close>)
  have two: "ok (for_up (int u) (2 * int u)
       (\<lambda>i (bs, accumulator). do {
          (accumulator, _, _) \<leftarrow> while_do (\<lambda>(acc, index1, index2). Some (index2 < int u))
            (\<lambda>(acc, index1, index2). do {
               chunk1 \<leftarrow> rd bs (int u + index1);
               chunk2 \<leftarrow> rd bs (int u + index2);
               Some (acc + ucast chunk1 * ucast chunk2, index1 - 1, index2 + 1) })
            (accumulator, int u - 1, i - (int u - 1));
          bs \<leftarrow> wr bs i (ucast accumulator AND kBigitMask);
          Some (bs, drop_bit 28 accumulator) }) (bs, acc)) (\<lambda>(bs, acc). square_inv x u (2 * u) bs acc)"
    if C: "square_inv x u u bs acc" for bs acc
  proof (rule ok_for_up[where P = "\<lambda>i (bs, acc). square_inv x u (nat i) bs acc"], goal_cases)
    case (3 j t)
    obtain bs acc where t: "t = (bs, acc)" by (cases t)
    define c where "c = nat j"
    have j: "j = int c" "nat (j + 1) = Suc c" and c: "u \<le> c" "c < 2 * u" using 3 by (simp_all add: c_def)
    have inv: "square_inv x u c bs acc" using 3 t by (simp add: c_def)
    have I: "length bs = 128" "uint acc \<le> 4611686018427387904"
      "\<And>k. Suc c - u \<le> k \<Longrightarrow> k < u \<Longrightarrow> uint (bs ! (u + k)) = x k"
      using inv c by (auto simp: square_inv_def)
    have z: "int (Suc c - u) = int c - (int u - 1)" "int c - int (Suc c - u) = int u - 1" "min (Suc c) u = u"
      using c by auto
    have "ok (while_do (\<lambda>(acc, index1, index2). Some (index2 < int u))
            (\<lambda>(acc, index1, index2). do {
               chunk1 \<leftarrow> rd bs (int u + index1);
               chunk2 \<leftarrow> rd bs (int u + index2);
               Some (acc + ucast chunk1 * ucast chunk2, index1 - 1, index2 + 1) })
            (acc, int u - 1, int c - (int u - 1)))
            (\<lambda>(a, i, k). square_inv x u (Suc c) (bs[c := ucast a AND kBigitMask]) (drop_bit 28 a))"
      using ok_column[where c = c and g = "\<lambda>(acc, index1, index2). index2 < int u", OF u64 I(1) I(3) x I(2), where Q = "\<lambda>(a, i, k). square_inv x u (Suc c) (bs[c := ucast a AND kBigitMask]) (drop_bit 28 a)"]
        square_step[OF inv c(2) u64 x] c unfolding z(2) z(1) z(3) by (simp add: split_def)
    then show ?case using t j c I u64 by (auto simp: wp elim!: ok_mono)
  qed (use C in \<open>auto simp: nat_mult_distrib\<close>)
  have lv: "lval (bigits b) = (\<Sum>k<u. x k * W (int k))"
    using lval_take_sum[of u "bigits b"] lval_take_used[OF w] u64 D ui by (simp add: x_def)
  have three: "ok (do { ensure (acc = 0);
       Clamp \<lparr>bigits = bs, used_digits = 2 * int u, bexp = bexp b * 2\<rparr> }) Q"
    if inv: "square_inv x u (2 * u) bs acc" for bs acc
  proof -
    have sq: "lval (bigits b) * lval (bigits b) = (\<Sum>c<2 * u. col x u c * W (int c))"
      unfolding lv by (rule square_columns)
    have I: "length bs = 128" "bounded bs" "\<forall>k<128. 2 * u \<le> k \<longrightarrow> bs ! k = 0"
      "lval (take (2 * u) bs) + uint acc * W (int (2 * u)) = lval (bigits b) * lval (bigits b)"
      unfolding sq using inv unfolding square_inv_def by blast+
    have "lval (bigits b) * lval (bigits b) < W (int u) * W (int u)"
    proof -
      have "lval (bigits b) < W (int u)" using D(6) unfolding ui .
      then show ?thesis by (rule mult_strict_mono) (simp_all add: \<open>lval (bigits b) < W (int u)\<close>)
    qed
    moreover have "W (int (2 * u)) = W (int u) * W (int u)" by (simp only: W_nat_add mult_2)
    ultimately have lt: "lval (bigits b) * lval (bigits b) < W (int (2 * u))" by (simp only:)
    have "acc = 0"
    proof (rule ccontr)
      assume "acc \<noteq> 0"
      then have "1 \<le> uint acc" using uint_nonnegative[of acc] uint_0_iff[of acc] by linarith
      then have "1 * W (int (2 * u)) \<le> uint acc * W (int (2 * u))" by (intro mult_right_mono) (auto simp: less_imp_le)
      then show False using I(4) lt lval_nonneg[of "take (2 * u) bs"] by linarith
    qed
    moreover have l: "lval bs = lval (bigits b) * lval (bigits b)"
    proof -
      have "drop (2 * u) bs = replicate (128 - 2 * u) 0" using I by (intro nth_equalityI) auto
      then show ?thesis using I(4) lval_split[of bs "2 * u"] \<open>acc = 0\<close> by simp
    qed
    moreover have "wf \<lparr>bigits = bs, used_digits = 2 * int u, bexp = bexp b * 2\<rparr>"
      using I l lt u64 D by (simp add: wf_def)
    moreover have "W (bexp b * 2) = W (bexp b) * W (bexp b)" using D W_add[of "bexp b" "bexp b"] by (simp add: mult_2_right)
    ultimately show ?thesis
      by (simp add: wp) (rule ok_Clamp, auto intro!: Q simp: bval_def)
  qed
  have fin: "ok (do { (bs, accumulator) \<leftarrow> for_up (int u) (2 * int u)
       (\<lambda>i (bs, accumulator). do {
          (accumulator, _, _) \<leftarrow> while_do (\<lambda>(acc, index1, index2). Some (index2 < int u))
            (\<lambda>(acc, index1, index2). do {
               chunk1 \<leftarrow> rd bs (int u + index1);
               chunk2 \<leftarrow> rd bs (int u + index2);
               Some (acc + ucast chunk1 * ucast chunk2, index1 - 1, index2 + 1) })
            (accumulator, int u - 1, i - (int u - 1));
          bs \<leftarrow> wr bs i (ucast accumulator AND kBigitMask);
          Some (bs, drop_bit 28 accumulator) }) (bs, acc);
      ensure (accumulator = 0);
      Clamp \<lparr>bigits = bs, used_digits = 2 * int u, bexp = bexp b * 2\<rparr> }) Q"
    if C: "square_inv x u u bs acc" for bs acc
    by (subst ok_bind, rule ok_mono[OF two[OF C]]) (use three in auto)
  have uu: "used_digits b < 256" using D by simp
  show ?thesis
    unfolding Square_def using n u64 uu
    apply (simp add: ok_bind[of "assert_clamped _"] ok_assert_clamped ok_bind[of "ensure _"] ok_ensure EnsureCapacity_def ui Let_def)
    apply (subst ok_bind, rule ok_mono[OF copy])
    apply (subst ok_bind, rule ok_mono[OF one])
     apply assumption
    apply (use fin in auto)
    done
qed


section \<open>Powers\<close>

lemma and_mask_bit: "((e::int) AND 2 ^ j \<noteq> 0) = odd (e div 2 ^ j)"
  by (simp add: and_exp_eq_0_iff_not_bit bit_iff_odd)

lemma high_bits_zero:
  fixes v :: u64
  assumes "n < 64"
  shows "(v AND NOT (push_bit n 1 - 1) = 0) = (uint v < 2 ^ n)"
proof -
  have m: "push_bit n 1 - 1 = (mask n :: u64)" by (simp add: mask_eq_exp_minus_1 push_bit_of_1)
  have "(v AND NOT (mask n) = 0) = (take_bit n v = v)"
  proof
    assume a: "v AND NOT (mask n) = 0"
    have "take_bit n v = (v AND mask n) OR (v AND NOT (mask n))" using a by (simp add: take_bit_eq_mask)
    also have "\<dots> = v" by (simp add: bit.conj_disj_distrib [symmetric])
    finally show "take_bit n v = v" .
  next
    assume "take_bit n v = v"
    then have "v AND NOT (mask n) = (v AND mask n) AND NOT (mask n)" by (simp add: take_bit_eq_mask)
    also have "\<dots> = 0" by (simp add: and.assoc)
    finally show "v AND NOT (mask n) = 0" .
  qed
  also have "\<dots> = (uint v < 2 ^ n)"
    by (simp add: word_uint_eq_iff unsigned_take_bit_eq take_bit_int_eq_self_iff)
  finally show ?thesis by (simp only: m)
qed

lemma pow_prefix:
  fixes B e :: int
  assumes "0 \<le> e" "1 \<le> B"
  shows "B ^ nat (e div 2 ^ Suc j) * B ^ nat (e div 2 ^ Suc j) * (if odd (e div 2 ^ j) then B else 1) =
    B ^ nat (e div 2 ^ j)"
    "B ^ nat (e div 2 ^ j) \<le> B ^ nat e"
proof -
  let ?p = "e div 2 ^ Suc j" and ?q = "e div 2 ^ j"
  have p: "?p = ?q div 2" by (simp only: power_Suc2) (simp add: zdiv_zmult2_eq)
  have nn: "0 \<le> ?q" "0 \<le> ?p" using assms(1) by (simp_all add: pos_imp_zdiv_nonneg_iff)
  have "nat ?q = nat ?p + nat ?p + (if odd ?q then 1 else 0)" using nn p by (auto elim!: oddE evenE)
  then show "B ^ nat ?p * B ^ nat ?p * (if odd ?q then B else 1) = B ^ nat ?q"
    by (simp add: power_add)
  have "?q \<le> e" using zdiv_mono2[of e 1 "2 ^ j"] assms(1) by simp
  then show "B ^ nat ?q \<le> B ^ nat e" using assms(2) by (intro power_increasing) auto
qed

text \<open>The masks the code walks through are \<open>2 ^ j div 2\<close>.\<close>

lemma mask_cases:
  assumes "mk = 2 ^ j div (2 :: int)"
  shows "mk \<noteq> 0 \<longleftrightarrow> 0 < j" "0 < j \<Longrightarrow> mk = 2 ^ (j - 1)" "0 < j \<Longrightarrow> mk div 2 = 2 ^ (j - 1) div 2"
    "0 < j \<Longrightarrow> nat (mk div 2) < nat mk"
proof -
  obtain i where "j = 0 \<or> j = Suc i" by (cases j) auto
  then show "mk \<noteq> 0 \<longleftrightarrow> 0 < j" "0 < j \<Longrightarrow> mk = 2 ^ (j - 1)" "0 < j \<Longrightarrow> mk div 2 = 2 ^ (j - 1) div 2"
    "0 < j \<Longrightarrow> nat (mk div 2) < nat mk"
    using assms div_less_dividend[of 2 "2 ^ i :: nat"]
    by (auto simp: int_div_less_self nat_mono_iff)
qed

lemma ok_strip_zeros:
  fixes base :: u16
  assumes "base \<noteq> 0"
    and Q: "\<And>b s. b \<noteq> 0 \<Longrightarrow> 0 \<le> s \<Longrightarrow> uint base = uint b * 2 ^ nat s \<Longrightarrow> Q (b, s)"
  shows "ok (while_do (\<lambda>(base, shifts). Some (base AND 1 = 0))
         (\<lambda>(base, shifts). Some (drop_bit 1 base, shifts + 1)) (base, 0 :: int)) Q"
proof (rule ok_while_do[where P = "\<lambda>(b, s). b \<noteq> 0 \<and> 0 \<le> s \<and> uint base = uint b * 2 ^ nat s" and m = "\<lambda>(b, s). unat b"], goal_cases)
  case (2 t)
  obtain b s where t: "t = (b, s)" by (cases t)
  have P: "b \<noteq> 0" "0 \<le> s" "uint base = uint b * 2 ^ nat s" using 2 t by auto
  have pos: "0 < uint b" using P(1) uint_nonnegative[of b] uint_0_iff[of b] by linarith
  have e: "(b AND 1 = 0) = even (uint b)" 
    unfolding word_uint_eq_iff unsigned_and_eq unsigned_1 by (simp add: and_one_eq even_iff_mod_2_eq_zero)
  show ?case
  proof (cases "even (uint b)")
    case True
    then obtain k where k: "uint b = 2 * k" by (rule evenE)
    have d: "uint (drop_bit 1 b) = k" using k by (simp add: uint_drop_bit)
    have "unat (drop_bit 1 b) < unat b" using d k pos by (simp add: unat_eq_nat_uint)
    moreover have "drop_bit 1 b \<noteq> 0" using d k pos by fastforce
    moreover have "uint base = uint (drop_bit 1 b) * 2 ^ nat (s + 1)"
      unfolding d using P k by (simp add: nat_add_distrib)
    ultimately show ?thesis using t P e True by simp
  next
    case False
    then show ?thesis using t e Q P by simp
  qed
qed (use assms in auto)

lemma ok_bit_size:
  assumes "0 < b"
    and Q: "\<And>t n. 1 \<le> n \<Longrightarrow> b < 2 ^ nat n \<Longrightarrow> 2 ^ nat (n - 1) \<le> b \<Longrightarrow> Q (t, n)"
  shows "ok (while_do (\<lambda>(tmp_base, bit_size). Some (tmp_base \<noteq> 0))
         (\<lambda>(tmp_base, bit_size). Some (tmp_base div 2, bit_size + 1)) (b :: int, 0 :: int)) Q"
proof (rule ok_while_do[where P = "\<lambda>(t, n). 0 \<le> t \<and> 0 \<le> n \<and> t = b div 2 ^ nat n \<and> (0 < n \<longrightarrow> 0 < b div 2 ^ nat (n - 1)) \<and> (n = 0 \<longrightarrow> t = b)" and m = "\<lambda>(t, n). nat t"], goal_cases)
  case (2 s)
  obtain t n where s: "s = (t, n)" by (cases s)
  have P: "0 \<le> t" "0 \<le> n" "t = b div 2 ^ nat n" "0 < n \<Longrightarrow> 0 < b div 2 ^ nat (n - 1)" "n = 0 \<Longrightarrow> t = b" using 2 s by auto
  have pos: "(0 < b div 2 ^ k) = (2 ^ k \<le> b)" for k :: nat using assms(1) by (simp add: pos_imp_zdiv_pos_iff)
  show ?case
  proof (cases "t = 0")
    case True
    then have n1: "1 \<le> n" using P assms(1) by (cases "n = 0") auto
    have "\<not> 0 < b div 2 ^ nat n" using P(3) True by simp
    then have "b < 2 ^ nat n" unfolding pos by simp
    moreover have "2 ^ nat (n - 1) \<le> b" using P(4) n1 unfolding pos by simp
    ultimately show ?thesis using s True Q n1 by simp
  next
    case False
    have "t div 2 = b div 2 ^ nat (n + 1)"
      unfolding P(3) using P(2) zdiv_zmult2_eq[of 2 b "2 ^ nat n"] by (simp add: nat_add_distrib mult.commute)
    moreover have "0 < b div 2 ^ nat (n + 1 - 1)" "t div 2 < t" using P False by (simp_all add: int_div_less_self)
    ultimately show ?thesis using s P False by simp
  qed
qed (use assms in auto)

lemma ok_mask:
  assumes "1 \<le> e" and Q: "\<And>j. e div 2 ^ j = 1 \<Longrightarrow> Q (2 * 2 ^ j)"
  shows "ok (while_do (\<lambda>mask. Some (e \<ge> mask)) (\<lambda>mask. Some (mask * 2)) (1 :: int)) Q"
proof (rule ok_while_do[where P = "\<lambda>m. 1 \<le> m \<and> (m = 1 \<or> (\<exists>j. m = 2 * 2 ^ j \<and> 2 ^ j \<le> e))" and m = "\<lambda>m. nat (e + 1 - m)"], goal_cases)
  case (2 m)
  then have m: "1 \<le> m" by simp
  show ?case
  proof (cases "m \<le> e")
    case True
    have "\<exists>j. m * 2 = 2 * 2 ^ j \<and> 2 ^ j \<le> e" using 2
    proof (elim conjE disjE exE)
      assume "m = 1" then show ?thesis using assms(1) by (intro exI[of _ 0]) simp
    next
      fix j assume "m = 2 * 2 ^ j" "2 ^ j \<le> e"
      then show ?thesis using True by (intro exI[of _ "Suc j"]) simp
    qed
    then show ?thesis using m True by auto
  next
    case False
    then obtain j where j: "m = 2 * 2 ^ j" "2 ^ j \<le> e" using 2 assms(1) by auto
    have "e div 2 ^ j = 1"
      by (rule int_div_pos_eq[of _ _ _ "e - 2 ^ j"]) (use j False in auto)
    then show ?thesis using Q[of j] j False by simp
  qed
qed (use assms in auto)

text \<open>Square-and-multiply inside 64 bits; \<open>delayed\<close> is set when the last factor no longer fits.\<close>

lemma ok_power_prefix:
  fixes b :: u16
  assumes e: "0 \<le> e" and b: "b \<noteq> 0" and n: "1 \<le> n" "n \<le> 16" "uint b < 2 ^ nat n"
    and j: "e div 2 ^ j = 1"
    and Q: "\<And>i tv d. uint tv * (if d then uint b else 1) = uint b ^ nat (e div 2 ^ i) \<Longrightarrow> Q (2 ^ i div 2, tv, d)"
  shows "ok (while_do
         (\<lambda>(mask, this_value, delayed). Some (mask \<noteq> 0 \<and> this_value \<le> 0xFFFFFFFF))
         (\<lambda>(mask, this_value, delayed). do {
            let this_value = this_value * this_value;
            (this_value, delayed) \<leftarrow>
              (if (e AND mask) \<noteq> 0 then do {
                 b1 \<leftarrow> shl64 1 (64 - n);
                 let base_bits_mask = NOT (b1 - 1);
                 let high_bits_zero = ((this_value AND base_bits_mask) = 0);
                 if high_bits_zero then Some (this_value * ucast b, delayed)
                 else Some (this_value, True) }
               else Some (this_value, delayed));
            Some (mask div 2, this_value, delayed) }) (2 ^ j div 2, ucast b :: u64, False)) Q"
proof (rule ok_while_do[where P = "\<lambda>(mk, tv, d). \<exists>i. mk = 2 ^ i div 2 \<and>
      uint tv * (if d then uint b else 1) = uint b ^ nat (e div 2 ^ i) \<and> (d \<longrightarrow> \<not> tv \<le> 0xFFFFFFFF)"
    and m = "\<lambda>(mk, tv, d). nat mk"], goal_cases)
  case 1
  then show ?case using j by (auto intro!: exI[of _ j] simp: uint_ucast_16_64)
next
  case (2 s)
  obtain mk tv d where s: "s = (mk, tv, d)" by (cases s)
  obtain i where mk: "mk = 2 ^ i div 2" and I: "uint tv * (if d then uint b else 1) = uint b ^ nat (e div 2 ^ i)"
    "d \<Longrightarrow> \<not> tv \<le> 0xFFFFFFFF" using 2 s by auto
  note M = mask_cases[OF mk]
  have B1: "1 \<le> uint b" using b uint_nonnegative[of b] uint_0_iff[of b] by linarith
  show ?case
  proof (cases "mk \<noteq> 0 \<and> tv \<le> 0xFFFFFFFF")
    case False
    then show ?thesis using s Q[OF I(1), folded mk] by auto
  next
    case True
    define k where "k = i - 1"
    have i: "i = Suc k" "mk = 2 ^ k" using True M by (auto simp: k_def)
    have d: "\<not> d" using True I by auto
    have tv: "uint tv = uint b ^ nat (e div 2 ^ Suc k)" using I(1) d i by simp
    have small: "uint tv \<le> 4294967295" using True by (simp add: word_le_def)
    have "uint tv * uint tv \<le> 4294967295 * 4294967295" by (intro mult_mono small) auto
    then have sq: "uint (tv * tv) = uint tv * uint tv" by (subst uint_mult_exact) auto
    note pp = pow_prefix(1)[OF e B1, of k, folded tv]
    have dec: "nat (mk div 2) < nat mk" "mk div 2 = 2 ^ k div 2" using M True i by auto
    show ?thesis
    proof (cases "odd (e div 2 ^ k)")
      case False
      then have "uint (tv * tv) = uint b ^ nat (e div 2 ^ k)" using pp sq by simp
      moreover have "\<not> (e AND mk) \<noteq> 0" unfolding i(2) and_mask_bit using False by simp
      ultimately show ?thesis using s True d dec by (auto simp: wp Let_def intro!: exI[of _ k])
    next
      case odd: True
      have em: "(e AND mk) \<noteq> 0" unfolding i(2) and_mask_bit using odd by simp
      have hb: "(tv * tv AND NOT (push_bit (nat (64 - n)) 1 - 1) = 0) = (uint (tv * tv) < 2 ^ nat (64 - n))"
        by (rule high_bits_zero) (use n in auto)
      have val: "uint (tv * tv) * uint b = uint b ^ nat (e div 2 ^ k)" using pp sq odd by simp
      show ?thesis
      proof (cases "uint (tv * tv) < 2 ^ nat (64 - n)")
        case True
        have "uint (tv * tv) * uint b < 2 ^ nat (64 - n) * 2 ^ nat n"
          by (rule mult_strict_mono) (use True n in auto)
        also have "\<dots> = 2 ^ (nat (64 - n) + nat n)" by (simp only: power_add)
        also have "nat (64 - n) + nat n = 64" using n by simp
        finally have "uint (tv * tv * ucast b) = uint b ^ nat (e div 2 ^ k)"
          using val by (subst uint_mult_exact) (simp_all add: uint_ucast_16_64)
        then show ?thesis using s em hb True \<open>mk \<noteq> 0 \<and> tv \<le> 0xFFFFFFFF\<close> d dec n
          by (auto simp: wp Let_def intro!: exI[of _ k])
      next
        case False
        have "(2::int) ^ 48 \<le> 2 ^ nat (64 - n)" by (rule power_increasing) (use n in auto)
        then have "\<not> tv * tv \<le> 0xFFFFFFFF" using False by (simp add: word_le_def)
        then show ?thesis using s em hb False \<open>mk \<noteq> 0 \<and> tv \<le> 0xFFFFFFFF\<close> d dec n val
          by (auto simp: wp Let_def intro!: exI[of _ k])
      qed
    qed
  qed
qed

text \<open>The same with the bignum operations.\<close>

lemma ok_power_loop:
  fixes b :: u16
  assumes e: "0 \<le> e" and b: "b \<noteq> 0" and cap: "uint b ^ nat e < W 127"
    and n: "norm t" "bval t = uint b ^ nat (e div 2 ^ i)"
    and Q: "\<And>m r. norm r \<Longrightarrow> bval r = uint b ^ nat e \<Longrightarrow> Q (m, r)"
  shows "ok (while_do (\<lambda>(mask, this). Some (mask \<noteq> 0))
         (\<lambda>(mask, this). do {
            this \<leftarrow> Square this;
            this \<leftarrow> (if (e AND mask) \<noteq> 0
                      then MultiplyByUInt32 (ucast b) this else Some this);
            Some (mask div 2, this) }) (2 ^ i div 2, t)) Q"
proof (rule ok_while_do[where P = "\<lambda>(mk, t). norm t \<and> (\<exists>i. mk = 2 ^ i div 2 \<and> bval t = uint b ^ nat (e div 2 ^ i))"
    and m = "\<lambda>(mk, t). nat mk"], goal_cases)
  case (2 s)
  obtain mk t where s: "s = (mk, t)" by (cases s)
  obtain i where mk: "mk = 2 ^ i div 2" and I: "norm t" "bval t = uint b ^ nat (e div 2 ^ i)" using 2 s by auto
  note M = mask_cases[OF mk]
  have B1: "1 \<le> uint b" using b uint_nonnegative[of b] uint_0_iff[of b] by linarith
  show ?case
  proof (cases "mk \<noteq> 0")
    case False
    then have "i = 0" using M by simp
    then show ?thesis using s I Q False by simp
  next
    case True
    define k where "k = i - 1"
    have i: "i = Suc k" "mk = 2 ^ k" using True M by (auto simp: k_def)
    have dec: "nat (mk div 2) < nat mk" "mk div 2 = 2 ^ k div 2" using M True i by auto
    have em: "((e AND mk) \<noteq> 0) = odd (e div 2 ^ k)" unfolding i(2) by (rule and_mask_bit)
    have pp: "bval t * bval t * (if odd (e div 2 ^ k) then uint b else 1) = uint b ^ nat (e div 2 ^ k)"
      "uint b ^ nat (e div 2 ^ k) < W 127"
      using pow_prefix[OF e B1, of k] I(2) i cap by auto
    have "bval t * bval t * 1 \<le> bval t * bval t * (if odd (e div 2 ^ k) then uint b else 1)"
      by (rule mult_left_mono) (use B1 in auto)
    then have c: "bval t * bval t < W 127" using pp by linarith
    show ?thesis
      using s True apply (simp add: wp)
      apply (rule ok_Square[OF I(1) c])
      using pp dec em
      apply (auto intro!: ok_MultiplyByUInt32 exI[of _ k] simp: uint_ucast_16 split: if_splits)
      done
  qed
qed (use n in auto)

lemma ok_AssignPowerUInt16:
  assumes w: "wf this" and b: "base \<noteq> 0" and e: "0 \<le> e"
    and s: "uint base < 2 ^ s" "int s * e < 3556"
    and Q: "\<And>r. norm r \<Longrightarrow> bval r = uint base ^ nat e \<Longrightarrow> Q r"
  shows "ok (AssignPowerUInt16 base e this) Q"
proof (cases "e = 0")
  case True
  then show ?thesis using b w Q by (auto simp: AssignPowerUInt16_def wp intro!: ok_AssignUInt16)
next
  case False
  then have e1: "1 \<le> e" using e by simp
  have cap: "uint base ^ nat e < W 127"
  proof -
    have "uint base ^ nat e < (2 ^ s) ^ nat e" by (rule power_strict_mono) (use s e1 in auto)
    also have "\<dots> = 2 ^ (s * nat e)" by (simp only: power_mult)
    also have "\<dots> \<le> W 127" unfolding W_def
    proof (rule power_increasing)
      have "int (s * nat e) < 3556" using s(2) e by simp
      then show "s * nat e \<le> 28 * nat 127" by linarith
    qed simp
    finally show ?thesis .
  qed
  have shift: "ok (ShiftLeft (sh * e) r) Q"
    if "norm r" "bval r = uint b ^ nat e" "0 \<le> sh" "uint base = uint b * 2 ^ nat sh" "b \<noteq> 0" for r sh and b :: u16
  proof (rule ok_ShiftLeft[OF that(1)])
    show "0 \<le> sh * e" using that e by simp
    have "uint b * 1 \<le> uint b * 2 ^ nat sh" by (intro mult_left_mono) auto
    then have "uint b ^ nat e \<le> uint base ^ nat e" using that(4) by (intro power_mono) auto
    then show "bval r < W 127" using cap that(2) by linarith
  next
    fix r' assume r: "norm r'" "bval r' = bval r * 2 ^ nat (sh * e)"
    have "bval r' = uint base ^ nat e"
      unfolding r(2) that(2,4) using that(3) e by (simp add: power_mult_distrib nat_mult_distrib power_mult)
    then show "Q r'" using r Q by simp
  qed
  have main: "ok (do {
       mask \<leftarrow> while_do (\<lambda>mask. Some (e \<ge> mask)) (\<lambda>mask. Some (mask * 2)) 1;
       let mask = mask div 4;
       let this_value = (ucast b :: u64);
       (mask, this_value, delayed_multiplication) \<leftarrow> while_do
         (\<lambda>(mask, this_value, delayed). Some (mask \<noteq> 0 \<and> this_value \<le> 0xFFFFFFFF))
         (\<lambda>(mask, this_value, delayed). do {
            let this_value = this_value * this_value;
            (this_value, delayed) \<leftarrow>
              (if (e AND mask) \<noteq> 0 then do {
                 b1 \<leftarrow> shl64 1 (64 - n);
                 let base_bits_mask = NOT (b1 - 1);
                 let high_bits_zero = ((this_value AND base_bits_mask) = 0);
                 if high_bits_zero then Some (this_value * ucast b, delayed)
                 else Some (this_value, True) }
               else Some (this_value, delayed));
            Some (mask div 2, this_value, delayed) }) (mask, this_value, False);
       this \<leftarrow> AssignUInt64 this_value Bignum0;
       this \<leftarrow> (if delayed_multiplication then MultiplyByUInt32 (ucast b) this else Some this);
       (_, this) \<leftarrow> while_do (\<lambda>(mask, this). Some (mask \<noteq> 0))
         (\<lambda>(mask, this). do {
            this \<leftarrow> Square this;
            this \<leftarrow> (if (e AND mask) \<noteq> 0
                      then MultiplyByUInt32 (ucast b) this else Some this);
            Some (mask div 2, this) }) (mask, this);
       ShiftLeft (sh * e) this }) Q"
    if b: "b \<noteq> 0" "0 \<le> sh" "uint base = uint b * 2 ^ nat sh" and n: "1 \<le> n" "n \<le> 16" "uint b < 2 ^ nat n"
    for b :: u16 and sh n
  proof -
    have B1: "1 \<le> uint b" using b uint_nonnegative[of b] uint_0_iff[of b] by linarith
    have "uint b * 1 \<le> uint b * 2 ^ nat sh" by (intro mult_left_mono) auto
    then have bb: "uint b ^ nat e \<le> uint base ^ nat e" using b(3) by (intro power_mono) auto
    then have capb: "uint b ^ nat e < W 127" using cap by linarith
    have pre: "uint b ^ nat (e div 2 ^ i) < W 127" for i using pow_prefix(2)[OF e B1, of i] capb by linarith
    have tail: "ok (do { this \<leftarrow> AssignUInt64 tv Bignum0;
       this \<leftarrow> (if d then MultiplyByUInt32 (ucast b) this else Some this);
       (_, this) \<leftarrow> while_do (\<lambda>(mask, this). Some (mask \<noteq> 0))
         (\<lambda>(mask, this). do {
            this \<leftarrow> Square this;
            this \<leftarrow> (if (e AND mask) \<noteq> 0
                      then MultiplyByUInt32 (ucast b) this else Some this);
            Some (mask div 2, this) }) (2 ^ i div 2, this);
       ShiftLeft (sh * e) this }) Q"
      if I: "uint tv * (if d then uint b else 1) = uint b ^ nat (e div 2 ^ i)" for i tv d
    proof -
      have loop: "ok (do { (_, this) \<leftarrow> while_do (\<lambda>(mask, this). Some (mask \<noteq> 0))
         (\<lambda>(mask, this). do {
            this \<leftarrow> Square this;
            this \<leftarrow> (if (e AND mask) \<noteq> 0
                      then MultiplyByUInt32 (ucast b) this else Some this);
            Some (mask div 2, this) }) (2 ^ i div 2, r);
         ShiftLeft (sh * e) this }) Q" if r: "norm r" "bval r = uint b ^ nat (e div 2 ^ i)" for r
        by (subst ok_bind, rule ok_power_loop[OF e b(1) capb r]) (simp add: shift b)
      show ?thesis
        apply (subst ok_bind, rule ok_AssignUInt64, simp)
        apply (subst ok_bind)
        using I pre[of i] loop
        by (cases d) (auto intro!: ok_MultiplyByUInt32 simp: uint_ucast_16)
    qed
    have d4: "2 * 2 ^ j div 4 = (2 ^ j div 2 :: int)" for j
      using zdiv_zmult2_eq[of 2 "2 * 2 ^ j" 2] by simp
    show ?thesis
      apply (subst ok_bind, rule ok_mask[OF e1])
      apply (simp only: d4 Let_def)
      apply (subst ok_bind, rule ok_power_prefix[unfolded Let_def, OF e b(1) n])
       apply assumption
      apply (simp add: tail)
      done
  qed
  show ?thesis
    unfolding AssignPowerUInt16_def using b e False w
    apply (simp only: ok_bind[of "ensure _"] ok_ensure ok_bind[of "Zero _"] ok_Zero if_False not_False_eq_True simp_thms)
    apply (subst ok_bind, rule ok_strip_zeros[OF b])
    subgoal for b' sh
      apply (subst split_conv)
      apply (subst ok_bind, rule ok_bit_size)
      subgoal using uint_nonnegative[of b'] uint_0_iff[of b'] by linarith
      subgoal premises p for tt n
      proof -
        have n16: "n \<le> 16"
        proof (rule ccontr)
          assume "\<not> n \<le> 16"
          then have "(2::int) ^ 16 \<le> 2 ^ nat (n - 1)" by (intro power_increasing) auto
          then show False using p uint_lt_2p[of b'] by simp
        qed
        have ns: "n \<le> int s"
        proof (rule ccontr)
          assume "\<not> n \<le> int s"
          then have "(2::int) ^ s \<le> 2 ^ nat (n - 1)" by (intro power_increasing) auto
          moreover have "uint b' * 1 \<le> uint b' * 2 ^ nat sh" by (intro mult_left_mono) auto
          ultimately show False using p s(1) by linarith
        qed
        have "n * e \<le> int s * e" using ns e by (intro mult_right_mono) auto
        then have "n * e < 3556" using s(2) by linarith
        moreover have "0 \<le> n * e" using p e by simp
        ultimately have capn: "EnsureCapacity (n * e sdiv kBigitSize + 2) = Some ()"
          by (simp add: EnsureCapacity_def)
        show ?thesis
          using main[of b' sh n] p n16 capn by simp
      qed
      done
    done
qed

end
