(* ===== verification/Digits.thy ===== *)
theory Digits
  imports Prelude
begin

text \<open>The value of a string of digits, the specification of every routine that reads or writes
  decimal text.\<close>

section \<open>Digit strings\<close>

definition radix_val :: "int \<Rightarrow> int list \<Rightarrow> int" where
  "radix_val b ds = foldl (\<lambda>a d. a * b + d) 0 ds"

lemma radix_val_Nil [simp]: "radix_val b [] = 0"
  by (simp add: radix_val_def)

lemma radix_val_snoc [simp]: "radix_val b (ds @ [d]) = radix_val b ds * b + d"
  by (simp add: radix_val_def)

lemma radix_val_append: "radix_val b (xs @ ys) = radix_val b xs * b ^ length ys + radix_val b ys"
  by (induction ys rule: rev_induct) (simp_all add: append_assoc[symmetric] algebra_simps del: append_assoc)

lemma radix_val_bounds:
  "\<forall>d\<in>set ds. 0 \<le> d \<and> d < b \<Longrightarrow> 0 < b \<Longrightarrow> 0 \<le> radix_val b ds \<and> radix_val b ds < b ^ length ds"
proof (induction ds rule: rev_induct)
  case (snoc d ds)
  then have I: "0 \<le> radix_val b ds" "radix_val b ds + 1 \<le> b ^ length ds" "0 \<le> d" "d < b" by auto
  have "(radix_val b ds + 1) * b \<le> b ^ length ds * b" by (rule mult_right_mono) (use I snoc in auto)
  then have "b * radix_val b ds + b \<le> b * b ^ length ds" by (simp add: algebra_simps)
  then have "b * radix_val b ds + d < b * b ^ length ds" using I(4) by linarith
  then show ?case using I snoc.prems by (simp add: mult.commute)
qed simp

definition digit_of :: "u8 \<Rightarrow> int" where
  "digit_of c = uint c - 48"

definition digits :: "u8 list \<Rightarrow> bool" where
  "digits cs \<longleftrightarrow> (\<forall>c\<in>set cs. 0 \<le> digit_of c \<and> digit_of c \<le> 9)"

definition dec_val :: "u8 list \<Rightarrow> int" where
  "dec_val cs = radix_val 10 (map digit_of cs)"

lemma digits_nth: "digits cs \<Longrightarrow> i < length cs \<Longrightarrow> 0 \<le> digit_of (cs ! i) \<and> digit_of (cs ! i) \<le> 9"
  by (simp add: digits_def)

lemma digits_take [simp]: "digits cs \<Longrightarrow> digits (take n cs)"
  by (auto simp: digits_def dest: in_set_takeD)

lemma digits_drop [simp]: "digits cs \<Longrightarrow> digits (drop n cs)"
  by (auto simp: digits_def dest: in_set_dropD)

lemma digits_append [simp]: "digits (cs @ ds) \<longleftrightarrow> digits cs \<and> digits ds"
  by (auto simp: digits_def)

lemma digits_Cons [simp]: "digits (c # cs) \<longleftrightarrow> 0 \<le> digit_of c \<and> digit_of c \<le> 9 \<and> digits cs"
  by (auto simp: digits_def)

lemma digits_Nil [simp]: "digits []"
  by (simp add: digits_def)

lemma dec_val_Nil [simp]: "dec_val [] = 0"
  by (simp add: dec_val_def)

lemma dec_val_append: "dec_val (xs @ ys) = dec_val xs * 10 ^ length ys + dec_val ys"
  by (simp add: dec_val_def radix_val_append)

lemma dec_val_snoc: "dec_val (xs @ [c]) = dec_val xs * 10 + digit_of c"
  by (simp add: dec_val_def)

lemma dec_val_take_Suc: "n < length cs \<Longrightarrow> dec_val (take (Suc n) cs) = dec_val (take n cs) * 10 + digit_of (cs ! n)"
  by (simp add: take_Suc_conv_app_nth dec_val_snoc)

lemma dec_val_bounds: "digits cs \<Longrightarrow> 0 \<le> dec_val cs \<and> dec_val cs < 10 ^ length cs"
  unfolding dec_val_def using radix_val_bounds[of "map digit_of cs" 10] by (force simp: digits_def)

lemma ch_0 [simp]: "uint (ch CHR ''0'') = 48"
  by (simp add: ch_def)

end
