(* ===== verification/Bignum_Text.thy ===== *)
theory Bignum_Text
  imports Bignum_Power Digits
begin

text \<open>Reading a decimal string into a bignum, 19 digits at a time.\<close>

section \<open>Decimal strings\<close>

lemma ok_ReadUInt64:
  assumes d: "digits v" and s: "0 \<le> s" "0 \<le> n" "n \<le> 19" "s + n \<le> int (length v)"
    and Q: "\<And>r. uint r = dec_val (take (nat n) (drop (nat s) v)) \<Longrightarrow> Q r"
  shows "ok (ReadUInt64 v s n) Q"
  unfolding ReadUInt64_def
proof (rule ok_for_up[where P = "\<lambda>i r. uint r = dec_val (take (nat (i - s)) (drop (nat s) v))"], goal_cases)
  case (3 j r)
  define k where "k = nat (j - s)"
  have j: "nat j = nat s + k" "nat (j + 1 - s) = Suc k" "k < nat n" "j < int (length v)" "0 \<le> j"
    using 3 s by (auto simp: k_def)
  let ?v = "drop (nat s) v"
  have kl: "k < length ?v" "?v ! k = v ! nat j" using j s by auto
  have dg: "0 \<le> digit_of (v ! nat j)" "digit_of (v ! nat j) \<le> 9" using digits_nth[OF d, of "nat j"] j by auto
  have b: "digits (take k ?v)" "length (take k ?v) = k" using d kl by simp_all
  have r: "uint r = dec_val (take k ?v)" using 3 by (simp add: k_def)
  have "dec_val (take k ?v) < 10 ^ k" using dec_val_bounds[OF b(1)] b(2) by simp
  also have "(10::int) ^ k \<le> 10 ^ 18" by (rule power_increasing) (use j s in auto)
  finally have lt: "uint r < 1000000000000000000" using r by simp
  have wd: "uint (word_of_int (digit_of (v ! nat j)) :: u64) = digit_of (v ! nat j)"
    using dg by (simp add: uint_word_of_int_eq take_bit_int_eq_self)
  have "uint (r * 10 + word_of_int (digit_of (v ! nat j))) = uint r * 10 + digit_of (v ! nat j)"
    using lt dg by (subst uint_add_exact; subst uint_mult_exact) (simp_all add: wd)
  then show ?case using j r dec_val_take_Suc[OF kl(1)] kl dg by (simp add: wp digit_of_def)
qed (use s Q in auto)

lemma ok_AssignDecimalString:
  assumes d: "digits v" and w: "wf b" and cap: "10 ^ length v \<le> W 127"
    and Q: "\<And>r. norm r \<Longrightarrow> bval r = dec_val v \<Longrightarrow> Q r"
  shows "ok (AssignDecimalString v b) Q"
proof -
  have val: "0 \<le> dec_val (take k v)" "dec_val (take k v) < W 127" for k
  proof -
    have "dec_val (take k v) < 10 ^ length (take k v)" "0 \<le> dec_val (take k v)"
      using dec_val_bounds[of "take k v"] d by auto
    moreover have "(10::int) ^ length (take k v) \<le> 10 ^ length v" by (rule power_increasing) auto
    ultimately show "0 \<le> dec_val (take k v)" "dec_val (take k v) < W 127" using cap by linarith+
  qed
  have step: "ok (do { this \<leftarrow> MultiplyByPowerOfTen n t; this \<leftarrow> AddUInt64 u this; f this }) R"
    if "norm t" "bval t = dec_val (take k v)" "0 \<le> n" "uint u = dec_val (take (nat n) (drop k v))"
      "k + nat n \<le> length v" "\<And>r. norm r \<Longrightarrow> bval r = dec_val (take (k + nat n) v) \<Longrightarrow> ok (f r) R"
    for t n u k f and R :: "'z \<Rightarrow> bool"
  proof -
    have e: "dec_val (take (k + nat n) v) = dec_val (take k v) * 10 ^ nat n + dec_val (take (nat n) (drop k v))"
      using that(5) by (simp only: take_add dec_val_append) simp
    have nn: "0 \<le> uint u" by simp
    show ?thesis
      apply (subst ok_bind, rule ok_MultiplyByPowerOfTen[OF that(1,3)])
      subgoal unfolding that(2) by (rule pow5_less) (use val[of k] val[of "k + nat n"] e that(4) nn in linarith)+
      apply (subst ok_bind, rule ok_AddUInt64, assumption)
      subgoal using val[of "k + nat n"] e that(2,4) by simp
      subgoal using that(6) e that by simp
      done
  qed
  have last: "ok (do { digits \<leftarrow> ReadUInt64 v pos len;
     this \<leftarrow> MultiplyByPowerOfTen len this;
     this \<leftarrow> AddUInt64 digits this;
     Clamp this }) Q"
    if P: "norm this" "0 \<le> pos" "0 \<le> len" "len < 19" "pos + len = int (length v)" "bval this = dec_val (take (nat pos) v)"
    for pos len this
  proof -
    have k: "nat pos + nat len = length v" using P by simp
    show ?thesis
      apply (subst ok_bind, rule ok_ReadUInt64[OF d P(2,3)])
        apply (use P in simp)
       apply (use P in simp)
      apply (rule step[OF P(1,6,3)])
        apply assumption
       apply (use k in simp)
      apply (use k Q in \<open>simp add: Clamp_norm\<close>)
      done
  qed
  show ?thesis
    unfolding AssignDecimalString_def Let_def
    apply (simp add: ok_bind[of "Zero _"] ok_Zero w)
    apply (subst ok_bind)
    apply (rule ok_while_do[where P = "\<lambda>(t, pos, len). norm t \<and> 0 \<le> pos \<and> 0 \<le> len \<and>
       pos + len = int (length v) \<and> bval t = dec_val (take (nat pos) v)" and m = "\<lambda>(t, pos, len). nat len"])
     apply simp
    subgoal premises P0 for s
    proof -
      obtain t pos len where s: "s = (t, pos, len)" by (cases s)
      have P: "norm t" "0 \<le> pos" "0 \<le> len" "pos + len = int (length v)" "bval t = dec_val (take (nat pos) v)"
        using P0 s by auto
      show ?thesis
      proof (cases "19 \<le> len")
        case False
        then show ?thesis using s P last[of t pos len] by simp
      next
        case True
        have k: "nat pos + nat 19 \<le> length v" using P True by linarith
        have "ok (do { digits \<leftarrow> ReadUInt64 v pos 19;
            this \<leftarrow> MultiplyByPowerOfTen 19 t;
            this \<leftarrow> AddUInt64 digits this;
            Some (this, pos + 19, len - 19) })
          (\<lambda>u. (case u of (t, pos, len) \<Rightarrow> norm t \<and> 0 \<le> pos \<and> 0 \<le> len \<and>
            pos + len = int (length v) \<and> bval t = dec_val (take (nat pos) v)) \<and>
            (case u of (t, pos, len) \<Rightarrow> nat len) < nat len)"
          apply (subst ok_bind, rule ok_ReadUInt64[OF d P(2)])
             apply simp
            apply simp
           apply (use P True in simp)
          apply (rule step[OF P(1,5) _ _ k])
            apply simp
           apply assumption
          using P True apply (simp add: nat_add_distrib)
          done
        then show ?thesis using s True by simp
      qed
    qed
    done
qed

end
