(* ===== verification/Bignum_Correct.thy ===== *)
theory Bignum_Correct
  imports Bignum_Text
begin

text \<open>
  The contract of the bignum class, stated over the methods themselves: on normalised operands
  whose exact result stays below \<open>W 127 = 2 ^ 3556\<close> every method returns (no assertion fails, no
  chunk outside the array is touched) and its result is exact.
\<close>

section \<open>Concrete objects\<close>

definition big_lit :: "u32 list \<Rightarrow> int \<Rightarrow> bignum" where
  "big_lit xs e = \<lparr>bigits = xs @ replicate (128 - length xs) 0, used_digits = int (length xs), bexp = e\<rparr>"

lemma bval_big_lit [simp]: "bval (big_lit xs e) = lval xs * W e"
  by (simp add: bval_def big_lit_def lval_append)

lemma lval_last: "xs \<noteq> [] \<Longrightarrow> last xs \<noteq> 0 \<Longrightarrow> W (int (length xs) - 1) \<le> lval xs"
proof (induction xs rule: rev_induct)
  case (snoc x xs)
  then have "x \<noteq> 0" by simp
  then have "1 \<le> uint x" using uint_nonnegative[of x] uint_0_iff[of x] by linarith
  then have "W (int (length xs)) * 1 \<le> W (int (length xs)) * uint x" by (intro mult_left_mono) (auto simp: less_imp_le)
  then have "W (int (length xs)) \<le> lval xs + W (int (length xs)) * uint x" using lval_nonneg[of xs] by linarith
  then show ?case by (simp add: lval_append)
qed simp

lemma norm_big_lit [simp]:
  assumes "bounded xs" "length xs \<le> 128" "xs \<noteq> []" "last xs \<noteq> 0" "0 \<le> e"
  shows "norm (big_lit xs e)"
proof -
  have "bounded (xs @ replicate (128 - length xs) 0)" using assms(1) by (auto simp: bounded_def)
  then show ?thesis
    using assms lval_last[of xs] lval_less[of xs] by (simp add: norm_def wf_def big_lit_def lval_append)
qed

lemma used_big_lit [simp]: "used_digits (big_lit xs e) = int (length xs)" "bexp (big_lit xs e) = e"
  by (simp_all add: big_lit_def)

lemma bounded_lit [simp]: "bounded []" "bounded (x # xs) \<longleftrightarrow> uint x < 268435456 \<and> bounded xs"
  by (simp_all add: bounded_def)

section \<open>The contract\<close>

text \<open>C40: AssignUInt64 stores any 64-bit value, whatever the object held before, and leaves it normalised.\<close>

theorem AssignUInt64_exact:
  assumes "wf b"
  shows "\<exists>r. AssignUInt64 v b = Some r \<and> norm r \<and> bval r = uint v"
  using ok_AssignUInt64[OF assms, where Q = "\<lambda>r. norm r \<and> bval r = uint v"] by (simp add: ok_def)

lemma AssignUInt64_exact_witness:
  "\<exists>r. AssignUInt64 0xFFFFFFFFFFFFFFFF (big_lit [3, 268435455, 9] 1) = Some r \<and> norm r \<and> bval r = 18446744073709551615"
  using AssignUInt64_exact[of "big_lit [3, 268435455, 9] 1" "0xFFFFFFFFFFFFFFFF"] by (simp add: norm_wf)

text \<open>Multiplication by a 32-bit factor is exact: the 64-bit product plus carry never overflows and all carries are appended.\<close>

theorem MultiplyByUInt32_exact:
  assumes "norm b" "bval b * uint f < W 127"
  shows "\<exists>r. MultiplyByUInt32 f b = Some r \<and> norm r \<and> bval r = bval b * uint f"
  using ok_MultiplyByUInt32[OF assms, where Q = "\<lambda>r. norm r \<and> bval r = bval b * uint f"] by (simp add: ok_def)

lemma MultiplyByUInt32_exact_witness:
  "\<exists>r. MultiplyByUInt32 0xFFFFFFFF (big_lit [3, 268435455, 9] 1) = Some r \<and> norm r \<and> bval r = bval (big_lit [3, 268435455, 9] 1) * 4294967295"
  using MultiplyByUInt32_exact[of "big_lit [3, 268435455, 9] 1" "0xFFFFFFFF"] by (simp add: W_def)

text \<open>C36: Multiplication by a 64-bit factor, done as two 32-bit halves with a split carry, is exact.\<close>

theorem MultiplyByUInt64_exact:
  assumes "norm b" "bval b * uint f < W 127"
  shows "\<exists>r. MultiplyByUInt64 f b = Some r \<and> norm r \<and> bval r = bval b * uint f"
  using ok_MultiplyByUInt64[OF assms, where Q = "\<lambda>r. norm r \<and> bval r = bval b * uint f"] by (simp add: ok_def)

lemma MultiplyByUInt64_exact_witness:
  "\<exists>r. MultiplyByUInt64 0xFFFFFFFFFFFFFFFF (big_lit [3, 268435455, 9] 1) = Some r \<and> norm r \<and> bval r = bval (big_lit [3, 268435455, 9] 1) * 18446744073709551615"
  using MultiplyByUInt64_exact[of "big_lit [3, 268435455, 9] 1" "0xFFFFFFFFFFFFFFFF"] by (simp add: W_def)

text \<open>C37: A left shift by any amount multiplies by the power of two: whole chunks go to the exponent, the rest through the array.\<close>

theorem ShiftLeft_exact:
  assumes "norm b" "0 \<le> s" "bval b < W 127"
  shows "\<exists>r. ShiftLeft s b = Some r \<and> norm r \<and> bval r = bval b * 2 ^ nat s"
  using ok_ShiftLeft[OF assms, where Q = "\<lambda>r. norm r \<and> bval r = bval b * 2 ^ nat s"] by (simp add: ok_def)

lemma ShiftLeft_exact_witness:
  "\<exists>r. ShiftLeft 61 (big_lit [3, 268435455, 9] 1) = Some r \<and> norm r \<and> bval r = bval (big_lit [3, 268435455, 9] 1) * 2 ^ 61"
  using ShiftLeft_exact[of "big_lit [3, 268435455, 9] 1" 61] by (simp add: W_def)

text \<open>C32: Multiplication by a power of ten (chunks of 5^27 and 5^13, a table for the rest, then a shift) is exact.\<close>

theorem MultiplyByPowerOfTen_exact:
  assumes "norm b" "0 \<le> e" "bval b * 5 ^ nat e < W 127"
  shows "\<exists>r. MultiplyByPowerOfTen e b = Some r \<and> norm r \<and> bval r = bval b * 10 ^ nat e"
  using ok_MultiplyByPowerOfTen[OF assms, where Q = "\<lambda>r. norm r \<and> bval r = bval b * 10 ^ nat e"] by (simp add: ok_def)

lemma MultiplyByPowerOfTen_exact_witness:
  "\<exists>r. MultiplyByPowerOfTen 45 (big_lit [3, 268435455, 9] 1) = Some r \<and> norm r \<and> bval r = bval (big_lit [3, 268435455, 9] 1) * 10 ^ 45"
  using MultiplyByPowerOfTen_exact[of "big_lit [3, 268435455, 9] 1" 45] by (simp add: W_def)

text \<open>C34: Addition aligns the operands to the smaller exponent and propagates every carry.\<close>

theorem AddBignum_exact:
  assumes "norm this" "norm other" "bval this + bval other < W 127"
  shows "\<exists>r. AddBignum other this = Some r \<and> norm r \<and> bval r = bval this + bval other"
  using ok_AddBignum[OF assms, where Q = "\<lambda>r. norm r \<and> bval r = bval this + bval other"] by (simp add: ok_def)

lemma AddBignum_exact_witness:
  "\<exists>r. AddBignum (big_lit [7, 2] 2) (big_lit [3, 268435455, 9] 1) = Some r \<and> norm r \<and> bval r = bval (big_lit [3, 268435455, 9] 1) + bval (big_lit [7, 2] 2)"
  using AddBignum_exact[of "big_lit [3, 268435455, 9] 1" "big_lit [7, 2] 2"] by (simp add: W_def)



text \<open>C33: SubtractTimes subtracts a multiple in one pass over the chunks, with product and borrow in one word, exactly.\<close>

theorem SubtractTimes_exact:
  assumes "norm this" "norm other" "0 \<le> f" "f \<le> 65535" "f * bval other \<le> bval this" "bval this < W 127"
    "bexp this \<le> bexp other" "0 < used_digits other"
  shows "\<exists>r. SubtractTimes other f this = Some r \<and> norm r \<and> bval r = bval this - f * bval other"
  using ok_SubtractTimes[OF assms, where Q = "\<lambda>r. norm r \<and> bval r = bval this - f * bval other"] by (simp add: ok_def)

lemma SubtractTimes_exact_witness:
  "\<exists>r. SubtractTimes (big_lit [5] 2) 7 (big_lit [3, 268435455, 9] 1) = Some r \<and> norm r \<and> bval r = bval (big_lit [3, 268435455, 9] 1) - 7 * bval (big_lit [5] 2)"
  using SubtractTimes_exact[of "big_lit [3, 268435455, 9] 1" "big_lit [5] 2" 7] by (simp add: W_def)

text \<open>C31: Squaring by columns is exact: a column of at most 64 products fits the 64-bit accumulator, and the final accumulator is zero.\<close>

theorem Square_exact:
  assumes "norm b" "bval b * bval b < W 127"
  shows "\<exists>r. Square b = Some r \<and> norm r \<and> bval r = bval b * bval b"
  using ok_Square[OF assms, where Q = "\<lambda>r. norm r \<and> bval r = bval b * bval b"] by (simp add: ok_def)

lemma Square_exact_witness:
  "\<exists>r. Square (big_lit [3, 268435455, 9] 1) = Some r \<and> norm r \<and> bval r = bval (big_lit [3, 268435455, 9] 1) * bval (big_lit [3, 268435455, 9] 1)"
  using Square_exact[of "big_lit [3, 268435455, 9] 1"] by (simp add: W_def)

text \<open>C30: AssignPowerUInt16 computes the power: the loops strip factors of two, square and multiply in a word while it fits, and go on with bignums.\<close>

theorem AssignPowerUInt16_exact:
  assumes "wf b" "base \<noteq> 0" "0 \<le> e" "uint base < 2 ^ s" "int s * e < 3556"
  shows "\<exists>r. AssignPowerUInt16 base e b = Some r \<and> norm r \<and> bval r = uint base ^ nat e"
  using ok_AssignPowerUInt16[OF assms, where Q = "\<lambda>r. norm r \<and> bval r = uint base ^ nat e"] by (simp add: ok_def)

lemma AssignPowerUInt16_exact_witness:
  "\<exists>r. AssignPowerUInt16 10 340 (big_lit [3, 268435455, 9] 1) = Some r \<and> norm r \<and> bval r = 10 ^ 340"
  using AssignPowerUInt16_exact[of "big_lit [3, 268435455, 9] 1" 10 340 4] by (simp add: norm_wf)

text \<open>C18: DivideModuloIntBignum returns the quotient and leaves the remainder, for quotients below 16 (the digit generators need quotients below 10); the condition on the divisor excludes a top chunk of all ones when the dividend is longer.\<close>

theorem DivideModuloIntBignum_exact:
  assumes "norm this" "norm other" "bval this < W 127" "0 < used_digits other" "bval this < 16 * bval other"
    "BigitLength other < BigitLength this \<Longrightarrow> bval other + W (BigitLength other - 1) \<le> W (BigitLength other)"
  shows "\<exists>q r. DivideModuloIntBignum other this = Some (q, r) \<and> norm r \<and>
    uint q = bval this div bval other \<and> bval r = bval this mod bval other"
  using ok_DivideModuloIntBignum[OF assms, where Q = "\<lambda>(q, r). norm r \<and> uint q = bval this div bval other \<and>
      bval r = bval this mod bval other"] by (auto simp: ok_def)

lemma DivideModuloIntBignum_exact_witness:
  "\<exists>q r. DivideModuloIntBignum (big_lit [7, 268435000] 0) (big_lit [3, 5, 9] 0) = Some (q, r) \<and> norm r \<and>
    uint q = 9 \<and> bval r = 1103001288644"
  using DivideModuloIntBignum_exact[of "big_lit [3, 5, 9] 0" "big_lit [7, 268435000] 0"] by (simp add: W_def BigitLength_def)

text \<open>C38: Compare returns the sign of the difference, for operands with different exponents and lengths too.\<close>

theorem Compare_sign:
  assumes "norm a" "norm b"
  shows "Compare a b = Some (sgn (bval a - bval b))"
  using ok_Compare[OF assms, of "\<lambda>x. x = sgn (bval a - bval b)"] by (simp add: ok_def)

lemma Compare_sign_witness:
  "Compare (big_lit [3, 268435455, 9] 1) (big_lit [7, 2] 2) = Some 1"
  using Compare_sign[of "big_lit [3, 268435455, 9] 1" "big_lit [7, 2] 2"] by (simp add: W_def)

text \<open>C29: PlusCompare decides the sign of a + b - c without computing the sum, every early return included.\<close>

theorem PlusCompare_sign:
  assumes "norm a" "norm b" "norm c"
  shows "PlusCompare a b c = Some (sgn (bval a + bval b - bval c))"
  using ok_PlusCompare[OF assms, of "\<lambda>x. x = sgn (bval a + bval b - bval c)"] by (simp add: ok_def)

lemma PlusCompare_sign_witness:
  "PlusCompare (big_lit [3, 268435455, 9] 1) (big_lit [7, 2] 2) (big_lit [1, 1, 1, 1] 0) = Some 1"
  using PlusCompare_sign[of "big_lit [3, 268435455, 9] 1" "big_lit [7, 2] 2" "big_lit [1, 1, 1, 1] 0"] by (simp add: W_def)

text \<open>C39: A string of decimal digits is read, 19 digits at a time, into its value.\<close>

theorem AssignDecimalString_exact:
  assumes "digits v" "wf b" "10 ^ length v \<le> W 127"
  shows "\<exists>r. AssignDecimalString v b = Some r \<and> norm r \<and> bval r = dec_val v"
  using ok_AssignDecimalString[OF assms, where Q = "\<lambda>r. norm r \<and> bval r = dec_val v"] by (simp add: ok_def)

lemma AssignDecimalString_exact_witness:
  "\<exists>r. AssignDecimalString (map ch ''123456789012345678901234567890'') (big_lit [3, 268435455, 9] 1) = Some r \<and> norm r \<and> bval r = 123456789012345678901234567890"
  using AssignDecimalString_exact[of "map ch ''123456789012345678901234567890''" "big_lit [3, 268435455, 9] 1"]
  by (simp add: norm_wf W_def digits_def dec_val_def radix_val_def digit_of_def ch_def)

end
