(* ===== verification/Diy_Fp.thy ===== *)
theory Diy_Fp
  imports Prelude
begin

text \<open>
  "Do it yourself" floating-point numbers (\<open>diy-fp.h\<close>, \<open>diy-fp.cc\<close>): a 64-bit significand and
  an \<open>int\<close> exponent, without special values.
\<close>

record diyfp =
  fp_f :: u64
  fp_e :: int

definition DiyFp :: "u64 \<Rightarrow> int \<Rightarrow> diyfp" where
  "DiyFp f e = \<lparr>fp_f = f, fp_e = e\<rparr>"

lemma DiyFp_sel [simp]: "fp_f (DiyFp f e) = f" "fp_e (DiyFp f e) = e"
  by (simp_all add: DiyFp_def)

definition kDiySignificandSize :: int where [simp]: "kDiySignificandSize = 64"
definition kUint64MSB :: u64 where "kUint64MSB = 0x8000000000000000"

definition Subtract :: "diyfp \<Rightarrow> diyfp \<Rightarrow> diyfp option" where
  "Subtract other this = do {
     ensure (fp_e this = fp_e other);
     ensure (fp_f this \<ge> fp_f other);
     Some (this\<lparr>fp_f := fp_f this - fp_f other\<rparr>) }"

definition Minus :: "diyfp \<Rightarrow> diyfp \<Rightarrow> diyfp option" where
  "Minus a b = Subtract b a"

definition Multiply :: "diyfp \<Rightarrow> diyfp \<Rightarrow> diyfp" where
  "Multiply other this =
     (let kM32 = 0xFFFFFFFF;
          a = drop_bit 32 (fp_f this);
          b = fp_f this AND kM32;
          c = drop_bit 32 (fp_f other);
          d = fp_f other AND kM32;
          ac = a * c;
          bc = b * c;
          ad = a * d;
          bd = b * d;
          tmp = drop_bit 32 bd + (ad AND kM32) + (bc AND kM32);
          tmp = tmp + push_bit 31 1;
          result_f = ac + drop_bit 32 ad + drop_bit 32 bc + drop_bit 32 tmp
      in \<lparr>fp_f = result_f, fp_e = fp_e this + (fp_e other + 64)\<rparr>)"

definition Times :: "diyfp \<Rightarrow> diyfp \<Rightarrow> diyfp" where
  "Times a b = Multiply b a"

definition Normalize :: "diyfp \<Rightarrow> diyfp option" where
  "Normalize this = do {
     ensure (fp_f this \<noteq> 0);
     let k10MSBits = (0xFFC0000000000000 :: u64);
     (f, e) \<leftarrow> while_do (\<lambda>(f, e). Some (f AND k10MSBits = 0))
       (\<lambda>(f, e). Some (push_bit 10 f, e - 10)) (fp_f this, fp_e this);
     (f, e) \<leftarrow> while_do (\<lambda>(f, e). Some (f AND kUint64MSB = 0))
       (\<lambda>(f, e). Some (push_bit 1 f, e - 1)) (f, e);
     Some \<lparr>fp_f = f, fp_e = e\<rparr> }"

end
