(* ===== verification/Ieee.thy ===== *)
theory Ieee
  imports Diy_Fp
begin

text \<open>
  Views of IEEE doubles and floats (\<open>ieee.h\<close>). A C++ \<open>double\<close> is its 64-bit pattern, a \<open>float\<close>
  its 32-bit pattern, so \<open>BitCast\<close> is the identity; the comparisons and the arithmetic of the
  language on those patterns are given first.
\<close>

section \<open>Floating-point operations of the language\<close>

type_synonym double = u64
type_synonym float = u32

definition double_is_nan :: "double \<Rightarrow> bool" where
  "double_is_nan d \<longleftrightarrow> d AND 0x7FFFFFFFFFFFFFFF > 0x7FF0000000000000"

text \<open>The position of a double that is not a NaN on the number line.\<close>

definition double_rank :: "double \<Rightarrow> int" where
  "double_rank d =
     (if d AND 0x8000000000000000 = 0 then uint d else - uint (d AND 0x7FFFFFFFFFFFFFFF))"

definition double_less :: "double \<Rightarrow> double \<Rightarrow> bool" where
  "double_less a b \<longleftrightarrow> \<not> double_is_nan a \<and> \<not> double_is_nan b \<and> double_rank a < double_rank b"

definition double_eq :: "double \<Rightarrow> double \<Rightarrow> bool" where
  "double_eq a b \<longleftrightarrow> \<not> double_is_nan a \<and> \<not> double_is_nan b \<and> double_rank a = double_rank b"

definition double_neg :: "double \<Rightarrow> double" where
  "double_neg d = d XOR 0x8000000000000000"

definition float_is_nan :: "float \<Rightarrow> bool" where
  "float_is_nan d \<longleftrightarrow> d AND 0x7FFFFFFF > 0x7F800000"

definition float_rank :: "float \<Rightarrow> int" where
  "float_rank d = (if d AND 0x80000000 = 0 then uint d else - uint (d AND 0x7FFFFFFF))"

definition float_less :: "float \<Rightarrow> float \<Rightarrow> bool" where
  "float_less a b \<longleftrightarrow> \<not> float_is_nan a \<and> \<not> float_is_nan b \<and> float_rank a < float_rank b"

definition float_eq :: "float \<Rightarrow> float \<Rightarrow> bool" where
  "float_eq a b \<longleftrightarrow> \<not> float_is_nan a \<and> \<not> float_is_nan b \<and> float_rank a = float_rank b"

section \<open>Double\<close>

definition kDoubleSignMask :: u64 where "kDoubleSignMask = 0x8000000000000000"
definition kDoubleExponentMask :: u64 where "kDoubleExponentMask = 0x7FF0000000000000"
definition kDoubleSignificandMask :: u64 where "kDoubleSignificandMask = 0x000FFFFFFFFFFFFF"
definition kDoubleHiddenBit :: u64 where "kDoubleHiddenBit = 0x0010000000000000"
definition kDoublePhysicalSignificandSize :: int where [simp]: "kDoublePhysicalSignificandSize = 52"
definition kDoubleSignificandSize :: int where [simp]: "kDoubleSignificandSize = 53"
definition kDoubleExponentBias :: int where [simp]: "kDoubleExponentBias = 0x3FF + kDoublePhysicalSignificandSize"
definition kDoubleDenormalExponent :: int where [simp]: "kDoubleDenormalExponent = - kDoubleExponentBias + 1"
definition kDoubleMaxExponent :: int where [simp]: "kDoubleMaxExponent = 0x7FF - kDoubleExponentBias"
definition kDoubleInfinity :: u64 where "kDoubleInfinity = 0x7FF0000000000000"
definition kDoubleNaN :: u64 where "kDoubleNaN = 0x7FF8000000000000"

definition DoubleIsDenormal :: "double \<Rightarrow> bool" where
  "DoubleIsDenormal d64 \<longleftrightarrow> d64 AND kDoubleExponentMask = 0"

definition DoubleIsSpecial :: "double \<Rightarrow> bool" where
  "DoubleIsSpecial d64 \<longleftrightarrow> d64 AND kDoubleExponentMask = kDoubleExponentMask"

definition DoubleIsNan :: "double \<Rightarrow> bool" where
  "DoubleIsNan d64 \<longleftrightarrow> d64 AND kDoubleExponentMask = kDoubleExponentMask \<and>
     d64 AND kDoubleSignificandMask \<noteq> 0"

definition DoubleIsInfinite :: "double \<Rightarrow> bool" where
  "DoubleIsInfinite d64 \<longleftrightarrow> d64 AND kDoubleExponentMask = kDoubleExponentMask \<and>
     d64 AND kDoubleSignificandMask = 0"

definition DoubleSign :: "double \<Rightarrow> int" where
  "DoubleSign d64 = (if d64 AND kDoubleSignMask = 0 then 1 else -1)"

definition DoubleExponent :: "double \<Rightarrow> int" where
  "DoubleExponent d64 =
     (if DoubleIsDenormal d64 then kDoubleDenormalExponent
      else let biased_e = uint (drop_bit (nat kDoublePhysicalSignificandSize) (d64 AND kDoubleExponentMask))
           in biased_e - kDoubleExponentBias)"

definition DoubleSignificand :: "double \<Rightarrow> u64" where
  "DoubleSignificand d64 =
     (let significand = d64 AND kDoubleSignificandMask
      in if \<not> DoubleIsDenormal d64 then significand + kDoubleHiddenBit else significand)"

definition DoubleAsDiyFp :: "double \<Rightarrow> diyfp option" where
  "DoubleAsDiyFp d64 = do {
     ensure (DoubleSign d64 > 0);
     ensure (\<not> DoubleIsSpecial d64);
     Some (DiyFp (DoubleSignificand d64) (DoubleExponent d64)) }"

definition DoubleAsNormalizedDiyFp :: "double \<Rightarrow> diyfp option" where
  "DoubleAsNormalizedDiyFp d64 = do {
     ensure (double_less 0 d64);
     (f, e) \<leftarrow> while_do (\<lambda>(f, e). Some (f AND kDoubleHiddenBit = 0))
       (\<lambda>(f, e). Some (push_bit 1 f, e - 1)) (DoubleSignificand d64, DoubleExponent d64);
     let f = push_bit (nat (kDiySignificandSize - kDoubleSignificandSize)) f;
     let e = e - (kDiySignificandSize - kDoubleSignificandSize);
     Some (DiyFp f e) }"

definition NextDouble :: "double \<Rightarrow> double" where
  "NextDouble d64 =
     (if d64 = kDoubleInfinity then kDoubleInfinity
      else if DoubleSign d64 < 0 \<and> DoubleSignificand d64 = 0 then 0
      else if DoubleSign d64 < 0 then d64 - 1
      else d64 + 1)"

definition PreviousDouble :: "double \<Rightarrow> double" where
  "PreviousDouble d64 =
     (if d64 = kDoubleInfinity OR kDoubleSignMask then double_neg kDoubleInfinity
      else if DoubleSign d64 < 0 then d64 + 1
      else if DoubleSignificand d64 = 0 then double_neg 0
      else d64 - 1)"

definition DoubleUpperBoundary :: "double \<Rightarrow> diyfp option" where
  "DoubleUpperBoundary d64 = do {
     ensure (DoubleSign d64 > 0);
     Some (DiyFp (DoubleSignificand d64 * 2 + 1) (DoubleExponent d64 - 1)) }"

definition DoubleLowerBoundaryIsCloser :: "double \<Rightarrow> bool" where
  "DoubleLowerBoundaryIsCloser d64 =
     (let physical_significand_is_zero = (d64 AND kDoubleSignificandMask = 0)
      in physical_significand_is_zero \<and> DoubleExponent d64 \<noteq> kDoubleDenormalExponent)"

text \<open>Returns \<open>(m_minus, m_plus)\<close>, the two out-parameters.\<close>

definition DoubleNormalizedBoundaries :: "double \<Rightarrow> (diyfp \<times> diyfp) option" where
  "DoubleNormalizedBoundaries d64 = do {
     ensure (double_less 0 d64);
     v \<leftarrow> DoubleAsDiyFp d64;
     m_plus \<leftarrow> Normalize (DiyFp (push_bit 1 (fp_f v) + 1) (fp_e v - 1));
     let m_minus = (if DoubleLowerBoundaryIsCloser d64
                    then DiyFp (push_bit 2 (fp_f v) - 1) (fp_e v - 2)
                    else DiyFp (push_bit 1 (fp_f v) - 1) (fp_e v - 1));
     f \<leftarrow> shl64 (fp_f m_minus) (fp_e m_minus - fp_e m_plus);
     Some (DiyFp f (fp_e m_plus), m_plus) }"

definition SignificandSizeForOrderOfMagnitude :: "int \<Rightarrow> int" where
  "SignificandSizeForOrderOfMagnitude order =
     (if order \<ge> kDoubleDenormalExponent + kDoubleSignificandSize then kDoubleSignificandSize
      else if order \<le> kDoubleDenormalExponent then 0
      else order - kDoubleDenormalExponent)"

definition DiyFpToUint64 :: "diyfp \<Rightarrow> u64 option" where
  "DiyFpToUint64 diy_fp = do {
     (significand, exponent) \<leftarrow> while_do
       (\<lambda>(s, e). Some (s > kDoubleHiddenBit + kDoubleSignificandMask))
       (\<lambda>(s, e). Some (drop_bit 1 s, e + 1)) (fp_f diy_fp, fp_e diy_fp);
     if exponent \<ge> kDoubleMaxExponent then Some kDoubleInfinity
     else if exponent < kDoubleDenormalExponent then Some 0
     else do {
       (significand, exponent) \<leftarrow> while_do
         (\<lambda>(s, e). Some (e > kDoubleDenormalExponent \<and> s AND kDoubleHiddenBit = 0))
         (\<lambda>(s, e). Some (push_bit 1 s, e - 1)) (significand, exponent);
       let biased_exponent =
         (if exponent = kDoubleDenormalExponent \<and> significand AND kDoubleHiddenBit = 0 then 0
          else word_of_int (exponent + kDoubleExponentBias));
       Some ((significand AND kDoubleSignificandMask) OR
             push_bit (nat kDoublePhysicalSignificandSize) biased_exponent) } }"

section \<open>Single\<close>

definition kSingleSignMask :: u32 where "kSingleSignMask = 0x80000000"
definition kSingleExponentMask :: u32 where "kSingleExponentMask = 0x7F800000"
definition kSingleSignificandMask :: u32 where "kSingleSignificandMask = 0x007FFFFF"
definition kSingleHiddenBit :: u32 where "kSingleHiddenBit = 0x00800000"
definition kSinglePhysicalSignificandSize :: int where [simp]: "kSinglePhysicalSignificandSize = 23"
definition kSingleSignificandSize :: int where [simp]: "kSingleSignificandSize = 24"
definition kSingleExponentBias :: int where [simp]: "kSingleExponentBias = 0x7F + kSinglePhysicalSignificandSize"
definition kSingleDenormalExponent :: int where [simp]: "kSingleDenormalExponent = - kSingleExponentBias + 1"
definition kSingleMaxExponent :: int where [simp]: "kSingleMaxExponent = 0xFF - kSingleExponentBias"
definition kSingleInfinity :: u32 where "kSingleInfinity = 0x7F800000"
definition kSingleNaN :: u32 where "kSingleNaN = 0x7FC00000"

definition SingleIsDenormal :: "float \<Rightarrow> bool" where
  "SingleIsDenormal d32 \<longleftrightarrow> d32 AND kSingleExponentMask = 0"

definition SingleIsSpecial :: "float \<Rightarrow> bool" where
  "SingleIsSpecial d32 \<longleftrightarrow> d32 AND kSingleExponentMask = kSingleExponentMask"

definition SingleIsNan :: "float \<Rightarrow> bool" where
  "SingleIsNan d32 \<longleftrightarrow> d32 AND kSingleExponentMask = kSingleExponentMask \<and>
     d32 AND kSingleSignificandMask \<noteq> 0"

definition SingleIsInfinite :: "float \<Rightarrow> bool" where
  "SingleIsInfinite d32 \<longleftrightarrow> d32 AND kSingleExponentMask = kSingleExponentMask \<and>
     d32 AND kSingleSignificandMask = 0"

definition SingleSign :: "float \<Rightarrow> int" where
  "SingleSign d32 = (if d32 AND kSingleSignMask = 0 then 1 else -1)"

definition SingleExponent :: "float \<Rightarrow> int" where
  "SingleExponent d32 =
     (if SingleIsDenormal d32 then kSingleDenormalExponent
      else let biased_e = uint (drop_bit (nat kSinglePhysicalSignificandSize) (d32 AND kSingleExponentMask))
           in biased_e - kSingleExponentBias)"

definition SingleSignificand :: "float \<Rightarrow> u32" where
  "SingleSignificand d32 =
     (let significand = d32 AND kSingleSignificandMask
      in if \<not> SingleIsDenormal d32 then significand + kSingleHiddenBit else significand)"

definition SingleAsDiyFp :: "float \<Rightarrow> diyfp option" where
  "SingleAsDiyFp d32 = do {
     ensure (SingleSign d32 > 0);
     ensure (\<not> SingleIsSpecial d32);
     Some (DiyFp (ucast (SingleSignificand d32)) (SingleExponent d32)) }"

definition SingleLowerBoundaryIsCloser :: "float \<Rightarrow> bool" where
  "SingleLowerBoundaryIsCloser d32 =
     (let physical_significand_is_zero = (d32 AND kSingleSignificandMask = 0)
      in physical_significand_is_zero \<and> SingleExponent d32 \<noteq> kSingleDenormalExponent)"

definition SingleNormalizedBoundaries :: "float \<Rightarrow> (diyfp \<times> diyfp) option" where
  "SingleNormalizedBoundaries d32 = do {
     ensure (float_less 0 d32);
     v \<leftarrow> SingleAsDiyFp d32;
     m_plus \<leftarrow> Normalize (DiyFp (push_bit 1 (fp_f v) + 1) (fp_e v - 1));
     let m_minus = (if SingleLowerBoundaryIsCloser d32
                    then DiyFp (push_bit 2 (fp_f v) - 1) (fp_e v - 2)
                    else DiyFp (push_bit 1 (fp_f v) - 1) (fp_e v - 1));
     f \<leftarrow> shl64 (fp_f m_minus) (fp_e m_minus - fp_e m_plus);
     Some (DiyFp f (fp_e m_plus), m_plus) }"

definition SingleUpperBoundary :: "float \<Rightarrow> diyfp option" where
  "SingleUpperBoundary d32 = do {
     ensure (SingleSign d32 > 0);
     Some (DiyFp (ucast (SingleSignificand d32 * 2 + 1)) (SingleExponent d32 - 1)) }"

section \<open>Rounding\<close>

text \<open>
  Correct rounding (to nearest, ties to even) of a non-negative rational \<open>n / d\<close> to a format
  with \<open>p\<close> significand bits, smallest exponent \<open>emin\<close> and the bit pattern \<open>infty\<close> of infinity.
  The pattern of \<open>m * 2 ^ q\<close> is \<open>m + (q - emin) * 2 ^ (p - 1)\<close>, whether or not it is denormal
  and also when rounding has carried \<open>m\<close> to \<open>2 ^ p\<close>.
\<close>

function bit_len :: "int \<Rightarrow> int" where
  "bit_len n = (if n \<le> 0 then 0 else 1 + bit_len (n div 2))"
  by pat_completeness auto
termination
  by (relation "measure nat") auto

declare bit_len.simps [simp del]

definition round_even :: "int \<Rightarrow> int \<Rightarrow> int" where
  "round_even n d =
     (let q = n div d; r = n mod d
      in if 2 * r > d \<or> (2 * r = d \<and> odd q) then q + 1 else q)"

definition scale2 :: "int \<Rightarrow> int \<Rightarrow> int \<Rightarrow> int \<times> int" where
  "scale2 n d k = (if k \<ge> 0 then (n * 2 ^ nat k, d) else (n, d * 2 ^ nat (- k)))"

text \<open>The binary logarithm of \<open>n / d\<close>, rounded down, for positive \<open>n\<close> and \<open>d\<close>.\<close>

definition log2_floor :: "int \<Rightarrow> int \<Rightarrow> int" where
  "log2_floor n d =
     (let k = bit_len n - bit_len d;
          (n', d') = scale2 n d (- k)
      in if n' < d' then k - 1 else k)"

definition round_to :: "int \<Rightarrow> int \<Rightarrow> int \<Rightarrow> int \<Rightarrow> int \<Rightarrow> int" where
  "round_to p emin infty n d =
     (if n \<le> 0 then 0
      else let q = max (log2_floor n d - (p - 1)) emin;
               (n', d') = scale2 n d (- q);
               m = round_even n' d'
           in min infty (m + (q - emin) * 2 ^ nat (p - 1)))"

definition round_double :: "int \<Rightarrow> int \<Rightarrow> double" where
  "round_double n d = word_of_int (round_to 53 (-1074) 0x7FF0000000000000 n d)"

definition round_float :: "int \<Rightarrow> int \<Rightarrow> float" where
  "round_float n d = word_of_int (round_to 24 (-149) 0x7F800000 n d)"

text \<open>A finite double, and the magnitude of a finite float, as a fraction.\<close>

definition double_frac :: "double \<Rightarrow> int \<times> int" where
  "double_frac d = scale2 (DoubleSign d * uint (DoubleSignificand d)) 1 (DoubleExponent d)"

definition float_frac :: "float \<Rightarrow> int \<times> int" where
  "float_frac d = scale2 (uint (SingleSignificand d)) 1 (SingleExponent d)"

text \<open>
  The arithmetic the code uses, on finite doubles: every result is the exact one, rounded.
  The sign of a zero is that of IEEE 754 (a product is negative when the signs differ, a
  difference of equal numbers is \<open>+0\<close>; the code never subtracts \<open>+0\<close> from \<open>-0\<close>).
\<close>

definition double_round_signed :: "int \<Rightarrow> int \<Rightarrow> double" where
  "double_round_signed n d = (if n < 0 then double_neg (round_double (- n) d) else round_double n d)"

definition double_mult :: "double \<Rightarrow> double \<Rightarrow> double" where
  "double_mult a b =
     (let (n, d) = double_frac a; (n', d') = double_frac b;
          r = round_double (\<bar>n\<bar> * \<bar>n'\<bar>) (d * d')
      in if DoubleSign a = DoubleSign b then r else double_neg r)"

definition double_div :: "double \<Rightarrow> double \<Rightarrow> double" where
  "double_div a b =
     (let (n, d) = double_frac a; (n', d') = double_frac b;
          r = round_double (\<bar>n\<bar> * d') (d * \<bar>n'\<bar>)
      in if DoubleSign a = DoubleSign b then r else double_neg r)"

definition double_sub :: "double \<Rightarrow> double \<Rightarrow> double" where
  "double_sub a b =
     (let (n, d) = double_frac a; (n', d') = double_frac b
      in double_round_signed (n * d' - n' * d) (d * d'))"

definition double_of_int :: "int \<Rightarrow> double" where
  "double_of_int n = double_round_signed n 1"

text \<open>\<open>static_cast<int>(ceil(x))\<close>.\<close>

definition double_ceil :: "double \<Rightarrow> int" where
  "double_ceil x = (let (n, d) = double_frac x in - ((- n) div d))"

text \<open>\<open>static_cast<int64_t>(x)\<close>.\<close>

definition double_trunc :: "double \<Rightarrow> int" where
  "double_trunc x = (let (n, d) = double_frac x in n sdiv d)"

text \<open>
  Conversions between the formats. Infinities and signs are kept; a NaN keeps the high bits
  of its payload and becomes quiet, as the hardware conversions do.
\<close>

definition float_of_double :: "double \<Rightarrow> float" where
  "float_of_double x =
     (let s = (if DoubleSign x < 0 then kSingleSignMask else 0)
      in if DoubleIsNan x then s OR kSingleNaN OR ucast (drop_bit 29 (x AND kDoubleSignificandMask))
         else if DoubleIsInfinite x then s OR kSingleInfinity
         else let (n, d) = double_frac x in s OR round_float \<bar>n\<bar> d)"

definition double_of_float :: "float \<Rightarrow> double" where
  "double_of_float x =
     (let s = (if SingleSign x < 0 then kDoubleSignMask else 0)
      in if SingleIsNan x then s OR kDoubleNaN OR push_bit 29 (ucast (x AND kSingleSignificandMask))
         else if SingleIsInfinite x then s OR kDoubleInfinity
         else let (n, d) = float_frac x in s OR round_double n d)"

end
