(* ===== verification/Diy_Fp_Value.thy ===== *)
theory Diy_Fp_Value
  imports Diy_Fp
begin

text \<open>The product of two \<open>DiyFp\<close> is the exact product rounded half up; normalising keeps the value.\<close>

lemma uint_mult32:
  fixes a b :: u64
  assumes "uint a < 4294967296" "uint b < 4294967296"
  shows "uint (a * b) = uint a * uint b" "uint a * uint b \<le> 18446744065119617025"
proof -
  have "uint a * uint b \<le> 4294967295 * 4294967295" using assms by (intro mult_mono) auto
  then show "uint a * uint b \<le> 18446744065119617025" by simp
  then show "uint (a * b) = uint a * uint b" by (subst uint_mult_exact) simp_all
qed

lemma mask32_word: "(0xFFFFFFFF :: u64) = mask 32"
  by (simp add: mask_eq_decr_exp)

lemma uint_lo_hi:
  fixes x :: u64
  shows "uint (drop_bit 32 x) < 4294967296" "uint (x AND 0xFFFFFFFF) < 4294967296"
    "uint x = uint (drop_bit 32 x) * 4294967296 + uint (x AND 0xFFFFFFFF)"
proof -
  have "uint x < 18446744073709551616" using uint_lt_2p[of x] by simp
  then show "uint (drop_bit 32 x) < 4294967296" by (simp add: uint_drop_bit)
  show "uint (x AND 0xFFFFFFFF) < 4294967296" by (simp add: mask32_word uint_and_mask)
  show "uint x = uint (drop_bit 32 x) * 4294967296 + uint (x AND 0xFFFFFFFF)"
    by (simp add: mask32_word uint_and_mask uint_drop_bit)
qed

lemma uint_add_64: "uint a + uint b < 18446744073709551616 \<Longrightarrow> uint (a + b :: u64) = uint a + uint b"
  by (rule uint_add_exact) simp

lemma half_product_round:
  fixes a b c d :: int
  shows "((a * 4294967296 + b) * (c * 4294967296 + d) + 9223372036854775808) div 18446744073709551616 =
    a * c + a * d div 4294967296 + b * c div 4294967296 +
    (b * d div 4294967296 + a * d mod 4294967296 + b * c mod 4294967296 + 2147483648) div 4294967296"
proof -
  let ?M = "4294967296 :: int"
  have e: "(a * ?M + b) * (c * ?M + d) + 9223372036854775808 =
      (b * d + (a * d + b * c + 2147483648) * ?M) + (a * c * ?M) * ?M"
    by (simp add: algebra_simps)
  have "((a * ?M + b) * (c * ?M + d) + 9223372036854775808) div 18446744073709551616 =
      ((b * d + (a * d + b * c + 2147483648) * ?M) + (a * c * ?M) * ?M) div ?M div ?M"
    by (subst zdiv_zmult2_eq[symmetric]) (simp_all only: e, simp_all)
  also have "\<dots> = (b * d div ?M + (a * d + b * c + 2147483648) + a * c * ?M) div ?M"
    by (simp only: div_mult_self1 div_mult_self2)
  also have "\<dots> = a * c + (b * d div ?M + (a * d + b * c + 2147483648)) div ?M"
    by simp
  also have "b * d div ?M + (a * d + b * c + 2147483648) =
      (b * d div ?M + a * d mod ?M + b * c mod ?M + 2147483648) + (a * d div ?M + b * c div ?M) * ?M"
    using div_mult_mod_eq[of "a * d" ?M] div_mult_mod_eq[of "b * c" ?M] by (simp add: algebra_simps)
  also have "(b * d div ?M + a * d mod ?M + b * c mod ?M + 2147483648 + (a * d div ?M + b * c div ?M) * ?M) div ?M =
      (a * d div ?M + b * c div ?M) + (b * d div ?M + a * d mod ?M + b * c mod ?M + 2147483648) div ?M"
    by (rule div_mult_self1) simp
  finally show ?thesis by (simp only: add.assoc)
qed

lemma Multiply_value:
  "uint (fp_f (Multiply y x)) = (uint (fp_f x) * uint (fp_f y) + 9223372036854775808) div 18446744073709551616"
  "fp_e (Multiply y x) = fp_e x + fp_e y + 64"
proof -
  define a b c d where "a = drop_bit 32 (fp_f x)" "b = fp_f x AND 0xFFFFFFFF"
    "c = drop_bit 32 (fp_f y)" "d = fp_f y AND 0xFFFFFFFF"
  note abcd = a_b_c_d_def
  have lt: "uint a < 4294967296" "uint b < 4294967296" "uint c < 4294967296" "uint d < 4294967296"
    by (simp_all only: abcd uint_lo_hi(1,2))
  have x: "uint (fp_f x) = uint a * 4294967296 + uint b" "uint (fp_f y) = uint c * 4294967296 + uint d"
    unfolding abcd by (rule uint_lo_hi(3))+
  note p = uint_mult32[OF lt(1,3)] uint_mult32[OF lt(2,3)] uint_mult32[OF lt(1,4)] uint_mult32[OF lt(2,4)]
  have h: "uint (drop_bit 32 z) = uint z div 4294967296" "uint (z AND 0xFFFFFFFF) = uint z mod 4294967296" for z :: u64
    by (simp_all add: uint_drop_bit mask32_word uint_and_mask)
  have hb: "uint (drop_bit 32 z) \<le> 4294967295" "uint (z AND 0xFFFFFFFF) \<le> 4294967295" for z :: u64
    using uint_lo_hi(1,2)[of z] by simp_all
  let ?t = "drop_bit 32 (b * d) + (a * d AND 0xFFFFFFFF) + (b * c AND 0xFFFFFFFF) + push_bit 31 1"
  have c31: "uint (push_bit 31 1 :: u64) = 2147483648" by (simp add: uint_push_bit_exact)
  have t: "uint ?t = uint (b * d) div 4294967296 + uint (a * d) mod 4294967296 + uint (b * c) mod 4294967296 + 2147483648"
  proof -
    note bb = hb(1)[of "b * d"] hb(2)[of "a * d"] hb(2)[of "b * c"]
    have t1: "uint (drop_bit 32 (b * d) + (a * d AND 0xFFFFFFFF)) = uint (drop_bit 32 (b * d)) + uint (a * d AND 0xFFFFFFFF)"
      by (rule uint_add_exact) (use bb in simp)
    have t2: "uint (drop_bit 32 (b * d) + (a * d AND 0xFFFFFFFF) + (b * c AND 0xFFFFFFFF)) =
        uint (drop_bit 32 (b * d)) + uint (a * d AND 0xFFFFFFFF) + uint (b * c AND 0xFFFFFFFF)"
      unfolding t1[symmetric] by (rule uint_add_exact) (use bb in \<open>simp only: t1, simp\<close>)
    have t3: "uint ?t = uint (drop_bit 32 (b * d) + (a * d AND 0xFFFFFFFF) + (b * c AND 0xFFFFFFFF)) + uint (push_bit 31 1 :: u64)"
      by (rule uint_add_exact) (use bb in \<open>simp only: t2 c31, simp\<close>)
    show ?thesis unfolding t3 t2 c31 h ..
  qed
  let ?r = "a * c + drop_bit 32 (a * d) + drop_bit 32 (b * c) + drop_bit 32 ?t"
  let ?P = "uint (fp_f x) * uint (fp_f y) + 9223372036854775808"
  have res: "?P div 18446744073709551616 =
      uint (a * c) + uint (drop_bit 32 (a * d)) + uint (drop_bit 32 (b * c)) + uint (drop_bit 32 ?t)"
    by (simp only: x half_product_round h(1) t p)
  have xl: "uint (fp_f x) \<le> 18446744073709551615" "uint (fp_f y) \<le> 18446744073709551615"
    using uint_lt_2p[of "fp_f x"] uint_lt_2p[of "fp_f y"] by simp_all
  have "uint (fp_f x) * uint (fp_f y) \<le> 18446744073709551615 * 18446744073709551615"
    using xl by (intro mult_mono) auto
  then have "?P < 18446744073709551616 * 18446744073709551616" by simp
  then have "?P div 18446744073709551616 < 18446744073709551616" by simp
  then have sum: "uint (a * c) + uint (drop_bit 32 (a * d)) + uint (drop_bit 32 (b * c)) + uint (drop_bit 32 ?t) < 18446744073709551616"
    unfolding res .
  have nn: "0 \<le> uint (a * c)" "0 \<le> uint (drop_bit 32 (a * d))" "0 \<le> uint (drop_bit 32 (b * c))" "0 \<le> uint (drop_bit 32 ?t)"
    by simp_all
  have s1: "uint (a * c + drop_bit 32 (a * d)) = uint (a * c) + uint (drop_bit 32 (a * d))"
    by (rule uint_add_64) (use sum nn in linarith)
  have s2: "uint (a * c + drop_bit 32 (a * d) + drop_bit 32 (b * c)) = uint (a * c) + uint (drop_bit 32 (a * d)) + uint (drop_bit 32 (b * c))"
    unfolding s1[symmetric] by (rule uint_add_64) (unfold s1, use sum nn in linarith)
  have s3: "uint ?r = uint (a * c) + uint (drop_bit 32 (a * d)) + uint (drop_bit 32 (b * c)) + uint (drop_bit 32 ?t)"
    unfolding s2[symmetric] by (rule uint_add_64) (unfold s2, use sum nn in linarith)
  have "fp_f (Multiply y x) = ?r" by (simp add: Multiply_def abcd Let_def)
  then show "uint (fp_f (Multiply y x)) = ?P div 18446744073709551616" using s3 res by simp
  show "fp_e (Multiply y x) = fp_e x + fp_e y + 64" by (simp add: Multiply_def Let_def)
qed

lemma and_not_mask_zero:
  fixes v :: "'a::len word"
  shows "(v AND NOT (mask n) = 0) = (uint v < 2 ^ n)"
proof -
  have "(v AND NOT (mask n) = 0) = (take_bit n v = v)"
  proof
    assume a: "v AND NOT (mask n) = 0"
    have "take_bit n v = (v AND mask n) OR (v AND NOT (mask n))" using a by (simp add: take_bit_eq_mask)
    also have "\<dots> = v" by (simp add: bit.conj_disj_distrib [symmetric])
    finally show "take_bit n v = v" .
  next
    assume "take_bit n v = v"
    then have "v AND NOT (mask n) = (v AND mask n) AND NOT (mask n)" by (simp add: take_bit_eq_mask)
    also have "\<dots> = 0" by (simp add: and.assoc)
    finally show "v AND NOT (mask n) = 0" .
  qed
  also have "\<dots> = (uint v < 2 ^ n)"
    by (simp add: word_uint_eq_iff unsigned_take_bit_eq take_bit_int_eq_self_iff)
  finally show ?thesis .
qed

lemma high_bits:
  fixes f :: u64
  shows "(f AND 0xFFC0000000000000 = 0) = (uint f < 18014398509481984)"
    "(f AND kUint64MSB = 0) = (uint f < 9223372036854775808)"
proof -
  have m: "(0xFFC0000000000000 :: u64) = NOT (mask 54)" "kUint64MSB = NOT (mask 63)"
    by (simp_all add: mask_eq_decr_exp kUint64MSB_def)
  show "(f AND 0xFFC0000000000000 = 0) = (uint f < 18014398509481984)"
    unfolding m and_not_mask_zero by simp
  show "(f AND kUint64MSB = 0) = (uint f < 9223372036854775808)"
    unfolding m and_not_mask_zero by simp
qed

text \<open>One loop of the normalisation: shift by \<open>n\<close> while the value is below \<open>2 ^ (64 - n)\<close>.\<close>

lemma ok_normalize_loop:
  fixes f :: u64
  assumes g: "\<And>f e. g (f, e) = (uint (f :: u64) < B)" and B: "B * 2 ^ n = 18446744073709551616" "0 < n" "f \<noteq> 0"
    and Q: "\<And>f' k. B \<le> uint f' \<Longrightarrow> uint f' = uint f * 2 ^ k \<Longrightarrow> Q (f', e - int k)"
  shows "ok (while_do (\<lambda>s. Some (g s)) (\<lambda>(f, e). Some (push_bit n f, e - int n)) (f, e :: int)) Q"
proof (rule ok_while_do[where P = "\<lambda>(f', e'). \<exists>k. 0 < uint f' \<and> uint f' = uint f * 2 ^ k \<and> e' = e - int k"
    and m = "\<lambda>(f', e'). nat (18446744073709551616 - uint f')"], goal_cases)
  case 1
  have "0 < uint f" using B(3) uint_nonnegative[of f] uint_0_iff[of f] by linarith
  then show ?case by (auto intro!: exI[of _ 0])
next
  case (2 s)
  obtain f' e' where s: "s = (f', e')" by (cases s)
  obtain k where k: "0 < uint f'" "uint f' = uint f * 2 ^ k" "e' = e - int k" using 2 s by auto
  show ?case
  proof (cases "uint f' < B")
    case False
    then show ?thesis using s g Q k by simp
  next
    case True
    have B0: "(0::int) < 2 ^ n" by simp
    have "uint f' * 2 ^ n < 18446744073709551616" using True B(1) mult_strict_right_mono[OF True B0] by simp
    then have u: "uint (push_bit n f') = uint f' * 2 ^ n" by (subst uint_push_bit_exact) simp_all
    have "(2::int) ^ 1 \<le> 2 ^ n" using B(2) by (intro power_increasing) auto
    then have "uint f' * 2 \<le> uint f' * 2 ^ n" using k(1) by (intro mult_left_mono) auto
    then have lt: "uint f' < uint (push_bit n f')" "uint (push_bit n f') < 18446744073709551616"
      using u k(1) uint_lt_2p[of "push_bit n f'"] by simp_all
    have "uint (push_bit n f') = uint f * 2 ^ (k + n)" using u k(2) by (simp add: power_add)
    then have "\<exists>k. 0 < uint (push_bit n f') \<and> uint (push_bit n f') = uint f * 2 ^ k \<and> e' - int n = e - int k"
      using lt k by (intro exI[of _ "k + n"]) auto
    moreover have "nat (18446744073709551616 - uint (push_bit n f')) < nat (18446744073709551616 - uint f')"
      using lt by simp
    ultimately show ?thesis using s g True by simp
  qed
qed

lemma ok_Normalize:
  assumes f: "fp_f x \<noteq> 0"
    and Q: "\<And>f k. 9223372036854775808 \<le> uint f \<Longrightarrow> uint f = uint (fp_f x) * 2 ^ k \<Longrightarrow> Q \<lparr>fp_f = f, fp_e = fp_e x - int k\<rparr>"
  shows "ok (Normalize x) Q"
proof -
  have two: "ok (do { (f, e) \<leftarrow> while_do (\<lambda>(f, e). Some (f AND kUint64MSB = 0))
       (\<lambda>(f, e). Some (push_bit 1 f, e - 1)) (f, fp_e x - int k);
     Some \<lparr>fp_f = f, fp_e = e\<rparr> }) Q"
    if f': "18014398509481984 \<le> uint f" "uint f = uint (fp_f x) * 2 ^ k" for f k
  proof -
    have "f \<noteq> 0" using f' by auto
    have R: "Q \<lparr>fp_f = h, fp_e = fp_e x - int k - int j\<rparr>"
      if "9223372036854775808 \<le> uint h" "uint h = uint f * 2 ^ j" for h j
      using Q[of h "k + j"] that f'(2) by (simp add: power_add diff_diff_eq)
    have "ok (while_do (\<lambda>s. Some (case s of (f, e) \<Rightarrow> f AND kUint64MSB = 0))
       (\<lambda>(f, e). Some (push_bit 1 f, e - int 1)) (f, fp_e x - int k)) (\<lambda>(f, e). Q \<lparr>fp_f = f, fp_e = e\<rparr>)"
      by (rule ok_normalize_loop[where B = 9223372036854775808 and f = f])
        (use \<open>f \<noteq> 0\<close> R in \<open>simp_all add: high_bits\<close>)
    then show ?thesis by (simp add: ok_bind split_def)
  qed
  show ?thesis
  proof -
    let ?rest = "\<lambda>(f, e). do { (f, e) \<leftarrow> while_do (\<lambda>(f, e). Some (f AND kUint64MSB = 0))
       (\<lambda>(f, e). Some (push_bit 1 f, e - 1)) (f, e); Some \<lparr>fp_f = f, fp_e = e\<rparr> }"
    have "ok (while_do (\<lambda>s. Some (case s of (f, e) \<Rightarrow> f AND 0xFFC0000000000000 = 0))
       (\<lambda>(f, e). Some (push_bit 10 f, e - int 10)) (fp_f x, fp_e x)) (\<lambda>s. ok (?rest s) Q)"
      by (rule ok_normalize_loop[where B = 18014398509481984 and f = "fp_f x"])
        (use f two in \<open>simp_all add: high_bits\<close>)
    then show ?thesis using f
      by (simp add: Normalize_def ok_bind[of "ensure _"] ok_ensure ok_bind[of "while_do _ _ (fp_f x, fp_e x)"] split_def)
  qed
qed

end
