(* ===== verification/Ieee_Format.thy ===== *)
theory Ieee_Format
  imports Ieee Diy_Fp_Value
begin

text \<open>The fields of a bit pattern, and the value a pattern stands for in units of the smallest denormal.\<close>

section \<open>Fields of a word\<close>

lemma and_field:
  fixes v :: "'a::len word"
  assumes "n + m \<le> LENGTH('a)"
  shows "uint (v AND push_bit n (mask m)) = uint v div 2 ^ n mod 2 ^ m * 2 ^ n"
proof -
  have "v AND push_bit n (mask m) = push_bit n (drop_bit n v AND mask m)"
    by (rule bit_word_eqI) (auto simp: bit_simps)
  moreover have "uint (drop_bit n v AND mask m) = uint v div 2 ^ n mod 2 ^ m"
    by (simp add: uint_and_mask uint_drop_bit)
  moreover have "uint v div 2 ^ n mod 2 ^ m * 2 ^ n < 2 ^ LENGTH('a)"
  proof -
    have "uint v div 2 ^ n mod 2 ^ m * 2 ^ n < 2 ^ m * 2 ^ n"
      by (rule mult_strict_right_mono) simp_all
    also have "\<dots> = 2 ^ (m + n)" by (simp only: power_add)
    also have "\<dots> \<le> 2 ^ LENGTH('a)" by (rule power_increasing) (use assms in auto)
    finally show ?thesis .
  qed
  ultimately show ?thesis by (simp only: uint_push_bit_exact)
qed

section \<open>Formats\<close>

text \<open>
  A non-negative finite pattern \<open>n\<close> of a format with \<open>p\<close> physical significand bits: its
  significand, the number of places by which its exponent exceeds the smallest one, and its value
  in units of the smallest denormal.
\<close>

definition fmt_sig :: "nat \<Rightarrow> int \<Rightarrow> int" where
  "fmt_sig p n = n mod 2 ^ p + (if n div 2 ^ p = 0 then 0 else 2 ^ p)"

definition fmt_shift :: "nat \<Rightarrow> int \<Rightarrow> nat" where
  "fmt_shift p n = nat (n div 2 ^ p - 1)"

definition fmt_units :: "nat \<Rightarrow> int \<Rightarrow> int" where
  "fmt_units p n = fmt_sig p n * 2 ^ fmt_shift p n"

text \<open>The pattern of a significand and a shift.\<close>

lemma fmt_encode:
  assumes "0 \<le> s" "s < 2 * 2 ^ p" "0 < k \<Longrightarrow> 2 ^ p \<le> s"
  shows "fmt_sig p (s + int k * 2 ^ p) = s" "fmt_shift p (s + int k * 2 ^ p) = k"
    "fmt_units p (s + int k * 2 ^ p) = s * 2 ^ k"
proof -
  have "fmt_sig p (s + int k * 2 ^ p) = s \<and> fmt_shift p (s + int k * 2 ^ p) = k"
  proof (cases "s < 2 ^ p")
    case True
    then have "k = 0" using assms by (cases k) auto
    then show ?thesis using True assms by (simp add: fmt_sig_def fmt_shift_def)
  next
    case False
    then have r: "0 \<le> s - 2 ^ p" "s - 2 ^ p < 2 ^ p" using assms by simp_all
    have e: "s + int k * 2 ^ p = (s - 2 ^ p) + (int k + 1) * 2 ^ p" by (simp add: distrib_right)
    have "(s + int k * 2 ^ p) div 2 ^ p = int k + 1"
      unfolding e using div_mult_self1[of "2 ^ p" "s - 2 ^ p" "int k + 1"] div_pos_pos_trivial[OF r] by simp
    moreover have "(s + int k * 2 ^ p) mod 2 ^ p = s - 2 ^ p"
      unfolding e using mod_mult_self1[of "s - 2 ^ p" "int k + 1" "2 ^ p"] mod_pos_pos_trivial[OF r] by simp
    ultimately show ?thesis by (simp add: fmt_sig_def fmt_shift_def)
  qed
  then show "fmt_sig p (s + int k * 2 ^ p) = s" "fmt_shift p (s + int k * 2 ^ p) = k"
    "fmt_units p (s + int k * 2 ^ p) = s * 2 ^ k" by (simp_all add: fmt_units_def)
qed

lemma fmt_decode:
  assumes "0 \<le> n"
  shows "n = fmt_sig p n + int (fmt_shift p n) * 2 ^ p" "0 \<le> fmt_sig p n" "fmt_sig p n < 2 * 2 ^ p"
    "0 < fmt_shift p n \<Longrightarrow> 2 ^ p \<le> fmt_sig p n" "fmt_shift p n = 0 \<or> 2 ^ p \<le> fmt_sig p n"
proof -
  have d: "n = n mod 2 ^ p + (n div 2 ^ p) * 2 ^ p" by (rule mod_div_mult_eq[symmetric])
  have dn: "0 \<le> n div 2 ^ p" using assms by (simp add: pos_imp_zdiv_nonneg_iff)
  show "n = fmt_sig p n + int (fmt_shift p n) * 2 ^ p"
  proof (cases "n div 2 ^ p = 0")
    case True
    then show ?thesis using d by (simp add: fmt_sig_def fmt_shift_def)
  next
    case False
    then have k: "int (fmt_shift p n) = n div 2 ^ p - 1" using dn by (simp add: fmt_shift_def)
    have "fmt_sig p n + int (fmt_shift p n) * 2 ^ p = n mod 2 ^ p + (n div 2 ^ p) * 2 ^ p"
      unfolding k using False by (simp add: fmt_sig_def left_diff_distrib)
    then show ?thesis using d by simp
  qed
  have "0 \<le> n mod 2 ^ p" "n mod 2 ^ p < 2 ^ p" "n mod 2 ^ p < 2 * 2 ^ p" "(0::int) < 2 ^ p" by (simp_all add: order.strict_trans2[of _ "2 ^ p"])
  then show "0 \<le> fmt_sig p n" "fmt_sig p n < 2 * 2 ^ p" "0 < fmt_shift p n \<Longrightarrow> 2 ^ p \<le> fmt_sig p n"
    "fmt_shift p n = 0 \<or> 2 ^ p \<le> fmt_sig p n"
    by (auto simp: fmt_sig_def fmt_shift_def)
qed

lemma fmt_units_Suc:
  assumes "0 \<le> n"
  shows "fmt_units p (n + 1) = fmt_units p n + 2 ^ fmt_shift p n"
proof -
  define s k where "s = fmt_sig p n" and "k = fmt_shift p n"
  note D = fmt_decode[OF assms, of p, folded s_def k_def]
  have u: "fmt_units p n = s * 2 ^ k" by (simp add: fmt_units_def s_def k_def)
  show ?thesis
  proof (cases "s + 1 < 2 * 2 ^ p")
    case True
    then have "fmt_units p ((s + 1) + int k * 2 ^ p) = (s + 1) * 2 ^ k"
      using D by (intro fmt_encode(3)) auto
    moreover have "(s + 1) + int k * 2 ^ p = n + 1" using D(1) by simp
    ultimately have "fmt_units p (n + 1) = (s + 1) * 2 ^ k" by (simp only:)
    then show ?thesis using u by (simp add: k_def[symmetric] distrib_right)
  next
    case False
    then have s: "s = 2 * 2 ^ p - 1" using D by simp
    have "fmt_units p (2 ^ p + int (Suc k) * 2 ^ p) = 2 ^ p * 2 ^ Suc k" by (rule fmt_encode(3)) auto
    moreover have "2 ^ p + int (Suc k) * 2 ^ p = n + 1" using D(1) s by (simp add: algebra_simps)
    moreover have "2 ^ p * 2 ^ Suc k = s * 2 ^ k + (2::int) ^ k" unfolding s by (simp add: left_diff_distrib)
    ultimately show ?thesis using u by (simp add: k_def)
  qed
qed

lemma fmt_units_less:
  assumes "0 \<le> m" "m < n" shows "fmt_units p m < fmt_units p n"
proof -
  have "fmt_units p m < fmt_units p (m + 1 + int d)" for d
  proof (induction d)
    case 0
    then show ?case using fmt_units_Suc[OF assms(1), of p] by simp
  next
    case (Suc d)
    have "fmt_units p (m + 1 + int d + 1) = fmt_units p (m + 1 + int d) + 2 ^ fmt_shift p (m + 1 + int d)"
      by (rule fmt_units_Suc) (use assms in simp)
    moreover have "(0::int) < 2 ^ fmt_shift p (m + 1 + int d)" by simp
    ultimately have "fmt_units p m < fmt_units p (m + 1 + int d + 1)" using Suc by linarith
    moreover have "m + 1 + int (Suc d) = m + 1 + int d + 1" by simp
    ultimately show ?case by (simp only:)
  qed
  from this[of "nat (n - m - 1)"] show ?thesis using assms by simp
qed

lemma fmt_units_less_iff: "0 \<le> m \<Longrightarrow> 0 \<le> n \<Longrightarrow> fmt_units p m < fmt_units p n \<longleftrightarrow> m < n"
  using fmt_units_less[of m n p] fmt_units_less[of n m p] by (cases m n rule: linorder_cases) auto

section \<open>The views of the two classes\<close>

lemma mod_div_pow: "(x :: int) mod 2 ^ (a + b) div 2 ^ a = x div 2 ^ a mod 2 ^ b"
proof -
  have "x mod (2 ^ a * 2 ^ b) = 2 ^ a * (x div 2 ^ a mod 2 ^ b) + x mod 2 ^ a"
    by (rule zmod_zmult2_eq) simp
  then show ?thesis by (simp add: power_add)
qed

lemma mod_mod_pow: "(x :: int) mod 2 ^ (a + b) mod 2 ^ a = x mod 2 ^ a"
  by (simp add: mod_mod_cancel power_add)

definition mag64 :: "double \<Rightarrow> int" where
  "mag64 v = uint v mod 2 ^ 63"

definition mag32 :: "float \<Rightarrow> int" where
  "mag32 v = uint v mod 2 ^ 31"

lemma mag64_nonneg [simp]: "0 \<le> mag64 v" "mag64 v < 2 ^ 63"
  by (simp_all add: mag64_def)

lemma mag32_nonneg [simp]: "0 \<le> mag32 v" "mag32 v < 2 ^ 31"
  by (simp_all add: mag32_def)

lemma masks64:
  "uint (v AND kDoubleExponentMask) = mag64 v div 2 ^ 52 * 2 ^ 52"
  "uint (v AND kDoubleSignificandMask) = mag64 v mod 2 ^ 52"
  "uint (v AND kDoubleSignMask) = uint v div 2 ^ 63 * 2 ^ 63"
proof -
  have m: "kDoubleExponentMask = push_bit 52 (mask 11)" "kDoubleSignificandMask = mask 52"
    "kDoubleSignMask = push_bit 63 (mask 1)"
    by (simp_all add: kDoubleExponentMask_def kDoubleSignificandMask_def kDoubleSignMask_def mask_eq_decr_exp)
  show "uint (v AND kDoubleExponentMask) = mag64 v div 2 ^ 52 * 2 ^ 52"
    unfolding m mag64_def using mod_div_pow[of "uint v" 52 11] by (simp add: and_field)
  show "uint (v AND kDoubleSignificandMask) = mag64 v mod 2 ^ 52"
    unfolding m mag64_def using mod_mod_pow[of "uint v" 52 11] by (simp add: uint_and_mask)
  have "uint v div 2 ^ 63 < 2" using uint_lt_2p[of v] by simp
  moreover have "0 \<le> uint v div 2 ^ 63" by (simp add: pos_imp_zdiv_nonneg_iff)
  ultimately have "uint v div 2 ^ 63 mod 2 ^ 1 = uint v div 2 ^ 63" by simp
  moreover have "uint (v AND push_bit 63 (mask 1)) = uint v div 2 ^ 63 mod 2 ^ 1 * 2 ^ 63" by (rule and_field) simp
  ultimately show "uint (v AND kDoubleSignMask) = uint v div 2 ^ 63 * 2 ^ 63" unfolding m by (simp only:)
qed


lemma masks32:
  "uint (v AND kSingleExponentMask) = mag32 v div 2 ^ 23 * 2 ^ 23"
  "uint (v AND kSingleSignificandMask) = mag32 v mod 2 ^ 23"
  "uint (v AND kSingleSignMask) = uint v div 2 ^ 31 * 2 ^ 31"
proof -
  have m: "kSingleExponentMask = push_bit 23 (mask 8)" "kSingleSignificandMask = mask 23"
    "kSingleSignMask = push_bit 31 (mask 1)"
    by (simp_all add: kSingleExponentMask_def kSingleSignificandMask_def kSingleSignMask_def mask_eq_decr_exp)
  show "uint (v AND kSingleExponentMask) = mag32 v div 2 ^ 23 * 2 ^ 23"
    unfolding m mag32_def using mod_div_pow[of "uint v" 23 8] by (simp add: and_field)
  show "uint (v AND kSingleSignificandMask) = mag32 v mod 2 ^ 23"
    unfolding m mag32_def using mod_mod_pow[of "uint v" 23 8] by (simp add: uint_and_mask)
  have "uint v div 2 ^ 31 < 2" using uint_lt_2p[of v] by simp
  moreover have "0 \<le> uint v div 2 ^ 31" by (simp add: pos_imp_zdiv_nonneg_iff)
  ultimately have "uint v div 2 ^ 31 mod 2 ^ 1 = uint v div 2 ^ 31" by simp
  moreover have "uint (v AND push_bit 31 (mask 1)) = uint v div 2 ^ 31 mod 2 ^ 1 * 2 ^ 31" by (rule and_field) simp
  ultimately show "uint (v AND kSingleSignMask) = uint v div 2 ^ 31 * 2 ^ 31" unfolding m by (simp only:)
qed

lemma le_zdiv:
  assumes "0 < (d::int)" shows "k \<le> x div d \<longleftrightarrow> k * d \<le> x"
proof
  assume "k \<le> x div d"
  then have "k * d \<le> x div d * d" using assms by (simp add: mult_right_mono)
  then show "k * d \<le> x" using div_mult_mod_eq[of x d] pos_mod_sign[OF assms, of x] by linarith
next
  assume "k * d \<le> x"
  then have "k * d div d \<le> x div d" using assms by (rule zdiv_mono1)
  then show "k \<le> x div d" using assms by simp
qed

lemma zdiv_eq_0: "0 < (d::int) \<Longrightarrow> 0 \<le> x \<Longrightarrow> x div d = 0 \<longleftrightarrow> x < d"
  using le_zdiv[of d 1 x] le_zdiv[of d 0 x] by auto

lemma zero_word_iff: "(w :: 'a::len word) = 0 \<longleftrightarrow> uint w = 0"
  by (simp only: uint_0_iff)

lemma Double_fields:
  "DoubleIsDenormal v \<longleftrightarrow> mag64 v div 2 ^ 52 = 0"
  "DoubleIsSpecial v \<longleftrightarrow> mag64 v \<ge> 0x7FF0000000000000"
  "DoubleSign v = (if uint v < 2 ^ 63 then 1 else -1)"
  "uint (DoubleSignificand v) = fmt_sig 52 (mag64 v)"
  "DoubleExponent v = int (fmt_shift 52 (mag64 v)) - 1074"
proof -
  show den: "DoubleIsDenormal v \<longleftrightarrow> mag64 v div 2 ^ 52 = 0"
    unfolding DoubleIsDenormal_def zero_word_iff masks64 by simp
  have q: "0 \<le> mag64 v div 2 ^ 52" "mag64 v div 2 ^ 52 < 2048"
    using mag64_nonneg[of v] by (simp_all add: pos_imp_zdiv_nonneg_iff)
  have k: "uint kDoubleExponentMask = 2047 * 2 ^ 52" by (simp add: kDoubleExponentMask_def)
  have "DoubleIsSpecial v \<longleftrightarrow> mag64 v div 2 ^ 52 = 2047"
    unfolding DoubleIsSpecial_def word_uint_eq_iff[of "v AND kDoubleExponentMask"] masks64 k by simp
  also have "\<dots> \<longleftrightarrow> mag64 v \<ge> 0x7FF0000000000000" using q le_zdiv[of "2 ^ 52" 2047 "mag64 v"] by auto
  finally show "DoubleIsSpecial v \<longleftrightarrow> mag64 v \<ge> 0x7FF0000000000000" .
  have s: "uint v div 2 ^ 63 = 0 \<longleftrightarrow> uint v < 2 ^ 63" by (rule zdiv_eq_0) simp_all
  show "DoubleSign v = (if uint v < 2 ^ 63 then 1 else -1)"
    unfolding DoubleSign_def zero_word_iff masks64 using s by simp
  have h: "uint kDoubleHiddenBit = 2 ^ 52" by (simp add: kDoubleHiddenBit_def)
  have m: "0 \<le> mag64 v mod 2 ^ 52" "mag64 v mod 2 ^ 52 < 2 ^ 52" by simp_all
  have "uint ((v AND kDoubleSignificandMask) + kDoubleHiddenBit) = mag64 v mod 2 ^ 52 + 2 ^ 52"
    by (subst uint_add_exact) (use m in \<open>simp_all add: masks64 h\<close>)
  then show "uint (DoubleSignificand v) = fmt_sig 52 (mag64 v)"
    unfolding DoubleSignificand_def den by (simp add: masks64 fmt_sig_def Let_def)
  show "DoubleExponent v = int (fmt_shift 52 (mag64 v)) - 1074"
  proof -
    have "uint (drop_bit 52 (v AND kDoubleExponentMask)) = mag64 v div 2 ^ 52"
      by (simp only: uint_drop_bit masks64) simp
    then show ?thesis unfolding DoubleExponent_def den using q by (simp add: fmt_shift_def)
  qed
qed


lemma Single_fields:
  "SingleIsDenormal v \<longleftrightarrow> mag32 v div 2 ^ 23 = 0"
  "SingleIsSpecial v \<longleftrightarrow> mag32 v \<ge> 0x7F800000"
  "SingleSign v = (if uint v < 2 ^ 31 then 1 else -1)"
  "uint (SingleSignificand v) = fmt_sig 23 (mag32 v)"
  "SingleExponent v = int (fmt_shift 23 (mag32 v)) - 149"
proof -
  show den: "SingleIsDenormal v \<longleftrightarrow> mag32 v div 2 ^ 23 = 0"
    unfolding SingleIsDenormal_def zero_word_iff masks32 by simp
  have q: "0 \<le> mag32 v div 2 ^ 23" "mag32 v div 2 ^ 23 < 256"
    using mag32_nonneg[of v] by (simp_all add: pos_imp_zdiv_nonneg_iff)
  have k: "uint kSingleExponentMask = 255 * 2 ^ 23" by (simp add: kSingleExponentMask_def)
  have "SingleIsSpecial v \<longleftrightarrow> mag32 v div 2 ^ 23 = 255"
    unfolding SingleIsSpecial_def word_uint_eq_iff[of "v AND kSingleExponentMask"] masks32 k by simp
  also have "\<dots> \<longleftrightarrow> mag32 v \<ge> 0x7F800000" using q le_zdiv[of "2 ^ 23" 255 "mag32 v"] by auto
  finally show "SingleIsSpecial v \<longleftrightarrow> mag32 v \<ge> 0x7F800000" .
  have s: "uint v div 2 ^ 31 = 0 \<longleftrightarrow> uint v < 2 ^ 31" by (rule zdiv_eq_0) simp_all
  show "SingleSign v = (if uint v < 2 ^ 31 then 1 else -1)"
    unfolding SingleSign_def zero_word_iff masks32 using s by simp
  have h: "uint kSingleHiddenBit = 2 ^ 23" by (simp add: kSingleHiddenBit_def)
  have m: "0 \<le> mag32 v mod 2 ^ 23" "mag32 v mod 2 ^ 23 < 2 ^ 23" by simp_all
  have "uint ((v AND kSingleSignificandMask) + kSingleHiddenBit) = mag32 v mod 2 ^ 23 + 2 ^ 23"
    by (subst uint_add_exact) (use m in \<open>simp_all add: masks32 h\<close>)
  then show "uint (SingleSignificand v) = fmt_sig 23 (mag32 v)"
    unfolding SingleSignificand_def den by (simp add: masks32 fmt_sig_def Let_def)
  show "SingleExponent v = int (fmt_shift 23 (mag32 v)) - 149"
  proof -
    have "uint (drop_bit 23 (v AND kSingleExponentMask)) = mag32 v div 2 ^ 23"
      by (simp only: uint_drop_bit masks32) simp
    then show ?thesis unfolding SingleExponent_def den using q by (simp add: fmt_shift_def)
  qed
qed

end
