(* ===== verification/Ieee_Value.thy ===== *)
theory Ieee_Value
  imports Ieee_Format
begin

text \<open>The interface the two classes share, conversions from \<open>DiyFp\<close>, boundaries and neighbours.\<close>

section \<open>The interface\<close>

text \<open>
  What the digit generators and the parser rely on: a class with a pattern, a significand and an
  exponent on its finite non-negative members.
\<close>

locale ieee_view =
  fixes pat :: "'w \<Rightarrow> int" and sig :: "'w \<Rightarrow> int" and ex :: "'w \<Rightarrow> int"
    and finite_pos :: "'w \<Rightarrow> bool" and p :: nat and emin :: int
  assumes pat_nonneg: "finite_pos x \<Longrightarrow> 0 \<le> pat x"
    and sig_fmt: "finite_pos x \<Longrightarrow> sig x = fmt_sig p (pat x)"
    and ex_fmt: "finite_pos x \<Longrightarrow> ex x = emin + int (fmt_shift p (pat x))"
begin

lemma units: "finite_pos x \<Longrightarrow> fmt_units p (pat x) = sig x * 2 ^ nat (ex x - emin)"
  by (simp add: fmt_units_def sig_fmt ex_fmt)

lemma ordered:
  "finite_pos x \<Longrightarrow> finite_pos y \<Longrightarrow>
   sig x * 2 ^ nat (ex x - emin) < sig y * 2 ^ nat (ex y - emin) \<longleftrightarrow> pat x < pat y"
  by (simp add: units[symmetric] fmt_units_less_iff pat_nonneg)

text \<open>The point \<open>2 * sig + 1\<close> at half an ulp is the midpoint to the successor.\<close>

lemma upper_midpoint:
  "finite_pos x \<Longrightarrow> (2 * sig x + 1) * 2 ^ nat (ex x - emin) = fmt_units p (pat x) + fmt_units p (pat x + 1)"
  by (simp add: fmt_units_Suc pat_nonneg units ex_fmt[THEN arg_cong[of _ _ "\<lambda>e. nat (e - emin)"]] distrib_right)

text \<open>The lower midpoint, which is closer when the significand is the smallest of its binade.\<close>

lemma lower_midpoint:
  assumes x: "finite_pos x" "0 < pat x"
  shows "if pat x mod 2 ^ p = 0 \<and> ex x \<noteq> emin
    then (4 * sig x - 1) * 2 ^ nat (ex x - emin) = 2 * (fmt_units p (pat x - 1) + fmt_units p (pat x))
    else (2 * sig x - 1) * 2 ^ nat (ex x - emin) = fmt_units p (pat x - 1) + fmt_units p (pat x)"
proof -
  define s k where "s = sig x" and "k = fmt_shift p (pat x)"
  have s: "fmt_sig p (pat x) = s" using x sig_fmt by (simp add: s_def)
  have k: "nat (ex x - emin) = k" "ex x \<noteq> emin \<longleftrightarrow> 0 < k" using x ex_fmt by (simp_all add: k_def)
  note D = fmt_decode[OF pat_nonneg[OF x(1)], of p, folded k_def, unfolded s]
  have u: "fmt_units p (pat x) = s * 2 ^ k" using units[OF x(1)] k by (simp add: s_def)
  have m: "pat x mod 2 ^ p = s mod 2 ^ p" using D(1) by (metis mod_mult_self1)
  show ?thesis
  proof (cases "s mod 2 ^ p = 0 \<and> 0 < k")
    case True
    then obtain c where c: "s = 2 ^ p * c" by (auto elim: dvdE simp: mod_eq_0_iff_dvd)
    have "2 ^ p * 1 \<le> 2 ^ p * c" "2 ^ p * c < 2 ^ p * 2" using D True c by auto
    then have "c = 1" using mult_less_cancel_left_pos[of "2 ^ p" c 2] mult_le_cancel_left_pos[of "2 ^ p" 1 c] by simp
    then have s2: "s = 2 ^ p" using c by simp
    obtain j where j: "k = Suc j" using True by (cases k) auto
    have "fmt_units p ((2 * 2 ^ p - 1) + int j * 2 ^ p) = (2 * 2 ^ p - 1) * 2 ^ j"
      by (rule fmt_encode(3)) auto
    moreover have "(2 * 2 ^ p - 1) + int j * 2 ^ p = pat x - 1" using D(1) s2 j by (simp add: distrib_right)
    ultimately have "fmt_units p (pat x - 1) = (2 * s - 1) * 2 ^ j" using s2 by simp
    then have "(4 * s - 1) * 2 ^ k = 2 * (fmt_units p (pat x - 1) + fmt_units p (pat x))"
      unfolding u j by (simp add: left_diff_distrib)
    then show ?thesis using True k m s by (simp add: s_def)
  next
    case False
    have "fmt_units p ((s - 1) + int k * 2 ^ p) = (s - 1) * 2 ^ k"
    proof (rule fmt_encode(3))
      show "0 \<le> s - 1"
      proof (cases k)
        case 0
        then show ?thesis using D(1) x(2) by simp
      next
        case (Suc j)
        then have "2 ^ p \<le> s" using D by simp
        moreover have "(1::int) \<le> 2 ^ p" by simp
        ultimately show ?thesis by linarith
      qed
      show "2 ^ p \<le> s - 1" if "0 < k"
      proof -
        have "s \<noteq> 2 ^ p" using False that by auto
        then show ?thesis using D(4)[OF that] by simp
      qed
    qed (use D in simp)
    moreover have "(s - 1) + int k * 2 ^ p = pat x - 1" using D(1) by simp
    ultimately have "fmt_units p (pat x - 1) = (s - 1) * 2 ^ k" by simp
    then have "(2 * s - 1) * 2 ^ k = fmt_units p (pat x - 1) + fmt_units p (pat x)"
      unfolding u by (simp add: left_diff_distrib)
    then show ?thesis using False k m by (auto simp: s_def)
  qed
qed

end

definition finite_double :: "double \<Rightarrow> bool" where
  "finite_double v \<longleftrightarrow> uint v < 0x7FF0000000000000"

definition finite_float :: "float \<Rightarrow> bool" where
  "finite_float v \<longleftrightarrow> uint v < 0x7F800000"

lemma finite_double_mag: "finite_double v \<Longrightarrow> mag64 v = uint v"
  by (simp add: finite_double_def mag64_def)

lemma finite_float_mag: "finite_float v \<Longrightarrow> mag32 v = uint v"
  by (simp add: finite_float_def mag32_def)

interpretation dbl: ieee_view "\<lambda>v. uint v" "\<lambda>v. uint (DoubleSignificand v)" DoubleExponent finite_double 52 "-1074"
  by unfold_locales (simp_all add: Double_fields finite_double_mag)

interpretation sgl: ieee_view "\<lambda>v. uint v" "\<lambda>v. uint (SingleSignificand v)" SingleExponent finite_float 23 "-149"
  by unfold_locales (simp_all add: Single_fields finite_float_mag)


section \<open>From DiyFp to double\<close>

lemma hidden_bit: "(s AND kDoubleHiddenBit = 0) = even (uint s div 2 ^ 52)"
proof -
  have "kDoubleHiddenBit = push_bit 52 (mask 1)" by (simp add: kDoubleHiddenBit_def mask_eq_decr_exp)
  then have "uint (s AND kDoubleHiddenBit) = uint s div 2 ^ 52 mod 2 ^ 1 * 2 ^ 52"
    using and_field[of 52 1 s] by simp
  then show ?thesis unfolding zero_word_iff by (auto simp: even_iff_mod_2_eq_zero)
qed

lemma hidden_bit_small:
  assumes "uint s < 2 ^ 53" shows "(s AND kDoubleHiddenBit = 0) = (uint s < 2 ^ 52)"
proof -
  have "uint s div 2 ^ 52 < 2" "0 \<le> uint s div 2 ^ 52" using assms by (simp_all add: pos_imp_zdiv_nonneg_iff)
  then have "even (uint s div 2 ^ 52) = (uint s div 2 ^ 52 = 0)" by (auto simp: even_iff_mod_2_eq_zero)
  then show ?thesis unfolding hidden_bit using zdiv_eq_0[of "2 ^ 52" "uint s"] by simp
qed

lemma uint_or_fields:
  fixes a b :: u64
  assumes "n < 64" "uint b * 2 ^ n < 2 ^ 64"
  shows "uint ((a AND mask n) OR push_bit n b) = uint a mod 2 ^ n + uint b * 2 ^ n"
proof -
  have "(a AND mask n) OR push_bit n b = (a AND mask n) + push_bit n b"
    by (rule disjunctive_add[symmetric]) (auto simp: bit_simps)
  moreover have "uint ((a AND mask n) + push_bit n b) = uint (a AND mask n) + uint (push_bit n b)"
  proof (rule uint_add_exact)
    have p: "uint (push_bit n b) = uint b * 2 ^ n" by (rule uint_push_bit_exact) (use assms in simp)
    have "uint b * 2 ^ n + 2 ^ n \<le> 2 ^ 64"
    proof -
      have e: "(2::int) ^ 64 = 2 ^ (64 - n) * 2 ^ n" using assms(1) by (simp flip: power_add)
      then have "uint b < 2 ^ (64 - n)" using assms(2) by (metis mult_less_cancel_right_pos zero_less_numeral zero_less_power)
      then have "(uint b + 1) * 2 ^ n \<le> 2 ^ (64 - n) * 2 ^ n" by (intro mult_right_mono) auto
      then show ?thesis unfolding e by (simp add: distrib_right)
    qed
    moreover have "uint (a AND mask n) < 2 ^ n" by (simp add: uint_and_mask)
    ultimately show "uint (a AND mask n) + uint (push_bit n b) < 2 ^ LENGTH(64)" unfolding p by simp
  qed
  ultimately show ?thesis using assms by (simp add: uint_and_mask uint_push_bit_exact)
qed

text \<open>The number of low bits a significand loses, so that it fits 53 bits.\<close>

lemma ok_shift_down:
  fixes f :: u64
  assumes Q: "\<And>s k. uint s = uint f div 2 ^ k \<Longrightarrow> uint s < 2 ^ 53 \<Longrightarrow> k = 0 \<or> 2 ^ 52 \<le> uint s \<Longrightarrow> Q (s, e + int k)"
  shows "ok (while_do (\<lambda>(s, e). Some (s > kDoubleHiddenBit + kDoubleSignificandMask))
       (\<lambda>(s, e). Some (drop_bit 1 s, e + 1)) (f, e)) Q"
proof (rule ok_while_do[where P = "\<lambda>(s, e'). \<exists>k. uint s = uint f div 2 ^ k \<and> e' = e + int k \<and> (k = 0 \<or> 2 ^ 52 \<le> uint s)"
    and m = "\<lambda>(s, e). nat (uint s)"], goal_cases)
  case 1
  then show ?case by (auto intro!: exI[of _ 0])
next
  case (2 t)
  obtain s e' where t: "t = (s, e')" by (cases t)
  obtain k where k: "uint s = uint f div 2 ^ k" "e' = e + int k" "k = 0 \<or> 2 ^ 52 \<le> uint s" using 2 t by auto
  have g: "(s > kDoubleHiddenBit + kDoubleSignificandMask) = (2 ^ 53 \<le> uint s)"
    by (auto simp: kDoubleHiddenBit_def kDoubleSignificandMask_def word_less_def)
  show ?case
  proof (cases "2 ^ 53 \<le> uint s")
    case False
    then show ?thesis using t g k Q by auto
  next
    case True
    have "uint (drop_bit 1 s) = uint f div 2 ^ Suc k"
      unfolding uint_drop_bit k(1) using zdiv_zmult2_eq[of 2 "uint f" "2 ^ k"] by (simp add: mult.commute)
    moreover have "2 ^ 52 \<le> uint (drop_bit 1 s)" "uint (drop_bit 1 s) < uint s"
      using True by (simp_all add: uint_drop_bit)
    moreover from this have "unat (drop_bit 1 s) < unat s" by (simp add: unat_mono word_less_def)
    ultimately show ?thesis using t g True k by (auto intro!: exI[of _ "Suc k"])
  qed
qed

lemma ok_shift_up:
  fixes s :: u64
  assumes s: "uint s < 2 ^ 53" "e \<ge> -1074"
    and Q: "\<And>s' k. uint s' = uint s * 2 ^ k \<Longrightarrow> uint s' < 2 ^ 53 \<Longrightarrow> -1074 \<le> e - int k \<Longrightarrow>
       e - int k = -1074 \<or> 2 ^ 52 \<le> uint s' \<Longrightarrow> Q (s', e - int k)"
  shows "ok (while_do (\<lambda>(s, e). Some (e > kDoubleDenormalExponent \<and> s AND kDoubleHiddenBit = 0))
         (\<lambda>(s, e). Some (push_bit 1 s, e - 1)) (s, e)) Q"
proof (rule ok_while_do[where P = "\<lambda>(t, e'). \<exists>k. uint t = uint s * 2 ^ k \<and> e' = e - int k \<and> -1074 \<le> e' \<and> uint t < 2 ^ 53"
    and m = "\<lambda>(s, e). nat (e + 1074)"], goal_cases)
  case 1
  then show ?case using s by (auto intro!: exI[of _ 0])
next
  case (2 x)
  obtain t e' where t: "x = (t, e')" by (cases x)
  obtain k where k: "uint t = uint s * 2 ^ k" "e' = e - int k" "-1074 \<le> e'" "uint t < 2 ^ 53" using 2 t by auto
  note g = hidden_bit_small[OF k(4)]
  show ?case
  proof (cases "-1074 < e' \<and> uint t < 2 ^ 52")
    case False
    then show ?thesis using t g k Q[of t k] by auto
  next
    case True
    then have "uint (push_bit 1 t) = uint t * 2 ^ 1" by (intro uint_push_bit_exact) simp
    then have "uint (push_bit 1 t) = uint s * 2 ^ Suc k" "uint (push_bit 1 t) < 2 ^ 53" using k True by simp_all
    then show ?thesis using t g True k by (auto intro!: exI[of _ "Suc k"])
  qed
qed

text \<open>
  The conversion truncates: with \<open>k\<close> low bits dropped, the pattern stands for the remaining
  significand at its exponent; too large is infinity, too small is zero.
\<close>

definition diy_to_double :: "diyfp \<Rightarrow> nat \<Rightarrow> double \<Rightarrow> bool" where
  "diy_to_double x k r \<longleftrightarrow>
     uint (fp_f x) div 2 ^ k < 2 ^ 53 \<and> (k = 0 \<or> 2 ^ 52 \<le> uint (fp_f x) div 2 ^ k) \<and>
     (if 972 \<le> fp_e x + int k then r = kDoubleInfinity
      else if fp_e x + int k < -1074 then r = 0
      else finite_double r \<and>
        fmt_units 52 (uint r) = uint (fp_f x) div 2 ^ k * 2 ^ nat (fp_e x + int k + 1074))"

lemma ok_DiyFpToUint64:
  assumes Q: "\<And>k r. diy_to_double x k r \<Longrightarrow> Q r"
  shows "ok (DiyFpToUint64 x) Q"
proof -
  have fin: "ok (do {
       (significand, exponent) \<leftarrow> while_do
         (\<lambda>(s, e). Some (e > kDoubleDenormalExponent \<and> s AND kDoubleHiddenBit = 0))
         (\<lambda>(s, e). Some (push_bit 1 s, e - 1)) (s, fp_e x + int k);
       let biased_exponent =
         (if exponent = kDoubleDenormalExponent \<and> significand AND kDoubleHiddenBit = 0 then 0
          else word_of_int (exponent + kDoubleExponentBias));
       Some ((significand AND kDoubleSignificandMask) OR
             push_bit (nat kDoublePhysicalSignificandSize) biased_exponent) }) Q"
    if s: "uint s = uint (fp_f x) div 2 ^ k" "uint s < 2 ^ 53" "k = 0 \<or> 2 ^ 52 \<le> uint s"
      and e: "-1074 \<le> fp_e x + int k" "fp_e x + int k < 972" for s k
  proof (subst ok_bind, rule ok_shift_up[OF s(2) e(1)], goal_cases)
    case (1 t j)
    let ?e = "fp_e x + int k - int j"
    define b where "b = (if ?e = -1074 \<and> uint t < 2 ^ 52 then 0 else ?e + 1075)"
    have b: "0 \<le> b" "b < 2047" using 1 e by (auto simp: b_def)
    have bw: "uint (word_of_int b :: u64) = b" using b by (simp add: uint_word_of_int_eq take_bit_int_eq_self)
    have be: "(if ?e = kDoubleDenormalExponent \<and> t AND kDoubleHiddenBit = 0 then 0
          else word_of_int (?e + kDoubleExponentBias)) = (word_of_int b :: u64)"
      using hidden_bit_small[OF 1(2)] by (simp add: b_def)
    have m: "kDoubleSignificandMask = mask 52" by (simp add: kDoubleSignificandMask_def mask_eq_decr_exp)
    let ?r = "(t AND mask 52) OR push_bit 52 (word_of_int b :: u64)"
    have u: "uint ?r = uint t mod 2 ^ 52 + b * 2 ^ 52"
      using uint_or_fields[of 52 "word_of_int b" t] b by (simp add: bw)
    have pat: "uint ?r = uint t + int (nat (?e + 1074)) * 2 ^ 52"
    proof (cases "uint t < 2 ^ 52")
      case True
      then have "?e = -1074" using 1 by auto
      then show ?thesis using u True by (simp add: b_def)
    next
      case False
      then have "uint t mod 2 ^ 52 = uint t - 2 ^ 52"
        using 1(2) mod_add_self2[of "uint t - 2 ^ 52" "2 ^ 52"] mod_pos_pos_trivial[of "uint t - 2 ^ 52" "2 ^ 52"] by simp
      then show ?thesis using u False 1(3) by (simp add: b_def algebra_simps)
    qed
    have "fmt_units 52 (uint ?r) = uint t * 2 ^ nat (?e + 1074)"
      unfolding pat by (rule fmt_encode(3)) (use 1 in auto)
    also have "\<dots> = uint s * 2 ^ (j + nat (?e + 1074))" unfolding 1(1) by (simp add: power_add)
    also have "j + nat (?e + 1074) = nat (fp_e x + int k + 1074)" using 1(3) by simp
    finally have units: "fmt_units 52 (uint ?r) = uint s * 2 ^ nat (fp_e x + int k + 1074)" .
    have "uint t mod 2 ^ 52 < 2 ^ 52" by simp
    then have fd: "finite_double ?r" unfolding finite_double_def u using b by simp
    have "diy_to_double x k ?r" unfolding diy_to_double_def using s e units fd by auto
    from Q[OF this] show ?case using be m by (simp add: Let_def)
  qed
  show ?thesis
    unfolding DiyFpToUint64_def
  proof (subst ok_bind, rule ok_shift_down, goal_cases)
    case (1 s k)
    have d: "diy_to_double x k kDoubleInfinity" if "972 \<le> fp_e x + int k"
      using 1 that by (auto simp: diy_to_double_def)
    have z: "diy_to_double x k 0" if "fp_e x + int k < -1074"
      using 1 that by (auto simp: diy_to_double_def)
    show ?case using fin[OF 1] Q[OF d] Q[OF z] by simp
  qed
qed


lemma fmt_units_inject: "0 \<le> m \<Longrightarrow> 0 \<le> n \<Longrightarrow> fmt_units p m = fmt_units p n \<longleftrightarrow> m = n"
  using fmt_units_less[of m n p] fmt_units_less[of n m p] by (cases m n rule: linorder_cases) auto

lemma finite_double_fields:
  assumes v: "finite_double v"
  shows "DoubleSign v = 1" "\<not> DoubleIsSpecial v" "uint (DoubleSignificand v) < 2 ^ 53"
    "-1074 \<le> DoubleExponent v" "DoubleExponent v \<le> 971"
    "DoubleExponent v = -1074 \<or> 2 ^ 52 \<le> uint (DoubleSignificand v)"
proof -
  note m = finite_double_mag[OF v]
  have lt: "uint v < 0x7FF0000000000000" using v by (simp add: finite_double_def)
  show "DoubleSign v = 1" "\<not> DoubleIsSpecial v" using lt by (simp_all add: Double_fields m)
  note D = fmt_decode[of "uint v" 52]
  show "uint (DoubleSignificand v) < 2 ^ 53" using D(3) by (simp add: Double_fields m)
  show "-1074 \<le> DoubleExponent v" by (simp add: Double_fields)
  show "DoubleExponent v = -1074 \<or> 2 ^ 52 \<le> uint (DoubleSignificand v)"
    using D(5) by (simp add: Double_fields m)
  have "\<not> 2047 \<le> uint v div 2 ^ 52" using lt le_zdiv[of "2 ^ 52" 2047 "uint v"] by simp
  then have "fmt_shift 52 (uint v) \<le> 2045" by (simp add: fmt_shift_def)
  then show "DoubleExponent v \<le> 971" by (simp add: Double_fields m)
qed

lemma DoubleAsDiyFp_finite:
  "finite_double v \<Longrightarrow> DoubleAsDiyFp v = Some (DiyFp (DoubleSignificand v) (DoubleExponent v))"
  by (simp add: DoubleAsDiyFp_def ensure_def finite_double_fields)

lemma diy_to_double_exact:
  assumes v: "finite_double v" and r: "diy_to_double (DiyFp (DoubleSignificand v) (DoubleExponent v)) k r"
  shows "r = v"
proof -
  note F = finite_double_fields[OF v]
  let ?s = "uint (DoubleSignificand v)"
  have "k = 0"
  proof (rule ccontr)
    assume "k \<noteq> 0"
    then have "2 ^ 52 \<le> ?s div 2 ^ k" using r by (simp add: diy_to_double_def)
    then have "2 ^ 52 * 2 ^ k \<le> ?s" by (subst (asm) le_zdiv) simp_all
    moreover have "(2::int) ^ 1 \<le> 2 ^ k" using \<open>k \<noteq> 0\<close> by (intro power_increasing) auto
    then have "(2::int) ^ 52 * 2 ^ 1 \<le> 2 ^ 52 * 2 ^ k" by (intro mult_left_mono) auto
    ultimately show False using F(3) by simp
  qed
  then have fr: "finite_double r" "fmt_units 52 (uint r) = ?s * 2 ^ nat (DoubleExponent v + 1074)"
    using r F by (auto simp: diy_to_double_def)
  then have "fmt_units 52 (uint r) = fmt_units 52 (uint v)"
    using dbl.units[OF v] by simp
  then have "uint r = uint v" by (subst (asm) fmt_units_inject) simp_all
  then show ?thesis by (simp only: word_uint_eq_iff)
qed

section \<open>Boundaries\<close>

lemma double_less_0_finite: "finite_double v \<Longrightarrow> double_less 0 v \<longleftrightarrow> 0 < uint v"
proof -
  assume v: "finite_double v"
  then have lt: "uint v < 0x7FF0000000000000" by (simp add: finite_double_def)
  have m: "(0x7FFFFFFFFFFFFFFF :: u64) = mask 63" "(0x8000000000000000 :: u64) = kDoubleSignMask"
    by (simp_all add: mask_eq_decr_exp kDoubleSignMask_def)
  have "uint (v AND 0x7FFFFFFFFFFFFFFF) = uint v" unfolding m(1) uint_and_mask using lt by simp
  then have "\<not> double_is_nan v" using lt by (simp add: double_is_nan_def word_less_def)
  moreover have "v AND 0x8000000000000000 = 0" unfolding m(2) zero_word_iff masks64 using lt by simp
  ultimately show ?thesis by (simp add: double_less_def double_rank_def double_is_nan_def)
qed

lemma DoubleLowerBoundary_finite:
  "finite_double v \<Longrightarrow> DoubleLowerBoundaryIsCloser v \<longleftrightarrow> uint v mod 2 ^ 52 = 0 \<and> DoubleExponent v \<noteq> -1074"
  by (simp add: DoubleLowerBoundaryIsCloser_def zero_word_iff masks64 finite_double_mag Let_def del: uint_0_iff)

lemma DoubleSignificand_pos:
  assumes v: "finite_double v" "0 < uint v"
  shows "1 \<le> uint (DoubleSignificand v)"
proof (rule ccontr)
  assume "\<not> 1 \<le> uint (DoubleSignificand v)"
  moreover have "0 \<le> uint (DoubleSignificand v)" by simp
  ultimately have "uint (DoubleSignificand v) = 0" by linarith
  then have "fmt_units 52 (uint v) = 0" using dbl.units[OF v(1)] by simp
  moreover have "fmt_units 52 0 < fmt_units 52 (uint v)" by (rule fmt_units_less) (use v in auto)
  ultimately show False by (simp add: fmt_units_def fmt_sig_def)
qed

lemma closer_significand:
  assumes v: "finite_double v" and c: "DoubleLowerBoundaryIsCloser v"
  shows "uint (DoubleSignificand v) = 2 ^ 52"
proof -
  have m: "uint v mod 2 ^ 52 = 0" "DoubleExponent v \<noteq> -1074" using c DoubleLowerBoundary_finite[OF v] by auto
  have "\<not> uint (DoubleSignificand v) < 2 ^ 52" using finite_double_fields(6)[OF v] m(2) by auto
  then show ?thesis using m(1) by (auto simp: Double_fields finite_double_mag[OF v] fmt_sig_def split: if_splits)
qed

text \<open>
  Both boundaries are the midpoints to the neighbours: \<open>k\<close> is the shift that normalises the upper
  one, and a unit is the smallest denormal.
\<close>

lemma ok_DoubleNormalizedBoundaries:
  assumes v: "finite_double v" "0 < uint v"
    and Q: "\<And>mm mp k. fp_e mm = fp_e mp \<Longrightarrow> 2 ^ 63 \<le> uint (fp_f mp) \<Longrightarrow> fp_e mp = DoubleExponent v - 1 - int k \<Longrightarrow>
      10 \<le> k \<Longrightarrow> k \<le> 62 \<Longrightarrow>
      uint (fp_f mp) = (2 * uint (DoubleSignificand v) + 1) * 2 ^ k \<Longrightarrow>
      uint (fp_f mm) = (if DoubleLowerBoundaryIsCloser v then (4 * uint (DoubleSignificand v) - 1) * 2 ^ (k - 1)
        else (2 * uint (DoubleSignificand v) - 1) * 2 ^ k) \<Longrightarrow> Q (mm, mp)"
  shows "ok (DoubleNormalizedBoundaries v) Q"
proof -
  note F = finite_double_fields[OF v(1)]
  let ?s = "DoubleSignificand v" and ?e = "DoubleExponent v"
  note s1 = DoubleSignificand_pos[OF v]
  have p1: "uint (push_bit 1 ?s) = uint ?s * 2" by (subst uint_push_bit_exact) (use F in simp_all)
  have p2: "uint (push_bit 2 ?s) = uint ?s * 4" by (subst uint_push_bit_exact) (use F in simp_all)
  have f: "uint (push_bit 1 ?s + 1) = 2 * uint ?s + 1"
    by (subst uint_add_exact) (use p1 F in simp_all)
  have nz: "push_bit 1 ?s + 1 \<noteq> 0" using f s1 unfolding zero_word_iff by (simp del: uint_0_iff)
  have main: "ok (do { let m_minus = (if DoubleLowerBoundaryIsCloser v
                    then DiyFp (push_bit 2 ?s - 1) (?e - 2) else DiyFp (push_bit 1 ?s - 1) (?e - 1));
       f \<leftarrow> shl64 (fp_f m_minus) (fp_e m_minus - (?e - 1 - int k));
       Some (DiyFp f (?e - 1 - int k), \<lparr>fp_f = g, fp_e = ?e - 1 - int k\<rparr>) }) Q"
    if g: "9223372036854775808 \<le> uint g" "uint g = uint (push_bit 1 ?s + 1) * 2 ^ k" for g k
  proof -
    have g': "uint g = (2 * uint ?s + 1) * 2 ^ k" using g f by simp
    have k10: "10 \<le> k"
    proof (rule ccontr)
      assume "\<not> 10 \<le> k"
      then have "(2::int) ^ k \<le> 2 ^ 9" by (intro power_increasing) auto
      then have "(2 * uint ?s + 1) * 2 ^ k \<le> (2 * uint ?s + 1) * 2 ^ 9" using s1 by (intro mult_left_mono) auto
      then show False using g g' F(3) by simp
    qed
    have k62: "k \<le> 62"
    proof (rule ccontr)
      assume "\<not> k \<le> 62"
      then have "(2::int) ^ 63 \<le> 2 ^ k" by (intro power_increasing) auto
      then have "9223372036854775808 \<le> (2::int) ^ k" by simp
      moreover have "uint g < 18446744073709551616" using uint_lt_2p[of g] by simp
      moreover have "3 * 2 ^ k \<le> (2 * uint ?s + 1) * 2 ^ k" using s1 by (intro mult_right_mono) auto
      ultimately show False using g' by linarith
    qed
    obtain j where j: "k = Suc j" using k10 by (cases k) auto
    have lt: "(2 * uint ?s + 1) * 2 ^ k < 2 ^ 64" using g' uint_lt_2p[of g] by simp
    show ?thesis
    proof (cases "DoubleLowerBoundaryIsCloser v")
      case True
      have m: "uint (push_bit 2 ?s - 1) = 4 * uint ?s - 1"
        by (subst uint_sub_exact) (use p2 s1 in simp_all)
      have "(4 * uint ?s - 1) * 2 ^ j \<le> (2 * (2 * uint ?s + 1)) * 2 ^ j" by (intro mult_right_mono) auto
      also have "\<dots> = (2 * uint ?s + 1) * 2 ^ k" unfolding j by simp
      finally have "(4 * uint ?s - 1) * 2 ^ j < 2 ^ 64" using lt by linarith
      then have "uint (push_bit j (push_bit 2 ?s - 1)) = (4 * uint ?s - 1) * 2 ^ j"
        by (subst uint_push_bit_exact) (simp_all add: m)
      then have "Q (DiyFp (push_bit j (push_bit 2 ?s - 1)) (?e - 1 - int k), \<lparr>fp_f = g, fp_e = ?e - 1 - int k\<rparr>)"
        by (intro Q[where k = k]) (use g g' k10 k62 True j in simp_all)
      then show ?thesis using True j k62 by (simp add: wp)
    next
      case False
      have m: "uint (push_bit 1 ?s - 1) = 2 * uint ?s - 1"
        by (subst uint_sub_exact) (use p1 s1 in simp_all)
      have "(2 * uint ?s - 1) * 2 ^ k \<le> (2 * uint ?s + 1) * 2 ^ k" by (intro mult_right_mono) auto
      then have "(2 * uint ?s - 1) * 2 ^ k < 2 ^ 64" using lt by linarith
      then have "uint (push_bit k (push_bit 1 ?s - 1)) = (2 * uint ?s - 1) * 2 ^ k"
        using uint_push_bit_exact[of "push_bit 1 ?s - 1" k, unfolded m] by simp
      then have "Q (DiyFp (push_bit k (push_bit 1 ?s - 1)) (?e - 1 - int k), \<lparr>fp_f = g, fp_e = ?e - 1 - int k\<rparr>)"
        by (intro Q[where k = k]) (use g g' k10 k62 False in simp_all)
      then show ?thesis using False k62 by (simp add: wp)
    qed
  qed
  show ?thesis
    unfolding DoubleNormalizedBoundaries_def
    apply (simp only: ok_bind[of "ensure _"] ok_ensure DoubleAsDiyFp_finite[OF v(1)] bind.simps DiyFp_sel
        double_less_0_finite[OF v(1)] v(2) simp_thms)
    apply (subst ok_bind, rule ok_Normalize)
     apply (use nz in simp)
    apply (use main in \<open>simp add: Let_def\<close>)
    done
qed


section \<open>Neighbours\<close>

lemma sign_bit: "v AND 0x8000000000000000 = 0 \<longleftrightarrow> uint v < 9223372036854775808" for v :: u64
proof -
  have m: "(0x8000000000000000 :: u64) = kDoubleSignMask" by (simp add: kDoubleSignMask_def)
  show ?thesis unfolding m zero_word_iff masks64 using zdiv_eq_0[of "2 ^ 63" "uint v"] by simp
qed

lemma mag_word: "uint (v AND 0x7FFFFFFFFFFFFFFF :: u64) = mag64 v"
proof -
  have m: "(0x7FFFFFFFFFFFFFFF :: u64) = mask 63" by (simp add: mask_eq_decr_exp)
  show ?thesis unfolding m uint_and_mask mag64_def by simp
qed

lemma double_rank_mag:
  "double_rank v = (if uint v < 2 ^ 63 then uint v else 2 ^ 63 - uint v)"
  "mag64 v = (if uint v < 2 ^ 63 then uint v else uint v - 2 ^ 63)"
proof -
  show m: "mag64 v = (if uint v < 2 ^ 63 then uint v else uint v - 2 ^ 63)"
    unfolding mag64_def using uint_lt_2p[of v] mod_add_self2[of "uint v - 2 ^ 63" "2 ^ 63"]
      mod_pos_pos_trivial[of "uint v - 2 ^ 63" "2 ^ 63"] by auto
  show "double_rank v = (if uint v < 2 ^ 63 then uint v else 2 ^ 63 - uint v)"
    unfolding double_rank_def sign_bit mag_word m by simp
qed

lemma double_is_nan_mag: "double_is_nan v \<longleftrightarrow> 0x7FF0000000000000 < mag64 v"
  by (simp add: double_is_nan_def word_less_def mag_word)

lemma fmt_sig_0: "0 \<le> n \<Longrightarrow> fmt_sig p n = 0 \<longleftrightarrow> n = 0"
proof
  assume n: "0 \<le> n" and z: "fmt_sig p n = 0"
  have "0 < fmt_shift p n \<Longrightarrow> 2 ^ p \<le> (0 :: int)" using fmt_decode(4)[OF n, of p] z by simp
  moreover have "(0::int) < 2 ^ p" by simp
  ultimately have "fmt_shift p n = 0" by linarith
  then show "n = 0" using fmt_decode(1)[OF n, of p] z by simp
qed (simp add: fmt_sig_def)

lemma NextDouble_rank:
  assumes "\<not> double_is_nan v" "v \<noteq> 0x7FF0000000000000" "v \<noteq> 0x8000000000000000"
  shows "double_rank (NextDouble v) = double_rank v + 1"
proof -
  have ne: "uint v \<noteq> 9218868437227405312" "uint v \<noteq> 9223372036854775808"
    using assms(2,3) by (simp_all add: word_uint_eq_iff)
  have lt: "uint v < 18446744073709551616" using uint_lt_2p[of v] by simp
  have sz: "DoubleSignificand v = 0 \<longleftrightarrow> mag64 v = 0"
    unfolding zero_word_iff Double_fields by (rule fmt_sig_0) simp
  show ?thesis
  proof (cases "uint v < 2 ^ 63")
    case True
    have up: "uint (v + 1) = uint v + 1" by (subst uint_add_exact) (use True in simp_all)
    have "uint v < 9218868437227405312"
      using assms(1) ne True by (simp add: double_is_nan_mag double_rank_mag)
    then show ?thesis using True up assms(2) by (simp add: NextDouble_def kDoubleInfinity_def Double_fields double_rank_mag)
  next
    case False
    have dn: "uint (v - 1) = uint v - 1" by (subst uint_sub_exact) (use False in simp_all)
    have inf: "v \<noteq> kDoubleInfinity" using False by (auto simp: kDoubleInfinity_def)
    have "mag64 v \<noteq> 0" using False ne by (simp add: double_rank_mag)
    then have "NextDouble v = v - 1" using False inf sz by (simp add: NextDouble_def Double_fields)
    then show ?thesis using dn False ne by (simp add: double_rank_mag)
  qed
qed

lemma PreviousDouble_rank:
  assumes "\<not> double_is_nan v" "v \<noteq> 0xFFF0000000000000" "v \<noteq> 0"
  shows "double_rank (PreviousDouble v) = double_rank v - 1"
proof -
  have ne: "uint v \<noteq> 18442240474082181120" "uint v \<noteq> 0"
    using assms(2,3) by (simp_all add: word_uint_eq_iff)
  have k: "kDoubleInfinity OR kDoubleSignMask = 0xFFF0000000000000"
    by (simp add: kDoubleInfinity_def kDoubleSignMask_def)
  have sz: "DoubleSignificand v = 0 \<longleftrightarrow> mag64 v = 0"
    unfolding zero_word_iff Double_fields by (rule fmt_sig_0) simp
  show ?thesis
  proof (cases "uint v < 2 ^ 63")
    case True
    have dn: "uint (v - 1) = uint v - 1" by (subst uint_sub_exact) (use True ne(2) uint_nonnegative[of v] in \<open>simp_all, linarith\<close>)
    have "mag64 v \<noteq> 0" using True ne by (simp add: double_rank_mag)
    then have "PreviousDouble v = v - 1" using True k assms(2) sz by (simp add: PreviousDouble_def Double_fields)
    then show ?thesis using dn True ne by (simp add: double_rank_mag)
  next
    case False
    have "mag64 v \<le> 9218868437227405312" using assms(1) by (simp add: double_is_nan_mag)
    then have lt: "uint v < 18442240474082181120" using False ne by (simp add: double_rank_mag)
    have up: "uint (v + 1) = uint v + 1" by (subst uint_add_exact) (use lt in simp_all)
    have "PreviousDouble v = v + 1" using False k assms(2) by (simp add: PreviousDouble_def Double_fields)
    then show ?thesis using up False lt by (simp add: double_rank_mag)
  qed
qed

end
