(* ===== verification/Ieee_Correct.thy ===== *)
theory Ieee_Correct
  imports Ieee_Value
begin

text \<open>The properties of the DiyFp type and of the IEEE views.\<close>

text \<open>C26: The product of two DiyFp is the exact 128-bit product, rounded half up to 64 bits; none of the partial sums overflows.\<close>

theorem DiyFp_Multiply_rounds:
  "uint (fp_f (Multiply y x)) = (uint (fp_f x) * uint (fp_f y) + 2 ^ 63) div 2 ^ 64 \<and>
   fp_e (Multiply y x) = fp_e x + fp_e y + 64"
  using Multiply_value[of y x] by simp

text \<open>C27: Normalize ends for every non-zero significand, sets the most significant bit and keeps the value.\<close>

theorem DiyFp_Normalize_keeps_value:
  assumes "fp_f x \<noteq> 0"
  shows "\<exists>f k. Normalize x = Some \<lparr>fp_f = f, fp_e = fp_e x - int k\<rparr> \<and> 2 ^ 63 \<le> uint f \<and>
    uint f = uint (fp_f x) * 2 ^ k"
  using ok_Normalize[OF assms, where Q = "\<lambda>r. \<exists>f k. r = \<lparr>fp_f = f, fp_e = fp_e x - int k\<rparr> \<and> 2 ^ 63 \<le> uint f \<and>
    uint f = uint (fp_f x) * 2 ^ k"] by (fastforce simp: ok_def)

lemma DiyFp_Normalize_keeps_value_witness:
  "\<exists>f k. Normalize (DiyFp 3 7) = Some \<lparr>fp_f = f, fp_e = 7 - int k\<rparr> \<and> 2 ^ 63 \<le> uint f \<and> uint f = 3 * 2 ^ k"
  using DiyFp_Normalize_keeps_value[of "DiyFp 3 7"] by simp

text \<open>C24: Every finite non-negative double is the double of its own DiyFp.\<close>

theorem Double_DiyFp_round_trip:
  assumes "finite_double v"
  shows "do { x \<leftarrow> DoubleAsDiyFp v; DiyFpToUint64 x } = Some v"
proof -
  have "ok (DiyFpToUint64 (DiyFp (DoubleSignificand v) (DoubleExponent v))) (\<lambda>r. r = v)"
    by (rule ok_DiyFpToUint64) (rule diy_to_double_exact[OF assms])
  then show ?thesis by (simp add: ok_def DoubleAsDiyFp_finite assms)
qed

lemma Double_DiyFp_round_trip_witness:
  "do { x \<leftarrow> DoubleAsDiyFp 0x3FF8000000000001; DiyFpToUint64 x } = Some 0x3FF8000000000001"
  using Double_DiyFp_round_trip[of "0x3FF8000000000001"] by (simp add: finite_double_def)


text \<open>C23: For a finite positive double both normalised boundaries are exactly the midpoints to its neighbours, at one common exponent, and the upper one is normalised.\<close>

theorem DoubleNormalizedBoundaries_midpoints:
  assumes "finite_double v" "0 < uint v"
  shows "\<exists>mm mp k. DoubleNormalizedBoundaries v = Some (mm, mp) \<and> fp_e mm = fp_e mp \<and>
    2 ^ 63 \<le> uint (fp_f mp) \<and> fp_e mp = DoubleExponent v - 1 - int k \<and>
    uint (fp_f mp) * 2 ^ nat (DoubleExponent v + 1074) =
      (fmt_units 52 (uint v) + fmt_units 52 (uint v + 1)) * 2 ^ k \<and>
    uint (fp_f mm) * 2 ^ nat (DoubleExponent v + 1074) =
      (fmt_units 52 (uint v - 1) + fmt_units 52 (uint v)) * 2 ^ k"
proof -
  let ?U = "2 ^ nat (DoubleExponent v + 1074) :: int"
  have up: "(2 * uint (DoubleSignificand v) + 1) * ?U = fmt_units 52 (uint v) + fmt_units 52 (uint v + 1)"
    using dbl.upper_midpoint[OF assms(1)] by simp
  note lo = dbl.lower_midpoint[OF assms] and cl = DoubleLowerBoundary_finite[OF assms(1)]
  have "ok (DoubleNormalizedBoundaries v) (\<lambda>(mm, mp). \<exists>k. fp_e mm = fp_e mp \<and>
    2 ^ 63 \<le> uint (fp_f mp) \<and> fp_e mp = DoubleExponent v - 1 - int k \<and>
    uint (fp_f mp) * ?U = (fmt_units 52 (uint v) + fmt_units 52 (uint v + 1)) * 2 ^ k \<and>
    uint (fp_f mm) * ?U = (fmt_units 52 (uint v - 1) + fmt_units 52 (uint v)) * 2 ^ k)"
  proof (rule ok_DoubleNormalizedBoundaries[OF assms], goal_cases)
    case (1 mm mp k)
    obtain j where j: "k = Suc j" using 1(4) by (cases k) auto
    have "uint (fp_f mp) * ?U = (fmt_units 52 (uint v) + fmt_units 52 (uint v + 1)) * 2 ^ k"
      unfolding 1(6) up[symmetric] by simp
    moreover have "uint (fp_f mm) * ?U = (fmt_units 52 (uint v - 1) + fmt_units 52 (uint v)) * 2 ^ k"
    proof (cases "DoubleLowerBoundaryIsCloser v")
      case True
      then have l: "(4 * uint (DoubleSignificand v) - 1) * ?U = 2 * (fmt_units 52 (uint v - 1) + fmt_units 52 (uint v))"
        using lo cl by simp
      have "uint (fp_f mm) * ?U = ((4 * uint (DoubleSignificand v) - 1) * ?U) * 2 ^ j"
        using 1(7) True j by simp
      then show ?thesis unfolding l j by simp
    next
      case False
      then have "(2 * uint (DoubleSignificand v) - 1) * ?U = fmt_units 52 (uint v - 1) + fmt_units 52 (uint v)"
        using lo cl by (auto split: if_splits)
      then show ?thesis unfolding 1(7) using False by (simp add: mult_ac)
    qed
    ultimately show ?case using 1 by auto
  qed
  then show ?thesis by (fastforce simp: ok_def)
qed

lemma DoubleNormalizedBoundaries_midpoints_witness:
  "\<exists>mm mp k. DoubleNormalizedBoundaries 0x3FF0000000000000 = Some (mm, mp) \<and> fp_e mm = fp_e mp \<and>
    2 ^ 63 \<le> uint (fp_f mp) \<and>
    uint (fp_f mm) * 2 ^ nat (DoubleExponent 0x3FF0000000000000 + 1074) =
      (fmt_units 52 0x3FEFFFFFFFFFFFFF + fmt_units 52 0x3FF0000000000000) * 2 ^ k"
  using DoubleNormalizedBoundaries_midpoints[of "0x3FF0000000000000"] by (fastforce simp: finite_double_def)

text \<open>C28: NextDouble and PreviousDouble move one step on the number line, for denormals, across binades, to and from infinity; from one zero they step to the other.\<close>

theorem neighbours_one_step:
  assumes "\<not> double_is_nan v"
  shows "(v \<noteq> 0x7FF0000000000000 \<and> v \<noteq> 0x8000000000000000 \<longrightarrow> double_rank (NextDouble v) = double_rank v + 1) \<and>
    (v \<noteq> 0xFFF0000000000000 \<and> v \<noteq> 0 \<longrightarrow> double_rank (PreviousDouble v) = double_rank v - 1) \<and>
    NextDouble 0x8000000000000000 = 0 \<and> PreviousDouble 0 = 0x8000000000000000"
proof -
  have "NextDouble 0x8000000000000000 = 0" "PreviousDouble 0 = 0x8000000000000000"
    by (simp_all add: NextDouble_def PreviousDouble_def kDoubleInfinity_def DoubleSign_def kDoubleSignMask_def
        DoubleSignificand_def DoubleIsDenormal_def kDoubleExponentMask_def kDoubleSignificandMask_def double_neg_def)
  then show ?thesis using NextDouble_rank[OF assms] PreviousDouble_rank[OF assms] by blast
qed

lemma neighbours_one_step_witness:
  "double_rank (NextDouble 0x7FEFFFFFFFFFFFFF) = 0x7FF0000000000000 \<and>
   double_rank (PreviousDouble 0x0010000000000000) = 0x000FFFFFFFFFFFFF"
proof -
  have n: "\<not> double_is_nan 0x7FEFFFFFFFFFFFFF" "\<not> double_is_nan 0x0010000000000000"
    by (simp_all add: double_is_nan_def)
  show ?thesis
    using neighbours_one_step[OF n(1)] neighbours_one_step[OF n(2)] by (simp add: double_rank_def)
qed

end
