(* ===== verification/Rounding.thy ===== *)
theory Rounding
  imports Ieee_Value
begin

text \<open>Correct rounding: what the nearest pattern of a ratio is, and that the language's rounding returns it.\<close>

section \<open>Nearest pattern\<close>

text \<open>
  \<open>nearest p infty N d r\<close>: of the patterns up to \<open>infty\<close> of a format with \<open>p\<close> physical significand
  bits, \<open>r\<close> is the one closest to \<open>N / d\<close> units, the even one in the middle of two. The
  pattern \<open>infty\<close> takes everything from the last midpoint on.
\<close>

definition nearest :: "nat \<Rightarrow> int \<Rightarrow> int \<Rightarrow> int \<Rightarrow> int \<Rightarrow> bool" where
  "nearest p infty N d r \<longleftrightarrow> 0 \<le> r \<and> r \<le> infty \<and>
     (r < infty \<longrightarrow> 2 * N \<le> d * (fmt_units p r + fmt_units p (r + 1)) \<and>
        (2 * N = d * (fmt_units p r + fmt_units p (r + 1)) \<longrightarrow> even r)) \<and>
     (0 < r \<longrightarrow> d * (fmt_units p (r - 1) + fmt_units p r) \<le> 2 * N \<and>
        (2 * N = d * (fmt_units p (r - 1) + fmt_units p r) \<longrightarrow> even r))"

lemma mid_less:
  assumes "0 \<le> a" "a < b" shows "fmt_units p a + fmt_units p (a + 1) < fmt_units p b + fmt_units p (b + 1)"
  using fmt_units_less[of a b p] fmt_units_less[of "a + 1" "b + 1" p] assms by simp

lemma nearest_unique:
  assumes r: "nearest p infty N d r" and r': "nearest p infty N d r'" and d: "0 < d"
  shows "r = r'"
proof -
  have F: False if a: "nearest p infty N d a" and b: "nearest p infty N d b" and lt: "a < b" for a b
  proof -
    let ?m = "\<lambda>a. fmt_units p a + fmt_units p (a + 1)"
    have 1: "2 * N \<le> d * ?m a" "2 * N = d * ?m a \<longrightarrow> even a" "0 \<le> a"
      using a b lt by (auto simp: nearest_def)
    have 2: "d * ?m (b - 1) \<le> 2 * N" "2 * N = d * ?m (b - 1) \<longrightarrow> even b"
      using b lt 1(3) by (auto simp: nearest_def)
    show False
    proof (cases "a = b - 1")
      case True
      then have "2 * N = d * ?m a" using 1 2 by simp
      then have "even a" "even b" using 1 2 True by auto
      then show False using True by simp
    next
      case False
      then have "d * ?m a < d * ?m (b - 1)" using mid_less[of a "b - 1" p] lt 1(3) d by simp
      then show False using 1(1) 2(1) by linarith
    qed
  qed
  show ?thesis using F[OF r r'] F[OF r' r] by (cases r r' rule: linorder_cases) auto
qed

lemma nearest_scale:
  assumes "0 < c" shows "nearest p infty (c * N) (c * d) r \<longleftrightarrow> nearest p infty N d r"
proof -
  have e: "2 * (c * N) \<le> c * d * m \<longleftrightarrow> 2 * N \<le> d * m" "2 * (c * N) = c * d * m \<longleftrightarrow> 2 * N = d * m"
    "c * d * m \<le> 2 * (c * N) \<longleftrightarrow> d * m \<le> 2 * N" for m
    using mult_le_cancel_left_pos[OF assms, of "2 * N" "d * m"] mult_le_cancel_left_pos[OF assms, of "d * m" "2 * N"]
      mult_cancel_left[of c "2 * N" "d * m"] assms by (simp_all add: mult_ac)
  show ?thesis unfolding nearest_def e ..
qed

lemma nearest_ratio:
  assumes "0 < d" "0 < d'" "N * d' = N' * d" and r: "nearest p infty N d r" shows "nearest p infty N' d' r"
proof -
  have "nearest p infty (d' * N) (d' * d) r" using r nearest_scale[OF assms(2)] by simp
  also have "d' * N = d * N'" using assms(3) by (simp add: mult.commute)
  also have "d' * d = d * d'" by simp
  finally show ?thesis using nearest_scale[OF assms(1)] by simp
qed

text \<open>A value that is a pattern's is its own nearest pattern.\<close>

lemma nearest_exact:
  assumes "0 \<le> r" "r < infty" "0 < d"
  shows "nearest p infty (d * fmt_units p r) d r"
proof -
  have "fmt_units p r < fmt_units p (r + 1)" by (rule fmt_units_less) (use assms in auto)
  then have "d * fmt_units p r < d * fmt_units p (r + 1)" using assms by simp
  moreover have "d * fmt_units p (r - 1) < d * fmt_units p r" if "0 < r"
    using fmt_units_less[of "r - 1" r p] that assms by simp
  ultimately show ?thesis using assms by (auto simp: nearest_def distrib_left)
qed

text \<open>Rounding is monotone.\<close>

lemma nearest_mono:
  assumes r: "nearest p infty N d r" and r': "nearest p infty N' d r'" and "N \<le> N'" "0 < d"
  shows "r \<le> r'"
proof (rule ccontr)
  assume c: "\<not> r \<le> r'"
  let ?m = "\<lambda>a. fmt_units p a + fmt_units p (a + 1)"
  have 1: "2 * N' \<le> d * ?m r'" "2 * N' = d * ?m r' \<longrightarrow> even r'" "0 \<le> r'"
    using r r' c by (auto simp: nearest_def)
  have 2: "d * ?m (r - 1) \<le> 2 * N" "2 * N = d * ?m (r - 1) \<longrightarrow> even r"
    using r c 1(3) by (auto simp: nearest_def)
  show False
  proof (cases "r' = r - 1")
    case True
    then have "2 * N' = d * ?m r'" "2 * N = d * ?m r'" using 1 2 assms(3) by auto
    then have "even r" "even r'" using 1 2 True by auto
    then show False using True by simp
  next
    case False
    then have "d * ?m r' < d * ?m (r - 1)" using mid_less[of r' "r - 1" p] c 1(3) assms(4) by simp
    then show False using 1(1) 2(1) assms(3) by linarith
  qed
qed

section \<open>Bit lengths\<close>

lemma bit_len_bounds: "0 < n \<Longrightarrow> 1 \<le> bit_len n \<and> 2 ^ nat (bit_len n - 1) \<le> n \<and> n < 2 ^ nat (bit_len n)"
proof (induction n rule: bit_len.induct)
  case (1 n)
  show ?case
  proof (cases "n = 1")
    case True
    then show ?thesis by (simp add: bit_len.simps[of 1] bit_len.simps[of 0])
  next
    case False
    then have "\<not> n \<le> 0" "0 < n div 2" using 1 by auto
    then have I: "1 \<le> bit_len (n div 2)" "2 ^ nat (bit_len (n div 2) - 1) \<le> n div 2" "n div 2 < 2 ^ nat (bit_len (n div 2))"
      using 1 by auto
    have b: "bit_len n = 1 + bit_len (n div 2)" using 1 by (subst bit_len.simps) simp
    obtain j where j: "bit_len (n div 2) = 1 + int j" using I(1) unfolding zle_iff_zadd by auto
    have e: "nat (1 + int j) = Suc j" "nat (1 + int j - 1) = j" "nat (1 + (1 + int j)) = Suc (Suc j)" "nat (1 + (1 + int j) - 1) = Suc j"
      by simp_all
    have "2 ^ Suc j \<le> n" "n < 2 ^ Suc (Suc j)" using I(2,3) unfolding j e by auto
    then show ?thesis unfolding b j e by simp
  qed
qed


section \<open>The rounding routine\<close>

lemma scale2_eq: "scale2 n d k = (n * 2 ^ nat k, d * 2 ^ nat (- k))"
  by (simp add: scale2_def)

lemma ratio_ge_iff:
  fixes n d :: int
  assumes "int a - int b = j"
  shows "d * 2 ^ nat j \<le> n * 2 ^ nat (- j) \<longleftrightarrow> d * 2 ^ a \<le> n * 2 ^ b"
proof -
  define c where "c = min a b"
  have a: "a = nat j + c" "b = nat (- j) + c" using assms by (auto simp: c_def)
  have "d * 2 ^ a \<le> n * 2 ^ b \<longleftrightarrow> (d * 2 ^ nat j) * 2 ^ c \<le> (n * 2 ^ nat (- j)) * 2 ^ c"
    by (simp only: a power_add mult.assoc)
  also have "\<dots> \<longleftrightarrow> d * 2 ^ nat j \<le> n * 2 ^ nat (- j)" by (rule mult_le_cancel_right_pos) simp
  finally show ?thesis by simp
qed

lemma log2_floor_bounds:
  assumes "0 < n" "0 < d"
  shows "d * 2 ^ nat (log2_floor n d) \<le> n * 2 ^ nat (- log2_floor n d)"
    "n * 2 ^ nat (- log2_floor n d - 1) < d * 2 ^ nat (log2_floor n d + 1)"
proof -
  define bn bd where "bn = nat (bit_len n)" and "bd = nat (bit_len d)"
  have N: "1 \<le> bn" "int bn = bit_len n" "2 ^ (bn - 1) \<le> n" "n < 2 ^ bn"
    using bit_len_bounds[OF assms(1)] by (auto simp: bn_def nat_diff_distrib)
  have D: "1 \<le> bd" "int bd = bit_len d" "2 ^ (bd - 1) \<le> d" "d < 2 ^ bd"
    using bit_len_bounds[OF assms(2)] by (auto simp: bd_def nat_diff_distrib)
  define k where "k = bit_len n - bit_len d"
  let ?ge = "\<lambda>j. d * 2 ^ nat j \<le> n * 2 ^ nat (- j)"
  have lo: "?ge (k - 1)"
  proof -
    have "d * 2 ^ (bn - 1) \<le> 2 ^ bd * n" by (rule mult_mono) (use N D assms in auto)
    then have "d * 2 ^ (bn - 1) \<le> n * 2 ^ bd" by (simp add: mult.commute)
    then show ?thesis by (subst ratio_ge_iff[of "bn - 1" bd]) (use N D in \<open>auto simp: k_def of_nat_diff\<close>)
  qed
  have hi: "\<not> ?ge (k + 1)"
  proof -
    have "n * 2 ^ (bd - 1) < 2 ^ bn * d" by (rule mult_less_le_imp_less) (use N D assms in auto)
    then have "\<not> d * 2 ^ bn \<le> n * 2 ^ (bd - 1)" by (simp add: mult.commute)
    then show ?thesis by (subst ratio_ge_iff[of bn "bd - 1"]) (use N D in \<open>auto simp: k_def of_nat_diff\<close>)
  qed
  have l: "log2_floor n d = (if ?ge k then k else k - 1)"
    by (auto simp: log2_floor_def Let_def scale2_eq k_def)
  show "?ge (log2_floor n d)" using lo l by auto
  have "\<not> ?ge (log2_floor n d + 1)" using hi l by auto
  moreover have "- (log2_floor n d + 1) = - log2_floor n d - 1" by simp
  ultimately show "n * 2 ^ nat (- log2_floor n d - 1) < d * 2 ^ nat (log2_floor n d + 1)" by (simp only: not_le)
qed

lemma round_even_bounds:
  assumes "0 < d" "0 \<le> n"
  shows "2 * n \<le> (2 * round_even n d + 1) * d" "(2 * round_even n d - 1) * d \<le> 2 * n"
    "2 * n = (2 * round_even n d + 1) * d \<longrightarrow> even (round_even n d)"
    "2 * n = (2 * round_even n d - 1) * d \<longrightarrow> even (round_even n d)"
    "c * d \<le> n \<Longrightarrow> c \<le> round_even n d" "n < c * d \<Longrightarrow> round_even n d \<le> c" "0 \<le> round_even n d"
proof -
  define q r where "q = n div d" and "r = n mod d"
  have n: "n = q * d + r" and r: "0 \<le> r" "r < d" using assms by (simp_all add: q_def r_def)
  have m: "round_even n d = (if 2 * r > d \<or> (2 * r = d \<and> odd q) then q + 1 else q)"
    by (simp add: round_even_def q_def r_def Let_def)
  show "2 * n \<le> (2 * round_even n d + 1) * d" "(2 * round_even n d - 1) * d \<le> 2 * n"
    using r n unfolding m by (auto simp: algebra_simps)
  show "2 * n = (2 * round_even n d + 1) * d \<longrightarrow> even (round_even n d)"
    "2 * n = (2 * round_even n d - 1) * d \<longrightarrow> even (round_even n d)"
    using r n unfolding m by (auto simp: algebra_simps)
  show "c \<le> round_even n d" if "c * d \<le> n"
  proof -
    have "c \<le> q" unfolding q_def using that assms(1) by (simp add: le_zdiv)
    then show ?thesis unfolding m by auto
  qed
  show "round_even n d \<le> c" if "n < c * d"
  proof -
    have "\<not> c \<le> q" unfolding q_def using that assms(1) by (simp add: le_zdiv)
    then show ?thesis unfolding m by auto
  qed
  have "0 \<le> q" using assms by (simp add: q_def pos_imp_zdiv_nonneg_iff)
  then show "0 \<le> round_even n d" unfolding m by auto
qed

lemma nearest_round_even:
  assumes d: "0 < d" and n: "0 \<le> n" and A: "n < 2 * 2 ^ p * d" and B: "0 < k \<Longrightarrow> 2 ^ p * d \<le> n" and p: "1 \<le> p"
    and i: "even infty" "0 < infty"
  shows "nearest p infty (n * 2 ^ k) d (min infty (round_even n d + int k * 2 ^ p))"
proof -
  define m where "m = round_even n d"
  define r where "r = m + int k * 2 ^ p"
  note R = round_even_bounds[OF d n, folded m_def]
  have m0: "0 \<le> m" by (rule R(7))
  have m1: "m \<le> 2 * 2 ^ p" by (rule R(6)[OF A])
  have m2: "2 ^ p \<le> m" if "0 < k" using R(5)[OF B[OF that]] .
  have ev: "even r = even m" using p by (cases p) (auto simp: r_def)
  have ur: "fmt_units p r = m * 2 ^ k" and us: "m * 2 ^ k + 2 ^ k \<le> fmt_units p (r + 1)"
  proof -
    have "fmt_units p r = m * 2 ^ k \<and> k \<le> fmt_shift p r"
    proof (cases "m = 2 * 2 ^ p")
      case True
      then have e: "r = 2 ^ p + int (Suc k) * 2 ^ p" by (simp add: r_def algebra_simps)
      have "fmt_units p r = 2 ^ p * 2 ^ Suc k" "fmt_shift p r = Suc k"
        unfolding e by (rule fmt_encode; simp)+
      then show ?thesis using True by simp
    next
      case False
      then have "fmt_units p r = m * 2 ^ k" "fmt_shift p r = k"
        unfolding r_def using m0 m1 m2 by (intro fmt_encode; simp)+
      then show ?thesis by simp
    qed
    moreover have "fmt_units p (r + 1) = fmt_units p r + 2 ^ fmt_shift p r"
      by (rule fmt_units_Suc) (use m0 in \<open>simp add: r_def\<close>)
    moreover have "k \<le> fmt_shift p r \<Longrightarrow> (2::int) ^ k \<le> 2 ^ fmt_shift p r" by (rule power_increasing) simp_all
    ultimately show "fmt_units p r = m * 2 ^ k" "m * 2 ^ k + 2 ^ k \<le> fmt_units p (r + 1)" by auto
  qed
  have K: "(0::int) < 2 ^ k" by simp
  have up: "2 * (n * 2 ^ k) \<le> d * (fmt_units p r + fmt_units p (r + 1))"
    "2 * (n * 2 ^ k) = d * (fmt_units p r + fmt_units p (r + 1)) \<longrightarrow> even r"
  proof -
    have 1: "2 * n * 2 ^ k \<le> (2 * m + 1) * d * 2 ^ k" by (intro mult_right_mono R(1)) simp
    have 2: "d * (2 * m * 2 ^ k + 2 ^ k) \<le> d * (fmt_units p r + fmt_units p (r + 1))"
      using us ur d by (intro mult_left_mono) auto
    have e: "(2 * m + 1) * d * 2 ^ k = d * (2 * m * 2 ^ k + 2 ^ k)" by (simp add: algebra_simps)
    show "2 * (n * 2 ^ k) \<le> d * (fmt_units p r + fmt_units p (r + 1))" using 1 2 e by simp
    show "2 * (n * 2 ^ k) = d * (fmt_units p r + fmt_units p (r + 1)) \<longrightarrow> even r"
    proof
      assume "2 * (n * 2 ^ k) = d * (fmt_units p r + fmt_units p (r + 1))"
      then have "(2 * n) * 2 ^ k = ((2 * m + 1) * d) * 2 ^ k" using 1 2 e by linarith
      then have "2 * n = (2 * m + 1) * d" by simp
      then show "even r" using R(3) ev by simp
    qed
  qed
  have low: "d * (fmt_units p (r - 1) + fmt_units p r) \<le> 2 * (n * 2 ^ k) \<and>
    (2 * (n * 2 ^ k) = d * (fmt_units p (r - 1) + fmt_units p r) \<longrightarrow> even r)" if r0: "0 < r"
  proof -
    have mpos: "0 < m"
    proof (cases "k = 0")
      case True
      then show ?thesis using r0 by (simp add: r_def)
    next
      case False
      have "(0::int) < 2 ^ p" by simp
      then show ?thesis using m2 False by linarith
    qed
    show ?thesis
    proof (cases "k = 0 \<or> 2 ^ p \<le> m - 1")
      case True
      have "fmt_units p ((m - 1) + int k * 2 ^ p) = (m - 1) * 2 ^ k"
        by (rule fmt_encode(3)) (use True mpos m1 in auto)
      then have u: "fmt_units p (r - 1) = (m - 1) * 2 ^ k" by (simp add: r_def algebra_simps)
      have e: "d * (fmt_units p (r - 1) + fmt_units p r) = ((2 * m - 1) * d) * 2 ^ k"
        unfolding u ur by (simp add: algebra_simps)
      have "((2 * m - 1) * d) * 2 ^ k \<le> (2 * n) * 2 ^ k" by (intro mult_right_mono R(2)) simp
      moreover have "(2 * n) * 2 ^ k = ((2 * m - 1) * d) * 2 ^ k \<longrightarrow> even r"
        using R(4) ev by (simp only: mult_cancel_right) auto
      ultimately show ?thesis unfolding e by simp
    next
      case False
      then have k: "0 < k" and me: "m = 2 ^ p" using m2 by auto
      have "fmt_units p (r - 1) < fmt_units p r" by (rule fmt_units_less) (use r0 in auto)
      then have "d * (fmt_units p (r - 1) + fmt_units p r) < d * (2 * (m * 2 ^ k))" using d ur by simp
      also have "\<dots> = 2 * (2 ^ p * d * 2 ^ k)" using me by simp
      also have "\<dots> \<le> 2 * (n * 2 ^ k)" using mult_right_mono[OF B[OF k], of "2 ^ k"] by simp
      finally show ?thesis by simp
    qed
  qed
  show ?thesis
  proof (cases "r \<le> infty")
    case True
    then have "min infty (m + int k * 2 ^ p) = r" by (simp add: r_def)
    then show ?thesis using True up low m0 unfolding nearest_def m_def[symmetric] by (auto simp: r_def)
  next
    case False
    then have mi: "min infty (m + int k * 2 ^ p) = infty" by (simp add: r_def)
    have "d * (fmt_units p (infty - 1) + fmt_units p infty) < d * (fmt_units p (r - 1) + fmt_units p r)"
      using mid_less[of "infty - 1" "r - 1" p] False i d by simp
    also have "\<dots> \<le> 2 * (n * 2 ^ k)" using low False i by simp
    finally show ?thesis using i unfolding nearest_def m_def[symmetric] mi by auto
  qed
qed

text \<open>Every positive ratio is rounded to its nearest pattern.\<close>

lemma round_to_nearest:
  assumes n: "0 < n" "0 < d" and p: "1 \<le> p" and e: "emin \<le> 0" and i: "even infty" "0 < infty"
  shows "nearest p infty (n * 2 ^ nat (- emin)) d (round_to (int p + 1) emin infty n d)"
proof -
  define l where "l = log2_floor n d"
  define q where "q = max (l - int p) emin"
  define k where "k = nat (q - emin)"
  define n' d' where "n' = n * 2 ^ nat (- q)" and "d' = d * 2 ^ nat q"
  note L = log2_floor_bounds[OF n, folded l_def]
  have d': "0 < d'" "0 \<le> n'" using n by (simp_all add: d'_def n'_def)
  have qk: "int k = q - emin" by (simp add: k_def q_def)
  have A: "n' < 2 * 2 ^ p * d'"
  proof -
    have mono: "\<not> d * 2 ^ nat (l + 1) \<le> n * 2 ^ nat (- (l + 1))" using L(2) by simp
    have ge: "l + 1 \<le> q + int p + 1" by (simp add: q_def)
    have "\<not> d * 2 ^ (nat q + p + 1) \<le> n * 2 ^ nat (- q)"
    proof
      assume a: "d * 2 ^ (nat q + p + 1) \<le> n * 2 ^ nat (- q)"
      define t where "t = nat (q + int p + 1 - (l + 1))"
      have "d * 2 ^ (nat q + p + 1) \<le> n * 2 ^ (nat (- q) + t)"
      proof -
        have "n * 2 ^ nat (- q) \<le> n * 2 ^ (nat (- q) + t)" using n by (intro mult_left_mono power_increasing) auto
        then show ?thesis using a by linarith
      qed
      moreover have "int (nat q + p + 1) - int (nat (- q) + t) = l + 1" using ge by (cases "0 \<le> q") (auto simp: t_def)
      ultimately show False using mono ratio_ge_iff by blast
    qed
    then show ?thesis by (simp add: n'_def d'_def power_add algebra_simps)
  qed
  have B: "2 ^ p * d' \<le> n'" if "0 < k"
  proof -
    have "q = l - int p" using that by (auto simp: q_def k_def)
    then have "d * 2 ^ (nat q + p) \<le> n * 2 ^ nat (- q)"
      using L(1) ratio_ge_iff[of "nat q + p" "nat (- q)" l d n] by simp
    then show ?thesis by (simp add: n'_def d'_def power_add algebra_simps)
  qed
  have r: "round_to (int p + 1) emin infty n d = min infty (round_even n' d' + int k * 2 ^ p)"
    using n qk by (simp add: round_to_def Let_def scale2_eq l_def[symmetric] q_def[symmetric] n'_def d'_def)
  have near: "nearest p infty (n' * 2 ^ k) d' (round_to (int p + 1) emin infty n d)"
    unfolding r by (rule nearest_round_even[OF d' A B p i])
  have "n' * 2 ^ k * d = n * 2 ^ nat (- emin) * d'"
  proof -
    have "nat (- q) + k = nat (- emin) + nat q"
      using qk e by (simp add: k_def q_def)
    then have "(2::int) ^ nat (- q) * 2 ^ k = 2 ^ nat (- emin) * 2 ^ nat q" by (simp only: power_add[symmetric])
    then show ?thesis unfolding n'_def d'_def by (simp add: mult_ac)
  qed
  then show ?thesis using nearest_ratio[OF d'(1) n(2) _ near] by simp
qed

end
