(* ===== verification/Cached_Powers.thy ===== *)
theory Cached_Powers
  imports Ieee
begin

text \<open>The table of powers of ten (\<open>cached-powers.h\<close>, \<open>cached-powers.cc\<close>) and its two look-ups.\<close>

datatype cached_power =
  CachedPower (significand: u64) (binary_exponent: int) (decimal_exponent: int)

definition kCachedPowers :: "cached_power list" where
  "kCachedPowers = [
   CachedPower 0xfa8fd5a0081c0288 (- 1220) (- 348),
   CachedPower 0xbaaee17fa23ebf76 (- 1193) (- 340),
   CachedPower 0x8b16fb203055ac76 (- 1166) (- 332),
   CachedPower 0xcf42894a5dce35ea (- 1140) (- 324),
   CachedPower 0x9a6bb0aa55653b2d (- 1113) (- 316),
   CachedPower 0xe61acf033d1a45df (- 1087) (- 308),
   CachedPower 0xab70fe17c79ac6ca (- 1060) (- 300),
   CachedPower 0xff77b1fcbebcdc4f (- 1034) (- 292),
   CachedPower 0xbe5691ef416bd60c (- 1007) (- 284),
   CachedPower 0x8dd01fad907ffc3c (- 980) (- 276),
   CachedPower 0xd3515c2831559a83 (- 954) (- 268),
   CachedPower 0x9d71ac8fada6c9b5 (- 927) (- 260),
   CachedPower 0xea9c227723ee8bcb (- 901) (- 252),
   CachedPower 0xaecc49914078536d (- 874) (- 244),
   CachedPower 0x823c12795db6ce57 (- 847) (- 236),
   CachedPower 0xc21094364dfb5637 (- 821) (- 228),
   CachedPower 0x9096ea6f3848984f (- 794) (- 220),
   CachedPower 0xd77485cb25823ac7 (- 768) (- 212),
   CachedPower 0xa086cfcd97bf97f4 (- 741) (- 204),
   CachedPower 0xef340a98172aace5 (- 715) (- 196),
   CachedPower 0xb23867fb2a35b28e (- 688) (- 188),
   CachedPower 0x84c8d4dfd2c63f3b (- 661) (- 180),
   CachedPower 0xc5dd44271ad3cdba (- 635) (- 172),
   CachedPower 0x936b9fcebb25c996 (- 608) (- 164),
   CachedPower 0xdbac6c247d62a584 (- 582) (- 156),
   CachedPower 0xa3ab66580d5fdaf6 (- 555) (- 148),
   CachedPower 0xf3e2f893dec3f126 (- 529) (- 140),
   CachedPower 0xb5b5ada8aaff80b8 (- 502) (- 132),
   CachedPower 0x87625f056c7c4a8b (- 475) (- 124),
   CachedPower 0xc9bcff6034c13053 (- 449) (- 116),
   CachedPower 0x964e858c91ba2655 (- 422) (- 108),
   CachedPower 0xdff9772470297ebd (- 396) (- 100),
   CachedPower 0xa6dfbd9fb8e5b88f (- 369) (- 92),
   CachedPower 0xf8a95fcf88747d94 (- 343) (- 84),
   CachedPower 0xb94470938fa89bcf (- 316) (- 76),
   CachedPower 0x8a08f0f8bf0f156b (- 289) (- 68),
   CachedPower 0xcdb02555653131b6 (- 263) (- 60),
   CachedPower 0x993fe2c6d07b7fac (- 236) (- 52),
   CachedPower 0xe45c10c42a2b3b06 (- 210) (- 44),
   CachedPower 0xaa242499697392d3 (- 183) (- 36),
   CachedPower 0xfd87b5f28300ca0e (- 157) (- 28),
   CachedPower 0xbce5086492111aeb (- 130) (- 20),
   CachedPower 0x8cbccc096f5088cc (- 103) (- 12),
   CachedPower 0xd1b71758e219652c (- 77) (- 4),
   CachedPower 0x9c40000000000000 (- 50) 4,
   CachedPower 0xe8d4a51000000000 (- 24) 12,
   CachedPower 0xad78ebc5ac620000 3 20,
   CachedPower 0x813f3978f8940984 30 28,
   CachedPower 0xc097ce7bc90715b3 56 36,
   CachedPower 0x8f7e32ce7bea5c70 83 44,
   CachedPower 0xd5d238a4abe98068 109 52,
   CachedPower 0x9f4f2726179a2245 136 60,
   CachedPower 0xed63a231d4c4fb27 162 68,
   CachedPower 0xb0de65388cc8ada8 189 76,
   CachedPower 0x83c7088e1aab65db 216 84,
   CachedPower 0xc45d1df942711d9a 242 92,
   CachedPower 0x924d692ca61be758 269 100,
   CachedPower 0xda01ee641a708dea 295 108,
   CachedPower 0xa26da3999aef774a 322 116,
   CachedPower 0xf209787bb47d6b85 348 124,
   CachedPower 0xb454e4a179dd1877 375 132,
   CachedPower 0x865b86925b9bc5c2 402 140,
   CachedPower 0xc83553c5c8965d3d 428 148,
   CachedPower 0x952ab45cfa97a0b3 455 156,
   CachedPower 0xde469fbd99a05fe3 481 164,
   CachedPower 0xa59bc234db398c25 508 172,
   CachedPower 0xf6c69a72a3989f5c 534 180,
   CachedPower 0xb7dcbf5354e9bece 561 188,
   CachedPower 0x88fcf317f22241e2 588 196,
   CachedPower 0xcc20ce9bd35c78a5 614 204,
   CachedPower 0x98165af37b2153df 641 212,
   CachedPower 0xe2a0b5dc971f303a 667 220,
   CachedPower 0xa8d9d1535ce3b396 694 228,
   CachedPower 0xfb9b7cd9a4a7443c 720 236,
   CachedPower 0xbb764c4ca7a44410 747 244,
   CachedPower 0x8bab8eefb6409c1a 774 252,
   CachedPower 0xd01fef10a657842c 800 260,
   CachedPower 0x9b10a4e5e9913129 827 268,
   CachedPower 0xe7109bfba19c0c9d 853 276,
   CachedPower 0xac2820d9623bf429 880 284,
   CachedPower 0x80444b5e7aa7cf85 907 292,
   CachedPower 0xbf21e44003acdd2d 933 300,
   CachedPower 0x8e679c2f5e44ff8f 960 308,
   CachedPower 0xd433179d9c8cb841 986 316,
   CachedPower 0x9e19db92b4e31ba9 1013 324,
   CachedPower 0xeb96bf6ebadf77d9 1039 332,
   CachedPower 0xaf87023b9bf0ee6b 1066 340]"

definition kCachedPowersLength :: int where "kCachedPowersLength = int (length kCachedPowers)"
definition kCachedPowersOffset :: int where [simp]: "kCachedPowersOffset = 348"
definition kD_1_LOG2_10 :: double where "kD_1_LOG2_10 = round_double 30102999566398114 (10 ^ 17)"
definition kDecimalExponentDistance :: int where [simp]: "kDecimalExponentDistance = 8"
definition kMinDecimalExponent :: int where [simp]: "kMinDecimalExponent = -348"
definition kMaxDecimalExponent :: int where [simp]: "kMaxDecimalExponent = 340"

text \<open>Both look-ups return the power and the decimal exponent, their two out-parameters.\<close>

definition GetCachedPowerForBinaryExponentRange :: "int \<Rightarrow> int \<Rightarrow> (diyfp \<times> int) option" where
  "GetCachedPowerForBinaryExponentRange min_exponent max_exponent = do {
     let kQ = kDiySignificandSize;
     let k = double_ceil (double_mult (double_of_int (min_exponent + kQ - 1)) kD_1_LOG2_10);
     let foo = kCachedPowersOffset;
     let index = (foo + k - 1) sdiv kDecimalExponentDistance + 1;
     ensure (0 \<le> index \<and> index < kCachedPowersLength);
     cached_power \<leftarrow> rd kCachedPowers index;
     ensure (min_exponent \<le> binary_exponent cached_power);
     ensure (binary_exponent cached_power \<le> max_exponent);
     Some (DiyFp (significand cached_power) (binary_exponent cached_power),
           decimal_exponent cached_power) }"

definition GetCachedPowerForDecimalExponent :: "int \<Rightarrow> (diyfp \<times> int) option" where
  "GetCachedPowerForDecimalExponent requested_exponent = do {
     ensure (kMinDecimalExponent \<le> requested_exponent);
     ensure (requested_exponent < kMaxDecimalExponent + kDecimalExponentDistance);
     let index = (requested_exponent + kCachedPowersOffset) sdiv kDecimalExponentDistance;
     cached_power \<leftarrow> rd kCachedPowers index;
     let power = DiyFp (significand cached_power) (binary_exponent cached_power);
     let found_exponent = decimal_exponent cached_power;
     ensure (found_exponent \<le> requested_exponent);
     ensure (requested_exponent < found_exponent + kDecimalExponentDistance);
     Some (power, found_exponent) }"

end
