(* ===== verification/Double_Arith.thy ===== *)
theory Double_Arith
  imports Rounding Cached_Powers
begin

text \<open>The double operations the code uses, as exact results rounded to the nearest double.\<close>

section \<open>Doubles as numbers\<close>

text \<open>\<open>dunits v\<close>: the value of a finite non-negative double in units of the smallest denormal.\<close>

definition dunits :: "double \<Rightarrow> int" where
  "dunits v = fmt_units 52 (uint v)"

abbreviation INFTY :: int where "INFTY \<equiv> 0x7FF0000000000000"

definition rounds_to :: "int \<Rightarrow> int \<Rightarrow> double \<Rightarrow> bool" where
  "rounds_to N d r \<longleftrightarrow> nearest 52 INFTY N d (uint r)"

lemma rounds_to_unique: "rounds_to N d r \<Longrightarrow> rounds_to N d r' \<Longrightarrow> 0 < d \<Longrightarrow> r = r'"
  unfolding rounds_to_def word_uint_eq_iff by (rule nearest_unique)

lemma rounds_to_ratio:
  "rounds_to N d r \<Longrightarrow> 0 < d \<Longrightarrow> 0 < d' \<Longrightarrow> N * d' = N' * d \<Longrightarrow> rounds_to N' d' r"
  unfolding rounds_to_def using nearest_ratio by blast

lemma fmt_units_0 [simp]: "fmt_units p 0 = 0"
  by (simp add: fmt_units_def fmt_sig_def)

lemma nearest_0: "0 < d \<Longrightarrow> nearest 52 INFTY 0 d 0"
  using nearest_exact[of 0 INFTY d 52] by simp

lemma round_to_range: "nearest p infty N d r \<Longrightarrow> 0 \<le> r \<and> r \<le> infty"
  by (simp add: nearest_def)

lemma round_double_rounds:
  assumes "0 \<le> n" "0 < d"
  shows "rounds_to (n * 2 ^ 1074) d (round_double n d)"
proof (cases "n = 0")
  case True
  then have "round_double n d = 0" by (simp add: round_double_def round_to_def)
  then show ?thesis using True assms nearest_0 by (simp add: rounds_to_def)
next
  case False
  then have near: "nearest 52 INFTY (n * 2 ^ 1074) d (round_to 53 (-1074) INFTY n d)"
    using round_to_nearest[of n d 52 "-1074" INFTY] assms by simp
  note range = round_to_range[OF near]
  have "uint (round_double n d) = round_to 53 (-1074) INFTY n d"
    unfolding round_double_def using range by (simp add: uint_word_of_int_eq take_bit_int_eq_self)
  then show ?thesis using near by (simp add: rounds_to_def)
qed

lemma round_double_unique: "rounds_to (n * 2 ^ 1074) d r \<Longrightarrow> 0 \<le> n \<Longrightarrow> 0 < d \<Longrightarrow> round_double n d = r"
  using rounds_to_unique[OF round_double_rounds] by blast

lemma rounds_to_exact: "finite_double r \<Longrightarrow> 0 < d \<Longrightarrow> rounds_to (d * dunits r) d r"
  unfolding rounds_to_def dunits_def finite_double_def by (rule nearest_exact) simp_all

section \<open>Fractions\<close>

lemma double_frac_finite:
  assumes v: "finite_double v"
  obtains n d where "double_frac v = (n, d)" "0 \<le> n" "0 < d" "n * 2 ^ 1074 = dunits v * d"
proof -
  note F = finite_double_fields[OF v]
  let ?s = "uint (DoubleSignificand v)" and ?e = "DoubleExponent v"
  have f: "double_frac v = (?s * 2 ^ nat ?e, 2 ^ nat (- ?e))"
    by (simp add: double_frac_def F scale2_eq)
  have u: "dunits v = ?s * 2 ^ nat (?e + 1074)" using dbl.units[OF v] by (simp add: dunits_def)
  have "nat ?e + 1074 = nat (?e + 1074) + nat (- ?e)" using F(4) by simp
  then have "?s * 2 ^ nat ?e * 2 ^ 1074 = dunits v * 2 ^ nat (- ?e)"
    unfolding u by (simp only: mult.assoc power_add[symmetric])
  then show ?thesis using that[OF f] by simp
qed

text \<open>A number of at most 53 bits, times a power of two, is a double.\<close>

lemma exact_pattern:
  assumes "0 < s" "s < 2 ^ 53" "k \<le> 2045"
  obtains r :: double where "finite_double r" "dunits r = s * 2 ^ k"
proof -
  define b where "b = nat (bit_len s)"
  have B: "1 \<le> b" "2 ^ (b - 1) \<le> s" "s < 2 ^ b"
    using bit_len_bounds[OF assms(1)] by (auto simp: b_def nat_diff_distrib)
  have b53: "b \<le> 53"
  proof (rule ccontr)
    assume "\<not> b \<le> 53"
    then have "(2::int) ^ 53 \<le> 2 ^ (b - 1)" by (intro power_increasing) auto
    then show False using B assms by linarith
  qed
  define j where "j = min k (53 - b)"
  have j: "j \<le> k" "b + j \<le> 53" using b53 by (auto simp: j_def)
  have lt: "s * 2 ^ j < 2 * 2 ^ 52"
  proof -
    have "s * 2 ^ j < 2 ^ b * 2 ^ j" using B by (intro mult_strict_right_mono) auto
    also have "\<dots> = 2 ^ (b + j)" by (simp only: power_add)
    also have "\<dots> \<le> 2 ^ 53" using j by (intro power_increasing) auto
    finally show ?thesis by simp
  qed
  have ge: "2 ^ 52 \<le> s * 2 ^ j" if "0 < k - j"
  proof -
    have "b + j = 53" using that b53 by (auto simp: j_def)
    then have "(2::int) ^ 52 = 2 ^ (b - 1) * 2 ^ j" using B(1) by (simp flip: power_add)
    also have "\<dots> \<le> s * 2 ^ j" using B by (intro mult_right_mono) auto
    finally show ?thesis .
  qed
  define q where "q = s * 2 ^ j + int (k - j) * 2 ^ 52"
  have u: "fmt_units 52 q = s * 2 ^ j * 2 ^ (k - j)"
    unfolding q_def by (rule fmt_encode(3)) (use lt ge assms in auto)
  have uu: "s * 2 ^ j * 2 ^ (k - j) = s * 2 ^ k"
    using j by (simp only: mult.assoc power_add[symmetric]) simp
  have "int (k - j) \<le> 2045" using assms(3) by simp
  then have "int (k - j) * 2 ^ 52 \<le> 2045 * 2 ^ 52" by (intro mult_right_mono) auto
  then have r: "0 \<le> q" "q < INFTY" using lt assms by (auto simp: q_def)
  then have pu: "uint (word_of_int q :: double) = q" by (simp add: uint_word_of_int_eq take_bit_int_eq_self)
  show ?thesis
    by (rule that[of "word_of_int q"]) (use r pu u uu in \<open>simp_all only: finite_double_def dunits_def\<close>)
qed

section \<open>Operations\<close>

lemma double_of_int_exact:
  assumes "0 \<le> n" "n < 2 ^ 53"
  shows "finite_double (double_of_int n)" "dunits (double_of_int n) = n * 2 ^ 1074"
proof -
  have e: "double_of_int n = round_double n 1" using assms by (simp add: double_of_int_def double_round_signed_def)
  obtain r where r: "finite_double r" "dunits r = n * 2 ^ 1074"
  proof (cases "n = 0")
    case True
    show ?thesis by (rule that[of 0]) (simp_all add: True finite_double_def dunits_def)
  next
    case False
    then show ?thesis using exact_pattern[of n 1074] assms that by auto
  qed
  have "rounds_to (n * 2 ^ 1074) 1 r" using rounds_to_exact[OF r(1), of 1] r(2) by simp
  then have "round_double n 1 = r" by (rule round_double_unique) (use assms in auto)
  then show "finite_double (double_of_int n)" "dunits (double_of_int n) = n * 2 ^ 1074" using e r by simp_all
qed

lemma double_mult_rounds:
  assumes a: "finite_double a" and b: "finite_double b"
  shows "rounds_to (dunits a * dunits b) (2 ^ 1074) (double_mult a b)"
proof -
  obtain n d where A: "double_frac a = (n, d)" "0 \<le> n" "0 < d" "n * 2 ^ 1074 = dunits a * d"
    by (rule double_frac_finite[OF a])
  obtain n' d' where B: "double_frac b = (n', d')" "0 \<le> n'" "0 < d'" "n' * 2 ^ 1074 = dunits b * d'"
    by (rule double_frac_finite[OF b])
  have e: "double_mult a b = round_double (n * n') (d * d')"
    using A B finite_double_fields(1)[OF a] finite_double_fields(1)[OF b] by (simp add: double_mult_def)
  show ?thesis unfolding e
  proof (rule rounds_to_ratio[OF round_double_rounds])
    have "n * n' * 2 ^ 1074 * 2 ^ 1074 = (n * 2 ^ 1074) * (n' * 2 ^ 1074)" by (simp only: mult_ac)
    also have "\<dots> = dunits a * dunits b * (d * d')" unfolding A(4) B(4) by (simp only: mult_ac)
    finally show "n * n' * 2 ^ 1074 * 2 ^ 1074 = dunits a * dunits b * (d * d')" .
  qed (use A B in auto)
qed

lemma double_div_rounds:
  assumes a: "finite_double a" and b: "finite_double b" "0 < dunits b"
  shows "rounds_to (dunits a * 2 ^ 1074) (dunits b) (double_div a b)"
proof -
  obtain n d where A: "double_frac a = (n, d)" "0 \<le> n" "0 < d" "n * 2 ^ 1074 = dunits a * d"
    by (rule double_frac_finite[OF a])
  obtain n' d' where B: "double_frac b = (n', d')" "0 \<le> n'" "0 < d'" "n' * 2 ^ 1074 = dunits b * d'"
    by (rule double_frac_finite[OF b(1)])
  have "n' \<noteq> 0" using B b(2) by auto
  then have n'0: "0 < n'" using B by simp
  have e: "double_div a b = round_double (n * d') (d * n')"
    using A B finite_double_fields(1)[OF a] finite_double_fields(1)[OF b(1)] by (simp add: double_div_def)
  show ?thesis unfolding e
  proof (rule rounds_to_ratio[OF round_double_rounds])
    have "n * d' * 2 ^ 1074 * dunits b = (n * 2 ^ 1074) * (dunits b * d')" by (simp only: mult_ac)
    also have "\<dots> = dunits a * 2 ^ 1074 * (d * n')" unfolding A(4) B(4)[symmetric] by (simp only: mult_ac)
    finally show "n * d' * 2 ^ 1074 * dunits b = dunits a * 2 ^ 1074 * (d * n')" .
  qed (use A B n'0 b in auto)
qed

end
