(* ===== verification/Strtod.thy ===== *)
theory Strtod
  imports Bignum Cached_Powers
begin

text \<open>
  Reading a decimal number \<open>buffer * 10^exponent\<close> (\<open>strtod.cc\<close>): a fast path in double
  arithmetic, a path in 64-bit arithmetic with a tracked error, and an exact comparison.
  A \<open>Vector<const char>\<close> is a list of bytes. The code is modelled as it is compiled with
  \<open>DOUBLE_CONVERSION_CORRECT_DOUBLE_OPERATIONS\<close> (every 64-bit target).
\<close>

definition kMaxExactDoubleIntegerDecimalDigits :: int where [simp]: "kMaxExactDoubleIntegerDecimalDigits = 15"
definition kMaxUint64DecimalDigits :: int where [simp]: "kMaxUint64DecimalDigits = 19"
definition kMaxDecimalPower :: int where [simp]: "kMaxDecimalPower = 309"
definition kMinDecimalPower :: int where [simp]: "kMinDecimalPower = -324"
definition kMaxUint64 :: u64 where "kMaxUint64 = 0xFFFFFFFFFFFFFFFF"

definition exact_powers_of_ten :: "double list" where
  "exact_powers_of_ten =
     map (\<lambda>k. round_double (10 ^ k) 1)
       [0, 1, 2, 3, 4, 5, 6, 7, 8, 9, 10, 11, 12, 13, 14, 15, 16, 17, 18, 19, 20, 21, 22]"

definition kExactPowersOfTenSize :: int where [simp]: "kExactPowersOfTenSize = 23"
definition kMaxSignificantDecimalDigits :: int where [simp]: "kMaxSignificantDecimalDigits = 780"

section \<open>Trimming\<close>

definition SubVector :: "int \<Rightarrow> int \<Rightarrow> 'a list \<Rightarrow> 'a list option" where
  "SubVector lo hi xs = do {
     ensure (hi \<le> int (length xs));
     ensure (lo < hi);
     ensure (0 \<le> lo);
     Some (take (nat (hi - lo)) (drop (nat lo) xs)) }"

definition TrimLeadingZeros :: "u8 list \<Rightarrow> u8 list option" where
  "TrimLeadingZeros buffer = do {
     i \<leftarrow> while_do
       (\<lambda>i. if i < int (length buffer) then do { c \<leftarrow> rd buffer i; Some (\<not> (c \<noteq> ch CHR ''0'')) }
            else Some False)
       (\<lambda>i. Some (i + 1)) 0;
     if i < int (length buffer) then SubVector i (int (length buffer)) buffer else Some [] }"

definition TrimTrailingZeros :: "u8 list \<Rightarrow> u8 list option" where
  "TrimTrailingZeros buffer = do {
     i \<leftarrow> while_do
       (\<lambda>i. if i \<ge> 0 then do { c \<leftarrow> rd buffer i; Some (\<not> (c \<noteq> ch CHR ''0'')) } else Some False)
       (\<lambda>i. Some (i - 1)) (int (length buffer) - 1);
     if i \<ge> 0 then SubVector 0 (i + 1) buffer else Some [] }"

definition CutToMaxSignificantDigits ::
    "u8 list \<Rightarrow> int \<Rightarrow> u8 list \<Rightarrow> (u8 list \<times> int) option" where
  "CutToMaxSignificantDigits buffer exponent significant_buffer = do {
     significant_buffer \<leftarrow> for_up 0 (kMaxSignificantDecimalDigits - 1)
       (\<lambda>i sb. do { c \<leftarrow> rd buffer i; wr sb i c }) significant_buffer;
     last \<leftarrow> rd buffer (int (length buffer) - 1);
     ensure (last \<noteq> ch CHR ''0'');
     significant_buffer \<leftarrow>
       wr significant_buffer (kMaxSignificantDecimalDigits - 1) (ch CHR ''1'');
     Some (significant_buffer, exponent + (int (length buffer) - kMaxSignificantDecimalDigits)) }"

text \<open>Returns the trimmed vector and the updated exponent.\<close>

definition TrimAndCut :: "u8 list \<Rightarrow> int \<Rightarrow> u8 list \<Rightarrow> int \<Rightarrow> (u8 list \<times> int) option" where
  "TrimAndCut buffer exponent buffer_copy_space space_size = do {
     left_trimmed \<leftarrow> TrimLeadingZeros buffer;
     right_trimmed \<leftarrow> TrimTrailingZeros left_trimmed;
     let exponent = exponent + (int (length left_trimmed) - int (length right_trimmed));
     if int (length right_trimmed) > kMaxSignificantDecimalDigits then do {
       ensure (space_size \<ge> kMaxSignificantDecimalDigits);
       (copy, updated_exponent) \<leftarrow>
         CutToMaxSignificantDigits right_trimmed exponent buffer_copy_space;
       Some (take (nat kMaxSignificantDecimalDigits) copy, updated_exponent) }
     else Some (right_trimmed, exponent) }"

section \<open>Reading digits\<close>

text \<open>Returns the number and the count of digits read.\<close>

definition ReadUint64 :: "u8 list \<Rightarrow> (u64 \<times> int) option" where
  "ReadUint64 buffer =
     while_do (\<lambda>(result, i). Some (i < int (length buffer) \<and> result \<le> kMaxUint64 div 10 - 1))
       (\<lambda>(result, i). do {
          c \<leftarrow> rd buffer i;
          let digit = uint c - uint (ch CHR ''0'');
          ensure (0 \<le> digit \<and> digit \<le> 9);
          Some (10 * result + word_of_int digit, i + 1) }) (0, 0)"

text \<open>Returns the number and the count of remaining decimals.\<close>

definition ReadDiyFp :: "u8 list \<Rightarrow> (diyfp \<times> int) option" where
  "ReadDiyFp buffer = do {
     (significand, read_digits) \<leftarrow> ReadUint64 buffer;
     if int (length buffer) = read_digits then Some (DiyFp significand 0, 0)
     else do {
       c \<leftarrow> rd buffer read_digits;
       let significand = (if c \<ge> ch CHR ''5'' then significand + 1 else significand);
       let exponent = 0;
       Some (DiyFp significand exponent, int (length buffer) - read_digits) } }"

section \<open>Fast paths\<close>

text \<open>\<open>Some None\<close> is the return value \<open>false\<close>, which leaves the result alone.\<close>

definition DoubleStrtod :: "u8 list \<Rightarrow> int \<Rightarrow> double option option" where
  "DoubleStrtod trimmed exponent =
     (if int (length trimmed) \<le> kMaxExactDoubleIntegerDecimalDigits then
        (if exponent < 0 \<and> - exponent < kExactPowersOfTenSize then do {
           (n, read_digits) \<leftarrow> ReadUint64 trimmed;
           let result = double_of_int (uint n);
           ensure (read_digits = int (length trimmed));
           p \<leftarrow> rd exact_powers_of_ten (- exponent);
           Some (Some (double_div result p)) }
         else if 0 \<le> exponent \<and> exponent < kExactPowersOfTenSize then do {
           (n, read_digits) \<leftarrow> ReadUint64 trimmed;
           let result = double_of_int (uint n);
           ensure (read_digits = int (length trimmed));
           p \<leftarrow> rd exact_powers_of_ten exponent;
           Some (Some (double_mult result p)) }
         else do {
           let remaining_digits = kMaxExactDoubleIntegerDecimalDigits - int (length trimmed);
           if 0 \<le> exponent \<and> exponent - remaining_digits < kExactPowersOfTenSize then do {
             (n, read_digits) \<leftarrow> ReadUint64 trimmed;
             let result = double_of_int (uint n);
             ensure (read_digits = int (length trimmed));
             p \<leftarrow> rd exact_powers_of_ten remaining_digits;
             let result = double_mult result p;
             q \<leftarrow> rd exact_powers_of_ten (exponent - remaining_digits);
             Some (Some (double_mult result q)) }
           else Some None })
      else Some None)"

definition AdjustmentPowerOfTen :: "int \<Rightarrow> diyfp option" where
  "AdjustmentPowerOfTen exponent = do {
     ensure (0 < exponent);
     ensure (exponent < kDecimalExponentDistance);
     ensure (kDecimalExponentDistance = 8);
     if exponent = 1 then Some (DiyFp 0xa000000000000000 (-60))
     else if exponent = 2 then Some (DiyFp 0xc800000000000000 (-57))
     else if exponent = 3 then Some (DiyFp 0xfa00000000000000 (-54))
     else if exponent = 4 then Some (DiyFp 0x9c40000000000000 (-50))
     else if exponent = 5 then Some (DiyFp 0xc350000000000000 (-47))
     else if exponent = 6 then Some (DiyFp 0xf424000000000000 (-44))
     else if exponent = 7 then Some (DiyFp 0x9896800000000000 (-40))
     else None }"

text \<open>Returns the answer and the double.\<close>

definition DiyFpStrtod :: "u8 list \<Rightarrow> int \<Rightarrow> (bool \<times> double) option" where
  "DiyFpStrtod buffer exponent = do {
     (input, remaining_decimals) \<leftarrow> ReadDiyFp buffer;
     let kDenominatorLog = (3 :: int);
     let kDenominator = (8 :: u64);
     let exponent = exponent + remaining_decimals;
     let error = (if remaining_decimals = 0 then 0 else kDenominator div 2);
     let old_e = fp_e input;
     input \<leftarrow> Normalize input;
     error \<leftarrow> shl64 error (old_e - fp_e input);
     ensure (exponent \<le> kMaxDecimalExponent);
     if exponent < kMinDecimalExponent then Some (True, 0)
     else do {
       (cached_power, cached_decimal_exponent) \<leftarrow> GetCachedPowerForDecimalExponent exponent;
       (input, error) \<leftarrow>
         (if cached_decimal_exponent \<noteq> exponent then do {
            let adjustment_exponent = exponent - cached_decimal_exponent;
            adjustment_power \<leftarrow> AdjustmentPowerOfTen adjustment_exponent;
            let input = Multiply adjustment_power input;
            if kMaxUint64DecimalDigits - int (length buffer) \<ge> adjustment_exponent then do {
              ensure (kDiySignificandSize = 64);
              Some (input, error) }
            else Some (input, error + kDenominator div 2) }
          else Some (input, error));
       let input = Multiply cached_power input;
       let error_b = kDenominator div 2;
       let error_ab = (if error = 0 then 0 else 1);
       let fixed_error = kDenominator div 2;
       let error = error + (error_b + error_ab + fixed_error);
       let old_e = fp_e input;
       input \<leftarrow> Normalize input;
       error \<leftarrow> shl64 error (old_e - fp_e input);
       let order_of_magnitude = kDiySignificandSize + fp_e input;
       let effective_significand_size = SignificandSizeForOrderOfMagnitude order_of_magnitude;
       let precision_digits_count = kDiySignificandSize - effective_significand_size;
       (input, error, precision_digits_count) \<leftarrow>
         (if precision_digits_count + kDenominatorLog \<ge> kDiySignificandSize then do {
            let shift_amount = precision_digits_count + kDenominatorLog - kDiySignificandSize + 1;
            f \<leftarrow> shr64 (fp_f input) shift_amount;
            e \<leftarrow> shr64 error shift_amount;
            Some (DiyFp f (fp_e input + shift_amount), e + 1 + kDenominator,
                  precision_digits_count - shift_amount) }
          else Some (input, error, precision_digits_count));
       ensure (kDiySignificandSize = 64);
       ensure (precision_digits_count < 64);
       let one64 = (1 :: u64);
       bit \<leftarrow> shl64 one64 precision_digits_count;
       let precision_bits_mask = bit - 1;
       let precision_bits = fp_f input AND precision_bits_mask;
       half_way \<leftarrow> shl64 one64 (precision_digits_count - 1);
       let precision_bits = precision_bits * kDenominator;
       let half_way = half_way * kDenominator;
       f \<leftarrow> shr64 (fp_f input) precision_digits_count;
       let rounded_input = DiyFp f (fp_e input + precision_digits_count);
       let rounded_input =
         (if precision_bits \<ge> half_way + error
          then DiyFp (fp_f rounded_input + 1) (fp_e rounded_input) else rounded_input);
       result \<leftarrow> DiyFpToUint64 rounded_input;
       if half_way - error < precision_bits \<and> precision_bits < half_way + error
       then Some (False, result)
       else Some (True, result) } }"

section \<open>Exact comparison\<close>

definition CompareBufferWithDiyFp :: "u8 list \<Rightarrow> int \<Rightarrow> diyfp \<Rightarrow> int option" where
  "CompareBufferWithDiyFp buffer exponent diy_fp = do {
     ensure (int (length buffer) + exponent \<le> kMaxDecimalPower + 1);
     ensure (int (length buffer) + exponent > kMinDecimalPower);
     ensure (int (length buffer) \<le> kMaxSignificantDecimalDigits);
     ensure ((kMaxDecimalPower + 1) * 333 sdiv 100 < kMaxSignificantBits);
     buffer_bignum \<leftarrow> AssignDecimalString buffer Bignum0;
     diy_fp_bignum \<leftarrow> AssignUInt64 (fp_f diy_fp) Bignum0;
     (buffer_bignum, diy_fp_bignum) \<leftarrow>
       (if exponent \<ge> 0 then do {
          buffer_bignum \<leftarrow> MultiplyByPowerOfTen exponent buffer_bignum;
          Some (buffer_bignum, diy_fp_bignum) }
        else do {
          diy_fp_bignum \<leftarrow> MultiplyByPowerOfTen (- exponent) diy_fp_bignum;
          Some (buffer_bignum, diy_fp_bignum) });
     (buffer_bignum, diy_fp_bignum) \<leftarrow>
       (if fp_e diy_fp > 0 then do {
          diy_fp_bignum \<leftarrow> ShiftLeft (fp_e diy_fp) diy_fp_bignum;
          Some (buffer_bignum, diy_fp_bignum) }
        else do {
          buffer_bignum \<leftarrow> ShiftLeft (- fp_e diy_fp) buffer_bignum;
          Some (buffer_bignum, diy_fp_bignum) });
     Compare buffer_bignum diy_fp_bignum }"

text \<open>Returns the answer and the guess.\<close>

definition ComputeGuess :: "u8 list \<Rightarrow> int \<Rightarrow> (bool \<times> double) option" where
  "ComputeGuess trimmed exponent =
     (if length trimmed = 0 then Some (True, 0)
      else if exponent + int (length trimmed) - 1 \<ge> kMaxDecimalPower then Some (True, kDoubleInfinity)
      else if exponent + int (length trimmed) \<le> kMinDecimalPower then Some (True, 0)
      else do {
        r \<leftarrow> DoubleStrtod trimmed exponent;
        case r of
          Some guess \<Rightarrow> Some (True, guess)
        | None \<Rightarrow> do {
            (correct, guess) \<leftarrow> DiyFpStrtod trimmed exponent;
            if correct then Some (True, guess)
            else if double_eq guess kDoubleInfinity then Some (True, guess)
            else Some (False, guess) } })"

section \<open>Strtod and Strtof\<close>

text \<open>The copy buffer is a local array; it is written before it is read.\<close>

definition copy_buffer :: "u8 list" where
  "copy_buffer = replicate (nat kMaxSignificantDecimalDigits) 0"

definition Strtod :: "u8 list \<Rightarrow> int \<Rightarrow> double option" where
  "Strtod buffer exponent = do {
     (trimmed, exponent) \<leftarrow> TrimAndCut buffer exponent copy_buffer kMaxSignificantDecimalDigits;
     (is_correct, guess) \<leftarrow> ComputeGuess trimmed exponent;
     if is_correct then Some guess
     else do {
       upper_boundary \<leftarrow> DoubleUpperBoundary guess;
       comparison \<leftarrow> CompareBufferWithDiyFp trimmed exponent upper_boundary;
       if comparison < 0 then Some guess
       else if comparison > 0 then Some (NextDouble guess)
       else if DoubleSignificand guess AND 1 = 0 then Some guess
       else Some (NextDouble guess) } }"

definition float_le :: "float \<Rightarrow> float \<Rightarrow> bool" where
  "float_le a b \<longleftrightarrow> float_less a b \<or> float_eq a b"

definition Strtof :: "u8 list \<Rightarrow> int \<Rightarrow> float option" where
  "Strtof buffer exponent = do {
     (trimmed, exponent) \<leftarrow> TrimAndCut buffer exponent copy_buffer kMaxSignificantDecimalDigits;
     (is_correct, double_guess) \<leftarrow> ComputeGuess trimmed exponent;
     let float_guess = float_of_double double_guess;
     if double_eq (double_of_float float_guess) double_guess then Some float_guess
     else do {
       let double_next = NextDouble double_guess;
       let double_previous = PreviousDouble double_guess;
       let f1 = float_of_double double_previous;
       let f2 = float_guess;
       let f3 = float_of_double double_next;
       let f4 = (if is_correct then f3 else float_of_double (NextDouble double_next));
       ensure (float_le f1 f2 \<and> float_le f2 f3 \<and> float_le f3 f4);
       if float_eq f1 f4 then Some float_guess
       else do {
         ensure ((\<not> float_eq f1 f2 \<and> float_eq f2 f3 \<and> float_eq f3 f4) \<or>
                 (float_eq f1 f2 \<and> \<not> float_eq f2 f3 \<and> float_eq f3 f4) \<or>
                 (float_eq f1 f2 \<and> float_eq f2 f3 \<and> \<not> float_eq f3 f4));
         let guess = f1;
         let next = f4;
         upper_boundary \<leftarrow>
           (if float_eq guess 0 then do {
              let min_float = round_float 1 (10 ^ 45);
              DoubleAsDiyFp (double_div (double_of_float min_float) (double_of_int 2)) }
            else SingleUpperBoundary guess);
         comparison \<leftarrow> CompareBufferWithDiyFp trimmed exponent upper_boundary;
         if comparison < 0 then Some guess
         else if comparison > 0 then Some next
         else if SingleSignificand guess AND 1 = 0 then Some guess
         else Some next } } }"

end
