(* ===== verification/Strtod_Fast.thy ===== *)
theory Strtod_Fast
  imports Double_Arith Strtod Digits
begin

text \<open>The decimal number as a specification, the digit reader, and the fast path of \<open>strtod.cc\<close>: it rounds once, so it is exact.\<close>

section \<open>The specification\<close>

text \<open>The double nearest to \<open>m * 10 ^ e\<close>.\<close>

definition decimal_double :: "int \<Rightarrow> int \<Rightarrow> double" where
  "decimal_double m e = round_double (m * 10 ^ nat e) (10 ^ nat (- e))"

lemma decimal_double_rounds: "0 \<le> m \<Longrightarrow> rounds_to (m * 10 ^ nat e * 2 ^ 1074) (10 ^ nat (- e)) (decimal_double m e)"
  unfolding decimal_double_def by (rule round_double_rounds) simp_all

lemma decimal_double_unique:
  "rounds_to N d r \<Longrightarrow> 0 < d \<Longrightarrow> 0 \<le> m \<Longrightarrow> N * 10 ^ nat (- e) = m * 10 ^ nat e * 2 ^ 1074 * d \<Longrightarrow>
   r = decimal_double m e"
  by (rule rounds_to_unique[of "m * 10 ^ nat e * 2 ^ 1074" "10 ^ nat (- e)"])
    (auto intro: rounds_to_ratio decimal_double_rounds)

section \<open>Reading digits\<close>

lemma ok_ReadUint64:
  assumes d: "digits cs"
    and Q: "\<And>r k. k \<le> length cs \<Longrightarrow> uint r = dec_val (take k cs) \<Longrightarrow>
      k = length cs \<or> 1844674407370955160 < uint r \<Longrightarrow> uint r \<le> 18446744073709551609 \<Longrightarrow> Q (r, int k)"
  shows "ok (ReadUint64 cs) Q"
  unfolding ReadUint64_def
proof (rule ok_while_do[where P = "\<lambda>(r, i). uint r \<le> 18446744073709551609 \<and> (\<exists>k. i = int k \<and> k \<le> length cs \<and> uint r = dec_val (take k cs))"
      and m = "\<lambda>(r, i). nat (int (length cs) - i)"], goal_cases)
  case 1
  then show ?case by simp
next
  case (2 s)
  obtain r i where s: "s = (r, i)" by (cases s)
  obtain k where k: "i = int k" "k \<le> length cs" "uint r = dec_val (take k cs)" "uint r \<le> 18446744073709551609"
    using 2 s by auto
  have g: "(r \<le> kMaxUint64 div 10 - 1) = (uint r \<le> 1844674407370955160)"
    by (simp add: kMaxUint64_def word_le_def)
  show ?case
  proof (cases "k < length cs \<and> uint r \<le> 1844674407370955160")
    case False
    then show ?thesis using s k g Q[of k r] by auto
  next
    case True
    let ?d = "digit_of (cs ! k)"
    have dg: "0 \<le> ?d" "?d \<le> 9" using digits_nth[OF d] True by auto
    have wd: "uint (word_of_int ?d :: u64) = ?d" using dg by (simp add: uint_word_of_int_eq take_bit_int_eq_self)
    have m10: "uint (10 * r) = 10 * uint r" by (subst uint_mult_exact) (use True in simp_all)
    have e: "uint (10 * r + word_of_int ?d) = 10 * uint r + ?d"
      by (subst uint_add_exact) (use True dg in \<open>simp_all only: m10 wd, simp\<close>)
    then have le: "uint (10 * r + word_of_int ?d) \<le> 18446744073709551609" using True dg by simp
    from e have "uint (10 * r + word_of_int ?d) = dec_val (take (Suc k) cs)"
      using k True by (simp add: dec_val_take_Suc)
    then show ?thesis using s k g True dg le by (auto simp: wp digit_of_def intro!: exI[of _ "Suc k"])
  qed
qed

lemma ok_ReadUint64_all:
  assumes d: "digits cs" and l: "length cs \<le> 19" and Q: "\<And>r. uint r = dec_val cs \<Longrightarrow> Q (r, int (length cs))"
  shows "ok (ReadUint64 cs) Q"
proof (rule ok_ReadUint64[OF d])
  fix r :: u64 and k
  assume k: "k \<le> length cs" "uint r = dec_val (take k cs)" "k = length cs \<or> 1844674407370955160 < uint r"
  have "k = length cs"
  proof (rule ccontr)
    assume n: "k \<noteq> length cs"
    have "dec_val (take k cs) < 10 ^ length (take k cs)" using dec_val_bounds[of "take k cs"] d by simp
    also have "(10::int) ^ length (take k cs) \<le> 10 ^ 18" by (rule power_increasing) (use k n l in auto)
    finally show False using k n by simp
  qed
  then show "Q (r, int k)" using k Q by simp
qed

section \<open>Exact powers of ten\<close>

lemma exact_power:
  assumes "k \<le> 22"
  shows "finite_double (round_double (10 ^ k) 1)" "dunits (round_double (10 ^ k) 1) = 10 ^ k * 2 ^ 1074"
proof -
  have "(5::int) ^ k \<le> 5 ^ 22" using assms by (intro power_increasing) auto
  then have lt: "(5::int) ^ k < 2 ^ 53" by simp
  obtain r where r: "finite_double r" "dunits r = 5 ^ k * 2 ^ (k + 1074)"
    by (rule exact_pattern[of "5 ^ k" "k + 1074"]) (use lt assms in auto)
  have e: "(5::int) ^ k * 2 ^ (k + 1074) = 10 ^ k * 2 ^ 1074"
  proof -
    have "(5::int) ^ k * 2 ^ (k + 1074) = (5 ^ k * 2 ^ k) * 2 ^ 1074" by (simp only: power_add mult.assoc)
    also have "(5::int) ^ k * 2 ^ k = 10 ^ k" by (simp flip: power_mult_distrib)
    finally show ?thesis .
  qed
  have "rounds_to (10 ^ k * 2 ^ 1074) 1 r" using rounds_to_exact[OF r(1), of 1] r(2) e by simp
  then have "round_double (10 ^ k) 1 = r" by (rule round_double_unique) auto
  then show "finite_double (round_double (10 ^ k) 1)" "dunits (round_double (10 ^ k) 1) = 10 ^ k * 2 ^ 1074"
    using r e by simp_all
qed

lemma exact_powers_nth:
  assumes "k < 23" shows "exact_powers_of_ten ! k = round_double (10 ^ k) 1"
proof -
  have e: "exact_powers_of_ten = map (\<lambda>k. round_double (10 ^ k) 1) [0..<23]"
    by (simp add: exact_powers_of_ten_def upt_rec)
  have l: "k < length [0..<23]" using assms by (simp only: length_upt)
  have "[0..<23] ! k = k" using nth_upt[of 0 k 23] assms by (simp only: add_0)
  then show ?thesis unfolding e nth_map[OF l] by (simp only:)
qed

lemma length_exact_powers [simp]: "length exact_powers_of_ten = 23"
  by (simp add: exact_powers_of_ten_def)

lemma dec_val_15: "digits cs \<Longrightarrow> length cs \<le> 15 \<Longrightarrow> 0 \<le> dec_val cs \<and> dec_val cs < 2 ^ 53"
proof -
  assume a: "digits cs" "length cs \<le> 15"
  have "(10::int) ^ length cs \<le> 10 ^ 15" using a by (intro power_increasing) auto
  then show ?thesis using dec_val_bounds[OF a(1)] by simp
qed

text \<open>The fast path rounds once, so what it returns is the nearest double.\<close>

lemma ok_DoubleStrtod:
  assumes d: "digits cs"
    and Q: "\<And>r. (\<And>v. r = Some v \<Longrightarrow> v = decimal_double (dec_val cs) e) \<Longrightarrow> Q r"
  shows "ok (DoubleStrtod cs e) Q"
proof (cases "length cs \<le> 15")
  case False
  then show ?thesis using Q[of None] by (simp add: DoubleStrtod_def)
next
  case len: True
  have L: "length cs \<le> 19" using len by simp
  let ?m = "dec_val cs"
  let ?r = "double_of_int ?m"
  note b = dec_val_15[OF d len]
  have m0: "0 \<le> ?m" "?m < 2 ^ 53" using b by auto
  note E = double_of_int_exact[OF m0]
  have div_case: "double_div ?r (round_double (10 ^ nat (- e)) 1) = decimal_double ?m e" if "e < 0" "- e < 23"
  proof -
    have k: "nat (- e) \<le> 22" "nat e = 0" using that by auto
    note P = exact_power[OF k(1)]
    show ?thesis
      by (rule decimal_double_unique[OF double_div_rounds[OF E(1) P(1)]]) (use P E m0 k in \<open>simp_all add: mult_ac\<close>)
  qed
  have mul_case: "double_mult x (round_double (10 ^ k) 1) = decimal_double ?m e"
    if "finite_double x" "dunits x = ?m * 10 ^ j * 2 ^ 1074" "k \<le> 22" "e = int (j + k)" for x j k
  proof -
    note P = exact_power[OF that(3)]
    have n: "nat e = j + k" "nat (- e) = 0" using that(4) by simp_all
    show ?thesis
      by (rule decimal_double_unique[OF double_mult_rounds[OF that(1) P(1)]])
        (use P that m0 n in \<open>simp_all add: power_add mult_ac\<close>)
  qed
  have step: "finite_double (double_mult ?r (round_double (10 ^ j) 1))"
    "dunits (double_mult ?r (round_double (10 ^ j) 1)) = ?m * 10 ^ j * 2 ^ 1074" if j: "j = 15 - length cs" for j
  proof -
    have j22: "j \<le> 22" using j by simp
    note P = exact_power[OF j22]
    have "?m < 10 ^ length cs" using dec_val_bounds[OF d] by simp
    then have "?m * 10 ^ j < 10 ^ length cs * 10 ^ j" by (intro mult_strict_right_mono) auto
    also have "\<dots> = 10 ^ 15" using j len by (simp flip: power_add)
    finally have lt: "?m * 10 ^ j < 2 ^ 53" by simp
    have ge: "0 \<le> ?m * 10 ^ j" using m0 by simp
    note X = double_of_int_exact[OF ge lt]
    have "rounds_to (dunits ?r * dunits (round_double (10 ^ j) 1)) (2 ^ 1074) (double_of_int (?m * 10 ^ j))"
      using rounds_to_exact[OF X(1), of "2 ^ 1074"] X(2) P(2) E(2) by (simp add: mult_ac)
    then have "double_mult ?r (round_double (10 ^ j) 1) = double_of_int (?m * 10 ^ j)"
      using rounds_to_unique[OF double_mult_rounds[OF E(1) P(1)]] by simp
    then show "finite_double (double_mult ?r (round_double (10 ^ j) 1))"
      "dunits (double_mult ?r (round_double (10 ^ j) 1)) = ?m * 10 ^ j * 2 ^ 1074" using X by simp_all
  qed
  consider (neg) "e < 0" "- e < 23" | (pos) "0 \<le> e" "e < 23" | (mid) "23 \<le> e" "e - (15 - int (length cs)) < 23"
    | (none) "\<not> (e < 0 \<and> - e < 23)" "\<not> (0 \<le> e \<and> e - (15 - int (length cs)) < 23)" "\<not> (0 \<le> e \<and> e < 23)"
    by linarith
  then show ?thesis
  proof cases
    case neg
    then show ?thesis using len div_case[OF neg]
      by (auto simp: DoubleStrtod_def wp exact_powers_nth intro!: ok_ReadUint64_all[OF d L] Q)
  next
    case pos
    have "double_mult ?r (round_double (10 ^ nat e) 1) = decimal_double ?m e"
      by (rule mul_case[of _ 0]) (use pos E in auto)
    then show ?thesis using len pos
      by (auto simp: DoubleStrtod_def wp exact_powers_nth intro!: ok_ReadUint64_all[OF d L] Q)
  next
    case mid
    define j where "j = 15 - length cs"
    have jn: "nat (15 - int (length cs)) = j" using len by (simp add: j_def)
    have "double_mult (double_mult ?r (round_double (10 ^ j) 1)) (round_double (10 ^ nat (e - (15 - int (length cs)))) 1)
        = decimal_double ?m e"
      by (rule mul_case[OF step[OF j_def]]) (use mid len in \<open>auto simp: j_def\<close>)
    then show ?thesis using len mid jn
      by (auto simp: DoubleStrtod_def wp exact_powers_nth j_def Let_def intro!: ok_ReadUint64_all[OF d L] Q)
  next
    case none
    then show ?thesis using len Q[of None] by (auto simp: DoubleStrtod_def)
  qed
qed

end
