(* ===== verification/Cached_Powers_Value.thy ===== *)
theory Cached_Powers_Value
  imports Double_Arith
begin

text \<open>Every entry of the table of powers of ten is the nearest 64-bit significand; the decimal look-up.\<close>

section \<open>The table\<close>

text \<open>
  An entry is the 64-bit significand nearest to its power of ten: it is normalised and off by at
  most half a unit. The denominators are cleared: \<open>10 ^ d / 2 ^ b = 5 ^ d * 2 ^ (d - b)\<close>.
\<close>

definition near_power :: "int \<Rightarrow> int \<Rightarrow> int \<Rightarrow> bool" where
  "near_power s b d \<longleftrightarrow> 9223372036854775808 \<le> s \<and>
     (2 * s - 1) * (5 ^ nat (- d) * 2 ^ nat (b - d)) \<le> 2 * (5 ^ nat d * 2 ^ nat (d - b)) \<and>
     2 * (5 ^ nat d * 2 ^ nat (d - b)) \<le> (2 * s + 1) * (5 ^ nat (- d) * 2 ^ nat (b - d))"

definition power_ok :: "cached_power \<Rightarrow> bool" where
  "power_ok c \<longleftrightarrow> near_power (uint (significand c)) (binary_exponent c) (decimal_exponent c)"

text \<open>
  The table is checked from the middle outwards with an enclosure
  \<open>L * 2 ^ t \<le> 5 ^ k * 2 ^ 90 \<le> U * 2 ^ t\<close> of the power of five, which is wide enough in its 100
  bits for every entry and moves from \<open>k\<close> to \<open>k + 8\<close> by one multiplication by \<open>5 ^ 8\<close>.
\<close>

definition encloses :: "int \<Rightarrow> int \<Rightarrow> nat \<Rightarrow> int \<Rightarrow> bool" where
  "encloses L U t k \<longleftrightarrow> 0 \<le> L \<and> L * 2 ^ t \<le> 5 ^ nat k * 2 ^ 90 \<and> 5 ^ nat k * 2 ^ 90 \<le> U * 2 ^ t"

lemma encloses_step:
  assumes e: "encloses L U t k" and k: "0 \<le> k"
  shows "encloses (L * 390625 div 524288) (U * 390625 div 524288 + 1) (t + 19) (k + 8)"
proof -
  let ?P = "5 ^ nat k * 2 ^ 90 :: int"
  have p: "5 ^ nat (k + 8) * 2 ^ 90 = ?P * 390625" using k by (simp add: nat_add_distrib power_add)
  have E: "0 \<le> L" "L * 2 ^ t \<le> ?P" "?P \<le> U * 2 ^ t" using e by (simp_all only: encloses_def)
  have "L * 390625 div 524288 * 2 ^ (t + 19) = (L * 390625 div 524288 * 524288) * 2 ^ t"
    by (simp add: power_add)
  also have "\<dots> \<le> L * 390625 * 2 ^ t"
  proof (rule mult_right_mono)
    show "L * 390625 div 524288 * 524288 \<le> L * 390625"
      using div_mult_mod_eq[of "L * 390625" 524288] pos_mod_sign[of 524288 "L * 390625"] by linarith
  qed simp
  also have "\<dots> = L * 2 ^ t * 390625" by (simp only: mult_ac)
  also have "\<dots> \<le> ?P * 390625" using E(2) by (intro mult_right_mono) auto
  finally have lo: "L * 390625 div 524288 * 2 ^ (t + 19) \<le> ?P * 390625" .
  have "?P * 390625 \<le> U * 2 ^ t * 390625" using E(3) by (intro mult_right_mono) auto
  also have "\<dots> = U * 390625 * 2 ^ t" by (simp only: mult_ac)
  also have "\<dots> \<le> ((U * 390625 div 524288 + 1) * 524288) * 2 ^ t"
  proof (rule mult_right_mono)
    show "U * 390625 \<le> (U * 390625 div 524288 + 1) * 524288"
      using div_mult_mod_eq[of "U * 390625" 524288] pos_mod_bound[of 524288 "U * 390625"] by (simp add: distrib_right)
  qed simp
  also have "\<dots> = (U * 390625 div 524288 + 1) * 2 ^ (t + 19)" by (simp add: power_add)
  finally have hi: "?P * 390625 \<le> (U * 390625 div 524288 + 1) * 2 ^ (t + 19)" .
  show ?thesis using lo hi E(1) unfolding encloses_def p by (simp add: pos_imp_zdiv_nonneg_iff)
qed

fun check_lo :: "int \<Rightarrow> int \<Rightarrow> int \<Rightarrow> nat \<Rightarrow> cached_power list \<Rightarrow> bool" where
  "check_lo k L U t [] \<longleftrightarrow> True"
| "check_lo k L U t (CachedPower s b d # cs) \<longleftrightarrow>
     d = - k \<and> 9223372036854775808 \<le> uint s \<and> b + k \<le> 0 \<and> int t \<le> 91 - k - b \<and>
     (2 * uint s - 1) * U \<le> 2 ^ nat (91 - k - b - int t) \<and>
     2 ^ nat (91 - k - b - int t) \<le> (2 * uint s + 1) * L \<and>
     check_lo (k + 8) (L * 390625 div 524288) (U * 390625 div 524288 + 1) (t + 19) cs"

fun check_hi :: "int \<Rightarrow> int \<Rightarrow> int \<Rightarrow> nat \<Rightarrow> cached_power list \<Rightarrow> bool" where
  "check_hi k L U t [] \<longleftrightarrow> True"
| "check_hi k L U t (CachedPower s b d # cs) \<longleftrightarrow>
     d = k \<and> 9223372036854775808 \<le> uint s \<and>
     (2 * uint s - 1) * 2 ^ nat (b - k + 89 - int t) \<le> L * 2 ^ nat (int t - (b - k + 89)) \<and>
     U * 2 ^ nat (int t - (b - k + 89)) \<le> (2 * uint s + 1) * 2 ^ nat (b - k + 89 - int t) \<and>
     check_hi (k + 8) (L * 390625 div 524288) (U * 390625 div 524288 + 1) (t + 19) cs"

lemma check_lo_sound:
  "check_lo k L U t cs \<Longrightarrow> encloses L U t k \<Longrightarrow> 0 \<le> k \<Longrightarrow> list_all power_ok cs"
proof (induction k L U t cs rule: check_lo.induct)
  case (2 k L U t s b d cs)
  note C = 2(2)[unfolded check_lo.simps]
  have "list_all power_ok cs" using 2(1) C encloses_step[OF 2(3,4)] 2(4) by simp
  moreover have "power_ok (CachedPower s b d)"
  proof -
    let ?s = "uint s" and ?P = "5 ^ nat k :: int" and ?e = "nat (91 - k - b - int t)"
    have E: "0 \<le> L" "L * 2 ^ t \<le> ?P * 2 ^ 90" "?P * 2 ^ 90 \<le> U * 2 ^ t"
      using 2(3) by (simp_all only: encloses_def)
    have c: "9223372036854775808 \<le> ?s" "(2 * ?s - 1) * U \<le> 2 ^ ?e" "2 ^ ?e \<le> (2 * ?s + 1) * L" "d = - k" "b + k \<le> 0"
      using C by blast+
    have "int t \<le> 91 - k - b" using C by blast
    then have "?e + t = nat (- k - b) + 1 + 90" using c(5) by linarith
    then have e: "(2::int) ^ ?e * 2 ^ t = 2 * 2 ^ nat (- k - b) * 2 ^ 90" by (simp only: power_add[symmetric]) (simp add: power_add)
    have "(2 * ?s - 1) * ?P * 2 ^ 90 = (2 * ?s - 1) * (?P * 2 ^ 90)" by (simp only: mult.assoc)
    also have "\<dots> \<le> (2 * ?s - 1) * (U * 2 ^ t)" by (rule mult_left_mono[OF E(3)]) (use c in simp)
    also have "\<dots> \<le> 2 ^ ?e * 2 ^ t" using mult_right_mono[OF c(2), of "2 ^ t"] by (simp only: mult.assoc) simp
    finally have lo: "(2 * ?s - 1) * ?P \<le> 2 * 2 ^ nat (- k - b)" unfolding e by (rule mult_right_le_imp_le) simp
    have "2 ^ ?e * 2 ^ t \<le> (2 * ?s + 1) * (L * 2 ^ t)" using mult_right_mono[OF c(3), of "2 ^ t"] by (simp only: mult.assoc) simp
    also have "\<dots> \<le> (2 * ?s + 1) * (?P * 2 ^ 90)" by (rule mult_left_mono[OF E(2)]) simp
    also have "\<dots> = (2 * ?s + 1) * ?P * 2 ^ 90" by (simp only: mult.assoc)
    finally have hi: "2 * 2 ^ nat (- k - b) \<le> (2 * ?s + 1) * ?P" unfolding e by (rule mult_right_le_imp_le) simp
    have "nat (b + k) = 0" "nat (- k) = 0" using c(5) 2(4) by simp_all
    then show ?thesis using lo hi c by (simp add: power_ok_def near_power_def)
  qed
  ultimately show ?case by simp
qed simp

lemma check_hi_sound:
  "check_hi k L U t cs \<Longrightarrow> encloses L U t k \<Longrightarrow> 0 \<le> k \<Longrightarrow> list_all power_ok cs"
proof (induction k L U t cs rule: check_hi.induct)
  case (2 k L U t s b d cs)
  note C = 2(2)[unfolded check_hi.simps]
  have "list_all power_ok cs" using 2(1) C encloses_step[OF 2(3,4)] 2(4) by simp
  moreover have "power_ok (CachedPower s b d)"
  proof -
    let ?s = "uint s" and ?P = "5 ^ nat k :: int" and ?j = "b - k + 89 - int t"
    let ?A = "nat (b - k) + 90" and ?B = "nat (k - b) + 1 + t"
    have E: "0 \<le> L" "L * 2 ^ t \<le> ?P * 2 ^ 90" "?P * 2 ^ 90 \<le> U * 2 ^ t"
      using 2(3) by (simp_all only: encloses_def)
    have m: "int t - (b - k + 89) = - ?j" by simp
    have c: "9223372036854775808 \<le> ?s" "(2 * ?s - 1) * 2 ^ nat ?j \<le> L * 2 ^ nat (- ?j)"
      "U * 2 ^ nat (- ?j) \<le> (2 * ?s + 1) * 2 ^ nat ?j" "d = k"
      using C unfolding m by blast+
    have AB: "int ?A - int ?B = ?j" "int ?B - int ?A = - ?j" by simp_all
    have c2: "(2 * ?s - 1) * 2 ^ ?A \<le> L * 2 ^ ?B" using c(2) ratio_ge_iff[OF AB(1)] by blast
    have c3: "U * 2 ^ ?B \<le> (2 * ?s + 1) * 2 ^ ?A" using c(3) ratio_ge_iff[OF AB(2), of U "2 * ?s + 1"] by simp
    have "((2 * ?s - 1) * 2 ^ nat (b - k)) * 2 ^ 90 \<le> (L * 2 ^ t) * (2 * 2 ^ nat (k - b))"
      using c2 by (simp only: power_add mult_ac power_one_right)
    also have "\<dots> \<le> (?P * 2 ^ 90) * (2 * 2 ^ nat (k - b))" by (rule mult_right_mono[OF E(2)]) simp
    also have "\<dots> = (2 * (?P * 2 ^ nat (k - b))) * 2 ^ 90" by (simp only: mult_ac)
    finally have lo: "(2 * ?s - 1) * 2 ^ nat (b - k) \<le> 2 * (?P * 2 ^ nat (k - b))" by (rule mult_right_le_imp_le) simp
    have "(2 * (?P * 2 ^ nat (k - b))) * 2 ^ 90 = (?P * 2 ^ 90) * (2 * 2 ^ nat (k - b))" by (simp only: mult_ac)
    also have "\<dots> \<le> (U * 2 ^ t) * (2 * 2 ^ nat (k - b))" by (rule mult_right_mono[OF E(3)]) simp
    also have "\<dots> \<le> ((2 * ?s + 1) * 2 ^ nat (b - k)) * 2 ^ 90" using c3 by (simp only: power_add mult_ac power_one_right)
    finally have hi: "2 * (?P * 2 ^ nat (k - b)) \<le> (2 * ?s + 1) * 2 ^ nat (b - k)" by (rule mult_right_le_imp_le) simp
    have "nat (- k) = 0" using 2(4) by simp
    then show ?thesis using lo hi c by (simp add: power_ok_def near_power_def)
  qed
  ultimately show ?case by simp
qed simp

lemma encloses_4: "encloses 773712524553362671811952640000 773712524553362671811952640000 0 4"
  by (simp add: encloses_def)

lemma cached_lo: "check_lo 4 773712524553362671811952640000 773712524553362671811952640000 0 (rev (take 44 kCachedPowers))"
  by (simp add: kCachedPowers_def)

lemma cached_hi: "check_hi 4 773712524553362671811952640000 773712524553362671811952640000 0 (drop 44 kCachedPowers)"
  by (simp add: kCachedPowers_def)

lemma kCachedPowers_ok: "list_all power_ok kCachedPowers"
proof -
  have "list_all power_ok (rev (take 44 kCachedPowers))" "list_all power_ok (drop 44 kCachedPowers)"
    using check_lo_sound[OF cached_lo encloses_4] check_hi_sound[OF cached_hi encloses_4] by simp_all
  then have "list_all power_ok (take 44 kCachedPowers @ drop 44 kCachedPowers)"
    by (simp del: append_take_drop_id)
  then show ?thesis by simp
qed

lemma kCachedPowers_length [simp]: "length kCachedPowers = 87"
  by (simp add: kCachedPowers_def)

lemma kCachedPowers_decimal: "map decimal_exponent kCachedPowers = map (\<lambda>i. 8 * int i - 348) [0..<87]"
  by (simp add: kCachedPowers_def upt_rec)

lemma kCachedPowers_nth:
  assumes "i < 87"
  shows "decimal_exponent (kCachedPowers ! i) = 8 * int i - 348" "power_ok (kCachedPowers ! i)"
proof -
  have l: "i < length [0..<87]" "i < length kCachedPowers" using assms by (simp_all only: length_upt kCachedPowers_length)
  have "decimal_exponent (kCachedPowers ! i) = map decimal_exponent kCachedPowers ! i" by (rule nth_map[OF l(2), symmetric])
  also have "\<dots> = 8 * int ([0..<87] ! i) - 348" unfolding kCachedPowers_decimal by (rule nth_map[OF l(1)])
  also have "[0..<87] ! i = i" using nth_upt[of 0 i 87] assms by (simp only: add_0)
  finally show "decimal_exponent (kCachedPowers ! i) = 8 * int i - 348" .
  show "power_ok (kCachedPowers ! i)" using kCachedPowers_ok l(2) by (simp only: list_all_length)
qed

end
