(* ===== verification/Strtod_Rounding.thy ===== *)
theory Strtod_Rounding
  imports Complex_Main Strtod_Fast Cached_Powers_Value
begin

text \<open>Rounding of a value known up to an error, and the double of a rounded significand.\<close>

section \<open>Midpoints and real values\<close>

lemma powi_frac: "a \<noteq> 0 \<Longrightarrow> a powi k = a ^ nat k / (a :: real) ^ nat (- k)"
  by (cases "0 \<le> k") (simp_all add: power_int_def divide_inverse power_inverse)

lemma powi_nat: "0 \<le> k \<Longrightarrow> (a :: real) powi k = a ^ nat k"
  by (simp add: power_int_def)

text \<open>Twice the midpoint of a pattern and the next one, in units of the smallest denormal.\<close>

definition mid :: "int \<Rightarrow> real" where
  "mid n = of_int (fmt_units 52 n + fmt_units 52 (n + 1))"

text \<open>The pattern nearest to \<open>u\<close> units, and a pattern that is it or lies just below it.\<close>

definition near :: "real \<Rightarrow> int \<Rightarrow> bool" where
  "near u r \<longleftrightarrow> 0 \<le> r \<and> r \<le> INFTY \<and>
     (r < INFTY \<longrightarrow> 2 * u < mid r \<or> 2 * u = mid r \<and> even r) \<and>
     (0 < r \<longrightarrow> mid (r - 1) < 2 * u \<or> 2 * u = mid (r - 1) \<and> even r)"

definition around :: "real \<Rightarrow> int \<Rightarrow> bool" where
  "around u r \<longleftrightarrow> 0 \<le> r \<and> r \<le> INFTY \<and>
     (r < INFTY \<longrightarrow> 2 * u < mid (r + 1)) \<and> (0 < r \<longrightarrow> mid (r - 1) < 2 * u)"

lemma mid_mono: "0 \<le> a \<Longrightarrow> a < b \<Longrightarrow> mid a < mid b"
  unfolding mid_def of_int_less_iff by (rule mid_less)

lemma near_cap:
  assumes "0 \<le> n" "2 * u < mid n \<or> 2 * u = mid n \<and> even n" "0 < n \<Longrightarrow> mid (n - 1) < 2 * u \<or> 2 * u = mid (n - 1) \<and> even n"
  shows "near u (min INFTY n)"
proof (cases "n \<le> INFTY")
  case True
  then show ?thesis using assms by (simp add: near_def)
next
  case False
  have "mid (INFTY - 1) < mid (n - 1)" by (rule mid_mono) (use False in simp_all)
  moreover have "mid (n - 1) \<le> 2 * u" using assms(3) False by auto
  ultimately have "mid (INFTY - 1) < 2 * u" by linarith
  then show ?thesis using False by (simp add: near_def)
qed

lemma around_cap:
  assumes "0 \<le> n" "2 * u < mid (n + 1)" "0 < n \<Longrightarrow> mid (n - 1) < 2 * u"
  shows "around u (min INFTY n)"
proof (cases "n \<le> INFTY")
  case True
  then show ?thesis using assms by (simp add: around_def)
next
  case False
  have "mid (INFTY - 1) < mid (n - 1)" by (rule mid_mono) (use False in simp_all)
  then have "mid (INFTY - 1) < 2 * u" using assms(3) False by linarith
  then show ?thesis using False by (simp add: around_def)
qed

lemma fmt_shift_mono: "m \<le> n \<Longrightarrow> fmt_shift p m \<le> fmt_shift p n"
  unfolding fmt_shift_def by (intro nat_mono diff_right_mono zdiv_mono1) auto

lemma fmt_shift_pred: "fmt_shift p n \<le> Suc (fmt_shift p (n - 1))"
proof -
  have "n div 2 ^ p \<le> (n - 1 + 1 * 2 ^ p) div 2 ^ p" by (intro zdiv_mono1) auto
  also have "\<dots> = 1 + (n - 1) div 2 ^ p" by (rule div_mult_self1) simp
  finally show ?thesis by (simp add: fmt_shift_def)
qed

text \<open>The midpoints around a significand \<open>F\<close> at the shift \<open>k\<close>.\<close>

lemma mids:
  assumes F: "0 \<le> F" "F < 2 ^ 53" "k = 0 \<or> 2 ^ 52 \<le> F"
  defines "n \<equiv> F + int k * 2 ^ 52"
  shows "mid n = (2 * of_int F + 1) * 2 ^ k" "0 < n \<Longrightarrow> mid (n - 1) \<le> (2 * of_int F - 1 / 2) * 2 ^ k"
    "(2 * of_int F + 3) * 2 ^ k \<le> mid (n + 1)" "0 \<le> n"
proof -
  have E: "fmt_units 52 n = F * 2 ^ k" "fmt_shift 52 n = k"
    unfolding n_def by (rule fmt_encode; use F in auto)+
  show n0: "0 \<le> n" using F by (simp add: n_def)
  have u1: "fmt_units 52 (n + 1) = F * 2 ^ k + 2 ^ k" using fmt_units_Suc[OF n0, of 52] E by simp
  show "mid n = (2 * of_int F + 1) * 2 ^ k" unfolding mid_def u1 E by (simp add: algebra_simps)
  show "mid (n - 1) \<le> (2 * of_int F - 1 / 2) * 2 ^ k" if "0 < n"
  proof -
    have "fmt_units 52 (n - 1 + 1) = fmt_units 52 (n - 1) + 2 ^ fmt_shift 52 (n - 1)"
      by (rule fmt_units_Suc) (use that in simp)
    moreover have "(2::int) ^ k \<le> 2 ^ Suc (fmt_shift 52 (n - 1))"
      using fmt_shift_pred[of 52 n] E by (intro power_increasing) auto
    ultimately have "2 * (fmt_units 52 (n - 1) + fmt_units 52 n) \<le> 4 * (F * 2 ^ k) - 2 ^ k" using E by simp
    then have "of_int (2 * (fmt_units 52 (n - 1) + fmt_units 52 n)) \<le> (of_int (4 * (F * 2 ^ k) - 2 ^ k) :: real)"
      by (simp only: of_int_le_iff)
    then show ?thesis by (simp add: mid_def algebra_simps)
  qed
  show "(2 * of_int F + 3) * 2 ^ k \<le> mid (n + 1)"
  proof -
    have "fmt_units 52 (n + 1 + 1) = fmt_units 52 (n + 1) + 2 ^ fmt_shift 52 (n + 1)"
      by (rule fmt_units_Suc) (use n0 in simp)
    moreover have "(2::int) ^ k \<le> 2 ^ fmt_shift 52 (n + 1)"
      using fmt_shift_mono[of n "n + 1" 52] E by (intro power_increasing) auto
    ultimately have "(2 * F + 3) * 2 ^ k \<le> fmt_units 52 (n + 1) + fmt_units 52 (n + 1 + 1)"
      using u1 by (simp add: algebra_simps)
    then have "of_int ((2 * F + 3) * 2 ^ k) \<le> (of_int (fmt_units 52 (n + 1) + fmt_units 52 (n + 1 + 1)) :: real)"
      by (simp only: of_int_le_iff)
    then show ?thesis by (simp add: mid_def)
  qed
qed

section \<open>Rounding an approximation\<close>

text \<open>
  \<open>v\<close> is known up to \<open>E / 8\<close> as \<open>f\<close>, and the significand of the double is \<open>f\<close> without its
  last \<open>p\<close> bits. Away from the middle the approximation decides; near it the lower neighbour is
  the answer or the one below it.
\<close>

lemma round_approx:
  fixes v u :: real
  assumes f: "0 \<le> f" "f div 2 ^ p < 2 ^ 53" "k = 0 \<or> 2 ^ 52 \<le> f div 2 ^ p" and p: "11 \<le> p"
    and E: "E \<le> 2048" "8 * \<bar>v - of_int f\<bar> < of_int E" and u: "u * 2 ^ p = v * 2 ^ k"
  defines "n \<equiv> f div 2 ^ p + int k * 2 ^ 52"
  shows "8 * (f mod 2 ^ p) \<le> 8 * 2 ^ (p - 1) - E \<Longrightarrow> near u (min INFTY n)"
    "8 * 2 ^ (p - 1) + E \<le> 8 * (f mod 2 ^ p) \<Longrightarrow> near u (min INFTY (n + 1))"
    "around u (min INFTY n)"
proof -
  define F R where "F = f div 2 ^ p" and "R = f mod 2 ^ p"
  have fe: "f = F * 2 ^ p + R" unfolding F_def R_def by (rule div_mult_mod_eq[symmetric])
  have R: "0 \<le> R" "R < 2 ^ p" by (simp_all add: R_def)
  have F0: "0 \<le> F" using f(1) by (simp add: F_def pos_imp_zdiv_nonneg_iff)
  note M = mids[OF F0 f(2)[folded F_def] f(3)[folded F_def]]
  have n: "n = F + int k * 2 ^ 52" by (simp add: n_def F_def)
  define P where "P = (2::real) ^ p"
  have P: "2048 \<le> P"
  proof -
    have "(2::real) ^ 11 \<le> 2 ^ p" using p by (intro power_increasing) auto
    then show ?thesis by (simp add: P_def)
  qed
  have Ph: "of_int (2 ^ (p - 1)) = P / 2" using p by (cases p) (auto simp: P_def)
  have vf: "v < F * P + R + E / 8" "F * P + R - E / 8 < v"
    using E(2) abs_ge_self[of "v - (F * P + R)"] abs_ge_minus_self[of "v - (F * P + R)"]
    unfolding fe by (simp_all add: P_def)
  have Rr: "0 \<le> real_of_int R" "real_of_int R < P"
    using R of_int_less_iff[of R "2 ^ p", where ?'a = real] by (simp_all add: P_def)
  have E8: "real_of_int E \<le> 2048" using E(1) by simp
  define w where "w = v / P"
  have w: "v = w * P" using P by (simp add: w_def)
  have uw: "u = w * 2 ^ k" using u P by (simp add: w_def P_def field_simps)
  have lo: "F - 1 / 8 < w" and hi: "w < F + 1 + 1 / 8"
  proof -
    have "(F - 1 / 8) * P < w * P" using vf Rr E8 P unfolding w by (simp add: left_diff_distrib)
    then show "F - 1 / 8 < w" using P by simp
    have "w * P < (F + 1 + 1 / 8) * P" using vf Rr E8 P unfolding w by (simp add: distrib_right)
    then show "w < F + 1 + 1 / 8" using P by simp
  qed
  have K: "(0::real) < 2 ^ k" by simp
  have ml: "x < w \<Longrightarrow> 2 * x * 2 ^ k < 2 * u" "w < x \<Longrightarrow> 2 * u < 2 * x * 2 ^ k" for x
    unfolding uw using K by simp_all
  have low: "mid (n - 1) < 2 * u" if "0 < n"
  proof -
    have "mid (n - 1) \<le> (2 * real_of_int F - 1 / 2) * 2 ^ k" using M(2) that unfolding n by blast
    also have "\<dots> \<le> 2 * (F - 1 / 8) * 2 ^ k" by (rule mult_right_mono) (use K in auto)
    also have "\<dots> < 2 * u" by (rule ml(1)[OF lo])
    finally show ?thesis .
  qed
  have upp: "2 * u < mid (n + 1)"
  proof -
    have "2 * u < 2 * (F + 1 + 1 / 8) * 2 ^ k" by (rule ml(2)[OF hi])
    also have "\<dots> \<le> (2 * real_of_int F + 3) * 2 ^ k" by (rule mult_right_mono) (use K in auto)
    also have "\<dots> \<le> mid (n + 1)" using M(3) unfolding n by blast
    finally show ?thesis .
  qed
  have n0: "0 \<le> n" using M(4) n by simp
  show "around u (min INFTY n)" by (rule around_cap[OF n0 upp low])
  show "near u (min INFTY n)" if c: "8 * (f mod 2 ^ p) \<le> 8 * 2 ^ (p - 1) - E"
  proof (rule near_cap[OF n0])
    have "of_int (8 * R) \<le> (of_int (8 * 2 ^ (p - 1) - E) :: real)" using c by (simp only: of_int_le_iff R_def)
    then have "8 * R \<le> 8 * (P / 2) - E" unfolding of_int_mult of_int_diff Ph by simp
    then have "w * P < (F + 1 / 2) * P" using vf unfolding w by (simp add: distrib_right)
    then have "w < F + 1 / 2" using P by simp
    from ml(2)[OF this] show "2 * u < mid n \<or> 2 * u = mid n \<and> even n"
      using M(1) unfolding n by (simp add: algebra_simps)
  qed (use low in blast)
  show "near u (min INFTY (n + 1))" if c: "8 * 2 ^ (p - 1) + E \<le> 8 * (f mod 2 ^ p)"
  proof (rule near_cap)
    have "of_int (8 * 2 ^ (p - 1) + E) \<le> (of_int (8 * R) :: real)" using c by (simp only: of_int_le_iff R_def)
    then have "8 * (P / 2) + E \<le> 8 * R" unfolding of_int_mult of_int_add Ph by simp
    then have "(F + 1 / 2) * P < w * P" using vf unfolding w by (simp add: distrib_right)
    then have "F + 1 / 2 < w" using P by simp
    from ml(1)[OF this] show "mid (n + 1 - 1) < 2 * u \<or> 2 * u = mid (n + 1 - 1) \<and> even (n + 1)"
      using M(1) unfolding n by (simp add: algebra_simps)
  qed (use n0 upp in auto)
qed

text \<open>The double of a significand that may have been rounded up to \<open>2 ^ 53\<close>.\<close>

lemma ok_rounded_to_double:
  assumes F: "uint w \<le> 2 ^ 53" "-1074 \<le> q" "q = -1074 \<or> 2 ^ 52 \<le> uint w"
    and Q: "\<And>r. uint r = min INFTY (uint w + (q + 1074) * 2 ^ 52) \<Longrightarrow> Q r"
  shows "ok (DiyFpToUint64 (DiyFp w q)) Q"
proof (rule ok_DiyFpToUint64, rule Q)
  fix j r assume "diy_to_double (DiyFp w q) j r"
  then have D: "uint w div 2 ^ j < 2 ^ 53" "j = 0 \<or> 2 ^ 52 \<le> uint w div 2 ^ j"
    "if 972 \<le> q + int j then r = kDoubleInfinity
      else if q + int j < -1074 then r = 0
      else finite_double r \<and> fmt_units 52 (uint r) = uint w div 2 ^ j * 2 ^ nat (q + int j + 1074)"
    by (simp_all add: diy_to_double_def)
  define s where "s = uint w div 2 ^ j"
  have sj: "uint w + (q + 1074) * 2 ^ 52 = s + (q + int j + 1074) * 2 ^ 52 \<and> (q + int j = -1074 \<or> 2 ^ 52 \<le> s) \<and> j \<le> 1"
  proof (cases "uint w = 2 ^ 53")
    case False
    have "j = 0"
    proof (rule ccontr)
      assume "j \<noteq> 0"
      then have "2 ^ 52 * 2 ^ j \<le> uint w" using D(2) by (subst (asm) le_zdiv) auto
      moreover have "(2::int) ^ 1 \<le> 2 ^ j" using \<open>j \<noteq> 0\<close> by (intro power_increasing) auto
      ultimately show False using F(1) False by simp
    qed
    then show ?thesis using F by (auto simp: s_def)
  next
    case True
    have "j = 1"
    proof -
      have "j \<noteq> 0" using D(1) True by (cases "j = 0") auto
      then have "2 ^ 52 * 2 ^ j \<le> (2::int) ^ 53" using D(2) True by (subst (asm) le_zdiv) auto
      then have "(2::int) ^ (52 + j) \<le> 2 ^ 53" by (simp only: power_add)
      then have "52 + j \<le> 53" by (rule power_le_imp_le_exp[rotated]) simp
      then show ?thesis using \<open>j \<noteq> 0\<close> by simp
    qed
    then show ?thesis using True by (simp add: s_def)
  qed
  show "uint r = min INFTY (uint w + (q + 1074) * 2 ^ 52)"
  proof (cases "972 \<le> q + int j")
    case True
    then have "2 ^ 52 \<le> s" "2046 * 2 ^ 52 \<le> (q + int j + 1074) * 2 ^ 52" using sj by auto
    then have "INFTY \<le> uint w + (q + 1074) * 2 ^ 52" using sj by simp
    then show ?thesis using D(3) True by (simp add: kDoubleInfinity_def)
  next
    case False
    have ge: "-1074 \<le> q + int j" using F(2) by simp
    have u: "fmt_units 52 (uint r) = s * 2 ^ nat (q + int j + 1074)" and fr: "finite_double r"
      using D(3) False ge by (auto simp: s_def split: if_splits)
    have "fmt_units 52 (s + int (nat (q + int j + 1074)) * 2 ^ 52) = s * 2 ^ nat (q + int j + 1074)"
      by (rule fmt_encode(3)) (use sj D(1) ge in \<open>auto simp: s_def pos_imp_zdiv_nonneg_iff\<close>)
    then have e: "fmt_units 52 (uint r) = fmt_units 52 (s + (q + int j + 1074) * 2 ^ 52)" using u ge by simp
    have "0 \<le> s" by (simp add: s_def pos_imp_zdiv_nonneg_iff)
    then have s0: "0 \<le> s + (q + int j + 1074) * 2 ^ 52" using ge by simp
    have "uint r = s + (q + int j + 1074) * 2 ^ 52" using e s0 fmt_units_inject[of "uint r" _ 52] by blast
    then show ?thesis using sj fr by (simp add: finite_double_def)
  qed
qed

end
