(* ===== verification/Strtod_Error.thy ===== *)
theory Strtod_Error
  imports Strtod_Rounding
begin

text \<open>The error of the 64-bit path of \<open>strtod.cc\<close>: reading the digits, the look-up of the power, the products.\<close>

section \<open>Reading the significand\<close>

lemma dec_val_pos:
  assumes "digits cs" "cs \<noteq> []" "hd cs \<noteq> ch CHR ''0''"
  shows "10 ^ (length cs - 1) \<le> dec_val cs"
proof -
  obtain c ds where cs: "cs = c # ds" using assms(2) by (cases cs) auto
  have d: "digits ds" "0 \<le> digit_of c" using assms(1) cs digits_drop[of cs 1] digits_nth[OF assms(1), of 0] by auto
  have "digit_of c \<noteq> 0" using assms(3) cs by (simp add: digit_of_def word_uint_eq_iff)
  then have "1 \<le> digit_of c" using d(2) by simp
  then have "1 * 10 ^ length ds \<le> digit_of c * 10 ^ length ds" by (intro mult_right_mono) auto
  moreover have "dec_val ([c] @ ds) = dec_val [c] * 10 ^ length ds + dec_val ds" by (rule dec_val_append)
  moreover have "dec_val [c] = digit_of c" using dec_val_snoc[of "[]" c] by simp
  moreover have "0 \<le> dec_val ds" using dec_val_bounds[OF d(1)] by simp
  ultimately show ?thesis unfolding cs by (simp only: append_Cons append_Nil list.size add_Suc_right add_0_right One_nat_def diff_Suc_Suc diff_zero)
qed

text \<open>The digits read, with the first dropped one rounded, and the number of dropped digits.\<close>

definition read_as :: "u8 list \<Rightarrow> int \<Rightarrow> nat \<Rightarrow> bool" where
  "read_as cs f r \<longleftrightarrow> 0 < f \<and> f \<le> 18446744073709551610 \<and> r < length cs \<and> length cs \<le> r + 20 \<and>
     2 * \<bar>dec_val cs - f * 10 ^ r\<bar> \<le> 10 ^ r \<and> (r = 0 \<longrightarrow> f = dec_val cs) \<and>
     (0 < r \<longrightarrow> 1844674407370955160 < f) \<and> (length cs \<le> 19 \<longrightarrow> r = 0)"

lemma ok_ReadDiyFp:
  assumes d: "digits cs" "cs \<noteq> []" "hd cs \<noteq> ch CHR ''0''"
    and Q: "\<And>f r. read_as cs (uint f) r \<Longrightarrow> Q (DiyFp f 0, int r)"
  shows "ok (ReadDiyFp cs) Q"
  unfolding ReadDiyFp_def
proof (subst ok_bind, rule ok_ReadUint64[OF d(1)], goal_cases)
  case (1 s k)
  have k20: "k \<le> 20"
  proof (rule ccontr)
    assume k: "\<not> k \<le> 20"
    have "(10::int) ^ 20 \<le> 10 ^ (k - 1)" using k by (intro power_increasing) auto
    also have "\<dots> \<le> dec_val (take k cs)" using dec_val_pos[of "take k cs"] d 1(1) k by (simp add: hd_take)
    finally show False using 1(2,4) by simp
  qed
  have pos: "0 < dec_val (take k cs)" if "0 < k"
    using dec_val_pos[of "take k cs"] d 1(1) that by (simp add: hd_take) (smt (verit) zero_less_power)
  have k0: "0 < k" using 1(1-3) d(2) by (cases k) auto
  show ?case
  proof (cases "k = length cs")
    case True
    then have "read_as cs (uint s) 0" using 1 pos[OF k0] k20 d(2) by (simp add: read_as_def)
    from Q[OF this] show ?thesis using True by simp
  next
    case False
    then have lt: "k < length cs" and big: "1844674407370955160 < uint s" using 1 by auto
    define r where "r = length cs - k"
    let ?c = "cs ! k" and ?rest = "drop k cs"
    have rl: "length ?rest = r" "0 < r" using lt by (simp_all add: r_def)
    have rest: "?rest = [?c] @ drop (Suc k) cs" using lt by (simp add: Cons_nth_drop_Suc)
    have dv: "dec_val cs = uint s * 10 ^ r + dec_val ?rest"
      using dec_val_append[of "take k cs" ?rest] 1(2) rl by simp
    obtain j where j: "r = Suc j" using rl by (cases r) auto
    have lj: "length (drop (Suc k) cs) = j" using j r_def by simp
    have dr: "dec_val ?rest = digit_of ?c * 10 ^ j + dec_val (drop (Suc k) cs)"
      using dec_val_append[of "[?c]" "drop (Suc k) cs"] dec_val_snoc[of "[]" ?c] rest lj by simp

    have db: "0 \<le> dec_val (drop (Suc k) cs)" "dec_val (drop (Suc k) cs) < 10 ^ j"
      using dec_val_bounds[of "drop (Suc k) cs"] d(1) unfolding lj by auto
    have dg: "0 \<le> digit_of ?c" "digit_of ?c \<le> 9" using digits_nth[OF d(1) lt] by auto
    have P: "(10::int) ^ r = 10 * 10 ^ j" using j by simp
    have len: "length cs \<le> r + 20" "r < length cs" "\<not> length cs \<le> 19"
    proof -
      show "length cs \<le> r + 20" "r < length cs" using k20 k0 lt by (auto simp: r_def)
      show "\<not> length cs \<le> 19"
      proof
        assume "length cs \<le> 19"
        then have "(10::int) ^ k \<le> 10 ^ 18" using lt by (intro power_increasing) auto
        then show False using dec_val_bounds[of "take k cs"] d(1) lt 1(2) big by simp
      qed
    qed
    have c5: "(ch CHR ''5'' \<le> ?c) = (5 \<le> digit_of ?c)"
    proof -
      have "uint (ch CHR ''5'') = 53" by (simp add: ch_def of_char_def)
      then show ?thesis by (simp add: word_le_def digit_of_def)
    qed
    have neg: "2 * dec_val ?rest \<le> 10 ^ r" if "\<not> 5 \<le> digit_of ?c"
    proof -
      have "digit_of ?c * 10 ^ j \<le> 4 * 10 ^ j" using that by (intro mult_right_mono) auto
      then show ?thesis using dr db P by linarith
    qed
    have up: "10 ^ r \<le> 2 * dec_val ?rest" "dec_val ?rest < 10 ^ r" if "5 \<le> digit_of ?c"
    proof -
      have "5 * 10 ^ j \<le> digit_of ?c * 10 ^ j" using that by (intro mult_right_mono) auto
      then show "10 ^ r \<le> 2 * dec_val ?rest" using dr db P by linarith
      show "dec_val ?rest < 10 ^ r" using dec_val_bounds[of ?rest] d(1) rl by simp
    qed
    have r0: "0 \<le> dec_val ?rest" using dec_val_bounds[of ?rest] d(1) by simp
    have s1: "uint (s + 1) = uint s + 1" by (subst uint_add_exact) (use 1(4) in simp_all)
    have "read_as cs (uint (if ?c \<ge> ch CHR ''5'' then s + 1 else s)) r"
    proof (cases "5 \<le> digit_of ?c")
      case True
      then have "2 * \<bar>dec_val cs - uint (s + 1) * 10 ^ r\<bar> \<le> 10 ^ r"
        using up[OF True] unfolding dv s1 by (simp add: distrib_right)
      then show ?thesis unfolding read_as_def c5 using True len rl big 1(4) s1 by simp
    next
      case False
      then have "2 * \<bar>dec_val cs - uint s * 10 ^ r\<bar> \<le> 10 ^ r" using neg r0 unfolding dv by simp
      then show ?thesis unfolding read_as_def c5 using False len rl big 1(4) by simp
    qed
    from Q[OF this] show ?thesis using lt by (simp add: wp r_def of_nat_diff Let_def)
  qed
qed

section \<open>The powers\<close>

lemma ok_GetCachedPowerForDecimalExponent:
  assumes e: "-348 \<le> e" "e < 348"
    and Q: "\<And>s b d. d \<le> e \<Longrightarrow> e < d + 8 \<Longrightarrow> near_power (uint s) b d \<Longrightarrow> (d = -348 \<longrightarrow> DiyFp s b = DiyFp 0xfa8fd5a0081c0288 (-1220)) \<Longrightarrow>
      -348 \<le> d \<and> (d + 348) mod 8 = 0 \<Longrightarrow> Q (DiyFp s b, d)"
  shows "ok (GetCachedPowerForDecimalExponent e) Q"
proof -
  define i where "i = nat ((e + 348) div 8)"
  have ii: "int i = (e + 348) div 8" using e by (simp add: i_def pos_imp_zdiv_nonneg_iff)
  have "(e + 348) div 8 \<le> 695 div 8" using e by (intro zdiv_mono1) auto
  then have i87: "i < 87" using ii by simp
  have de: "8 * int i \<le> e + 348" "e + 348 < 8 * int i + 8"
    unfolding ii using div_mult_mod_eq[of "e + 348" 8] pos_mod_bound[of 8 "e + 348"] pos_mod_sign[of 8 "e + 348"] by linarith+
  note K = kCachedPowers_nth[OF i87]
  have z: "DiyFp (significand (kCachedPowers ! i)) (binary_exponent (kCachedPowers ! i)) = DiyFp 0xfa8fd5a0081c0288 (-1220)"
    if "decimal_exponent (kCachedPowers ! i) = -348"
  proof -
    have "i = 0" using that K(1) by simp
    then show ?thesis by (simp add: kCachedPowers_def)
  qed
  have "Q (DiyFp (significand (kCachedPowers ! i)) (binary_exponent (kCachedPowers ! i)), decimal_exponent (kCachedPowers ! i))"
    by (rule Q) (use de K z in \<open>auto simp: power_ok_def\<close>)
  then show ?thesis
    unfolding GetCachedPowerForDecimalExponent_def using e de K(1) i87 ii
    by (simp add: wp i_def[symmetric] sdiv_nonneg)
qed

lemma near_power_real:
  assumes "near_power s b d" shows "2 * \<bar>10 powi d * 2 powi (- b) - of_int s\<bar> \<le> (1::real)" "9223372036854775808 \<le> s"
proof -
  let ?n = "5 ^ nat d * 2 ^ nat (d - b) :: int" and ?m = "5 ^ nat (- d) * 2 ^ nat (b - d) :: int"
  have A: "(2 * s - 1) * ?m \<le> 2 * ?n" "2 * ?n \<le> (2 * s + 1) * ?m" "9223372036854775808 \<le> s"
    using assms unfolding near_power_def by blast+
  show "9223372036854775808 \<le> s" by (rule A(3))
  have r: "(2 * real_of_int s - 1) * of_int ?m \<le> 2 * of_int ?n" "2 * of_int ?n \<le> (2 * real_of_int s + 1) * of_int ?m"
    using A(1,2)[THEN of_int_le_iff[where ?'a = real, THEN iffD2]] by simp_all
  have m: "0 < real_of_int ?m" by simp
  have five: "(10::real) powi d = 5 powi d * 2 powi d" by (simp flip: power_int_mult_distrib)
  have "(10::real) powi d * 2 powi (- b) = 5 powi d * 2 powi (d - b)"
    unfolding five by (simp add: power_int_diff power_int_minus divide_inverse)
  also have "\<dots> = of_int ?n / of_int ?m" by (simp add: powi_frac)
  finally have e: "(10::real) powi d * 2 powi (- b) = of_int ?n / of_int ?m" .
  have "2 * real_of_int s - 1 \<le> 2 * (of_int ?n / of_int ?m)" "2 * (of_int ?n / of_int ?m) \<le> 2 * real_of_int s + 1"
    using r m by (simp_all add: field_simps)
  then have "\<bar>2 * (of_int ?n / of_int ?m) - 2 * real_of_int s\<bar> \<le> 1" by linarith
  moreover have "2 * \<bar>x - y\<bar> = \<bar>2 * x - 2 * y\<bar>" for x y :: real by (simp add: abs_if)
  ultimately show "2 * \<bar>10 powi d * 2 powi (- b) - of_int s\<bar> \<le> (1::real)" unfolding e by (simp only:)
qed

lemma ok_AdjustmentPowerOfTen:
  assumes a: "0 < a" "a < 8"
    and Q: "\<And>f b. 9223372036854775808 \<le> uint f \<Longrightarrow> uint f = 10 ^ nat a * 2 ^ nat (- b) \<Longrightarrow> -64 < b \<Longrightarrow> b \<le> 0 \<Longrightarrow> (a = 6 \<longrightarrow> DiyFp f b = DiyFp 0xf424000000000000 (-44)) \<Longrightarrow> Q (DiyFp f b)"
  shows "ok (AdjustmentPowerOfTen a) Q"
proof -
  have "a = 1 \<or> a = 2 \<or> a = 3 \<or> a = 4 \<or> a = 5 \<or> a = 6 \<or> a = 7" using a by linarith
  then show ?thesis unfolding AdjustmentPowerOfTen_def
    by (elim disjE; simp add: wp; intro Q; simp)
qed


section \<open>The tracked error\<close>

text \<open>The significand is off by at most \<open>E / 8\<close> of its last place, and by less than that.\<close>

definition off_by :: "real \<Rightarrow> diyfp \<Rightarrow> int \<Rightarrow> bool" where
  "off_by V x E \<longleftrightarrow> 8 * \<bar>V * 2 powi (- fp_e x) - of_int (uint (fp_f x))\<bar> \<le> of_int E"

definition off_less :: "real \<Rightarrow> diyfp \<Rightarrow> int \<Rightarrow> bool" where
  "off_less V x E \<longleftrightarrow> 8 * \<bar>V * 2 powi (- fp_e x) - of_int (uint (fp_f x))\<bar> < of_int E"

lemma powi_shift: "(2::real) powi (- (e - int k)) = 2 powi (- e) * 2 ^ k"
  using power_int_add[of "2::real" "- e" "int k"] by (simp add: power_int_of_nat)

lemma scaled_diff:
  fixes V f :: real
  shows "\<bar>V * 2 powi (- (e - int k)) - f * 2 ^ k\<bar> = \<bar>V * 2 powi (- e) - f\<bar> * 2 ^ k"
proof -
  have "V * 2 powi (- (e - int k)) - f * 2 ^ k = (V * 2 powi (- e) - f) * 2 ^ k"
    unfolding powi_shift by (simp add: algebra_simps)
  then show ?thesis by (simp add: abs_mult)
qed

lemma off_by_shift:
  assumes "off_by V x E" "uint f = uint (fp_f x) * 2 ^ k"
  shows "off_by V \<lparr>fp_f = f, fp_e = fp_e x - int k\<rparr> (E * 2 ^ k)"
proof -
  have "8 * \<bar>V * 2 powi (- fp_e x) - of_int (uint (fp_f x))\<bar> * 2 ^ k \<le> of_int E * 2 ^ k"
    using assms(1) unfolding off_by_def by (intro mult_right_mono) auto
  then show ?thesis unfolding off_by_def diyfp.select_convs assms(2) of_int_mult of_int_power of_int_numeral scaled_diff
    by (simp only: mult.assoc)
qed

lemma off_less_shift:
  assumes "off_less V x E" "uint f = uint (fp_f x) * 2 ^ k"
  shows "off_less V \<lparr>fp_f = f, fp_e = fp_e x - int k\<rparr> (E * 2 ^ k)"
proof -
  have "8 * \<bar>V * 2 powi (- fp_e x) - of_int (uint (fp_f x))\<bar> * 2 ^ k < of_int E * 2 ^ k"
    using assms(1) unfolding off_less_def by (intro mult_strict_right_mono) auto
  then show ?thesis unfolding off_less_def diyfp.select_convs assms(2) of_int_mult of_int_power of_int_numeral scaled_diff
    by (simp only: mult.assoc)
qed

lemma Multiply_half:
  "2 * \<bar>real_of_int (uint (fp_f x)) * of_int (uint (fp_f y)) / 18446744073709551616 - of_int (uint (fp_f (Multiply y x)))\<bar> \<le> 1"
proof -
  let ?n = "uint (fp_f x) * uint (fp_f y)" and ?m = "uint (fp_f (Multiply y x))"
  have m: "?m = (?n + 9223372036854775808) div 18446744073709551616" by (rule Multiply_value)
  have "?m * 18446744073709551616 \<le> ?n + 9223372036854775808" "?n + 9223372036854775808 < ?m * 18446744073709551616 + 18446744073709551616"
    unfolding m using div_mult_mod_eq[of "?n + 9223372036854775808" 18446744073709551616]
      pos_mod_bound[of 18446744073709551616 "?n + 9223372036854775808"] pos_mod_sign[of 18446744073709551616 "?n + 9223372036854775808"]
    by linarith+
  then have "of_int (?m * 18446744073709551616) \<le> (of_int (?n + 9223372036854775808) :: real)"
    "of_int (?n + 9223372036854775808) \<le> (of_int (?m * 18446744073709551616 + 18446744073709551616) :: real)"
    by (simp_all only: of_int_le_iff less_imp_le)
  then show ?thesis by (simp add: abs_if field_simps)
qed

lemma powi_sum: "(2::real) powi (a + b - 64) = 2 powi a * 2 powi b / 18446744073709551616"
proof -
  have "(2::real) powi (a + b - 64) = 2 powi (a + b) / 2 powi 64" by (rule power_int_diff) simp
  also have "(2::real) powi (a + b) = 2 powi a * 2 powi b" by (rule power_int_add) simp
  finally show ?thesis by simp
qed

lemma powi_Multiply:
  "V * W * 2 powi (- fp_e (Multiply y x)) = (V * 2 powi (- fp_e x)) * (W * 2 powi (- fp_e y)) / (18446744073709551616 :: real)"
proof -
  have e: "- fp_e (Multiply y x) = - fp_e x + - fp_e y - 64" by (simp add: Multiply_value)
  show ?thesis unfolding e powi_sum by simp
qed

text \<open>A product with a factor known to half a unit; \<open>v\<close> and \<open>w\<close> are the exact factors.\<close>

lemma product_error:
  fixes a b m v w :: real
  assumes a: "0 \<le> a" "a \<le> 18446744073709551615" and b: "0 \<le> b" "b \<le> 18446744073709551615"
    and E: "8 * \<bar>v - a\<bar> \<le> E" and D: "2 * \<bar>w - b\<bar> \<le> 1" and m: "2 * \<bar>a * b / 18446744073709551616 - m\<bar> \<le> 1"
  shows "8 * \<bar>v * w / 18446744073709551616 - m\<bar> < E + 8" "w = b \<Longrightarrow> 8 * \<bar>v * w / 18446744073709551616 - m\<bar> \<le> E + 4"
proof -
  let ?M = "18446744073709551616 :: real"
  have sum_lt: "p < E / 8 + 1 / 2 \<Longrightarrow> s \<le> p + q \<Longrightarrow> 2 * q \<le> 1 \<Longrightarrow> 8 * s < E + 8"
    and sum_le: "p \<le> E / 8 \<Longrightarrow> s \<le> p + q \<Longrightarrow> 2 * q \<le> 1 \<Longrightarrow> 8 * s \<le> E + 4" for p q s :: real by linarith+
  have w: "\<bar>w\<bar> \<le> ?M" using b D by (auto simp: abs_if split: if_splits)
  have e: "v * w - a * b = (v - a) * w + a * (w - b)" by (simp add: algebra_simps)
  have E0: "0 \<le> E" by (rule order_trans[OF _ E]) simp
  have 1: "\<bar>(v - a) * w\<bar> \<le> (E / 8) * ?M" unfolding abs_mult by (rule mult_mono) (use E E0 w in auto)
  have 2: "\<bar>a * (w - b)\<bar> \<le> 18446744073709551615 * (1 / 2)" unfolding abs_mult by (rule mult_mono) (use a D in auto)
  have t: "\<bar>v * w - a * b\<bar> \<le> \<bar>(v - a) * w\<bar> + \<bar>a * (w - b)\<bar>" unfolding e by (rule abs_triangle_ineq)
  have s: "\<bar>v * w / ?M - m\<bar> \<le> \<bar>v * w - a * b\<bar> / ?M + \<bar>a * b / ?M - m\<bar>"
  proof -
    have e2: "v * w / ?M - m = (v * w - a * b) / ?M + (a * b / ?M - m)" by (simp add: diff_divide_distrib)
    show ?thesis unfolding e2 using abs_triangle_ineq[of "(v * w - a * b) / ?M" "a * b / ?M - m"] by simp
  qed
  have "\<bar>v * w - a * b\<bar> / ?M < E / 8 + 1 / 2"
    using 1 2 t by (simp add: pos_divide_less_eq distrib_right)
  then show "8 * \<bar>v * w / ?M - m\<bar> < E + 8" by (rule sum_lt[OF _ s m])
  assume "w = b"
  then have "\<bar>v * w - a * b\<bar> / ?M \<le> E / 8" using 1 t by (simp add: pos_divide_le_eq)
  then show "8 * \<bar>v * w / ?M - m\<bar> \<le> E + 4" by (rule sum_le[OF _ s m])
qed

lemma uint64_real: "0 \<le> real_of_int (uint (w :: u64))" "real_of_int (uint w) \<le> 18446744073709551615"
proof -
  have "uint w \<le> 18446744073709551615" using uint_lt_2p[of w] by simp
  then have "real_of_int (uint w) \<le> real_of_int 18446744073709551615" by (simp only: of_int_le_iff)
  then show "real_of_int (uint w) \<le> 18446744073709551615" by simp
  show "0 \<le> real_of_int (uint w)" unfolding of_int_0_le_iff by simp
qed

lemma off_by_Multiply_power:
  assumes "off_by V x E" "2 * \<bar>W * 2 powi (- fp_e y) - of_int (uint (fp_f y))\<bar> \<le> 1"
  shows "off_less (V * W) (Multiply y x) (E + 8)"
  using product_error(1)[OF uint64_real uint64_real assms(1)[unfolded off_by_def] assms(2) Multiply_half]
  unfolding off_less_def powi_Multiply by simp

lemma off_by_Multiply_exact:
  assumes "off_by V x E" "W * 2 powi (- fp_e y) = of_int (uint (fp_f y))"
  shows "off_by (V * W) (Multiply y x) (E + 4)"
proof -
  have h: "2 * \<bar>W * 2 powi (- fp_e y) - of_int (uint (fp_f y))\<bar> \<le> 1" using assms(2) by simp
  show ?thesis
    using product_error(2)[OF uint64_real uint64_real assms(1)[unfolded off_by_def] h Multiply_half assms(2)]
    unfolding off_by_def powi_Multiply by simp
qed

text \<open>A short input times a small power of ten is an integer below \<open>2 ^ 64\<close>, so the product is exact.\<close>

lemma off_by_Multiply_short:
  fixes D :: int and a :: nat
  assumes D: "0 < D" "D * 10 ^ a < 10 ^ 19" "0 < a"
    and f: "uint f = D * 2 ^ k" "9223372036854775808 \<le> uint f"
    and y: "9223372036854775808 \<le> uint (fp_f y)" "uint (fp_f y) = 10 ^ a * 2 ^ nat (- fp_e y)" "fp_e y \<le> 0"
  shows "off_by (of_int D * 10 ^ a) (Multiply y \<lparr>fp_f = f, fp_e = - int k\<rparr>) 0"
proof -
  let ?x = "\<lparr>fp_f = f, fp_e = - int k\<rparr>"
  define g where "g = k + nat (- fp_e y)"
  have p: "uint f * uint (fp_f y) = D * 10 ^ a * 2 ^ g" unfolding f(1) y(2) g_def power_add by (simp only: mult_ac)
  have "9223372036854775808 * 9223372036854775808 \<le> uint f * uint (fp_f y)" by (intro mult_mono f y) auto
  also have "\<dots> \<le> 10 ^ 19 * 2 ^ g" unfolding p by (intro mult_right_mono) (use D in auto)
  finally have "(2::int) ^ 62 < 2 ^ g" by simp
  then have g: "62 < g" by (rule power_less_imp_less_exp[rotated]) simp
  obtain b where b: "a = Suc b" using D(3) by (cases a) auto
  define M where "M = D * 5 * 10 ^ b * 2 ^ (g - 63)"
  have M: "uint f * uint (fp_f y) = M * 18446744073709551616"
  proof -
    have "(2::int) ^ g = 2 ^ (g - 63) * 2 ^ 63" using g by (simp only: power_add[symmetric]) simp
    then show ?thesis unfolding p M_def b by simp
  qed
  have m: "uint (fp_f (Multiply y ?x)) = M"
    unfolding Multiply_value by (simp only: M diyfp.select_convs)
  have "of_int D * (10::real) ^ a * 2 powi (- fp_e (Multiply y ?x)) = (of_int D * 2 ^ k) * (10 ^ a * 2 ^ nat (- fp_e y)) / 18446744073709551616"
    unfolding powi_Multiply using y(3) by (simp add: powi_nat)
  also have "\<dots> = of_int (uint f * uint (fp_f y)) / 18446744073709551616" unfolding f(1) y(2) by simp
  also have "\<dots> = of_int M" unfolding M by simp
  finally show ?thesis unfolding off_by_def m by simp
qed

lemma Multiply_ge:
  assumes "9223372036854775808 \<le> uint (fp_f y)" "c * 2 \<le> uint (fp_f x)" "0 \<le> c"
  shows "c \<le> uint (fp_f (Multiply y x))"
proof -
  have "c * 2 * 9223372036854775808 \<le> uint (fp_f x) * uint (fp_f y)" by (intro mult_mono assms) (use assms in auto)
  then show ?thesis unfolding Multiply_value by (subst le_zdiv) auto
qed


section \<open>Scaling\<close>

lemma uint_add_small: "uint a + uint b < 18446744073709551616 \<Longrightarrow> uint (a + b :: u64) = uint a + uint b"
  by (rule uint_add_exact) simp

lemma ok_adjust:
  fixes E :: u64
  assumes x: "9223372036854775808 \<le> uint (fp_f x)" "fp_e x = - int k" and E: "uint E \<le> 32" "off_by V x (uint E)"
    and short: "len \<le> 19 \<Longrightarrow> V = of_int D \<and> uint (fp_f x) = D * 2 ^ k \<and> E = 0 \<and> 0 < D \<and> D < 10 ^ nat len"
    and len: "0 \<le> len" and a: "cde \<le> e" "e < cde + 8"
    and Q: "\<And>y E'. 4611686018427387904 \<le> uint (fp_f y) \<Longrightarrow> off_by (V * 10 ^ nat (e - cde)) y (uint E') \<Longrightarrow>
      uint E' \<le> uint E + 4 \<Longrightarrow> (e - cde = 6 \<Longrightarrow> y = Multiply (DiyFp 0xf424000000000000 (-44)) x) \<Longrightarrow> Q (y, E')"
  shows "ok (if cde \<noteq> e then do {
            let adjustment_exponent = e - cde;
            adjustment_power \<leftarrow> AdjustmentPowerOfTen adjustment_exponent;
            let input = Multiply adjustment_power x;
            if kMaxUint64DecimalDigits - len \<ge> adjustment_exponent then do {
              ensure (kDiySignificandSize = 64);
              Some (input, E) }
            else Some (input, E + 8 div 2) }
          else Some (x, E)) Q"
proof (cases "cde = e")
  case True
  then show ?thesis using Q[of x E] x E by simp
next
  case False
  have a0: "0 < e - cde" "e - cde < 8" using a False by simp_all
  have main: "ok (AdjustmentPowerOfTen (e - cde)) (\<lambda>y. ok (if kMaxUint64DecimalDigits - len \<ge> e - cde then do {
              ensure (kDiySignificandSize = 64);
              Some (Multiply y x, E) }
            else Some (Multiply y x, E + 8 div 2)) Q)"
  proof (rule ok_AdjustmentPowerOfTen[OF a0], goal_cases)
    case (1 f b)
    let ?y = "DiyFp f b" and ?p = "10 ^ nat (e - cde) :: real"
    have W: "?p * 2 powi (- fp_e ?y) = of_int (uint (fp_f ?y))" using 1 by (simp add: powi_nat)
    have m: "4611686018427387904 \<le> uint (fp_f (Multiply ?y x))" by (rule Multiply_ge) (use 1 x in simp_all)
    have s6: "e - cde = 6 \<Longrightarrow> Multiply ?y x = Multiply (DiyFp 0xf424000000000000 (-44)) x" using 1(5) by simp
    have e4: "8 div 2 = (4 :: u64)" by simp
    show ?case
    proof (cases "e - cde \<le> kMaxUint64DecimalDigits - len")
      case True
      then have l: "len \<le> 19 - (e - cde)" by simp
      then have S: "V = of_int D" "uint (fp_f x) = D * 2 ^ k" "E = 0" "0 < D" "D < 10 ^ nat len" using short a0 by auto
      have "D * 10 ^ nat (e - cde) < 10 ^ nat len * 10 ^ nat (e - cde)" using S(5) by (intro mult_strict_right_mono) auto
      also have "\<dots> = 10 ^ (nat len + nat (e - cde))" by (simp only: power_add)
      also have "\<dots> \<le> (10::int) ^ 19" using l a0 len by (intro power_increasing) auto
      finally have D19: "D * 10 ^ nat (e - cde) < 10 ^ 19" .
      have x': "x = \<lparr>fp_f = fp_f x, fp_e = - int k\<rparr>" using x(2) by simp
      have "off_by (V * ?p) (Multiply ?y \<lparr>fp_f = fp_f x, fp_e = - int k\<rparr>) 0"
        unfolding S(1) by (rule off_by_Multiply_short[OF S(4) D19 _ S(2)]) (use a0 x 1 in simp_all)
      then have "off_by (V * ?p) (Multiply ?y x) (uint E)" using x' S(3) by simp
      then show ?thesis using True Q[OF m _ _ s6] by (simp add: ok_bind ok_ensure)
    next
      case F: False
      have u: "uint (E + 8 div 2) = uint E + 4" unfolding e4 by (subst uint_add_small) (use E in simp_all)
      have "off_by (V * ?p) (Multiply ?y x) (uint (E + 8 div 2))"
        unfolding u by (rule off_by_Multiply_exact[OF E(2) W])
      from Q[OF m this _ s6] show ?thesis using F u by simp
    qed
  qed
  then show ?thesis using False by (simp only: Let_def ok_bind if_True not_False_eq_True)
qed

lemma ok_scale:
  fixes E :: u64
  assumes x: "9223372036854775808 \<le> uint (fp_f x)" "fp_e x = - int k" and E: "uint E \<le> 32" "off_by V x (uint E)"
    and short: "len \<le> 19 \<Longrightarrow> V = of_int D \<and> uint (fp_f x) = D * 2 ^ k \<and> E = 0 \<and> 0 < D \<and> D < 10 ^ nat len"
    and len: "0 \<le> len" and e: "-348 \<le> e" "e < 348"
    and Q: "\<And>y E'. 9223372036854775808 \<le> uint (fp_f y) \<Longrightarrow> off_less (V * 10 powi e) y (uint E') \<Longrightarrow> uint E' \<le> 180 \<Longrightarrow>
      (e = -342 \<Longrightarrow> \<exists>j. fp_e y = - int k - 1136 - int j \<and> uint (fp_f y) =
        uint (fp_f (Multiply (DiyFp 0xfa8fd5a0081c0288 (-1220)) (Multiply (DiyFp 0xf424000000000000 (-44)) x))) * 2 ^ j) \<Longrightarrow> ok (K y E') Q"
  shows "ok (do {
       (cached_power, cached_decimal_exponent) \<leftarrow> GetCachedPowerForDecimalExponent e;
       (input, error) \<leftarrow>
         (if cached_decimal_exponent \<noteq> e then do {
            let adjustment_exponent = e - cached_decimal_exponent;
            adjustment_power \<leftarrow> AdjustmentPowerOfTen adjustment_exponent;
            let input = Multiply adjustment_power x;
            if kMaxUint64DecimalDigits - len \<ge> adjustment_exponent then do {
              ensure (kDiySignificandSize = 64);
              Some (input, E) }
            else Some (input, E + 8 div 2) }
          else Some (x, E));
       let input = Multiply cached_power input;
       let error_b = 8 div 2;
       let error_ab = (if error = 0 then 0 else 1);
       let fixed_error = 8 div 2;
       let error = error + (error_b + error_ab + fixed_error);
       let old_e = fp_e input;
       input \<leftarrow> Normalize input;
       error \<leftarrow> shl64 error (old_e - fp_e input);
       K input error }) Q"
proof (subst ok_bind, rule ok_GetCachedPowerForDecimalExponent[OF e], goal_cases)
  case (1 s b d)
  note P = near_power_real[OF 1(3)] and de = 1(1)
  let ?c = "DiyFp s b"
  have c6: "d = -348" if "e = -342"
  proof -
    have "d \<le> -342" "-342 < d + 8" using 1 that by auto
    moreover have "- 348 \<le> d \<and> (d + 348) mod 8 = 0" using 1(5) by simp
    ultimately show ?thesis by presburger
  qed
  show ?case
    apply (simp only: prod.case)
    apply (subst ok_bind)
    apply (rule ok_adjust[OF x E short len 1(1,2)])
     apply assumption
    apply (simp only: prod.case)
  proof (goal_cases)
    case (1 y E1)
    note y = this
    let ?m = "Multiply ?c y"
    let ?E = "E1 + (8 div 2 + (if E1 = 0 then 0 else 1) + 8 div 2)"
    have m: "2305843009213693952 \<le> uint (fp_f ?m)" by (rule Multiply_ge) (use y P(2) in simp_all)
    then have m0: "fp_f ?m \<noteq> 0" by auto
    have uE: "uint E1 + 8 \<le> uint ?E" "uint ?E \<le> uint E1 + 9"
    proof -
      have "uint ?E = uint E1 + (if E1 = 0 then 8 else 9)" by (subst uint_add_small) (use y(3) E in auto)
      then show "uint E1 + 8 \<le> uint ?E" "uint ?E \<le> uint E1 + 9" by auto
    qed
    have V: "V * 10 ^ nat (e - d) * 10 powi d = V * 10 powi e"
    proof -
      have "(10::real) powi e = 10 powi (e - d) * 10 powi d" using power_int_add[of "10::real" "e - d" d] by simp
      then show ?thesis using de by (simp add: powi_nat)
    qed
    have off: "off_less (V * 10 powi e) ?m (uint ?E)"
    proof -
      have "off_less (V * 10 ^ nat (e - d) * 10 powi d) ?m (uint E1 + 8)"
        by (rule off_by_Multiply_power[OF y(2)]) (use P in simp)
      then have "off_less (V * 10 powi e) ?m (uint E1 + 8)" unfolding V .
      then show ?thesis using uE(1) unfolding off_less_def by linarith
    qed
    show ?case
      apply (simp only: Let_def)
      apply (subst ok_bind, rule ok_Normalize[OF m0])
    proof (goal_cases)
      case (1 f j)
      have j2: "j \<le> 2"
      proof -
        have "2305843009213693952 * 2 ^ j \<le> uint (fp_f ?m) * 2 ^ j" by (intro mult_right_mono m) simp
        also have "\<dots> < 18446744073709551616" using 1(2) uint_lt_2p[of f] by simp
        finally have "(2::int) ^ j < 2 ^ 3" by simp
        then have "j < 3" by (rule power_less_imp_less_exp[rotated]) simp
        then show ?thesis by simp
      qed
      have "(2::int) ^ j \<le> 2 ^ 2" using j2 by (intro power_increasing) auto
      then have Ej: "uint ?E * 2 ^ j \<le> 45 * 4" using uE y(3) E by (intro mult_mono) auto
      have pE: "uint (push_bit j ?E) = uint ?E * 2 ^ j" by (rule uint_push_bit_exact) (use Ej in simp)
      have sh: "fp_e ?m - (fp_e ?m - int j) = int j" by simp
      have "ok (K \<lparr>fp_f = f, fp_e = fp_e ?m - int j\<rparr> (push_bit j ?E)) Q"
      proof (rule Q)
        show "off_less (V * 10 powi e) \<lparr>fp_f = f, fp_e = fp_e ?m - int j\<rparr> (uint (push_bit j ?E))"
          unfolding pE by (rule off_less_shift[OF off 1(2)])
        show "uint (push_bit j ?E) \<le> 180" using pE Ej by simp
        assume e6: "e = -342"
        have d: "d = -348" by (rule c6[OF e6])
        have "y = Multiply (DiyFp 0xf424000000000000 (-44)) x" using y(4) e6 d by simp
        moreover have "?c = DiyFp 0xfa8fd5a0081c0288 (-1220)" using \<open>d = -348 \<longrightarrow> _\<close> d by simp
        ultimately have mm: "?m = Multiply (DiyFp 0xfa8fd5a0081c0288 (-1220)) (Multiply (DiyFp 0xf424000000000000 (-44)) x)"
          by simp
        have "fp_e ?m = - int k - 1136" unfolding mm Multiply_value(2) x(2) by simp
        then show "\<exists>j'. fp_e \<lparr>fp_f = f, fp_e = fp_e ?m - int j\<rparr> = - int k - 1136 - int j' \<and>
          uint (fp_f \<lparr>fp_f = f, fp_e = fp_e ?m - int j\<rparr>) =
          uint (fp_f (Multiply (DiyFp 0xfa8fd5a0081c0288 (-1220)) (Multiply (DiyFp 0xf424000000000000 (-44)) x))) * 2 ^ j'"
          using 1(2) unfolding mm by (intro exI[of _ j]) simp
      qed (use 1 in simp)
      then show ?case using j2 unfolding diyfp.select_convs sh by (simp add: ok_bind ok_shl64)
    qed
  qed
qed

end
