(* ===== verification/Strtod_Diy.thy ===== *)
theory Strtod_Diy
  imports Strtod_Error
begin

text \<open>\<open>DiyFpStrtod\<close>: what it returns with \<open>true\<close> is the nearest double, with \<open>false\<close> that or the one below.\<close>

section \<open>Rounding\<close>

text \<open>
  The outcome for the value \<open>V\<close>: a correct double, or (not sure) a double that is right or just
  below the right one.
\<close>

definition units_of :: "real \<Rightarrow> real" where
  "units_of V = V * 2 ^ 1074"

definition outcome :: "real \<Rightarrow> bool \<Rightarrow> double \<Rightarrow> bool" where
  "outcome V b r \<longleftrightarrow> around (units_of V) (uint r) \<and> (b \<longrightarrow> near (units_of V) (uint r)) \<or> near (units_of V) (uint r)"

lemma size_cases:
  "SignificandSizeForOrderOfMagnitude n = (if -1021 \<le> n then 53 else if n \<le> -1074 then 0 else n + 1074)"
  by (simp add: SignificandSizeForOrderOfMagnitude_def)

lemma mid_0: "mid 0 = 1"
  by (simp add: mid_def fmt_units_def fmt_sig_def fmt_shift_def)

lemma powi_half: "int (Suc n) = m \<Longrightarrow> 2 * (2 powi (- m) * 2 ^ n) = (1 :: real)"
  by (auto simp: power_int_def power_inverse field_simps nat_add_distrib)

text \<open>The last steps, once the number of surplus digits is at most 60.\<close>

lemma ok_round:
  fixes error :: u64 and p :: int
  assumes p: "11 \<le> p" "p \<le> 60" and q: "q = fp_e x + p"
    and grid: "q < -1074 \<and> uint (fp_f x) div 2 ^ nat p = 0 \<and> V \<le> 2 powi (-1075) \<or>
      -1074 \<le> q \<and> uint (fp_f x) div 2 ^ nat p < 2 ^ 53 \<and> (q = -1074 \<or> 2 ^ 52 \<le> uint (fp_f x) div 2 ^ nat p)"
    and E: "uint error \<le> 2048" "off_less V x (uint error)"
    and Q: "\<And>b r. outcome V b r \<Longrightarrow> Q (b, r)"
  shows "ok (do {
       ensure (kDiySignificandSize = 64);
       ensure (p < 64);
       let one64 = (1 :: u64);
       bit \<leftarrow> shl64 one64 p;
       let precision_bits_mask = bit - 1;
       let precision_bits = fp_f x AND precision_bits_mask;
       half_way \<leftarrow> shl64 one64 (p - 1);
       let precision_bits = precision_bits * 8;
       let half_way = half_way * 8;
       f \<leftarrow> shr64 (fp_f x) p;
       let rounded_input = DiyFp f (fp_e x + p);
       let rounded_input =
         (if precision_bits \<ge> half_way + error
          then DiyFp (fp_f rounded_input + 1) (fp_e rounded_input) else rounded_input);
       result \<leftarrow> DiyFpToUint64 rounded_input;
       if half_way - error < precision_bits \<and> precision_bits < half_way + error
       then Some (False, result)
       else Some (True, result) }) Q"
proof -
  define n where "n = nat p"
  have n: "11 \<le> n" "n \<le> 60" "p = int n" using p by (auto simp: n_def)
  let ?f = "uint (fp_f x)" and ?E = "uint error"
  define F R where "F = ?f div 2 ^ n" and "R = ?f mod 2 ^ n"
  have P: "(2::int) ^ n \<le> 2 ^ 60" "(2::int) ^ 11 \<le> 2 ^ n" using power_increasing[OF n(2), of "2::int"] power_increasing[OF n(1), of "2::int"] by simp_all
  have R: "0 \<le> R" "R < 2 ^ n" by (simp_all add: R_def)
  have F0: "0 \<le> F" by (simp add: F_def pos_imp_zdiv_nonneg_iff)
  have mask: "push_bit n 1 - 1 = (mask n :: u64)" by (simp add: mask_eq_decr_exp push_bit_eq_mult)
  have pb: "uint ((fp_f x AND mask n) * 8) = 8 * R"
    by (subst uint_mult_exact) (use R P in \<open>simp_all add: uint_and_mask R_def[symmetric]\<close>)
  have h: "(2::int) ^ n = 2 * 2 ^ (n - 1)" using n by (cases n) auto
  define H :: u64 where "H = push_bit (n - 1) 1"
  have h1: "uint H = 2 ^ (n - 1)" unfolding H_def by (subst uint_push_bit_exact) (use P h in simp_all)
  have hw: "uint (H * 8) = 8 * 2 ^ (n - 1)"
    by (subst uint_mult_exact) (use P h in \<open>simp_all add: h1\<close>)
  let ?h = "H * 8" and ?b = "(fp_f x AND mask n) * 8"
  have he: "uint (?h + error) = 8 * 2 ^ (n - 1) + ?E" by (subst uint_add_small) (use P h E hw in simp_all)
  have hs: "uint (?h - error) = 8 * 2 ^ (n - 1) - ?E" by (subst uint_sub_exact) (use P h E hw in simp_all)
  have cmp: "(?h + error \<le> ?b) = (8 * 2 ^ (n - 1) + ?E \<le> 8 * R)" "(?h - error < ?b) = (8 * 2 ^ (n - 1) - ?E < 8 * R)"
    "(?b < ?h + error) = (8 * R < 8 * 2 ^ (n - 1) + ?E)"
    unfolding word_le_def word_less_def he hs pb by simp_all
  have df: "uint (drop_bit n (fp_f x)) = F" by (simp add: uint_drop_bit F_def)
  have Fs: "F < 2 ^ 53" using grid by (auto simp: F_def n_def)
  have df1: "uint (drop_bit n (fp_f x) + 1) = F + 1" by (subst uint_add_small) (use Fs df in simp_all)
  have res: "ok (DiyFpToUint64 (DiyFp (if ?h + error \<le> ?b then drop_bit n (fp_f x) + 1 else drop_bit n (fp_f x)) q))
      (\<lambda>r. outcome V (\<not> (?h - error < ?b \<and> ?b < ?h + error)) r)"
  proof (cases "q < -1074")
    case True
    then have g: "F = 0" "V \<le> 2 powi (-1075)" using grid by (auto simp: F_def n_def)
    let ?w = "if ?h + error \<le> ?b then drop_bit n (fp_f x) + 1 else drop_bit n (fp_f x)"
    have w1: "uint ?w \<le> 1" using df df1 g by simp
    have nr: "near (units_of V) 0"
    proof -
      have "2 * units_of V \<le> 2 * (2 powi (-1075) * 2 ^ 1074)" unfolding units_of_def by (intro mult_left_mono mult_right_mono g) auto
      also have "\<dots> = 1" by (rule powi_half) simp
      finally show ?thesis by (auto simp: near_def mid_0)
    qed
    show ?thesis
    proof (rule ok_DiyFpToUint64)
      fix j r assume D: "diy_to_double (DiyFp ?w q) j r"
      have "j = 0"
      proof (rule ccontr)
        assume "j \<noteq> 0"
        then have "2 ^ 52 \<le> uint ?w div 2 ^ j" using D unfolding diy_to_double_def by simp
        then have "1 \<le> uint ?w div 2 ^ j" by simp
        then have "1 * 2 ^ j \<le> uint ?w" by (subst (asm) le_zdiv) simp_all
        moreover have "(2::int) ^ 1 \<le> 2 ^ j" using \<open>j \<noteq> 0\<close> by (intro power_increasing) auto
        ultimately show False using w1 by simp
      qed
      then have "r = 0" using D True unfolding diy_to_double_def by simp
      then show "outcome V (\<not> (?h - error < ?b \<and> ?b < ?h + error)) r" using nr by (simp add: outcome_def)
    qed
  next
    case False
    then have g: "-1074 \<le> q" "q = -1074 \<or> 2 ^ 52 \<le> F" using grid by (auto simp: F_def n_def)
    define k where "k = nat (q + 1074)"
    have k: "int k = q + 1074" using g by (simp add: k_def)
    have u: "units_of V * 2 ^ n = (V * 2 powi (- fp_e x)) * 2 ^ k"
    proof -
      have "(2::real) ^ 1074 * 2 ^ n = 2 powi (1074 + int n)" by (simp add: power_int_def nat_add_distrib power_add)
      also have "1074 + int n = - fp_e x + int k" using k q n by simp
      also have "(2::real) powi (- fp_e x + int k) = 2 powi (- fp_e x) * 2 ^ k"
        using powi_shift[of "fp_e x" k] by (simp add: add.commute)
      finally show ?thesis unfolding units_of_def by (simp only: mult.assoc)
    qed
    have kg: "k = 0 \<or> 2 ^ 52 \<le> ?f div 2 ^ n" using g k by (auto simp: F_def)
    have f0: "0 \<le> ?f" by simp
    note A = round_approx[OF f0 Fs[unfolded F_def] kg n(1) E(1) E(2)[unfolded off_less_def] u, folded F_def R_def]
    show ?thesis
    proof (rule ok_rounded_to_double)
      fix r :: double assume r: "uint r = min INFTY (uint (if ?h + error \<le> ?b then drop_bit n (fp_f x) + 1 else drop_bit n (fp_f x)) + (q + 1074) * 2 ^ 52)"
      show "outcome V (\<not> (?h - error < ?b \<and> ?b < ?h + error)) r"
      proof (cases "8 * 2 ^ (n - 1) + ?E \<le> 8 * R")
        case True
        then have "uint r = min INFTY (F + int k * 2 ^ 52 + 1)" unfolding r cmp k using df1 by (simp add: algebra_simps)
        then show ?thesis using A(2)[OF True] by (simp add: outcome_def)
      next
        case F2: False
        then have "uint r = min INFTY (F + int k * 2 ^ 52)" unfolding r cmp k using df by simp
        then show ?thesis using A(1,3) F2 unfolding outcome_def cmp by auto
      qed
    qed (use g Fs F0 df df1 in auto)
  qed
  have q': "fp_e x + p = q" using q by simp
  have np: "nat (int n - 1) = n - 1" using n by (simp add: nat_diff_distrib)
  have e1: "(if c then DiyFp (fp_f (DiyFp f q) + 1) (fp_e (DiyFp f q)) else DiyFp f q) = DiyFp (if c then f + 1 else f) q" for c f
    by simp
  obtain r where r: "DiyFpToUint64 (DiyFp (if ?h + error \<le> ?b then drop_bit n (fp_f x) + 1 else drop_bit n (fp_f x)) q) = Some r"
    "outcome V (\<not> (?h - error < ?b \<and> ?b < ?h + error)) r" by (rule okE[OF res])
  have bd: "0 \<le> int n" "int n < 64" "0 \<le> int n - 1" "int n - 1 < 64" using n by auto
  show ?thesis
    unfolding q' Let_def
    apply (simp only: ok_bind ok_ensure ok_shl64 ok_shr64 e1 n(3) nat_int np mask H_def[symmetric] r(1) bd ok_Some)
    using r(2) Q by auto
qed


lemma off_less_down:
  fixes E E' :: int
  assumes o: "off_less V x E" and f: "uint f = uint (fp_f x) div 2 ^ k" and E': "E div 2 ^ k + 9 \<le> E'"
  shows "off_less V \<lparr>fp_f = f, fp_e = fp_e x + int k\<rparr> E'"
proof -
  define K where "K = (2::real) ^ k"
  have K: "0 < K" by (simp add: K_def)
  define v a where "v = V * 2 powi (- fp_e x)" and "a = real_of_int (uint (fp_f x))"
  have va: "8 * \<bar>v - a\<bar> < of_int E" using o by (simp only: off_less_def v_def a_def)
  have "v = V * 2 powi (- (fp_e x + int k)) * K"
    using powi_shift[of "fp_e x + int k" k] by (simp add: v_def K_def mult.assoc)
  then have v: "V * 2 powi (- (fp_e x + int k)) = v / K" using K by (simp add: field_simps)
  define q r where "q = uint (fp_f x) div 2 ^ k" and "r = uint (fp_f x) mod 2 ^ k"
  have "uint (fp_f x) = q * 2 ^ k + r" unfolding q_def r_def by (rule div_mult_mod_eq[symmetric])
  then have a: "a = of_int q * K + of_int r" by (simp only: a_def K_def of_int_add of_int_mult of_int_power of_int_numeral)
  have "0 \<le> r" "r < 2 ^ k" by (simp_all add: r_def)
  then have r: "0 \<le> real_of_int r" "real_of_int r < K"
    using of_int_less_iff[of r "2 ^ k", where ?'a = real] by (simp_all add: K_def)
  have "E = E div 2 ^ k * 2 ^ k + E mod 2 ^ k" "E mod 2 ^ k < 2 ^ k" by (rule div_mult_mod_eq[symmetric]) simp
  then have "E < (E div 2 ^ k + 1) * 2 ^ k" by (simp only: distrib_right mult_1)
  also have "\<dots> \<le> (E' - 8) * 2 ^ k" by (rule mult_right_mono) (use E' in auto)
  finally have "of_int E < (of_int ((E' - 8) * 2 ^ k) :: real)" by (simp only: of_int_less_iff)
  then have EK: "of_int E < (of_int E' - 8) * K" by (simp add: K_def)
  have sum: "8 * \<bar>d\<bar> < e \<Longrightarrow> e < (m - 8) * K \<Longrightarrow> 0 \<le> r \<Longrightarrow> r < K \<Longrightarrow> 8 * \<bar>d + r\<bar> < m * K" for d e m r :: real
    by (simp add: abs_if left_diff_distrib split: if_splits)
  have "8 * \<bar>(v - a) + of_int r\<bar> < of_int E' * K" by (rule sum[OF va EK r])
  then have "8 * \<bar>v - of_int q * K\<bar> < of_int E' * K" unfolding a by simp
  also have "\<bar>v - of_int q * K\<bar> = \<bar>v / K - of_int q\<bar> * K"
  proof -
    have "v - of_int q * K = (v / K - of_int q) * K" using K by (simp add: left_diff_distrib)
    then show ?thesis using K by (simp add: abs_mult)
  qed
  finally have "8 * \<bar>v / K - of_int q\<bar> < of_int E'" using K by (simp only: mult.assoc[symmetric] mult_less_cancel_right_pos)
  then show ?thesis unfolding off_less_def diyfp.select_convs f v q_def .
qed

lemma ok_round_phase:
  fixes error :: u64
  assumes x: "9223372036854775808 \<le> uint (fp_f x)" and E: "uint error \<le> 180" "off_less V x (uint error)"
    and tiny: "fp_e x + 64 \<le> -1075 \<Longrightarrow> V \<le> 2 powi (-1075)"
    and Q: "\<And>b r. outcome V b r \<Longrightarrow> Q (b, r)"
  shows "ok (do {
       let order_of_magnitude = kDiySignificandSize + fp_e x;
       let effective_significand_size = SignificandSizeForOrderOfMagnitude order_of_magnitude;
       let precision_digits_count = kDiySignificandSize - effective_significand_size;
       (input, error, precision_digits_count) \<leftarrow>
         (if precision_digits_count + 3 \<ge> kDiySignificandSize then do {
            let shift_amount = precision_digits_count + 3 - kDiySignificandSize + 1;
            f \<leftarrow> shr64 (fp_f x) shift_amount;
            e \<leftarrow> shr64 error shift_amount;
            Some (DiyFp f (fp_e x + shift_amount), e + 1 + 8,
                  precision_digits_count - shift_amount) }
          else Some (x, error, precision_digits_count));
       ensure (kDiySignificandSize = 64);
       ensure (precision_digits_count < 64);
       let one64 = (1 :: u64);
       bit \<leftarrow> shl64 one64 precision_digits_count;
       let precision_bits_mask = bit - 1;
       let precision_bits = fp_f input AND precision_bits_mask;
       half_way \<leftarrow> shl64 one64 (precision_digits_count - 1);
       let precision_bits = precision_bits * 8;
       let half_way = half_way * 8;
       f \<leftarrow> shr64 (fp_f input) precision_digits_count;
       let rounded_input = DiyFp f (fp_e input + precision_digits_count);
       let rounded_input =
         (if precision_bits \<ge> half_way + error
          then DiyFp (fp_f rounded_input + 1) (fp_e rounded_input) else rounded_input);
       result \<leftarrow> DiyFpToUint64 rounded_input;
       if half_way - error < precision_bits \<and> precision_bits < half_way + error
       then Some (False, result)
       else Some (True, result) }) Q"
proof -
  define p where "p = 64 - SignificandSizeForOrderOfMagnitude (64 + fp_e x)"
  have fx: "uint (fp_f x) < 18446744073709551616" using uint_lt_2p[of "fp_f x"] by simp
  have pq: "p = 11 \<and> -1085 \<le> fp_e x \<or> 11 < p \<and> p < 64 \<and> fp_e x + p = -1074 \<or> p = 64 \<and> fp_e x + 64 \<le> -1074"
    by (auto simp: p_def size_cases)
  have small: "uint f div 2 ^ nat p < 2 ^ 53" if "11 \<le> p" for f :: u64
  proof -
    have "(2::int) ^ 11 \<le> 2 ^ nat p" using that by (intro power_increasing) auto
    then have "2 ^ 53 * (2::int) ^ 11 \<le> 2 ^ 53 * 2 ^ nat p" by (intro mult_left_mono) auto
    moreover have "uint f < 18446744073709551616" using uint_lt_2p[of f] by simp
    ultimately have "uint f < 2 ^ 53 * 2 ^ nat p" by simp
    then have "\<not> 2 ^ 53 \<le> uint f div 2 ^ nat p" by (subst le_zdiv) simp_all
    then show ?thesis by simp
  qed
  show ?thesis
  proof (cases "64 \<le> p + 3")
    case False
    then have pb: "11 \<le> p" "p \<le> 60" using pq by auto
    have g: "-1074 \<le> fp_e x + p" "fp_e x + p = -1074 \<or> 2 ^ 52 \<le> uint (fp_f x) div 2 ^ nat p"
    proof -
      show "-1074 \<le> fp_e x + p" using pq False by auto
      have "2 ^ 52 \<le> uint (fp_f x) div 2 ^ nat p" if "p = 11" unfolding that by (subst le_zdiv) (use x in simp_all)
      then show "fp_e x + p = -1074 \<or> 2 ^ 52 \<le> uint (fp_f x) div 2 ^ nat p" using pq False by auto
    qed
    have E2: "uint error \<le> 2048" using E(1) by simp
    have G: "fp_e x + p < -1074 \<and> uint (fp_f x) div 2 ^ nat p = 0 \<and> V \<le> 2 powi (-1075) \<or>
      -1074 \<le> fp_e x + p \<and> uint (fp_f x) div 2 ^ nat p < 2 ^ 53 \<and> (fp_e x + p = -1074 \<or> 2 ^ 52 \<le> uint (fp_f x) div 2 ^ nat p)"
      using g small[OF pb(1)] by blast
    have F: "(64 \<le> p + 3) = False" using False by simp
    show ?thesis
      unfolding kDiySignificandSize_def Let_def[of "64 + fp_e x"]
        Let_def[of "SignificandSizeForOrderOfMagnitude (64 + fp_e x)"] p_def[symmetric] Let_def[of p] F if_False
      apply (simp only: ok_bind[of "Some _"] ok_Some prod.case)
      apply (rule ok_round[where q = "fp_e x + p" and V = V and Q = Q, unfolded kDiySignificandSize_def])
            apply (rule pb refl G E2 E(2))+
      apply (erule Q)
      done
  next
    case True
    define k where "k = nat (p - 60)"
    have k: "p = 60 + int k" "1 \<le> k" "k \<le> 4" using True pq by (auto simp: k_def)
    have sa: "p + 3 - 64 + 1 = int k" using k by simp
    let ?f = "drop_bit k (fp_f x)" and ?E = "drop_bit k error + 1 + 8"
    let ?y = "\<lparr>fp_f = ?f, fp_e = fp_e x + int k\<rparr>"
    have uf: "uint ?f = uint (fp_f x) div 2 ^ k" by (simp add: uint_drop_bit)
    have de: "uint (drop_bit k error) = uint error div 2 ^ k" by (simp add: uint_drop_bit)
    have le: "uint error div 2 ^ k \<le> 180"
    proof -
      have "uint error div 2 ^ k \<le> 180 div 2 ^ k" by (rule zdiv_mono1) (use E in auto)
      moreover have "(180::int) div 2 ^ k \<le> 180"
      proof (rule ccontr)
        assume "\<not> (180::int) div 2 ^ k \<le> 180"
        then have "(181::int) \<le> 180 div 2 ^ k" by simp
        then have "181 * (2::int) ^ k \<le> 180" by (subst (asm) le_zdiv) simp_all
        moreover have "(1::int) \<le> 2 ^ k" by simp
        ultimately show False by linarith
      qed
      ultimately show ?thesis by linarith
    qed
    have uE: "uint ?E = uint error div 2 ^ k + 9"
    proof -
      have "uint (drop_bit k error + 1) = uint error div 2 ^ k + 1" by (subst uint_add_small) (use de le in simp_all)
      then show ?thesis by (subst uint_add_small) (use le in simp_all)
    qed
    have off: "off_less V ?y (uint ?E)" by (rule off_less_down[OF E(2) uf]) (unfold uE, simp)
    have E2: "uint ?E \<le> 2048" using uE le by simp
    have d0: "uint ?f div 2 ^ nat 60 = 0" if "k = 4"
    proof -
      have "uint (fp_f x) div 2 ^ 4 div 2 ^ 60 = uint (fp_f x) div 18446744073709551616"
        by (subst zdiv_zmult2_eq[symmetric]) simp_all
      then show ?thesis using fx that uf by simp
    qed
    have d1: "uint ?f div 2 ^ nat 60 < 2 ^ 53"
    proof -
      have "\<not> 2 ^ 53 \<le> uint ?f div 2 ^ nat 60" by (subst le_zdiv) (use uint_lt_2p[of ?f] in simp_all)
      then show ?thesis by simp
    qed
    have q: "fp_e x + int k + 60 = fp_e x + p" using k by simp
    have G: "fp_e x + p < -1074 \<and> uint (fp_f ?y) div 2 ^ nat 60 = 0 \<and> V \<le> 2 powi (-1075) \<or>
      -1074 \<le> fp_e x + p \<and> uint (fp_f ?y) div 2 ^ nat 60 < 2 ^ 53 \<and> (fp_e x + p = -1074 \<or> 2 ^ 52 \<le> uint (fp_f ?y) div 2 ^ nat 60)"
      using pq True k d0 d1 tiny by (auto simp del: nat_numeral)
    have y: "DiyFp ?f (fp_e x + int k) = ?y" by (simp add: DiyFp_def)
    have T: "(64 \<le> p + 3) = True" using True by simp
    have sixty: "p - int k = 60" using k by simp
    have shk: "ok (shr64 w (int k)) P = P (drop_bit k w)" for w P using k by (simp add: ok_shr64)
    have q2: "fp_e x + p = fp_e ?y + 60" using q by simp
    show ?thesis
      unfolding kDiySignificandSize_def Let_def[of "64 + fp_e x"]
        Let_def[of "SignificandSizeForOrderOfMagnitude (64 + fp_e x)"] p_def[symmetric] Let_def[of p] T if_True
        sa Let_def[of "int k"] sixty
      apply (simp only: ok_bind[of "Option.bind _ _"] ok_bind[of "shr64 _ _"] shk ok_Some prod.case y)
      apply (rule ok_round[where q = "fp_e x + p" and V = V and Q = Q, unfolded kDiySignificandSize_def])
            apply (simp, simp, rule q2, rule G, rule E2, rule off)
      apply (erule Q)
      done
  qed
qed


section \<open>Below the smallest denormal\<close>

text \<open>
  Half the smallest denormal is the one place where the error bound does not decide: an
  approximation just below it is taken to be zero without a look at the error. No input that is
  above it is approximated below it.
\<close>

lemma Multiply_mono: "a \<le> uint (fp_f x) \<Longrightarrow> 0 \<le> a \<Longrightarrow>
  (uint (fp_f y) * a + 9223372036854775808) div 18446744073709551616 \<le> uint (fp_f (Multiply y x))"
  unfolding Multiply_value by (intro zdiv_mono1 add_right_mono) (simp_all add: mult.commute[of "uint (fp_f x)"] mult_left_mono)

lemma tiny_product:
  assumes "a \<le> uint (fp_f x)" "0 \<le> a"
  shows "(18054884314459144840 * ((17592186044416000000 * a + 9223372036854775808) div 18446744073709551616) + 9223372036854775808)
      div 18446744073709551616 \<le>
    uint (fp_f (Multiply (DiyFp 0xfa8fd5a0081c0288 (-1220)) (Multiply (DiyFp 0xf424000000000000 (-44)) x)))"
proof -
  let ?A = "DiyFp 0xf424000000000000 (-44)" and ?c = "DiyFp 0xfa8fd5a0081c0288 (-1220)"
  have 1: "(17592186044416000000 * a + 9223372036854775808) div 18446744073709551616 \<le> uint (fp_f (Multiply ?A x))"
    using Multiply_mono[OF assms, of ?A] by simp
  have 2: "0 \<le> (17592186044416000000 * a + 9223372036854775808) div 18446744073709551616"
    using assms(2) by (simp add: pos_imp_zdiv_nonneg_iff)
  show ?thesis using Multiply_mono[OF 1 2, of ?c] by simp
qed

lemma powi_add: "k = m + n \<Longrightarrow> a \<noteq> 0 \<Longrightarrow> (a::real) powi k = a powi m * a powi n"
  by (simp add: power_int_add)

lemma tiny_scaled:
  fixes V Z :: real
  assumes Z: "V = Z * 10 powi (-348)" and lo: "2 powi (-1075) < V" and hi: "V * 2 powi 1139 < 18446744073709551639"
  shows "2470328229206232720800000 < Z" "Z < 2470328229206232724200000"
proof -
  define T c where "T = (10::real) powi (-348) * 2 powi (- (- 1220))" and "c = (2::real) powi 1139"
  have "near_power 18054884314459144840 (-1220) (-348)"
    using kCachedPowers_nth(2)[of 0] by (simp add: power_ok_def kCachedPowers_def)
  from near_power_real(1)[OF this, folded T_def]
  have T: "2 * \<bar>T - 18054884314459144840\<bar> \<le> 1" by (simp only: of_int_numeral)
  from T have T1: "18054884314459144839 < T" "T < 18054884314459144841" by (auto simp: abs_if split: if_splits)
  have T2: "2 * T \<le> 36109768628918289681" "36109768628918289679 \<le> 2 * T" using T by (auto simp: abs_if split: if_splits)
  have c: "(2::real) powi (- (- 1220)) = c * 2417851639229258349412352"
  proof -
    have "(2::real) powi (- (- 1220)) = 2 powi 1139 * 2 powi 81" by (rule powi_add) simp_all
    moreover have "(2::real) powi 81 = 2417851639229258349412352" by simp
    ultimately show ?thesis unfolding c_def by (simp only:)
  qed
  have ZT: "Z * T = V * c * 2417851639229258349412352" unfolding Z T_def c by (simp only: mult_ac)
  have c0: "0 < c" by (simp add: c_def)
  have "2 powi (-1075) * c < V * c" using lo c0 by (rule mult_strict_right_mono)
  also have "2 powi (-1075) * c = 18446744073709551616"
  proof -
    have "(2::real) powi 64 = 2 powi (-1075) * 2 powi 1139" by (rule powi_add) simp_all
    moreover have "(2::real) powi 64 = 18446744073709551616" by simp
    ultimately show ?thesis unfolding c_def by (simp only:)
  qed
  finally have lo': "44601490397061246283071436545296723011960832 < Z * T" unfolding ZT by simp
  have hi': "Z * T < 18446744073709551639 * 2417851639229258349412352" unfolding ZT using hi[folded c_def] by simp
  show "2470328229206232720800000 < Z"
  proof (rule ccontr)
    assume "\<not> 2470328229206232720800000 < Z"
    then have "Z * T \<le> 2470328229206232720800000 * T" using T1 by (intro mult_right_mono) auto
    then show False using lo' T2 by linarith
  qed
  show "Z < 2470328229206232724200000"
  proof (rule ccontr)
    assume "\<not> Z < 2470328229206232724200000"
    then have "2470328229206232724200000 * T \<le> Z * T" using T1 by (intro mult_right_mono) auto
    then show False using hi' T2 by linarith
  qed
qed


definition dec_real :: "u8 list \<Rightarrow> int \<Rightarrow> real" where
  "dec_real cs e = of_int (dec_val cs) * 10 powi e"

lemma read_as_real:
  assumes "read_as cs f r"
  shows "2 * \<bar>of_int (dec_val cs) / 10 ^ r - of_int f\<bar> \<le> (1::real)"
    "dec_real cs e = of_int (dec_val cs) / 10 ^ r * 10 powi (e + int r)"
proof -
  have "2 * \<bar>dec_val cs - f * 10 ^ r\<bar> \<le> 10 ^ r" using assms by (simp add: read_as_def)
  then have i: "of_int (2 * \<bar>dec_val cs - f * 10 ^ r\<bar>) \<le> (of_int (10 ^ r) :: real)" by (simp only: of_int_le_iff)
  have e: "of_int (dec_val cs) - of_int f * 10 ^ r = (of_int (dec_val cs) / 10 ^ r - of_int f :: real) * 10 ^ r"
    by (simp add: left_diff_distrib)
  have "of_int (2 * \<bar>dec_val cs - f * 10 ^ r\<bar>) = 2 * \<bar>(of_int (dec_val cs) / 10 ^ r - of_int f :: real) * 10 ^ r\<bar>"
    unfolding e[symmetric] by simp
  also have "\<dots> = 2 * \<bar>of_int (dec_val cs) / 10 ^ r - of_int f :: real\<bar> * 10 ^ r" by (simp add: abs_mult)
  finally have "2 * \<bar>of_int (dec_val cs) / 10 ^ r - of_int f :: real\<bar> * 10 ^ r \<le> 1 * 10 ^ r" using i by simp
  then show "2 * \<bar>of_int (dec_val cs) / 10 ^ r - of_int f\<bar> \<le> (1::real)" by (rule mult_right_le_imp_le) simp
  have "(10::real) powi (e + int r) = 10 powi e * 10 ^ r" by (simp add: power_int_add power_int_of_nat)
  then show "dec_real cs e = of_int (dec_val cs) / 10 ^ r * 10 powi (e + int r)" by (simp add: dec_real_def)
qed

lemma tiny_input:
  fixes V0 :: real and r :: nat
  assumes V0: "2 * \<bar>V0 - of_int f\<bar> \<le> 1" "r = 0 \<longrightarrow> V0 = of_int f" "0 < r \<longrightarrow> 1844674407370955160 < f"
    and f: "f \<le> 18446744073709551610"
    and lo: "2 powi (-1075) < V0 * 10 powi e" and hi: "V0 * 10 powi e * 2 powi 1139 < 18446744073709551639"
  shows "e = -342 \<and> 2470328229206232721 \<le> f"
proof -
  define Z where "Z = V0 * 10 powi (e + 348)"
  have "(10::real) powi e = 10 powi (e + 348) * 10 powi (-348)" by (rule powi_add) simp_all
  then have "V0 * 10 powi e = Z * 10 powi (-348)" unfolding Z_def by (simp only: mult.assoc)
  note Z = tiny_scaled[OF this lo hi]
  have b: "of_int f - 1 / 2 \<le> V0" "V0 \<le> of_int f + 1 / 2" using V0(1) by (auto simp: abs_if split: if_splits)
  have fr: "real_of_int f \<le> 18446744073709551610" using f of_int_le_iff[of f 18446744073709551610, where ?'a = real] by simp
  consider "e \<le> -343" | "e = -342" | "-341 \<le> e" by linarith
  then show ?thesis
  proof cases
    case 1
    have "(10::real) powi (e + 348) \<le> 10 powi 5" by (rule power_int_increasing) (use 1 in auto)
    then have p: "(10::real) powi (e + 348) \<le> 100000" by simp
    have "Z \<le> 18446744073709551611 * 10 powi (e + 348)" unfolding Z_def by (rule mult_right_mono) (use b fr in auto)
    also have "\<dots> \<le> 18446744073709551611 * 100000" by (rule mult_left_mono[OF p]) simp
    finally show ?thesis using Z(1) by simp
  next
    case 2
    then have "Z = V0 * 1000000" by (simp add: Z_def)
    then have "2470328229206232720.8 < V0" using Z(1) by simp
    then have "2470328229206232720 < real_of_int f" using b by simp
    then show ?thesis using 2 by simp
  next
    case 3
    define n where "n = nat (e + 341)"
    have e: "e + 348 = int n + 7" using 3 by (simp add: n_def)
    have Zn: "Z = V0 * 10 ^ n * 10000000"
      unfolding Z_def e using power_int_add[of "10::real" "int n" 7] by (simp add: power_int_of_nat)
    show ?thesis
    proof (cases "r = 0")
      case True
      then have "Z = of_int (f * 10 ^ n) * 10000000" using V0(2) Zn by simp
      then have "of_int 247032822920623272 < real_of_int (f * 10 ^ n)" "real_of_int (f * 10 ^ n) < of_int 247032822920623273"
        using Z by simp_all
      then have "247032822920623272 < f * 10 ^ n" "f * 10 ^ n < 247032822920623273" by (simp_all only: of_int_less_iff)
      then show ?thesis by simp
    next
      case False
      then have "1844674407370955160 < f" using V0(3) by simp
      then have "of_int 1844674407370955160 < real_of_int f" by (simp only: of_int_less_iff)
      then have v: "1844674407370955159 \<le> V0" using b by simp
      have "1844674407370955159 * 1 \<le> V0 * 10 ^ n" by (rule mult_mono) (use v in auto)
      then show ?thesis using Z(2) Zn by simp
    qed
  qed
qed

lemma tiny_ok:
  fixes V0 :: real and r :: nat
  assumes V0: "2 * \<bar>V0 - of_int f\<bar> \<le> 1" "r = 0 \<longrightarrow> V0 = of_int f" "0 < r \<longrightarrow> 1844674407370955160 < f"
    and f: "f \<le> 18446744073709551610"
    and x: "uint (fp_f x) = f * 2 ^ k" "9223372036854775808 \<le> uint (fp_f x)"
    and y: "off_less (V0 * 10 powi e) y E" "E \<le> 180" "9223372036854775808 \<le> uint (fp_f y)" "fp_e y + 64 \<le> -1075"
    and run: "e = -342 \<Longrightarrow> \<exists>j. fp_e y = - int k - 1136 - int j \<and> uint (fp_f y) =
        uint (fp_f (Multiply (DiyFp 0xfa8fd5a0081c0288 (-1220)) (Multiply (DiyFp 0xf424000000000000 (-44)) x))) * 2 ^ j"
  shows "V0 * 10 powi e \<le> 2 powi (-1075)"
proof (rule ccontr)
  assume "\<not> V0 * 10 powi e \<le> 2 powi (-1075)"
  then have lo: "2 powi (-1075) < V0 * 10 powi e" by simp
  define v where "v = V0 * 10 powi e * 2 powi (- fp_e y)"
  have fy: "uint (fp_f y) < 18446744073709551616" using uint_lt_2p[of "fp_f y"] by simp
  have vb: "v < 18446744073709551639"
  proof -
    have "8 * \<bar>v - of_int (uint (fp_f y))\<bar> < of_int E" using y(1) unfolding off_less_def v_def .
    moreover have "of_int (uint (fp_f y)) \<le> (18446744073709551615 :: real)" "real_of_int E \<le> 180"
      using uint64_real[of "fp_f y"] y(2) by simp_all
    moreover have "8 * \<bar>v - a\<bar> < g \<Longrightarrow> a \<le> 18446744073709551615 \<Longrightarrow> g \<le> 180 \<Longrightarrow> v < 18446744073709551639" for a g :: real
      by (simp add: abs_if split: if_splits)
    ultimately show ?thesis by blast
  qed
  have e: "fp_e y = -1139"
  proof (rule ccontr)
    assume "fp_e y \<noteq> -1139"
    then have "65 \<le> -1075 + - fp_e y" using y(4) by simp
    then have "(2::real) powi 65 \<le> 2 powi (-1075 + - fp_e y)" by (rule power_int_increasing) simp
    also have "\<dots> = 2 powi (-1075) * 2 powi (- fp_e y)" by (rule power_int_add) simp
    also have "\<dots> < v" unfolding v_def by (rule mult_strict_right_mono[OF lo]) simp
    finally show False using vb by simp
  qed
  have hi: "V0 * 10 powi e * 2 powi 1139 < 18446744073709551639"
  proof -
    have "- fp_e y = 1139" using e by simp
    then show ?thesis using vb unfolding v_def by (simp only:)
  qed
  note T = tiny_input[OF V0 f lo hi]
  obtain j where j: "fp_e y = - int k - 1136 - int j" "uint (fp_f y) =
        uint (fp_f (Multiply (DiyFp 0xfa8fd5a0081c0288 (-1220)) (Multiply (DiyFp 0xf424000000000000 (-44)) x))) * 2 ^ j"
    using run T by blast
  let ?m = "uint (fp_f (Multiply (DiyFp 0xfa8fd5a0081c0288 (-1220)) (Multiply (DiyFp 0xf424000000000000 (-44)) x)))"
  have kj: "k + j = 3" using j(1) e by simp
  have fx: "f * 2 ^ k < 18446744073709551616" using x uint_lt_2p[of "fp_f x"] by simp
  have big: "8607876309834705709 \<le> ?m" using tiny_product[OF x(2)] by simp
  have "k = 0 \<or> k = 1 \<or> k = 2 \<or> k = 3" using kj by linarith
  then show False
  proof (elim disjE)
    assume "k = 2"
    then have "9881312916824930884 \<le> uint (fp_f x)" "j = 1" using T x(1) kj by simp_all
    then have "9223372036854775808 \<le> ?m" using tiny_product[of 9881312916824930884 x] by simp
    then show False using j(2) fy \<open>j = 1\<close> by simp
  next
    assume "k = 3" then show False using fx T by simp
  next
    assume "k = 0" then show False using kj j(2) fy big by simp
  next
    assume "k = 1"
    then have "j = 2" using kj by simp
    then show False using j(2) fy big by simp
  qed
qed

section \<open>DiyFpStrtod\<close>

lemma ok_DiyFpStrtod:
  assumes d: "digits cs" "cs \<noteq> []" "hd cs \<noteq> ch CHR ''0''" and l: "-324 < e + int (length cs)" "e + int (length cs) \<le> 309"
    and Q: "\<And>b r. outcome (dec_real cs e) b r \<Longrightarrow> Q (b, r)"
  shows "ok (DiyFpStrtod cs e) Q"
  unfolding DiyFpStrtod_def
proof (subst ok_bind, rule ok_ReadDiyFp[OF d], goal_cases)
  case (1 f r)
  note R = 1[unfolded read_as_def]
  note V0 = read_as_real(1)[OF 1] and VV = read_as_real(2)[OF 1, of e]
  let ?V0 = "of_int (dec_val cs) / 10 ^ r :: real"
  define e1 where "e1 = e + int r"
  have e1: "-348 \<le> e1" "e1 < 348" "e1 \<le> kMaxDecimalExponent" "\<not> e1 < kMinDecimalExponent" using R l by (auto simp: e1_def)
  have f0: "fp_f (DiyFp f 0) \<noteq> 0" using R by auto
  define E0 :: u64 where "E0 = (if int r = 0 then 0 else 8 div 2)"
  have E0: "uint E0 = (if r = 0 then 0 else 4)" by (simp add: E0_def)
  show ?case
    unfolding prod.case Let_def[of "3::int"] Let_def[of "8::u64"] Let_def[of "e + int r"] E0_def[symmetric] e1_def[symmetric]
      Let_def[of e1] Let_def[of E0] Let_def[of "fp_e (DiyFp f 0)"]
  proof (subst ok_bind, rule ok_Normalize[OF f0], goal_cases)
    case (1 g k)
    have g: "uint g = uint f * 2 ^ k" "9223372036854775808 \<le> uint g" using 1 by simp_all
    have k64: "k < 64"
    proof -
      have "1 * 2 ^ k \<le> uint f * 2 ^ k" using R by (intro mult_right_mono) auto
      also have "\<dots> < 18446744073709551616" using g uint_lt_2p[of g] by simp
      finally have "(2::int) ^ k < 2 ^ 64" by simp
      then show ?thesis by (rule power_less_imp_less_exp[rotated]) simp
    qed
    have Ek: "uint E0 * 2 ^ k \<le> 32"
    proof (cases "r = 0")
      case False
      then have "1844674407370955160 * 2 ^ k \<le> uint f * 2 ^ k" using R by (intro mult_right_mono) auto
      also have "\<dots> < 18446744073709551616" using g uint_lt_2p[of g] by simp
      finally have "(2::int) ^ k < 2 ^ 4" by simp
      then have "k < 4" by (rule power_less_imp_less_exp[rotated]) simp
      then have "(2::int) ^ k \<le> 2 ^ 3" by (intro power_increasing) auto
      then show ?thesis using E0 False by simp
    qed (simp add: E0)
    let ?x = "\<lparr>fp_f = g, fp_e = - int k\<rparr>" and ?E = "push_bit k E0"
    have pE: "uint ?E = uint E0 * 2 ^ k" by (rule uint_push_bit_exact) (use Ek in simp)
    have o0: "off_by ?V0 (DiyFp f 0) (uint E0)"
    proof (cases "r = 0")
      case True
      then show ?thesis using R E0 by (simp add: off_by_def)
    next
      case False
      have "4 * (2 * \<bar>?V0 - of_int (uint f)\<bar>) \<le> 4 * 1" using V0 by (rule mult_left_mono) simp
      then show ?thesis using E0 False by (simp add: off_by_def)
    qed
    have off: "off_by ?V0 ?x (uint ?E)" unfolding pE using off_by_shift[OF o0, of g k] g by simp
    have short: "?V0 = of_int (dec_val cs) \<and> uint (fp_f ?x) = dec_val cs * 2 ^ k \<and> ?E = 0 \<and> 0 < dec_val cs \<and> dec_val cs < 10 ^ nat (int (length cs))"
      if "int (length cs) \<le> 19"
    proof -
      have "r = 0" using R that by auto
      then show ?thesis using R g E0_def dec_val_bounds[OF d(1)] by auto
    qed
    have ox: "(0 :: int) - - int k = int k" "0 - int k = - int k" by simp_all
    have shk: "ok (shl64 E0 (int k)) P = P ?E" for P using k64 by (simp add: ok_shl64)
    have ens: "ok (ensure (e1 \<le> kMaxDecimalExponent)) P = P ()" for P using e1 by (simp add: ok_ensure)
    have neg: "(e1 < kMinDecimalExponent) = False" using e1(4) by blast
    have x1: "9223372036854775808 \<le> uint (fp_f ?x)" "fp_e ?x = - int k" using g by simp_all
    have E32: "uint ?E \<le> 32" using pE Ek by simp
    show ?case
      unfolding diyfp.select_convs DiyFp_sel ox ok_bind[of "shl64 E0 (int k)"] shk ok_bind[of "ensure (e1 \<le> kMaxDecimalExponent)"] ens
        neg if_False
    proof (rule ok_scale[OF x1 E32 off short _ e1(1,2)], goal_cases)
      case (3 y E)
      have V: "?V0 * 10 powi e1 = dec_real cs e" unfolding VV e1_def ..
      have E180: "uint E \<le> 180" by (rule 3)
      show ?case
      proof (rule ok_round_phase[OF 3(1) E180 3(2)[unfolded V]])
        assume t: "fp_e y + 64 \<le> -1075"
        have R4: "r = 0 \<longrightarrow> ?V0 = of_int (uint f)" "0 < r \<longrightarrow> 1844674407370955160 < uint f" "uint f \<le> 18446744073709551610"
          using R by auto
        have gx: "uint (fp_f ?x) = uint f * 2 ^ k" using g by simp
        show "dec_real cs e \<le> 2 powi (-1075)"
          unfolding V[symmetric] by (rule tiny_ok[OF V0 R4 gx x1(1) 3(2) E180 3(1) t 3(4)])
      qed (erule Q)
    qed simp_all
  qed
qed

end
