(* ===== verification/Strtod_Compare.thy ===== *)
theory Strtod_Compare
  imports Strtod_Fast Bignum_Text
begin

text \<open>The exact comparison of a decimal number with a \<open>DiyFp\<close> (\<open>CompareBufferWithDiyFp\<close>), which never overflows a Bignum.\<close>

section \<open>The exact comparison\<close>

text \<open>\<open>a * 10 ^ e\<close> compared with \<open>f * 2 ^ k\<close>, cleared of denominators.\<close>

definition cmp_scaled :: "int \<Rightarrow> int \<Rightarrow> int \<Rightarrow> int \<Rightarrow> int" where
  "cmp_scaled a e f k = sgn (a * 10 ^ nat e * 2 ^ nat (- k) - f * 10 ^ nat (- e) * 2 ^ nat k)"

lemma pow10_le: "n \<le> 3 * k \<Longrightarrow> (10::int) ^ n \<le> 2 ^ (10 * k)"
  using power_increasing[of n "3 * k" "10::int"] power_mono[of "10 ^ 3 :: int" "2 ^ 10" k] by (simp add: power_mult)

lemma pow5_le: "n \<le> 3 * k \<Longrightarrow> (5::int) ^ n \<le> 2 ^ (7 * k)"
  using power_increasing[of n "3 * k" "5::int"] power_mono[of "5 ^ 3 :: int" "2 ^ 7" k] by (simp add: power_mult)

lemma W_127: "W 127 = 2 ^ 3556"
  by (simp only: W_def) simp

lemma pow_W: "n \<le> 3555 \<Longrightarrow> 2 ^ n < W 127"
  unfolding W_127 by (rule power_strict_increasing) auto

lemma ok_CompareBufferWithDiyFp:
  assumes d: "digits cs" and l: "length cs \<le> 780" "int (length cs) + e \<le> 310" "-324 < int (length cs) + e"
    and k: "0 < fp_e x \<Longrightarrow> -1000 \<le> e"
    and Q: "Q (cmp_scaled (dec_val cs) e (uint (fp_f x)) (fp_e x))"
  shows "ok (CompareBufferWithDiyFp cs e x) Q"
proof -
  let ?a = "dec_val cs" and ?f = "uint (fp_f x)" and ?k = "fp_e x"
  have a: "0 \<le> ?a" "?a < 10 ^ length cs" using dec_val_bounds[OF d] by auto
  have f: "0 \<le> ?f" "?f < 2 ^ 64" using uint_lt_2p[of "fp_f x"] by simp_all
  have W: "(10::int) ^ 780 \<le> W 127" "(10::int) ^ 310 \<le> W 127" "(2::int) ^ 64 * 5 ^ 1103 < W 127"
    "(2::int) ^ 64 * 10 ^ 1000 < W 127"
  proof -
    show "(10::int) ^ 780 \<le> W 127" using pow10_le[of 780 260] pow_W[of "10 * 260"] by linarith
    show "(10::int) ^ 310 \<le> W 127" using pow10_le[of 310 104] pow_W[of "10 * 104"] by linarith
    have "(2::int) ^ 64 * 5 ^ 1103 \<le> 2 ^ 64 * 2 ^ (7 * 368)" by (intro mult_left_mono pow5_le) auto
    also have "\<dots> = 2 ^ (64 + 7 * 368)" by (simp only: power_add)
    also have "\<dots> < W 127" by (rule pow_W) simp
    finally show "(2::int) ^ 64 * 5 ^ 1103 < W 127" .
    have "(2::int) ^ 64 * 10 ^ 1000 \<le> 2 ^ 64 * 2 ^ (10 * 334)" by (intro mult_left_mono pow10_le) auto
    also have "\<dots> = 2 ^ (64 + 10 * 334)" by (simp only: power_add)
    also have "\<dots> < W 127" by (rule pow_W) simp
    finally show "(2::int) ^ 64 * 10 ^ 1000 < W 127" .
  qed
  have p: "10 ^ length cs \<le> W 127"
    using power_increasing[of "length cs" 780 "10::int"] l(1) W(1) by linarith
  have ae: "?a * 10 ^ nat e < W 127" if "0 \<le> e"
  proof -
    have "?a * 10 ^ nat e < 10 ^ length cs * 10 ^ nat e" using a by (intro mult_strict_right_mono) auto
    also have "\<dots> = 10 ^ (length cs + nat e)" by (simp only: power_add)
    also have "\<dots> \<le> 10 ^ 310" using that l(2) by (intro power_increasing) auto
    finally show ?thesis using W(2) by linarith
  qed
  have fe: "?f * 5 ^ nat (- e) < W 127"
  proof -
    have "(5::int) ^ nat (- e) \<le> 5 ^ 1103" using l by (intro power_increasing) auto
    then have "?f * 5 ^ nat (- e) \<le> 2 ^ 64 * 5 ^ 1103" by (rule mult_mono[OF less_imp_le[OF f(2)]]) simp_all
    then show ?thesis using W(3) by linarith
  qed
  have fk: "?f * 10 ^ nat (- e) < W 127" if "0 < ?k"
  proof -
    have "(10::int) ^ nat (- e) \<le> 10 ^ 1000" using k[OF that] by (intro power_increasing) auto
    then have "?f * 10 ^ nat (- e) \<le> 2 ^ 64 * 10 ^ 1000" by (rule mult_mono[OF less_imp_le[OF f(2)]]) simp_all
    then show ?thesis using W(4) by linarith
  qed
  have alt: "?a < W 127" using a(2) p by linarith
  have flt: "?f < W 127" using f(2) pow_W[of 64] by linarith
  have last: "ok (do { (bb, db) \<leftarrow>
       (if ?k > 0 then do { db \<leftarrow> ShiftLeft ?k db; Some (bb, db) }
        else do { bb \<leftarrow> ShiftLeft (- ?k) bb; Some (bb, db) });
     Compare bb db }) Q"
    if n: "norm bb" "norm db" "bval bb = ?a * 10 ^ nat e" "bval db = ?f * 10 ^ nat (- e)" for bb db
  proof (cases "0 < ?k")
    case True
    have "bval db < W 127" using fk[OF True] n(4) by simp
    then show ?thesis using True n Q
      by (auto simp: wp cmp_scaled_def intro!: ok_ShiftLeft)
  next
    case False
    have "bval bb < W 127"
    proof (cases "0 \<le> e")
      case True
      then show ?thesis using ae n(3) by simp
    next
      case False
      then show ?thesis using alt n(3) by simp
    qed
    then show ?thesis using False n Q
      by (auto simp: wp cmp_scaled_def intro!: ok_ShiftLeft)
  qed
  have mid: "ok (do { (bb, db) \<leftarrow>
       (if e \<ge> 0 then do { bb \<leftarrow> MultiplyByPowerOfTen e bb; Some (bb, db) }
        else do { db \<leftarrow> MultiplyByPowerOfTen (- e) db; Some (bb, db) });
     (bb, db) \<leftarrow>
       (if ?k > 0 then do { db \<leftarrow> ShiftLeft ?k db; Some (bb, db) }
        else do { bb \<leftarrow> ShiftLeft (- ?k) bb; Some (bb, db) });
     Compare bb db }) Q"
    if n: "norm bb" "norm db" "bval bb = ?a" "bval db = ?f" for bb db
  proof (cases "0 \<le> e")
    case True
    have lt: "bval bb * 5 ^ nat e < W 127" using pow5_less[OF a(1) ae[OF True]] n by simp
    show ?thesis
      unfolding if_P[OF True] ok_bind[of "Option.bind (MultiplyByPowerOfTen e bb) _"] ok_bind[of "MultiplyByPowerOfTen e bb"]
      by (rule ok_MultiplyByPowerOfTen[OF n(1) True lt]) (use last n True in simp)
  next
    case False
    then have e': "0 \<le> - e" by simp
    have lt: "bval db * 5 ^ nat (- e) < W 127" using fe n by simp
    show ?thesis
      unfolding if_not_P[OF False] ok_bind[of "Option.bind (MultiplyByPowerOfTen (- e) db) _"] ok_bind[of "MultiplyByPowerOfTen (- e) db"]
      by (rule ok_MultiplyByPowerOfTen[OF n(2) e' lt]) (use last n False in simp)
  qed
  show ?thesis
    unfolding CompareBufferWithDiyFp_def using l
    apply (simp only: ok_bind[of "ensure _"] ok_ensure kMaxDecimalPower_def kMinDecimalPower_def
        kMaxSignificantDecimalDigits_def kMaxSignificantBits_def)
    apply (intro conjI)
        apply simp_all[4]
    apply (subst ok_bind, rule ok_AssignDecimalString[OF d _ p], simp)
    apply (subst ok_bind, rule ok_AssignUInt64, simp)
    apply (rule mid)
       apply assumption+
    done
qed

end
