(* ===== verification/Strtod_Guess.thy ===== *)
theory Strtod_Guess
  imports Strtod_Diy Strtod_Compare
begin

text \<open>\<open>ComputeGuess\<close> and the trimming and cutting of the digits.\<close>

section \<open>Real and integer rounding agree\<close>

lemma near_rounds_to:
  assumes u: "u * of_int d = of_int N" and d: "0 < d"
  shows "near u (uint r) \<longleftrightarrow> rounds_to N d r"
proof -
  have D: "0 < real_of_int d" using d by simp
  have lt: "2 * u < of_int M \<longleftrightarrow> 2 * N < d * M" "of_int M < 2 * u \<longleftrightarrow> d * M < 2 * N" "2 * u = of_int M \<longleftrightarrow> 2 * N = d * M" for M
  proof -
    have e: "2 * u * of_int d = of_int (2 * N)" "of_int M * real_of_int d = of_int (d * M)" using u by (simp_all add: mult_ac)
    show "2 * u < of_int M \<longleftrightarrow> 2 * N < d * M"
      using mult_less_cancel_right_pos[OF D, of "2 * u" "of_int M"] unfolding e of_int_less_iff by simp
    show "of_int M < 2 * u \<longleftrightarrow> d * M < 2 * N"
      using mult_less_cancel_right_pos[OF D, of "of_int M" "2 * u"] unfolding e of_int_less_iff by simp
    show "2 * u = of_int M \<longleftrightarrow> 2 * N = d * M"
      using mult_cancel_right[of "2 * u" "real_of_int d" "of_int M"] D unfolding e of_int_eq_iff by simp
  qed
  have tie: "a \<le> b \<and> (a = b \<longrightarrow> P) \<longleftrightarrow> a < b \<or> a = b \<and> P" "a \<le> b \<and> (b = a \<longrightarrow> P) \<longleftrightarrow> a < b \<or> b = a \<and> P"
    for a b :: int and P by auto
  show ?thesis unfolding near_def rounds_to_def nearest_def mid_def lt tie by simp
qed

lemma dec_units:
  "units_of (of_int m * 10 powi e) * of_int (10 ^ nat (- e)) = of_int (m * 10 ^ nat e * 2 ^ 1074)"
  by (simp add: units_of_def powi_frac mult_ac)

lemma near_decimal_double:
  assumes "0 \<le> m" "near (units_of (of_int m * 10 powi e)) (uint r)"
  shows "r = decimal_double m e"
proof -
  have d: "(0::int) < 10 ^ nat (- e)" by simp
  have "rounds_to (m * 10 ^ nat e * 2 ^ 1074) (10 ^ nat (- e)) r"
    using assms(2) near_rounds_to[OF dec_units d] by blast
  then show ?thesis using rounds_to_unique[OF _ decimal_double_rounds[OF assms(1)] d] by blast
qed

lemma decimal_double_near: "0 \<le> m \<Longrightarrow> near (units_of (of_int m * 10 powi e)) (uint (decimal_double m e))"
  using near_rounds_to[OF dec_units, of e m "decimal_double m e"] decimal_double_rounds[of m e] by simp

section \<open>The guess\<close>

lemma mid_below_infinity: "mid (INFTY - 1) = (2 ^ 54 - 1) * 2 ^ 2045"
proof -
  have "mid ((2 ^ 53 - 1) + int 2045 * 2 ^ 52) = (2 * of_int (2 ^ 53 - 1) + 1) * 2 ^ 2045" by (rule mids(1)) simp_all
  then show ?thesis by simp
qed

lemma power_split: "n = a * b + c \<Longrightarrow> (x::real) ^ n = (x ^ a) ^ b * x ^ c"
  by (simp add: power_add power_mult)

lemma power_93: "((2::real) ^ 93) ^ 11 \<le> (10 ^ 28) ^ 11"
  by (rule power_mono) simp_all

lemma pow10_309: "(2::real) ^ 1024 \<le> 10 ^ 309"
proof -
  have "(2::real) ^ 1024 = (2 ^ 93) ^ 11 * 2 ^ 1" by (rule power_split) simp
  also have "\<dots> \<le> (10 ^ 28) ^ 11 * 10 ^ 1" by (rule mult_mono[OF power_93]) (simp, simp_all only: zero_le_power zero_le_numeral)
  also have "\<dots> = 10 ^ 309" by (rule power_split[symmetric]) simp
  finally show ?thesis .
qed

lemma pow10_324: "(2::real) ^ 1075 \<le> 10 ^ 324"
proof -
  have "(2::real) ^ 1075 = (2 ^ 93) ^ 11 * 2 ^ 52" by (rule power_split) simp
  also have "\<dots> \<le> (10 ^ 28) ^ 11 * 10 ^ 16" by (rule mult_mono[OF power_93]) (simp, simp_all only: zero_le_power zero_le_numeral)
  also have "\<dots> = 10 ^ 324" by (rule power_split[symmetric]) simp
  finally show ?thesis .
qed

lemma inverse_mono: "0 < a \<Longrightarrow> a \<le> b \<Longrightarrow> 1 / b \<le> 1 / (a :: real)"
  by (simp add: frac_le)

lemma near_infinity:
  assumes "10 powi 309 \<le> V" shows "near (units_of V) INFTY"
proof -
  have "(10::real) powi 309 = 10 ^ 309" by (rule powi_nat[of 309, simplified nat_numeral]) simp
  then have "2 ^ 1024 \<le> V" using assms pow10_309 by linarith
  then have "2 ^ 1024 * 2 ^ 1074 \<le> units_of V" unfolding units_of_def by (rule mult_right_mono) simp
  moreover have "(2::real) ^ 1024 * 2 ^ 1074 = 2 ^ 53 * 2 ^ 2045" by (simp only: power_add[symmetric]) simp
  moreover have "(2 ^ 54 - 1) * 2 ^ 2045 < (2 * 2 ^ 53) * (2::real) ^ 2045" by (rule mult_strict_right_mono) simp_all
  ultimately have "mid (INFTY - 1) < 2 * units_of V" unfolding mid_below_infinity by linarith
  then show ?thesis by (simp add: near_def)
qed

lemma half_power: "n = Suc m \<Longrightarrow> 1 / 2 ^ n * 2 ^ m = (1 / 2 :: real)"
  by simp

lemma near_zero:
  assumes "V \<le> 10 powi (-324)" shows "near (units_of V) 0"
proof -
  have "(10::real) powi (- 324) = 1 / 10 ^ 324" by (simp only: power_int_minus power_int_numeral inverse_eq_divide)
  also have "\<dots> \<le> 1 / 2 ^ 1075" by (rule inverse_mono[OF _ pow10_324]) (rule zero_less_power, simp)
  finally have "V \<le> 1 / 2 ^ 1075" using assms by linarith
  then have "units_of V \<le> 1 / 2 ^ 1075 * 2 ^ 1074" unfolding units_of_def by (rule mult_right_mono) simp
  also have "\<dots> = 1 / 2" by (rule half_power) simp
  finally show ?thesis by (auto simp: near_def mid_0)
qed


lemma outcome_cases: "outcome V b r \<Longrightarrow> near (units_of V) (uint r) \<or> \<not> b \<and> around (units_of V) (uint r)"
  by (auto simp: outcome_def)

lemma around_infinity: "around u INFTY \<Longrightarrow> near u INFTY"
  by (simp add: around_def near_def)

lemma double_eq_infinity:
  assumes "0 \<le> uint r" "uint r \<le> INFTY"
  shows "double_eq r kDoubleInfinity \<longleftrightarrow> uint r = INFTY"
proof -
  have m: "mag64 r = uint r" using assms by (simp add: mag64_def)
  have s: "r AND 0x8000000000000000 = 0" using assms(2) by (simp add: sign_bit)
  have n: "\<not> double_is_nan r" "\<not> double_is_nan kDoubleInfinity"
    using assms(2) m by (simp_all add: double_is_nan_mag mag64_def kDoubleInfinity_def)
  have "double_rank r = uint r" "double_rank kDoubleInfinity = INFTY"
    using s by (simp_all add: double_rank_def kDoubleInfinity_def)
  then show ?thesis using n by (simp add: double_eq_def)
qed

lemma dec_real_bounds:
  assumes "digits cs" "cs \<noteq> []" "hd cs \<noteq> ch CHR ''0''"
  shows "10 powi (e + int (length cs) - 1) \<le> dec_real cs e" "dec_real cs e < 10 powi (e + int (length cs))"
proof -
  have l: "0 < length cs" using assms(2) by simp
  have p: "0 < (10::real) powi e" by simp
  have "e + int (length cs) - 1 = e + int (length cs - 1)" using l by linarith
  then have "(10::real) powi (e + int (length cs) - 1) = 10 powi (e + int (length cs - 1))" by (simp only:)
  also have "\<dots> = of_int (10 ^ (length cs - 1)) * 10 powi e" by (simp add: power_int_add power_int_of_nat)
  also have "\<dots> \<le> dec_real cs e" unfolding dec_real_def
    by (intro mult_right_mono) (use dec_val_pos[OF assms] p in \<open>simp_all only: of_int_le_iff less_imp_le\<close>)
  finally show "10 powi (e + int (length cs) - 1) \<le> dec_real cs e" .
  have "dec_real cs e < of_int (10 ^ length cs) * 10 powi e" unfolding dec_real_def
    by (intro mult_strict_right_mono) (use dec_val_bounds[OF assms(1)] p in \<open>simp_all only: of_int_less_iff\<close>)
  also have "\<dots> = 10 powi (e + int (length cs))" by (simp add: power_int_add power_int_of_nat)
  finally show "dec_real cs e < 10 powi (e + int (length cs))" .
qed

lemma ok_ComputeGuess:
  assumes d: "digits cs" "cs = [] \<or> hd cs \<noteq> ch CHR ''0''"
    and T: "\<And>r. near (units_of (dec_real cs e)) (uint r) \<Longrightarrow> Q (True, r)"
    and F: "\<And>r. cs \<noteq> [] \<Longrightarrow> -324 < e + int (length cs) \<Longrightarrow> e + int (length cs) \<le> 309 \<Longrightarrow> uint r < INFTY \<Longrightarrow>
      near (units_of (dec_real cs e)) (uint r) \<or> around (units_of (dec_real cs e)) (uint r) \<Longrightarrow> Q (False, r)"
  shows "ok (ComputeGuess cs e) Q"
proof (cases "cs = []")
  case True
  have "dec_real cs e = 0" using True by (simp add: dec_real_def)
  then have "near (units_of (dec_real cs e)) 0" using near_zero[of 0] by (simp only: zero_le_power_int zero_le_numeral)
  then show ?thesis using T[of 0] True by (simp add: ComputeGuess_def)
next
  case False
  then have h: "hd cs \<noteq> ch CHR ''0''" using d(2) by simp
  note B = dec_real_bounds[OF d(1) False h, of e]
  consider "309 \<le> e + int (length cs) - 1" | "e + int (length cs) \<le> -324" "\<not> 309 \<le> e + int (length cs) - 1"
    | "-324 < e + int (length cs)" "e + int (length cs) - 1 < 309" by linarith
  then show ?thesis
  proof cases
    case 1
    have "(10::real) powi 309 \<le> 10 powi (e + int (length cs) - 1)" by (rule power_int_increasing[OF 1]) simp
    then have "10 powi 309 \<le> dec_real cs e" using B(1) by linarith
    from near_infinity[OF this] show ?thesis
      using T[of kDoubleInfinity] False 1 by (simp add: ComputeGuess_def kDoubleInfinity_def)
  next
    case 2
    have "(10::real) powi (e + int (length cs)) \<le> 10 powi (-324)" by (rule power_int_increasing[OF 2(1)]) simp
    then have "dec_real cs e \<le> 10 powi (-324)" using B(2) by linarith
    from near_zero[OF this] show ?thesis using T[of 0] False 2 by (simp add: ComputeGuess_def)
  next
    case 3
    have m0: "0 \<le> dec_val cs" using dec_val_bounds[OF d(1)] by simp
    have g: "(length cs = 0) = False" "(e + int (length cs) - 1 \<ge> kMaxDecimalPower) = False"
      "(e + int (length cs) \<le> kMinDecimalPower) = False" using False 3 by simp_all
    show ?thesis
      unfolding ComputeGuess_def g if_False
    proof (subst ok_bind, rule ok_DoubleStrtod[OF d(1)], goal_cases)
      case (1 r)
      show ?case
      proof (cases r)
        case (Some v)
        then have "near (units_of (dec_real cs e)) (uint v)"
          using 1[OF Some] decimal_double_near[OF m0, of e] by (simp add: dec_real_def)
        then show ?thesis using Some T by simp
      next
        case None
        have "ok (DiyFpStrtod cs e) (\<lambda>(b, g). ok (if b then Some (True, g) else if double_eq g kDoubleInfinity then Some (True, g)
            else Some (False, g)) Q)"
        proof (rule ok_DiyFpStrtod[OF d(1) False h], goal_cases)
          case (3 b g)
          note o = outcome_cases[OF 3]
          have r: "uint g \<le> INFTY" using o by (auto simp: near_def around_def)
          have i: "double_eq g kDoubleInfinity \<longleftrightarrow> uint g = INFTY" by (rule double_eq_infinity) (use r in simp_all)
          consider "near (units_of (dec_real cs e)) (uint g)" "b \<or> uint g = INFTY"
            | "\<not> b" "uint g < INFTY" using o r around_infinity[of "units_of (dec_real cs e)"] by force
          then show ?case
          proof cases
            case 1
            then show ?thesis using T[OF 1(1)] i by auto
          next
            case 2
            have l: "e + int (length cs) \<le> 309" using \<open>_ < 309\<close> by simp
            have "near (units_of (dec_real cs e)) (uint g) \<or> around (units_of (dec_real cs e)) (uint g)" using o by blast
            from F[OF False \<open>-324 < _\<close> l 2(2) this] show ?thesis using 2 i by simp
          qed
        qed (use 3 in simp_all)
        then show ?thesis using None by (simp add: ok_bind split_def)
      qed
    qed
  qed
qed


section \<open>Trimming\<close>

lemma dec_val_zeros [simp]: "dec_val (replicate n (ch CHR ''0'')) = 0"
proof (induction n)
  case (Suc n)
  have "dec_val (replicate n (ch CHR ''0'') @ [ch CHR ''0'']) = 0" using Suc by (simp add: dec_val_snoc digit_of_def)
  then show ?case by (simp add: replicate_append_same)
qed simp

lemma ok_TrimLeadingZeros:
  assumes Q: "\<And>n xs. cs = replicate n (ch CHR ''0'') @ xs \<Longrightarrow> xs = [] \<or> hd xs \<noteq> ch CHR ''0'' \<Longrightarrow> Q xs"
  shows "ok (TrimLeadingZeros cs) Q"
  unfolding TrimLeadingZeros_def
proof (subst ok_bind, rule ok_while_do[where P = "\<lambda>i. \<exists>n. i = int n \<and> n \<le> length cs \<and> take n cs = replicate n (ch CHR ''0'')"
      and m = "\<lambda>i. nat (int (length cs) - i)"], goal_cases)
  case 1
  then show ?case by simp
next
  case (2 i)
  then obtain n where n: "i = int n" "n \<le> length cs" "take n cs = replicate n (ch CHR ''0'')" by auto
  have split: "cs = replicate n (ch CHR ''0'') @ drop n cs" using n(3) by (metis append_take_drop_id)
  show ?case
  proof (cases "n < length cs \<and> cs ! n = ch CHR ''0''")
    case True
    then have "take (Suc n) cs = replicate (Suc n) (ch CHR ''0'')"
      using n(3) by (simp add: take_Suc_conv_app_nth replicate_append_same)
    then show ?thesis using True n(1) by (auto simp: wp intro!: exI[of _ "Suc n"])
  next
    case False
    have "Q (drop n cs)" by (rule Q[OF split]) (use False n(2) in \<open>auto simp: hd_drop_conv_nth\<close>)
    then show ?thesis using False n by (auto simp: wp SubVector_def)
  qed
qed

lemma ok_TrimTrailingZeros:
  assumes Q: "\<And>n xs. cs = xs @ replicate n (ch CHR ''0'') \<Longrightarrow> xs = [] \<or> last xs \<noteq> ch CHR ''0'' \<Longrightarrow> Q xs"
  shows "ok (TrimTrailingZeros cs) Q"
  unfolding TrimTrailingZeros_def
proof (subst ok_bind, rule ok_while_do[where P = "\<lambda>i. \<exists>n. i = int n - 1 \<and> n \<le> length cs \<and> drop n cs = replicate (length cs - n) (ch CHR ''0'')"
      and m = "\<lambda>i. nat (i + 1)"], goal_cases)
  case 1
  then show ?case by (auto intro!: exI[of _ "length cs"])
next
  case (2 i)
  then obtain n where n: "i = int n - 1" "n \<le> length cs" "drop n cs = replicate (length cs - n) (ch CHR ''0'')" by auto
  have split: "cs = take n cs @ replicate (length cs - n) (ch CHR ''0'')" using n(3) by (metis append_take_drop_id)
  show ?case
  proof (cases n)
    case 0
    have "Q []" by (rule Q) (use n 0 in auto)
    then show ?thesis using n 0 by simp
  next
    case (Suc m)
    then have m: "m < length cs" "i = int m" using n by auto
    show ?thesis
    proof (cases "cs ! m = ch CHR ''0''")
      case True
      have "drop m cs = cs ! m # drop n cs" using m Suc by (simp add: Cons_nth_drop_Suc)
      then have "drop m cs = replicate (length cs - m) (ch CHR ''0'')"
        using True n(3) m Suc by (simp add: Suc_diff_Suc flip: replicate_Suc)
      then show ?thesis using True m by (auto simp: wp intro!: exI[of _ m])
    next
      case False
      have "last (take n cs) = cs ! m" using m Suc by (simp add: take_Suc_conv_app_nth)
      then have "Q (take n cs)" by (intro Q[OF split]) (use False in auto)
      then show ?thesis using False m Suc by (auto simp: wp SubVector_def nat_add_distrib)
    qed
  qed
qed

section \<open>Cutting\<close>

text \<open>Two values that no midpoint of doubles separates.\<close>

definition same_side :: "real \<Rightarrow> real \<Rightarrow> bool" where
  "same_side V V' \<longleftrightarrow> (\<forall>n. 0 \<le> n \<and> n < INFTY \<longrightarrow>
     (2 * units_of V < mid n \<longleftrightarrow> 2 * units_of V' < mid n) \<and> (mid n < 2 * units_of V \<longleftrightarrow> mid n < 2 * units_of V'))"

lemma same_side_near: "same_side V V' \<Longrightarrow> near (units_of V') r \<Longrightarrow> near (units_of V) r"
proof -
  assume s: "same_side V V'" and n: "near (units_of V') r"
  have e: "2 * units_of V = mid n \<longleftrightarrow> 2 * units_of V' = mid n" if "0 \<le> n" "n < INFTY" for n
  proof -
    have "x = y \<longleftrightarrow> \<not> x < y \<and> \<not> y < x" for x y :: real by auto
    then show ?thesis using s that unfolding same_side_def by metis
  qed
  show ?thesis using s n e[of r] e[of "r - 1"] unfolding same_side_def near_def by auto
qed

lemma same_side_refl [simp]: "same_side V V"
  by (simp add: same_side_def)

lemma mid_sig: "0 \<le> n \<Longrightarrow> mid n = of_int ((2 * fmt_sig 52 n + 1) * 2 ^ fmt_shift 52 n)"
  unfolding mid_def using fmt_units_Suc[of n 52] by (simp add: fmt_units_def algebra_simps)

lemma power_half: "n = Suc m \<Longrightarrow> x * 2 ^ n = (2 * x) * (2 :: int) ^ m"
  by simp

lemma no_midpoint_integers:
  fixes P s :: int
  assumes P: "10 ^ 771 \<le> P" and s: "0 \<le> s" "s < 2 ^ 53"
    and lo: "P * 2 ^ 1075 < (2 * s + 1) * 5 ^ a * 2 ^ (k + a)" and hi: "(2 * s + 1) * 5 ^ a * 2 ^ (k + a) < (P + 1) * 2 ^ 1075"
  shows False
proof (cases "1075 \<le> k + a")
  case True
  then obtain d where d: "k + a = d + 1075" by (metis le_add_diff_inverse2)
  define X where "X = (2 * s + 1) * 5 ^ a * 2 ^ d"
  have "(2 * s + 1) * 5 ^ a * 2 ^ (k + a) = X * 2 ^ 1075" unfolding d X_def power_add by (simp only: mult.assoc)
  then have "P < X" "X < P + 1" using lo hi by (simp_all only: mult_less_cancel_right_pos[of "2 ^ 1075 :: int"] zero_less_power zero_less_numeral)
  then show False by simp
next
  case False
  then have ka: "k + a \<le> 1074" by simp
  have "(2::int) ^ (k + a) \<le> 2 ^ 1074" by (rule power_increasing[OF ka]) simp
  moreover have "2 * s + 1 \<le> 2 ^ 54" using s by simp
  ultimately have "(2 * s + 1) * 5 ^ a * 2 ^ (k + a) \<le> 2 ^ 54 * 5 ^ a * 2 ^ 1074" by (intro mult_mono) (use s in simp_all)
  moreover have "10 ^ 771 * 2 ^ 1075 \<le> P * 2 ^ 1075" using P by (rule mult_right_mono) simp
  ultimately have "(10::int) ^ 771 * 2 ^ 1075 < 2 ^ 54 * 5 ^ a * 2 ^ 1074" using lo by linarith
  moreover have "(10::int) ^ 771 * 2 ^ 1075 = (2 * 10 ^ 771) * 2 ^ 1074" by (rule power_half) simp
  ultimately have lt: "(2::int) * 10 ^ 771 < 2 ^ 54 * 5 ^ a"
    by (simp only: mult_less_cancel_right_pos[of "2 ^ 1074 :: int"] zero_less_power zero_less_numeral)
  have a: "a \<le> 771 + 304" using ka by simp
  have "(5::int) ^ a \<le> 5 ^ (771 + 304)" by (rule power_increasing[OF a]) simp
  also have "\<dots> = 5 ^ 771 * 5 ^ 304" by (rule power_add)
  also have "\<dots> \<le> 5 ^ 771 * 2 ^ (7 * 102)" by (intro mult_left_mono pow5_le zero_le_power) simp_all
  finally have "2 ^ 54 * (5::int) ^ a \<le> 2 ^ 54 * (5 ^ 771 * 2 ^ (7 * 102))" by (rule mult_left_mono) simp
  also have "\<dots> = 5 ^ 771 * 2 ^ (54 + 7 * 102)" by (simp only: power_add mult_ac)
  also have "\<dots> \<le> 5 ^ 771 * 2 ^ 771" by (intro mult_left_mono power_increasing zero_le_power) simp_all
  also have "\<dots> = (5 * 2) ^ 771" by (rule power_mult_distrib[symmetric])
  also have "(5 * 2 :: int) = 10" by simp
  finally have "2 ^ 54 * (5::int) ^ a \<le> 10 ^ 771" .
  moreover have "(0::int) < 10 ^ 771" by (rule zero_less_power) simp
  ultimately show False using lt by linarith
qed


lemma double_power: "n = Suc m \<Longrightarrow> 2 * (V * 2 ^ m) = V * (2 :: real) ^ n"
  by simp

lemma twice_units: "2 * units_of V = V * 2 ^ 1075"
  unfolding units_of_def by (rule double_power) simp

lemma ten_split: "j = int a - int b \<Longrightarrow> (10::real) ^ a = 10 ^ b * 10 powi j"
  using power_int_add[of "10::real" "int b" "int a - int b"] by (simp add: power_int_of_nat)

lemma cut_below_infinity:
  assumes P: "10 ^ 771 \<le> P" and j: "-462 \<le> j" and n: "0 \<le> n" "n < INFTY"
  shows "mid n < of_int P * 10 powi j * 2 ^ 1075"
proof -
  have "mid n \<le> mid (INFTY - 1)" using mid_mono[of n "INFTY - 1"] n by (cases "n = INFTY - 1") auto
  also have "\<dots> < (2 * 2 ^ 53) * (2::real) ^ 2045"
    unfolding mid_below_infinity by (rule mult_strict_right_mono) simp_all
  also have "\<dots> = 2 ^ 1024 * 2 ^ 1075" by (simp only: power_Suc[symmetric] power_add[symmetric]) simp
  also have "\<dots> \<le> 10 ^ 309 * 2 ^ 1075" by (intro mult_right_mono pow10_309) simp
  also have "(10::real) ^ 309 = 10 ^ 771 * 10 powi (-462)" by (rule ten_split) simp
  also have "10 ^ 771 * 10 powi (-462) * 2 ^ 1075 \<le> of_int P * 10 powi j * (2::real) ^ 1075"
  proof (intro mult_right_mono mult_mono power_int_increasing j)
    have "of_int (10 ^ 771) \<le> real_of_int P" using P by (simp only: of_int_le_iff)
    then show "10 ^ 771 \<le> real_of_int P" by (simp only: of_int_power of_int_numeral)
    have "(0::int) \<le> 10 ^ 771" by (rule zero_le_power) simp
    then show "0 \<le> real_of_int P" using P by linarith
  qed (simp_all only: zero_le_power zero_le_power_int zero_le_numeral one_le_numeral)
  finally show ?thesis .
qed

lemma no_midpoint:
  assumes P: "10 ^ 771 \<le> P" and n: "0 \<le> n" "n < INFTY"
    and lo: "of_int P * 10 powi j * 2 ^ 1075 < mid n" and hi: "mid n < of_int (P + 1) * 10 powi j * 2 ^ 1075"
  shows False
proof (cases "-462 \<le> j")
  case True
  then show False using cut_below_infinity[OF P True n] lo by linarith
next
  case False
  define a where "a = nat (- j)"
  let ?s = "fmt_sig 52 n" and ?k = "fmt_shift 52 n"
  have D: "0 \<le> ?s" "?s < 2 ^ 53" using fmt_decode(2,3)[OF n(1), of 52] by simp_all
  have p: "(10::real) powi j = 1 / 10 ^ a" using False powi_frac[of 10 j] by (simp add: a_def)
  have ten: "(10::real) ^ a = 5 ^ a * 2 ^ a" by (simp flip: power_mult_distrib)
  have m: "mid n * 10 ^ a = of_int ((2 * ?s + 1) * 5 ^ a * 2 ^ (?k + a))"
    unfolding mid_sig[OF n(1)] ten of_int_mult of_int_power of_int_numeral power_add by (simp only: mult_ac)
  have cancel: "x * (1 / 10 ^ a) * c * 10 ^ a = x * c" for x c :: real by simp
  have "of_int P * (1 / 10 ^ a) * 2 ^ 1075 * 10 ^ a < mid n * 10 ^ a"
    using lo unfolding p by (rule mult_strict_right_mono) simp
  then have "of_int (P * 2 ^ 1075) < real_of_int ((2 * ?s + 1) * 5 ^ a * 2 ^ (?k + a))"
    unfolding cancel m by (simp only: of_int_mult of_int_power of_int_numeral)
  then have 1: "P * 2 ^ 1075 < (2 * ?s + 1) * 5 ^ a * 2 ^ (?k + a)" by (simp only: of_int_less_iff)
  have "mid n * 10 ^ a < of_int (P + 1) * (1 / 10 ^ a) * 2 ^ 1075 * 10 ^ a"
    using hi unfolding p by (rule mult_strict_right_mono) simp
  then have "real_of_int ((2 * ?s + 1) * 5 ^ a * 2 ^ (?k + a)) < of_int ((P + 1) * 2 ^ 1075)"
    unfolding cancel m by (simp only: of_int_mult of_int_power of_int_numeral)
  then have 2: "(2 * ?s + 1) * 5 ^ a * 2 ^ (?k + a) < (P + 1) * 2 ^ 1075" by (simp only: of_int_less_iff)
  show False by (rule no_midpoint_integers[OF P D 1 2])
qed

lemma cut_same_side:
  assumes P: "10 ^ 771 \<le> P" and V: "of_int P * 10 powi j < V" "V < of_int (P + 1) * 10 powi j"
    and V': "of_int P * 10 powi j < V'" "V' < of_int (P + 1) * 10 powi j"
  shows "same_side V V'"
  unfolding same_side_def
proof (intro allI impI)
  fix n assume n: "0 \<le> n \<and> n < INFTY"
  have s: "of_int P * 10 powi j * 2 ^ 1075 < 2 * units_of x" "2 * units_of x < of_int (P + 1) * 10 powi j * 2 ^ 1075"
    if "of_int P * 10 powi j < x" "x < of_int (P + 1) * 10 powi j" for x
    unfolding twice_units using that by (intro mult_strict_right_mono; simp)+
  note S = s[OF V] s[OF V']
  have "mid n \<le> of_int P * 10 powi j * 2 ^ 1075 \<or> of_int (P + 1) * 10 powi j * 2 ^ 1075 \<le> mid n"
    using no_midpoint[OF P, of n j] n by (meson not_less)
  then show "(2 * units_of V < mid n \<longleftrightarrow> 2 * units_of V' < mid n) \<and> (mid n < 2 * units_of V \<longleftrightarrow> mid n < 2 * units_of V')"
    using S by linarith
qed


lemma ok_CutToMaxSignificantDigits:
  assumes l: "780 < length cs" "length sb = 780" "last cs \<noteq> ch CHR ''0''"
    and Q: "Q (take 779 cs @ [ch CHR ''1''], e + (int (length cs) - 780))"
  shows "ok (CutToMaxSignificantDigits cs e sb) Q"
  unfolding CutToMaxSignificantDigits_def
proof (subst ok_bind, rule ok_for_up[where P = "\<lambda>i t. length t = 780 \<and> take (nat i) t = take (nat i) cs"], goal_cases)
  case 1
  then show ?case by simp
next
  case 2
  then show ?case using l by simp
next
  case (3 i t)
  then have i: "nat (i + 1) = Suc (nat i)" "nat i < 779" by auto
  show ?case using 3 i l by (simp add: wp take_Suc_conv_app_nth take_update_cancel)
next
  case (4 t)
  then have t: "length t = 780" "take 779 t = take 779 cs" by simp_all
  have "t[779 := ch CHR ''1''] = take 779 t @ [ch CHR ''1'']" using t(1) by (simp add: upd_conv_take_nth_drop)
  have ne: "cs \<noteq> []" using l(1) by auto
  have "nat (int (length cs) - 1) = length cs - 1" by linarith
  then have "last cs = cs ! nat (int (length cs) - 1)" using last_conv_nth[OF ne] by simp
  then show ?case using t l Q ne \<open>t[779 := ch CHR ''1''] = _\<close> by (simp add: wp)
qed

lemma dec_real_trim:
  assumes "cs = replicate n (ch CHR ''0'') @ xs" "xs = ys @ replicate m (ch CHR ''0'')"
  shows "dec_real cs e = dec_real ys (e + (int (length xs) - int (length ys)))"
proof -
  have "dec_val cs = dec_val ys * 10 ^ m" using assms by (simp add: dec_val_append)
  moreover have "int (length xs) - int (length ys) = int m" using assms by simp
  ultimately show ?thesis by (simp add: dec_real_def power_int_add power_int_of_nat)
qed

lemma dec_real_take:
  assumes "n \<le> length cs"
  shows "dec_real cs e = dec_real (take n cs) (e + int (length cs - n)) + dec_real (drop n cs) e"
proof -
  have "(10::real) powi (e + int (length cs - n)) = 10 powi e * 10 ^ (length cs - n)"
    using power_int_add[of "10::real" e "int (length cs - n)"] by (simp only: power_int_of_nat) simp
  then show ?thesis using dec_val_append[of "take n cs" "drop n cs"] by (simp add: dec_real_def distrib_right)
qed

lemma dec_val_last_pos:
  assumes "digits cs" "cs \<noteq> []" "last cs \<noteq> ch CHR ''0''" shows "0 < dec_val cs"
proof -
  have cs: "cs = butlast cs @ [last cs]" using assms(2) by simp
  have d: "digits (butlast cs)" "digits [last cs]" using assms(1) cs digits_append by metis+
  have "0 \<le> digit_of (last cs)" using d(2) by (simp add: digits_def)
  moreover have "digit_of (last cs) \<noteq> 0" using assms(3) by (simp add: digit_of_def word_uint_eq_iff)
  ultimately show ?thesis using dec_val_snoc[of "butlast cs" "last cs"] dec_val_bounds[OF d(1)] cs by simp
qed

text \<open>The cut number lies strictly between the same two multiples of the place of its first \<open>k\<close> digits.\<close>

lemma cut_value_at:
  assumes d: "digits cs" "cs \<noteq> []" "hd cs \<noteq> ch CHR ''0''" and k: "772 \<le> k" "k < length cs" and r: "0 < dec_val (drop k cs)"
  shows "same_side (dec_real cs e) (dec_real (take k cs @ [ch CHR ''1'']) (e + int (length cs - k) - 1))"
proof -
  let ?p = "take k cs" and ?t = "drop k cs" and ?j = "e + int (length cs - k)"
  have P: "10 ^ 771 \<le> dec_val ?p"
  proof -
    have "(10::int) ^ 771 \<le> 10 ^ (length ?p - 1)" by (rule power_increasing) (use k in simp_all)
    also have "\<dots> \<le> dec_val ?p" by (rule dec_val_pos) (use d k in \<open>auto simp: hd_take\<close>)
    finally show ?thesis .
  qed
  have J: "(10::real) powi ?j = 10 ^ (length cs - k) * 10 powi e" by (simp add: power_int_add power_int_of_nat)
  have t: "dec_val ?t < 10 ^ (length cs - k)" using dec_val_bounds[of ?t] d by auto
  have tr: "0 < dec_real ?t e" "dec_real ?t e < 10 powi ?j"
  proof -
    show "0 < dec_real ?t e" using r by (simp add: dec_real_def)
    have "real_of_int (dec_val ?t) < of_int (10 ^ (length cs - k))" using t by (simp only: of_int_less_iff)
    then have "real_of_int (dec_val ?t) * 10 powi e < of_int (10 ^ (length cs - k)) * 10 powi e"
      by (rule mult_strict_right_mono) simp
    then show "dec_real ?t e < 10 powi ?j" unfolding J dec_real_def by simp
  qed
  have V: "dec_real cs e = of_int (dec_val ?p) * 10 powi ?j + dec_real ?t e"
    using dec_real_take[of k cs e] k by (simp add: dec_real_def)
  have J1: "(10::real) powi ?j = 10 powi (?j - 1) * 10"
    using power_int_add[of "10::real" "?j - 1" 1] by simp
  have one: "digit_of (ch CHR ''1'') = 1" by (simp add: digit_of_def ch_def of_char_def)
  have V': "dec_real (?p @ [ch CHR ''1'']) (?j - 1) = of_int (dec_val ?p) * 10 powi ?j + 10 powi (?j - 1)"
    unfolding dec_real_def dec_val_snoc one J1 by (simp add: distrib_right)
  have pos: "(0::real) < 10 powi (?j - 1)" by simp
  have S: "of_int (dec_val ?p + 1) * (10::real) powi ?j = of_int (dec_val ?p) * 10 powi ?j + 10 powi ?j" by (simp add: distrib_right)
  show ?thesis
    by (rule cut_same_side[OF P, of ?j]) (use tr pos J1 in \<open>unfold V V' S, linarith+\<close>)
qed

lemma cut_value:
  assumes d: "digits cs" "cs \<noteq> []" "hd cs \<noteq> ch CHR ''0''" "last cs \<noteq> ch CHR ''0''" and l: "780 < length cs"
  shows "same_side (dec_real cs e) (dec_real (take 779 cs @ [ch CHR ''1'']) (e + (int (length cs) - 780)))"
proof -
  have "0 < dec_val (drop 779 cs)" by (rule dec_val_last_pos) (use d l in auto)
  moreover have "e + int (length cs - 779) - 1 = e + (int (length cs) - 780)" using l by (simp add: of_nat_diff)
  ultimately show ?thesis using cut_value_at[OF d(1-3), of 779 e] l by (simp only: less_imp_le)
qed

lemma ok_TrimAndCut:
  assumes d: "digits cs" and sb: "length sb = 780"
    and Q: "\<And>t e'. digits t \<Longrightarrow> t = [] \<or> hd t \<noteq> ch CHR ''0'' \<Longrightarrow> length t \<le> 780 \<Longrightarrow>
      same_side (dec_real cs e) (dec_real t e') \<Longrightarrow> Q (t, e')"
  shows "ok (TrimAndCut cs e sb 780) Q"
  unfolding TrimAndCut_def
proof (subst ok_bind, rule ok_TrimLeadingZeros, goal_cases)
  case (1 n xs)
  note xs = this
  show ?case
  proof (subst ok_bind, rule ok_TrimTrailingZeros, goal_cases)
    case (1 m ys)
    note V = dec_real_trim[OF xs(1) 1(1), of e]
    have D: "digits ys" using d xs(1) 1(1) by simp
    have h: "ys = [] \<or> hd ys \<noteq> ch CHR ''0''" using xs(2) 1(1) by (cases ys) auto
    let ?e = "e + (int (length xs) - int (length ys))"
    show ?case
    proof (cases "int (length ys) > kMaxSignificantDecimalDigits")
      case False
      then show ?thesis using Q[OF D h] V by (simp add: Let_def)
    next
      case True
      then have l: "780 < length ys" by simp
      then have ne: "ys \<noteq> []" "hd ys \<noteq> ch CHR ''0''" "last ys \<noteq> ch CHR ''0''" using h 1(2) by auto
      let ?t = "take 779 ys @ [ch CHR ''1'']"
      have "Q (?t, ?e + (int (length ys) - 780))"
      proof (rule Q)
        have "digits [ch CHR ''1'']" by (simp add: digits_def digit_of_def ch_def of_char_def)
        then show "digits ?t" using D by simp
        have "hd ?t = hd ys" using l ne(1) by (simp add: hd_append hd_take)
        then show "?t = [] \<or> hd ?t \<noteq> ch CHR ''0''" using ne by simp
        show "length ?t \<le> 780" by simp
        show "same_side (dec_real cs e) (dec_real ?t (?e + (int (length ys) - 780)))"
          unfolding V by (rule cut_value[OF D ne l])
      qed
      moreover have "take (nat kMaxSignificantDecimalDigits) ?t = ?t" by simp
      ultimately have "ok (CutToMaxSignificantDigits ys ?e sb)
          (\<lambda>(c, u). Q (take (nat kMaxSignificantDecimalDigits) c, u))"
        by (intro ok_CutToMaxSignificantDigits[OF l sb ne(3)]) (simp del: take_append)
      then show ?thesis using True by (simp add: Let_def ok_bind ok_ensure split_def)
    qed
  qed
qed

end
