(* ===== verification/Strtod_Exact.thy ===== *)
theory Strtod_Exact
  imports Strtod_Guess
begin

text \<open>\<open>Strtod\<close> returns the nearest double, whatever the digits and the exponent.\<close>

section \<open>Strtod\<close>

lemma cmp_scaled_real:
  "cmp_scaled a e f k = sgn' (of_int a * 10 powi e - of_int f * 2 powi k)" if "sgn' = (\<lambda>x :: real. if x < 0 then -1 else if x = 0 then 0 else (1 :: int))"
proof -
  let ?c = "10 ^ nat (- e) * 2 ^ nat (- k) :: real"
  have c: "0 < ?c" by simp
  have "of_int (a * 10 ^ nat e * 2 ^ nat (- k) - f * 10 ^ nat (- e) * 2 ^ nat k) = (of_int a * 10 powi e - of_int f * 2 powi k) * ?c"
    by (simp add: powi_frac field_simps)
  moreover have "(x * ?c < 0) = (x < 0)" "(x * ?c = 0) = (x = 0)" for x
    using c by (auto simp: mult_less_0_iff)
  moreover have "cmp_scaled a e f k = sgn' (of_int (a * 10 ^ nat e * 2 ^ nat (- k) - f * 10 ^ nat (- e) * 2 ^ nat k))"
    unfolding cmp_scaled_def that by (simp only: of_int_less_0_iff of_int_eq_0_iff) (simp add: sgn_if)
  ultimately show ?thesis unfolding that by simp
qed

lemma two_split: "n = k + int m \<Longrightarrow> 0 \<le> n \<Longrightarrow> (2::real) ^ nat n = 2 powi k * 2 ^ m"
  using power_int_add[of "2::real" k "int m"] by (simp add: power_int_of_nat powi_nat[symmetric])

lemma cmp_scaled_units:
  assumes v: "finite_double v" and c: "c = cmp_scaled m e (2 * uint (DoubleSignificand v) + 1) (DoubleExponent v - 1)"
  shows "c < 0 \<longleftrightarrow> 2 * units_of (of_int m * 10 powi e) < mid (uint v)" "0 < c \<longleftrightarrow> mid (uint v) < 2 * units_of (of_int m * 10 powi e)"
proof -
  let ?s = "uint (DoubleSignificand v)" and ?V = "of_int m * 10 powi e :: real"
  have "fmt_sig 52 (uint v) = ?s" "int (fmt_shift 52 (uint v)) = DoubleExponent v + 1074"
    using finite_double_mag[OF v] by (simp_all add: Double_fields)
  then have "fmt_sig 52 (uint v) = ?s" "fmt_shift 52 (uint v) = nat (DoubleExponent v + 1074)" by simp_all
  then have m: "mid (uint v) = of_int (2 * ?s + 1) * 2 ^ nat (DoubleExponent v + 1074)"
    using mid_sig[of "uint v"] by simp
  have p: "(2::real) ^ nat (DoubleExponent v + 1074) = 2 powi (DoubleExponent v - 1) * 2 ^ 1075"
    by (rule two_split) (use finite_double_fields(4)[OF v] in simp_all)
  have e: "2 * units_of ?V - mid (uint v) = (?V - of_int (2 * ?s + 1) * 2 powi (DoubleExponent v - 1)) * 2 ^ 1075"
    unfolding twice_units m p by (simp only: left_diff_distrib mult.assoc)
  define P where "P = (2::real) ^ 1075"
  have P: "0 < P" unfolding P_def by (rule zero_less_power) simp
  define x where "x = ?V - of_int (2 * ?s + 1) * 2 powi (DoubleExponent v - 1)"
  have ex: "2 * units_of ?V - mid (uint v) = x * P" using e unfolding x_def P_def .
  have c: "c = (if x < 0 then -1 else if x = 0 then 0 else 1)" unfolding c x_def by (rule cmp_scaled_real) simp
  have "c < 0 \<longleftrightarrow> x * P < 0" "0 < c \<longleftrightarrow> 0 < x * P" using P by (auto simp: c mult_less_0_iff zero_less_mult_iff)
  then show "c < 0 \<longleftrightarrow> 2 * units_of ?V < mid (uint v)" "0 < c \<longleftrightarrow> mid (uint v) < 2 * units_of ?V"
    unfolding ex[symmetric] by auto
qed

lemma DoubleUpperBoundary_finite:
  assumes v: "finite_double v"
  obtains w where "DoubleUpperBoundary v = Some (DiyFp w (DoubleExponent v - 1))" "uint w = 2 * uint (DoubleSignificand v) + 1"
proof
  note F = finite_double_fields[OF v]
  show "DoubleUpperBoundary v = Some (DiyFp (DoubleSignificand v * 2 + 1) (DoubleExponent v - 1))"
    using F by (simp add: DoubleUpperBoundary_def ensure_def)
  have "uint (DoubleSignificand v * 2) = uint (DoubleSignificand v) * 2" by (subst uint_mult_exact) (use F in simp_all)
  then show "uint (DoubleSignificand v * 2 + 1) = 2 * uint (DoubleSignificand v) + 1" by (subst uint_add_small) (use F in simp_all)
qed

lemma NextDouble_finite: "finite_double v \<Longrightarrow> uint (NextDouble v) = uint v + 1"
proof -
  assume v: "finite_double v"
  have "NextDouble v = v + 1"
    using finite_double_fields(1)[OF v] v by (auto simp: NextDouble_def finite_double_def kDoubleInfinity_def)
  moreover have "uint (v + 1) = uint v + 1" by (subst uint_add_small) (use v in \<open>simp_all add: finite_double_def\<close>)
  ultimately show ?thesis by simp
qed

lemma DoubleSignificand_even: "finite_double v \<Longrightarrow> (DoubleSignificand v AND 1 = 0) = even (uint v)"
proof -
  assume v: "finite_double v"
  have "uint v = uint (DoubleSignificand v) + int (fmt_shift 52 (uint v)) * 2 ^ 52"
    using fmt_decode(1)[of "uint v" 52] finite_double_mag[OF v] by (simp add: Double_fields)
  from arg_cong[OF this, of even] have "even (uint v) = even (uint (DoubleSignificand v))" by simp
  moreover have "uint (DoubleSignificand v AND 1) = uint (DoubleSignificand v) mod 2"
    by (simp only: unsigned_and_eq) (simp add: and_one_eq)
  ultimately show ?thesis by (simp only: zero_word_iff even_iff_mod_2_eq_zero)
qed

text \<open>A guess whose exponent is positive is large, and then so is the number.\<close>

lemma large_guess:
  assumes o: "near (units_of V) (uint v) \<or> around (units_of V) (uint v)" and v: "finite_double v" "0 < DoubleExponent v - 1"
  shows "1 \<le> V"
proof -
  have s: "int (fmt_shift 52 (uint v)) = DoubleExponent v + 1074" using finite_double_mag[OF v(1)] by (simp add: Double_fields)
  then have k: "1076 \<le> fmt_shift 52 (uint v)" using v(2) by simp
  have "2 ^ 52 \<le> fmt_sig 52 (uint v)" by (rule fmt_decode(4)) (use k in simp_all)
  then have big: "2 ^ 52 + int 1075 * 2 ^ 52 + 1 \<le> uint v"
    using fmt_decode(1)[of "uint v" 52] k by simp
  have "mid (2 ^ 52 + int 1075 * 2 ^ 52) \<le> mid (uint v - 1)"
    using mid_mono[of "2 ^ 52 + int 1075 * 2 ^ 52" "uint v - 1"] big by (cases "2 ^ 52 + int 1075 * 2 ^ 52 = uint v - 1") auto
  moreover have "mid (uint v - 1) \<le> 2 * units_of V" using o big by (auto simp: near_def around_def)
  moreover have "mid (2 ^ 52 + int 1075 * 2 ^ 52) = (2 * of_int (2 ^ 52) + 1) * 2 ^ 1075" by (rule mids(1)) simp_all
  ultimately have "(2 * of_int (2 ^ 52) + 1) * 2 ^ 1075 \<le> V * 2 ^ 1075" unfolding twice_units by linarith
  then have "2 * of_int (2 ^ 52) + 1 \<le> V" by (rule mult_right_le_imp_le) (rule zero_less_power, simp)
  then show ?thesis by simp
qed

lemma near_step:
  assumes o: "near u r \<or> around u r" and r: "r < INFTY"
  shows "2 * u < mid r \<Longrightarrow> near u r" "mid r < 2 * u \<Longrightarrow> near u (r + 1)"
    "2 * u = mid r \<Longrightarrow> even r \<Longrightarrow> near u r" "2 * u = mid r \<Longrightarrow> odd r \<Longrightarrow> near u (r + 1)"
proof -
  have r0: "0 \<le> r" using o by (auto simp: near_def around_def)
  have m: "mid r < mid (r + 1)" by (rule mid_mono) (use r0 in auto)
  have m': "0 < r \<Longrightarrow> mid (r - 1) < mid r" by (rule mid_mono) auto
  have up: "mid r \<le> 2 * u \<Longrightarrow> 2 * u < mid (r + 1)"
    using o r m by (auto simp: near_def around_def)
  show "2 * u < mid r \<Longrightarrow> near u r" using o r by (auto simp: near_def around_def)
  show "mid r < 2 * u \<Longrightarrow> near u (r + 1)" using up r r0 by (auto simp: near_def)
  show "2 * u = mid r \<Longrightarrow> even r \<Longrightarrow> near u r" using r r0 m' by (auto simp: near_def)
  show "2 * u = mid r \<Longrightarrow> odd r \<Longrightarrow> near u (r + 1)" using up r r0 by (auto simp: near_def)
qed

lemma ok_Strtod:
  assumes d: "digits cs" and Q: "Q (decimal_double (dec_val cs) e)"
  shows "ok (Strtod cs e) Q"
  unfolding Strtod_def kMaxSignificantDecimalDigits_def
proof (subst ok_bind, rule ok_TrimAndCut[OF d], goal_cases)
  case 1
  show ?case by (simp add: copy_buffer_def)
next
  case (2 t e')
  have m0: "0 \<le> dec_val cs" using dec_val_bounds[OF d] by simp
  have R: "Q r" if "near (units_of (dec_real t e')) (uint r)" for r
  proof -
    have "near (units_of (of_int (dec_val cs) * 10 powi e)) (uint r)"
      using same_side_near[OF 2(4) that] by (simp add: dec_real_def)
    from near_decimal_double[OF m0 this] show ?thesis using Q by simp
  qed
  show ?case
    unfolding prod.case
  proof (subst ok_bind, rule ok_ComputeGuess[OF 2(1,2), where e = e'], goal_cases)
    case (1 r)
    then show ?case using R by simp
  next
    case (2 g)
    note o = 2(5)
    have v: "finite_double g" using 2(4) by (simp add: finite_double_def)
    obtain w where w: "DoubleUpperBoundary g = Some (DiyFp w (DoubleExponent g - 1))" "uint w = 2 * uint (DoubleSignificand g) + 1"
      by (rule DoubleUpperBoundary_finite[OF v])
    have hd: "hd t \<noteq> ch CHR ''0''" using \<open>t = [] \<or> _\<close> 2(1) by simp
    have small: "-1000 \<le> e'" if "0 < DoubleExponent g - 1"
    proof (rule ccontr)
      assume "\<not> -1000 \<le> e'"
      then have "e' + int (length t) \<le> 0" using \<open>length t \<le> 780\<close> by simp
      then have "(10::real) powi (e' + int (length t)) \<le> 10 powi 0" by (rule power_int_increasing) simp
      then show False using large_guess[OF o v that] dec_real_bounds(2)[OF \<open>digits t\<close> 2(1) hd, of e'] by simp
    qed
    note C = cmp_scaled_units[OF v refl, of "dec_val t" e', folded w(2) dec_real_def] and E = DoubleSignificand_even[OF v]
      and N = NextDouble_finite[OF v]
    note S = near_step[OF o 2(4)]
    have sm: "int (length t) + e' \<le> 310" "-324 < int (length t) + e'" using 2(2,3) by simp_all
    have "ok (CompareBufferWithDiyFp t e' (DiyFp w (DoubleExponent g - 1))) (\<lambda>comparison.
        ok (if comparison < 0 then Some g else if comparison > 0 then Some (NextDouble g)
            else if DoubleSignificand g AND 1 = 0 then Some g else Some (NextDouble g)) Q)"
    proof (rule ok_CompareBufferWithDiyFp[OF \<open>digits t\<close> \<open>length t \<le> 780\<close> sm], goal_cases)
      case 1
      then show ?case using small by simp
    next
      case 2
      let ?c = "cmp_scaled (dec_val t) e' (uint w) (DoubleExponent g - 1)"
      consider "?c < 0" | "0 < ?c" | "\<not> ?c < 0" "\<not> 0 < ?c" by linarith
      then show ?case
      proof cases
        case 1
        then show ?thesis using R[OF S(1)] C by simp
      next
        case 2
        then have "near (units_of (dec_real t e')) (uint (NextDouble g))" using S(2) C N by simp
        then show ?thesis using 2 R by simp
      next
        case 3
        then have eq: "2 * units_of (dec_real t e') = mid (uint g)" using C by linarith
        show ?thesis
        proof (cases "even (uint g)")
          case True
          then show ?thesis using 3 E R[OF S(3)[OF eq]] by simp
        next
          case False
          then have "near (units_of (dec_real t e')) (uint (NextDouble g))" using S(4)[OF eq] N by simp
          then show ?thesis using 3 E False R by simp
        qed
      qed
    qed
    then show ?case by (simp add: w(1) ok_bind)
  qed
qed

end
