(* ===== verification/Strtod_Correct.thy ===== *)
theory Strtod_Correct
  imports Strtod_Exact
begin

text \<open>The table of powers and \<open>strtod.cc\<close>.\<close>

text \<open>The properties of the table of powers and of the decimal-to-double conversion.\<close>



text \<open>C9: Reading what a double is exactly equal to gives that double: for every finite double v and every way of writing v as digits and an exponent, Strtod returns v.\<close>

theorem Strtod_exact_value:
  assumes "digits cs" "finite_double v"
    and "dec_val cs * 10 ^ nat e * 2 ^ 1074 = fmt_units 52 (uint v) * 10 ^ nat (- e)"
  shows "Strtod cs e = Some v"
proof -
  have m: "0 \<le> dec_val cs" using dec_val_bounds[OF assms(1)] by simp
  have "rounds_to (10 ^ nat (- e) * dunits v) (10 ^ nat (- e)) v" by (rule rounds_to_exact[OF assms(2)]) simp
  then have "v = decimal_double (dec_val cs) e"
    by (rule decimal_double_unique) (use m assms(3) in \<open>simp_all only: dunits_def mult_ac, simp_all\<close>)
  then have "ok (Strtod cs e) (\<lambda>r. r = v)" by (intro ok_Strtod[OF assms(1)]) simp
  then show ?thesis by (simp add: ok_def)
qed

lemma Strtod_exact_value_witness: "Strtod [ch CHR ''1'', ch CHR ''5''] (-1) = Some 0x3FF8000000000000"
proof -
  let ?cs = "[ch CHR ''1'', ch CHR ''5'']"
  have d: "digits ?cs" by (simp add: digits_def digit_of_def ch_def of_char_def)
  have v: "dec_val ?cs = 15" by (simp add: dec_val_def radix_val_def digit_of_def ch_def of_char_def)
  have f: "finite_double 0x3FF8000000000000" by (simp add: finite_double_def)
  have u: "fmt_units 52 (uint (0x3FF8000000000000 :: u64)) = 6755399441055744 * 2 ^ 1022"
    unfolding fmt_units_def fmt_sig_def fmt_shift_def by simp
  have "(15 * 2 ^ 52) * (2::int) ^ 1022 = 15 * 2 ^ 1074" by (simp only: mult.assoc power_add[symmetric]) simp
  then have "15 * 2 ^ 1074 = (6755399441055744 * 2 ^ 1022) * (10::int)" by simp
  then have "dec_val ?cs * 10 ^ nat (-1) * 2 ^ 1074 = fmt_units 52 (uint (0x3FF8000000000000 :: u64)) * 10 ^ nat (- (-1))"
    unfolding v u by simp
  from Strtod_exact_value[OF d f this] show ?thesis .
qed

text \<open>C17: The 64-bit path keeps its promise: when it answers true the double is the nearest one, and otherwise the nearest one or the one just below it, for every input that is not out of range.\<close>

theorem DiyFpStrtod_promise:
  assumes "digits cs" "cs \<noteq> []" "hd cs \<noteq> ch CHR ''0''" "-324 < e + int (length cs)" "e + int (length cs) \<le> 309"
  shows "\<exists>b r. DiyFpStrtod cs e = Some (b, r) \<and>
    (uint r = uint (decimal_double (dec_val cs) e) \<or> \<not> b \<and> uint r + 1 = uint (decimal_double (dec_val cs) e))"
proof -
  have m: "0 \<le> dec_val cs" using dec_val_bounds[OF assms(1)] by simp
  note N = near_decimal_double[OF m, of e, folded dec_real_def]
  have "ok (DiyFpStrtod cs e) (\<lambda>(b, r). uint r = uint (decimal_double (dec_val cs) e) \<or>
      \<not> b \<and> uint r + 1 = uint (decimal_double (dec_val cs) e))"
  proof (rule ok_DiyFpStrtod[OF assms], goal_cases)
    case (1 b r)
    show ?case
    proof (cases "near (units_of (dec_real cs e)) (uint r)")
      case True
      then show ?thesis using N[of r] by simp
    next
      case False
      then have a: "around (units_of (dec_real cs e)) (uint r)" "\<not> b" using outcome_cases[OF 1] by auto
      have r: "uint r < INFTY" using a(1) False around_infinity[of "units_of (dec_real cs e)"]
        by (cases "uint r = INFTY") (auto simp: around_def)
      have "near (units_of (dec_real cs e)) (uint r + 1)"
        using near_step[OF disjI2[OF a(1)] r] False
        by (cases "2 * units_of (dec_real cs e)" "mid (uint r)" rule: linorder_cases) auto
      moreover have "uint (r + 1) = uint r + 1" by (subst uint_add_small) (use r in simp_all)
      ultimately have "r + 1 = decimal_double (dec_val cs) e" using N[of "r + 1"] by simp
      then show ?thesis using a(2) \<open>uint (r + 1) = _\<close> by simp
    qed
  qed
  then show ?thesis by (auto simp: ok_def)
qed

lemma digits_17: "digits [ch CHR ''1'', ch CHR ''7'']"
  by (simp add: digits_def digit_of_def ch_def of_char_def)

lemma dec_val_17: "dec_val [ch CHR ''1'', ch CHR ''7''] = 17"
  by (simp add: dec_val_def radix_val_def digit_of_def ch_def of_char_def)

lemma DiyFpStrtod_promise_witness:
  "\<exists>b r. DiyFpStrtod [ch CHR ''1'', ch CHR ''7''] 200 = Some (b, r) \<and>
    (uint r = uint (decimal_double 17 200) \<or> \<not> b \<and> uint r + 1 = uint (decimal_double 17 200))"
  using DiyFpStrtod_promise[OF digits_17, of 200] unfolding dec_val_17 by (simp add: ch_def of_char_def)

text \<open>C20: The fast path in double arithmetic rounds only once: whenever it answers, its answer is the correctly rounded value, the same as that of the general algorithm.\<close>

theorem DoubleStrtod_agrees:
  assumes "digits cs"
  shows "\<exists>r. DoubleStrtod cs e = Some r \<and> (r = None \<or> r = Strtod cs e)"
proof -
  have "Strtod cs e = Some (decimal_double (dec_val cs) e)"
    using ok_Strtod[OF assms, of "\<lambda>r. r = decimal_double (dec_val cs) e" e] by (simp add: ok_def)
  moreover have "ok (DoubleStrtod cs e) (\<lambda>r. \<forall>v. r = Some v \<longrightarrow> v = decimal_double (dec_val cs) e)"
    by (rule ok_DoubleStrtod[OF assms]) blast
  ultimately show ?thesis unfolding ok_def by (metis option.exhaust)
qed

lemma DoubleStrtod_agrees_witness:
  "\<exists>r. DoubleStrtod [ch CHR ''1'', ch CHR ''7''] 3 = Some r \<and> (r = None \<or> r = Strtod [ch CHR ''1'', ch CHR ''7''] 3)"
  by (rule DoubleStrtod_agrees[OF digits_17])



text \<open>C22: The look-up of a power of ten succeeds for every exponent of the table's range, returns the largest tabulated power that is not larger, and its 64-bit significand is normalised and within half a unit of the exact power.\<close>

theorem GetCachedPowerForDecimalExponent_close:
  assumes "-348 \<le> e" "e < 348"
  shows "\<exists>s b d. GetCachedPowerForDecimalExponent e = Some (DiyFp s b, d) \<and> d \<le> e \<and> e < d + 8 \<and>
    2 ^ 63 \<le> uint s \<and> 2 * \<bar>10 powi d * 2 powi (- b) - real_of_int (uint s)\<bar> \<le> 1"
proof -
  have "ok (GetCachedPowerForDecimalExponent e) (\<lambda>(c, d). \<exists>s b. c = DiyFp s b \<and> d \<le> e \<and> e < d + 8 \<and>
    9223372036854775808 \<le> uint s \<and> 2 * \<bar>10 powi d * 2 powi (- b) - real_of_int (uint s)\<bar> \<le> 1)"
    by (rule ok_GetCachedPowerForDecimalExponent[OF assms]) (use near_power_real in blast)
  then show ?thesis by (fastforce simp: ok_def)
qed

lemma GetCachedPowerForDecimalExponent_close_witness:
  "\<exists>s b d. GetCachedPowerForDecimalExponent 0 = Some (DiyFp s b, d) \<and> d \<le> 0 \<and> 0 < d + 8 \<and>
    2 ^ 63 \<le> uint s \<and> 2 * \<bar>10 powi d * 2 powi (- b) - real_of_int (uint s)\<bar> \<le> 1"
  by (rule GetCachedPowerForDecimalExponent_close) simp_all

text \<open>C19: Trimming zeros and cutting to 780 digits changes no rounding decision: what is left is a digit string without leading zero, short enough for the exact comparison, and no midpoint of two neighbouring doubles separates the two values.\<close>

theorem TrimAndCut_keeps_rounding:
  assumes "digits cs" "length space = 780"
  shows "\<exists>t e'. TrimAndCut cs e space 780 = Some (t, e') \<and> digits t \<and> length t \<le> 780 \<and> (t = [] \<or> hd t \<noteq> ch CHR ''0'') \<and>
    (\<forall>n. 0 \<le> n \<and> n < 0x7FF0000000000000 \<longrightarrow>
      sgn (2 ^ 1075 * (of_int (dec_val cs) * 10 powi e) - of_int (fmt_units 52 n + fmt_units 52 (n + 1)) :: real) =
      sgn (2 ^ 1075 * (of_int (dec_val t) * 10 powi e') - of_int (fmt_units 52 n + fmt_units 52 (n + 1))))"
proof -
  have "ok (TrimAndCut cs e space 780) (\<lambda>(t, e'). digits t \<and> length t \<le> 780 \<and> (t = [] \<or> hd t \<noteq> ch CHR ''0'') \<and>
      same_side (dec_real cs e) (dec_real t e'))"
    by (rule ok_TrimAndCut[OF assms]) simp
  then obtain t e' where T: "TrimAndCut cs e space 780 = Some (t, e')" "digits t" "length t \<le> 780" "t = [] \<or> hd t \<noteq> ch CHR ''0''"
    "same_side (dec_real cs e) (dec_real t e')" by (auto simp: ok_def)
  have "sgn (2 ^ 1075 * dec_real cs e - mid n) = sgn (2 ^ 1075 * dec_real t e' - mid n)" if "0 \<le> n \<and> n < INFTY" for n
  proof -
    have "2 ^ 1075 * dec_real cs e = 2 * units_of (dec_real cs e)" "2 ^ 1075 * dec_real t e' = 2 * units_of (dec_real t e')"
      by (simp_all only: twice_units mult.commute)
    moreover have "sgn (x - m) = sgn (y - m)" if "(x < m) = (y < m)" "(m < x) = (m < y)" for x y m :: real
      using that by (auto simp: sgn_if)
    moreover have "(2 * units_of (dec_real cs e) < mid n) = (2 * units_of (dec_real t e') < mid n)"
      "(mid n < 2 * units_of (dec_real cs e)) = (mid n < 2 * units_of (dec_real t e'))"
      using T(5) that unfolding same_side_def by blast+
    ultimately show ?thesis by metis
  qed
  then have "\<forall>n. 0 \<le> n \<and> n < INFTY \<longrightarrow>
      sgn (2 ^ 1075 * dec_real cs e - mid n) = sgn (2 ^ 1075 * dec_real t e' - mid n)" by blast
  then show ?thesis using T(1-4) unfolding dec_real_def[of cs] dec_real_def[of t] mid_def by blast
qed

lemma TrimAndCut_keeps_rounding_witness:
  "\<exists>t e'. TrimAndCut [ch CHR ''1'', ch CHR ''7''] 5 copy_buffer 780 = Some (t, e') \<and> digits t \<and> length t \<le> 780"
proof -
  have "length copy_buffer = 780" by (simp add: copy_buffer_def)
  from TrimAndCut_keeps_rounding[OF digits_17 this, of 5] show ?thesis by blast
qed

end
