(* ===== verification/Double_Real.thy ===== *)
theory Double_Real
  imports Strtod_Exact
begin

text \<open>The real value of a double and the error of the rounded operations.\<close>

section \<open>The real value of a double\<close>

definition dreal :: "double \<Rightarrow> real" where
  "dreal x = (case double_frac x of (n, d) \<Rightarrow> of_int n / of_int d)"

lemma dreal_fields: "dreal x = of_int (DoubleSign x * uint (DoubleSignificand x)) * 2 powi (DoubleExponent x)"
  by (simp add: dreal_def double_frac_def scale2_eq powi_frac)

lemma dreal_finite: "finite_double r \<Longrightarrow> dreal r = of_int (dunits r) / 2 ^ 1074"
proof -
  assume r: "finite_double r"
  obtain n d where F: "double_frac r = (n, d)" "0 \<le> n" "0 < d" "n * 2 ^ 1074 = dunits r * d" by (rule double_frac_finite[OF r])
  define P where "P = (2::int) ^ 1074"
  have P: "(0::real) < of_int P" unfolding P_def of_int_0_less_iff by (rule zero_less_power) simp
  have "of_int n * of_int P = of_int (dunits r) * (of_int d :: real)" using F(4) unfolding P_def[symmetric] by (metis of_int_mult)
  then have "of_int n / of_int d = of_int (dunits r) / (of_int P :: real)" using P F(3) by (simp add: field_simps)
  then show ?thesis unfolding dreal_def F(1) P_def prod.case of_int_power of_int_numeral .
qed

lemma uint_double_neg: "finite_double r \<Longrightarrow> uint (double_neg r) = uint r + 2 ^ 63"
proof -
  assume r: "finite_double r"
  let ?m = "0x8000000000000000 :: u64"
  have z: "r AND ?m = 0" using r by (simp add: sign_bit finite_double_def)
  then have "r XOR ?m = r OR ?m" by (auto simp: bit_eq_iff bit_simps)
  also have "\<dots> = r + ?m" using word_plus_and_or[of r ?m] z by simp
  finally have "double_neg r = r + ?m" by (simp add: double_neg_def)
  then show ?thesis using r by (subst \<open>double_neg r = _\<close>, subst uint_add_small) (simp_all add: finite_double_def)
qed

lemma dreal_neg: "finite_double r \<Longrightarrow> dreal (double_neg r) = - dreal r"
proof -
  assume r: "finite_double r"
  have m: "mag64 (double_neg r) = mag64 r" using r by (simp add: mag64_def uint_double_neg)
  have "\<not> uint (double_neg r) < 2 ^ 63" using uint_double_neg[OF r] by simp
  then have s: "DoubleSign (double_neg r) = -1" by (simp add: Double_fields)
  have f: "uint (DoubleSignificand (double_neg r)) = uint (DoubleSignificand r)" "DoubleExponent (double_neg r) = DoubleExponent r"
    by (simp_all add: Double_fields m)
  show ?thesis unfolding dreal_fields s f finite_double_fields(1)[OF r] by simp
qed

lemma double_frac_neg: "finite_double r \<Longrightarrow> double_frac r = (n, d) \<Longrightarrow> double_frac (double_neg r) = (- n, d)"
proof -
  assume r: "finite_double r" and f: "double_frac r = (n, d)"
  have m: "mag64 (double_neg r) = mag64 r" using r by (simp add: mag64_def uint_double_neg)
  have "\<not> uint (double_neg r) < 2 ^ 63" using uint_double_neg[OF r] by simp
  then have s: "DoubleSign (double_neg r) = -1" by (simp add: Double_fields)
  have g: "uint (DoubleSignificand (double_neg r)) = uint (DoubleSignificand r)" "DoubleExponent (double_neg r) = DoubleExponent r"
    by (simp_all add: Double_fields m)
  show ?thesis using f unfolding double_frac_def s g finite_double_fields(1)[OF r] by (auto simp: scale2_eq)
qed

text \<open>A signed finite double is a non-negative one or the negative of one.\<close>

definition signed_double :: "double \<Rightarrow> bool" where
  "signed_double x \<longleftrightarrow> finite_double x \<or> (\<exists>r. finite_double r \<and> x = double_neg r)"

lemma signed_double_frac:
  assumes "signed_double x"
  obtains n d where "double_frac x = (n, d)" "0 < d" "dreal x = of_int n / of_int d" "DoubleSign x = 1 \<and> 0 \<le> n \<or> DoubleSign x = -1 \<and> n \<le> 0"
  using assms unfolding signed_double_def
proof (elim disjE exE conjE)
  assume r: "finite_double x"
  obtain n d where F: "double_frac x = (n, d)" "0 \<le> n" "0 < d" "n * 2 ^ 1074 = dunits x * d" by (rule double_frac_finite[OF r])
  show thesis by (rule that[OF F(1,3)]) (use F finite_double_fields(1)[OF r] in \<open>simp_all add: dreal_def\<close>)
next
  fix r assume r: "finite_double r" "x = double_neg r"
  obtain n d where F: "double_frac r = (n, d)" "0 \<le> n" "0 < d" "n * 2 ^ 1074 = dunits r * d" by (rule double_frac_finite[OF r(1)])
  have "\<not> uint (double_neg r) < 2 ^ 63" using uint_double_neg[OF r(1)] by simp
  then have s: "DoubleSign x = -1" by (simp add: Double_fields r(2))
  have "double_frac x = (- n, d)" using double_frac_neg[OF r(1) F(1)] r(2) by simp
  then show thesis using that[of "- n" d] F s by (simp add: dreal_def)
qed

section \<open>Rounding errors\<close>

lemma near_error:
  assumes n: "near u r" and u: "0 \<le> u" "u < 2 ^ (k + 53)" and k: "k \<le> 2000"
  shows "r < INFTY" "\<bar>of_int (fmt_units 52 r) - u\<bar> \<le> 2 ^ k"
proof -
  have r0: "0 \<le> r" using n by (simp add: near_def)
  have big: "mid (2 ^ 52 + int (Suc k) * 2 ^ 52) = (2 * of_int (2 ^ 52) + 1) * 2 ^ Suc k" by (rule mids(1)) simp_all
  have shift: "r \<le> 2 ^ 52 + int (Suc k) * 2 ^ 52"
  proof (rule ccontr)
    assume "\<not> r \<le> 2 ^ 52 + int (Suc k) * 2 ^ 52"
    then have lt: "2 ^ 52 + int (Suc k) * 2 ^ 52 \<le> r - 1" "0 < r" by simp_all
    then have "mid (2 ^ 52 + int (Suc k) * 2 ^ 52) \<le> mid (r - 1)"
      using mid_mono[of "2 ^ 52 + int (Suc k) * 2 ^ 52" "r - 1"] by (cases "2 ^ 52 + int (Suc k) * 2 ^ 52 = r - 1") auto
    also have "\<dots> \<le> 2 * u" using n lt(2) by (auto simp: near_def)
    also have "\<dots> < 2 * 2 ^ (k + 53)" using u(2) by simp
    also have "\<dots> = (2 * of_int (2 ^ 52)) * 2 ^ Suc k" by (simp add: power_add)
    also have "\<dots> \<le> (2 * of_int (2 ^ 52) + 1) * (2::real) ^ Suc k" by (rule mult_right_mono) simp_all
    finally show False using big by simp
  qed
  have "int (Suc k) * 2 ^ 52 \<le> 2001 * 2 ^ 52" using k by (intro mult_right_mono) auto
  then show rI: "r < INFTY" using shift by simp
  have "fmt_shift 52 r \<le> fmt_shift 52 (2 ^ 52 + int (Suc k) * 2 ^ 52)" by (rule fmt_shift_mono[OF shift])
  also have "\<dots> = Suc k" by (rule fmt_encode(2)) simp_all
  finally have sh: "fmt_shift 52 r \<le> Suc k" .
  then have gap: "(2::real) ^ fmt_shift 52 r \<le> 2 * 2 ^ k" using power_increasing[OF sh, of "2::real"] by simp
  have up: "u - of_int (fmt_units 52 r) \<le> 2 ^ k"
  proof -
    have "2 * u \<le> mid r" using n rI by (auto simp: near_def)
    also have "mid r = 2 * of_int (fmt_units 52 r) + 2 ^ fmt_shift 52 r" using fmt_units_Suc[OF r0, of 52] by (simp add: mid_def)
    finally show ?thesis using gap by simp
  qed
  have lo: "of_int (fmt_units 52 r) - u \<le> 2 ^ k"
  proof (cases "r = 0")
    case True
    have "(0::real) \<le> 2 ^ k" by simp
    then show ?thesis unfolding True fmt_units_0 of_int_0 using u(1) by linarith
  next
    case False
    have "mid (r - 1) \<le> 2 * u" using n r0 False by (auto simp: near_def)
    moreover have "mid (r - 1) = 2 * of_int (fmt_units 52 r) - 2 ^ fmt_shift 52 (r - 1)"
      using fmt_units_Suc[of "r - 1" 52] r0 False by (simp add: mid_def)
    moreover have "(2::real) ^ fmt_shift 52 (r - 1) \<le> 2 ^ Suc k"
      by (rule power_increasing) (use fmt_shift_mono[of "r - 1" r 52] sh in auto)
    ultimately show ?thesis by simp
  qed
  show "\<bar>of_int (fmt_units 52 r) - u\<bar> \<le> 2 ^ k" using up lo by (simp add: abs_le_iff)
qed

lemma round_double_real:
  assumes n: "0 \<le> n" "0 < d" and b: "of_int n / of_int d < (2::real) powi (e + 53)" and e: "-1074 \<le> e" "e \<le> 900"
  shows "finite_double (round_double n d)" "\<bar>dreal (round_double n d) - of_int n / of_int d\<bar> \<le> 2 powi e"
proof -
  define k where "k = nat (e + 1074)"
  define P where "P = (2::real) ^ 1074"
  have P: "0 < P" unfolding P_def by (rule zero_less_power) simp
  have k: "k \<le> 2000" using e by (simp add: k_def)
  let ?q = "of_int n / of_int d :: real" and ?r = "round_double n d"
  have k1: "(2::real) ^ k = 2 powi e * P" unfolding k_def P_def by (rule two_split) (use e in simp_all)
  have k53: "(2::real) ^ (k + 53) = 2 powi (e + 53) * P"
  proof -
    have "k + 53 = nat (e + 53 + int 1074)" using e by (simp add: k_def)
    moreover have "(2::real) ^ nat (e + 53 + int 1074) = 2 powi (e + 53) * P" unfolding P_def by (rule two_split) (use e in simp_all)
    ultimately show ?thesis by (simp only:)
  qed
  have "?q * P * of_int d = of_int (n * 2 ^ 1074)"
    unfolding P_def of_int_mult of_int_power of_int_numeral using n(2) by simp
  then have near: "near (?q * P) (uint ?r)"
    using near_rounds_to[OF _ n(2)] round_double_rounds[OF n] by blast
  have u: "0 \<le> ?q * P" "?q * P < 2 ^ (k + 53)"
    using n P mult_strict_right_mono[OF b P] unfolding k53 by simp_all
  note E = near_error[OF near u k]
  show fd: "finite_double ?r" using E(1) by (simp add: finite_double_def)
  have "dreal ?r * P = of_int (fmt_units 52 (uint ?r))"
    unfolding dreal_finite[OF fd] dunits_def P_def[symmetric] using P by simp
  then have "\<bar>dreal ?r - ?q\<bar> * P \<le> 2 powi e * P" using E(2) P unfolding k1
    by (metis abs_mult abs_of_pos left_diff_distrib)
  then show "\<bar>dreal ?r - ?q\<bar> \<le> 2 powi e" using P by simp
qed

lemma signed_neg [simp]: "finite_double r \<Longrightarrow> signed_double (double_neg r)" "finite_double r \<Longrightarrow> signed_double r"
  by (auto simp: signed_double_def)

lemma round_signed_real:
  assumes d: "0 < d" and b: "\<bar>of_int n / of_int d\<bar> < (2::real) powi (e + 53)" and e: "-1074 \<le> e" "e \<le> 900"
  shows "signed_double (double_round_signed n d)" "\<bar>dreal (double_round_signed n d) - of_int n / of_int d\<bar> \<le> 2 powi e"
proof -
  have "signed_double (double_round_signed n d) \<and> \<bar>dreal (double_round_signed n d) - of_int n / of_int d\<bar> \<le> 2 powi e"
  proof (cases "n < 0")
    case True
    then have n: "0 \<le> - n" by simp
    have "of_int (- n) / of_int d < (2::real) powi (e + 53)" using b by (auto simp: abs_if split: if_splits)
    note R = round_double_real[OF n d this e]
    have "\<bar>- dreal (round_double (- n) d) - of_int n / of_int d\<bar> = \<bar>dreal (round_double (- n) d) - of_int (- n) / of_int d\<bar>"
      by (simp add: abs_minus_commute)
    then show ?thesis using True R by (simp add: double_round_signed_def dreal_neg)
  next
    case False
    then have n: "0 \<le> n" by simp
    have "of_int n / of_int d < (2::real) powi (e + 53)" using b by (auto simp: abs_if split: if_splits)
    from round_double_real[OF n d this e] show ?thesis using False by (simp add: double_round_signed_def)
  qed
  then show "signed_double (double_round_signed n d)" "\<bar>dreal (double_round_signed n d) - of_int n / of_int d\<bar> \<le> 2 powi e" by auto
qed

lemma double_mult_real:
  assumes a: "signed_double a" and c: "signed_double c" and b: "\<bar>dreal a * dreal c\<bar> < 2 powi (e + 53)" and e: "-1074 \<le> e" "e \<le> 900"
  shows "signed_double (double_mult a c)" "\<bar>dreal (double_mult a c) - dreal a * dreal c\<bar> \<le> 2 powi e"
proof -
  obtain n d where A: "double_frac a = (n, d)" "0 < d" "dreal a = of_int n / of_int d" "DoubleSign a = 1 \<and> 0 \<le> n \<or> DoubleSign a = -1 \<and> n \<le> 0"
    by (rule signed_double_frac[OF a])
  obtain n' d' where C: "double_frac c = (n', d')" "0 < d'" "dreal c = of_int n' / of_int d'" "DoubleSign c = 1 \<and> 0 \<le> n' \<or> DoubleSign c = -1 \<and> n' \<le> 0"
    by (rule signed_double_frac[OF c])
  let ?r = "round_double (\<bar>n\<bar> * \<bar>n'\<bar>) (d * d')"
  have q: "of_int (\<bar>n\<bar> * \<bar>n'\<bar>) / of_int (d * d') = \<bar>dreal a * dreal c\<bar>"
    using A(2) C(2) by (simp add: A(3) C(3) abs_mult)
  have R: "finite_double ?r" "\<bar>dreal ?r - \<bar>dreal a * dreal c\<bar>\<bar> \<le> 2 powi e"
    using round_double_real[of "\<bar>n\<bar> * \<bar>n'\<bar>" "d * d'" e] A(2) C(2) b e unfolding q by simp_all
  have m: "double_mult a c = (if DoubleSign a = DoubleSign c then ?r else double_neg ?r)"
    by (simp add: double_mult_def A(1) C(1))
  have s: "0 \<le> dreal a * dreal c" if "DoubleSign a = DoubleSign c"
    unfolding A(3) C(3) using A(2,4) C(2,4) that by (auto simp: zero_le_mult_iff zero_le_divide_iff divide_le_0_iff)
  have s': "dreal a * dreal c \<le> 0" if "DoubleSign a \<noteq> DoubleSign c"
    unfolding A(3) C(3) using A(2,4) C(2,4) that by (auto simp: mult_le_0_iff zero_le_divide_iff divide_le_0_iff)
  have neg: "\<bar>- x - y\<bar> = \<bar>x - \<bar>y\<bar>\<bar>" if "y \<le> 0" for x y :: real using that by (simp add: abs_minus_commute)
  show "signed_double (double_mult a c)" using R by (simp add: m)
  show "\<bar>dreal (double_mult a c) - dreal a * dreal c\<bar> \<le> 2 powi e"
  proof (cases "DoubleSign a = DoubleSign c")
    case True
    then show ?thesis using R(2) s m by simp
  next
    case False
    then show ?thesis using R m neg[OF s'[OF False], of "dreal ?r"] by (simp add: dreal_neg)
  qed
qed

lemma double_sub_real:
  assumes a: "signed_double a" and c: "signed_double c" and b: "\<bar>dreal a - dreal c\<bar> < 2 powi (e + 53)" and e: "-1074 \<le> e" "e \<le> 900"
  shows "signed_double (double_sub a c)" "\<bar>dreal (double_sub a c) - (dreal a - dreal c)\<bar> \<le> 2 powi e"
proof -
  obtain n d where A: "double_frac a = (n, d)" "0 < d" "dreal a = of_int n / of_int d" by (rule signed_double_frac[OF a])
  obtain n' d' where C: "double_frac c = (n', d')" "0 < d'" "dreal c = of_int n' / of_int d'" by (rule signed_double_frac[OF c])
  have q: "of_int (n * d' - n' * d) / of_int (d * d') = dreal a - dreal c"
    using A(2) C(2) by (simp add: A(3) C(3) field_simps)
  have s: "double_sub a c = double_round_signed (n * d' - n' * d) (d * d')" by (simp add: double_sub_def A(1) C(1))
  have d: "0 < d * d'" using A(2) C(2) by simp
  show "signed_double (double_sub a c)" "\<bar>dreal (double_sub a c) - (dreal a - dreal c)\<bar> \<le> 2 powi e"
    unfolding s q[symmetric] by (rule round_signed_real[OF d _ e]; use b in \<open>simp only: q\<close>)+
qed

lemma double_of_int_real:
  assumes "\<bar>n\<bar> < 2 ^ 53"
  shows "signed_double (double_of_int n)" "dreal (double_of_int n) = of_int n"
proof -
  have m: "\<bar>n\<bar> = (if n < 0 then - n else n)" by simp
  have e: "double_of_int n = (if n < 0 then double_neg (double_of_int (- n)) else double_of_int n)"
    by (simp add: double_of_int_def double_round_signed_def)
  have pos: "dreal (double_of_int k) = of_int k" "finite_double (double_of_int k)" if "0 \<le> k" "k < 2 ^ 53" for k
  proof -
    note X = double_of_int_exact[OF that]
    define P where "P = (2::int) ^ 1074"
    have P: "P \<noteq> 0" unfolding P_def by (rule power_not_zero) simp
    have "dreal (double_of_int k) = of_int (k * P) / of_int P" unfolding dreal_finite[OF X(1)] X(2) P_def by (simp only: of_int_power of_int_numeral)
    then show "dreal (double_of_int k) = of_int k" using P by simp
    show "finite_double (double_of_int k)" by (rule X(1))
  qed
  show "signed_double (double_of_int n)" "dreal (double_of_int n) = of_int n"
    using pos[of n] pos[of "- n"] assms by (subst e, cases "n < 0"; simp add: dreal_neg)+
qed

lemma double_ceil_real: "signed_double x \<Longrightarrow> double_ceil x = \<lceil>dreal x\<rceil>"
  by (erule signed_double_frac) (simp add: double_ceil_def ceiling_divide_eq_div)

end
