(* ===== verification/Bignum_Dtoa.thy ===== *)
theory Bignum_Dtoa
  imports Bignum Ieee
begin

text \<open>
  Digit generation with exact integers (\<open>bignum-dtoa.cc\<close>), the slow path every other algorithm
  falls back to. The out-parameters are returned; \<open>buffer\<close> is the caller's \<open>Vector<char>\<close>.
\<close>

datatype bignum_dtoa_mode =
  BIGNUM_DTOA_SHORTEST
| BIGNUM_DTOA_SHORTEST_SINGLE
| BIGNUM_DTOA_FIXED
| BIGNUM_DTOA_PRECISION

definition NormalizedExponent :: "u64 \<Rightarrow> int \<Rightarrow> int option" where
  "NormalizedExponent significand exponent = do {
     ensure (significand \<noteq> 0);
     (_, exponent) \<leftarrow> while_do (\<lambda>(s, e). Some (s AND kDoubleHiddenBit = 0))
       (\<lambda>(s, e). Some (push_bit 1 s, e - 1)) (significand, exponent);
     Some exponent }"

definition k1Log10 :: double where "k1Log10 = round_double 30102999566398114 (10 ^ 17)"

definition EstimatePower :: "int \<Rightarrow> int" where
  "EstimatePower exponent =
     double_ceil (double_sub
       (double_mult (double_of_int (exponent + kDoubleSignificandSize - 1)) k1Log10)
       (round_double 1 (10 ^ 10)))"

section \<open>Start values\<close>

text \<open>The four bignums are numerator, denominator, delta_minus and delta_plus.\<close>

definition InitialScaledStartValuesPositiveExponent ::
    "u64 \<Rightarrow> int \<Rightarrow> int \<Rightarrow> bool \<Rightarrow> bignum \<Rightarrow> bignum \<Rightarrow> bignum \<Rightarrow> bignum \<Rightarrow>
     (bignum \<times> bignum \<times> bignum \<times> bignum) option" where
  "InitialScaledStartValuesPositiveExponent significand exponent estimated_power
      need_boundary_deltas numerator denominator delta_minus delta_plus = do {
     ensure (estimated_power \<ge> 0);
     numerator \<leftarrow> AssignUInt64 significand numerator;
     numerator \<leftarrow> ShiftLeft exponent numerator;
     denominator \<leftarrow> AssignPowerUInt16 10 estimated_power denominator;
     if need_boundary_deltas then do {
       denominator \<leftarrow> ShiftLeft 1 denominator;
       numerator \<leftarrow> ShiftLeft 1 numerator;
       delta_plus \<leftarrow> AssignUInt16 1 delta_plus;
       delta_plus \<leftarrow> ShiftLeft exponent delta_plus;
       delta_minus \<leftarrow> AssignUInt16 1 delta_minus;
       delta_minus \<leftarrow> ShiftLeft exponent delta_minus;
       Some (numerator, denominator, delta_minus, delta_plus) }
     else Some (numerator, denominator, delta_minus, delta_plus) }"

definition InitialScaledStartValuesNegativeExponentPositivePower ::
    "u64 \<Rightarrow> int \<Rightarrow> int \<Rightarrow> bool \<Rightarrow> bignum \<Rightarrow> bignum \<Rightarrow> bignum \<Rightarrow> bignum \<Rightarrow>
     (bignum \<times> bignum \<times> bignum \<times> bignum) option" where
  "InitialScaledStartValuesNegativeExponentPositivePower significand exponent estimated_power
      need_boundary_deltas numerator denominator delta_minus delta_plus = do {
     numerator \<leftarrow> AssignUInt64 significand numerator;
     denominator \<leftarrow> AssignPowerUInt16 10 estimated_power denominator;
     denominator \<leftarrow> ShiftLeft (- exponent) denominator;
     if need_boundary_deltas then do {
       denominator \<leftarrow> ShiftLeft 1 denominator;
       numerator \<leftarrow> ShiftLeft 1 numerator;
       delta_plus \<leftarrow> AssignUInt16 1 delta_plus;
       delta_minus \<leftarrow> AssignUInt16 1 delta_minus;
       Some (numerator, denominator, delta_minus, delta_plus) }
     else Some (numerator, denominator, delta_minus, delta_plus) }"

definition InitialScaledStartValuesNegativeExponentNegativePower ::
    "u64 \<Rightarrow> int \<Rightarrow> int \<Rightarrow> bool \<Rightarrow> bignum \<Rightarrow> bignum \<Rightarrow> bignum \<Rightarrow> bignum \<Rightarrow>
     (bignum \<times> bignum \<times> bignum \<times> bignum) option" where
  "InitialScaledStartValuesNegativeExponentNegativePower significand exponent estimated_power
      need_boundary_deltas numerator denominator delta_minus delta_plus = do {
     numerator \<leftarrow> AssignPowerUInt16 10 (- estimated_power) numerator;
     (delta_minus, delta_plus) \<leftarrow>
       (if need_boundary_deltas then do {
          delta_plus \<leftarrow> AssignBignum numerator delta_plus;
          delta_minus \<leftarrow> AssignBignum numerator delta_minus;
          Some (delta_minus, delta_plus) }
        else Some (delta_minus, delta_plus));
     numerator \<leftarrow> MultiplyByUInt64 significand numerator;
     denominator \<leftarrow> AssignUInt16 1 denominator;
     denominator \<leftarrow> ShiftLeft (- exponent) denominator;
     if need_boundary_deltas then do {
       numerator \<leftarrow> ShiftLeft 1 numerator;
       denominator \<leftarrow> ShiftLeft 1 denominator;
       Some (numerator, denominator, delta_minus, delta_plus) }
     else Some (numerator, denominator, delta_minus, delta_plus) }"

definition InitialScaledStartValues ::
    "u64 \<Rightarrow> int \<Rightarrow> bool \<Rightarrow> int \<Rightarrow> bool \<Rightarrow> bignum \<Rightarrow> bignum \<Rightarrow> bignum \<Rightarrow> bignum \<Rightarrow>
     (bignum \<times> bignum \<times> bignum \<times> bignum) option" where
  "InitialScaledStartValues significand exponent lower_boundary_is_closer estimated_power
      need_boundary_deltas numerator denominator delta_minus delta_plus = do {
     (numerator, denominator, delta_minus, delta_plus) \<leftarrow>
       (if exponent \<ge> 0 then
          InitialScaledStartValuesPositiveExponent significand exponent estimated_power
            need_boundary_deltas numerator denominator delta_minus delta_plus
        else if estimated_power \<ge> 0 then
          InitialScaledStartValuesNegativeExponentPositivePower significand exponent
            estimated_power need_boundary_deltas numerator denominator delta_minus delta_plus
        else
          InitialScaledStartValuesNegativeExponentNegativePower significand exponent
            estimated_power need_boundary_deltas numerator denominator delta_minus delta_plus);
     if need_boundary_deltas \<and> lower_boundary_is_closer then do {
       denominator \<leftarrow> ShiftLeft 1 denominator;
       numerator \<leftarrow> ShiftLeft 1 numerator;
       delta_plus \<leftarrow> ShiftLeft 1 delta_plus;
       Some (numerator, denominator, delta_minus, delta_plus) }
     else Some (numerator, denominator, delta_minus, delta_plus) }"

text \<open>Returns the decimal point and the four bignums (the denominator does not change).\<close>

definition FixupMultiply10 ::
    "int \<Rightarrow> bool \<Rightarrow> bignum \<Rightarrow> bignum \<Rightarrow> bignum \<Rightarrow> bignum \<Rightarrow>
     (int \<times> bignum \<times> bignum \<times> bignum) option" where
  "FixupMultiply10 estimated_power is_even numerator denominator delta_minus delta_plus = do {
     c \<leftarrow> PlusCompare numerator delta_plus denominator;
     let in_range = (if is_even then c \<ge> 0 else c > 0);
     if in_range then Some (estimated_power + 1, numerator, delta_minus, delta_plus)
     else do {
       let decimal_point = estimated_power;
       numerator \<leftarrow> Times10 numerator;
       eq \<leftarrow> Equal delta_minus delta_plus;
       if eq then do {
         delta_minus \<leftarrow> Times10 delta_minus;
         delta_plus \<leftarrow> AssignBignum delta_minus delta_plus;
         Some (decimal_point, numerator, delta_minus, delta_plus) }
       else do {
         delta_minus \<leftarrow> Times10 delta_minus;
         delta_plus \<leftarrow> Times10 delta_plus;
         Some (decimal_point, numerator, delta_minus, delta_plus) } } }"

section \<open>Digit generation\<close>

text \<open>\<open>buffer[i]++\<close>.\<close>

definition inc_char :: "u8 list \<Rightarrow> int \<Rightarrow> u8 list option" where
  "inc_char buffer i = do { c \<leftarrow> rd buffer i; wr buffer i (c + 1) }"

definition digit_char :: "u16 \<Rightarrow> u8" where
  "digit_char digit = ucast (digit + ucast (ch CHR ''0''))"

text \<open>
  The endless loop of \<open>GenerateShortestDigits\<close>. When the two deltas are equal the code makes
  the pointer \<open>delta_plus\<close> an alias of \<open>delta_minus\<close>; \<open>alias\<close> says so, and reads of the aliased
  pointer read \<open>delta_minus\<close>.
\<close>

partial_function (option) generate_shortest_from ::
    "bool \<Rightarrow> bool \<Rightarrow> bignum \<Rightarrow> bignum \<Rightarrow> bignum \<Rightarrow> bignum \<Rightarrow> u8 list \<Rightarrow> int \<Rightarrow>
     (u8 list \<times> int) option" where
  [code]: "generate_shortest_from is_even alias denominator numerator delta_minus delta_plus buffer len = do {
     (digit, numerator) \<leftarrow> DivideModuloIntBignum denominator numerator;
     ensure (digit \<le> 9);
     buffer \<leftarrow> wr buffer len (digit_char digit);
     let len = len + 1;
     in_delta_room_minus \<leftarrow>
       (if is_even then LessEqual numerator delta_minus else Less numerator delta_minus);
     c \<leftarrow> PlusCompare numerator (if alias then delta_minus else delta_plus) denominator;
     let in_delta_room_plus = (if is_even then c \<ge> 0 else c > 0);
     if \<not> in_delta_room_minus \<and> \<not> in_delta_room_plus then do {
       numerator \<leftarrow> Times10 numerator;
       delta_minus \<leftarrow> Times10 delta_minus;
       delta_plus \<leftarrow> (if alias then Some delta_plus else Times10 delta_plus);
       generate_shortest_from is_even alias denominator numerator delta_minus delta_plus buffer len }
     else if in_delta_room_minus \<and> in_delta_room_plus then do {
       compare \<leftarrow> PlusCompare numerator numerator denominator;
       if compare < 0 then Some (buffer, len)
       else if compare > 0 then do {
         last \<leftarrow> rd buffer (len - 1);
         ensure (last \<noteq> ch CHR ''9'');
         buffer \<leftarrow> inc_char buffer (len - 1);
         Some (buffer, len) }
       else do {
         last \<leftarrow> rd buffer (len - 1);
         if (uint last - uint (ch CHR ''0'')) smod 2 = 0 then Some (buffer, len)
         else do {
           ensure (last \<noteq> ch CHR ''9'');
           buffer \<leftarrow> inc_char buffer (len - 1);
           Some (buffer, len) } } }
     else if in_delta_room_minus then Some (buffer, len)
     else do {
       last \<leftarrow> rd buffer (len - 1);
       ensure (last \<noteq> ch CHR ''9'');
       buffer \<leftarrow> inc_char buffer (len - 1);
       Some (buffer, len) } }"

definition GenerateShortestDigits ::
    "bignum \<Rightarrow> bignum \<Rightarrow> bignum \<Rightarrow> bignum \<Rightarrow> bool \<Rightarrow> u8 list \<Rightarrow> (u8 list \<times> int) option" where
  "GenerateShortestDigits numerator denominator delta_minus delta_plus is_even buffer = do {
     alias \<leftarrow> Equal delta_minus delta_plus;
     generate_shortest_from is_even alias denominator numerator delta_minus delta_plus buffer 0 }"

text \<open>
  The carry of the counted digits: a digit that has become \<open>'0' + 10\<close> turns into \<open>'0'\<close> and
  increments its left neighbour; the loop breaks at the first digit that is in range.
\<close>

function propagate_carry :: "u8 list \<Rightarrow> int \<Rightarrow> u8 list option" where
  "propagate_carry buffer i =
     (if i > 0 then do {
        c \<leftarrow> rd buffer i;
        if c \<noteq> ch CHR ''0'' + 10 then Some buffer
        else do {
          buffer \<leftarrow> wr buffer i (ch CHR ''0'');
          buffer \<leftarrow> inc_char buffer (i - 1);
          propagate_carry buffer (i - 1) } }
      else Some buffer)"
  by pat_completeness auto
termination
  by (relation "measure (\<lambda>(buffer, i). nat i)") auto

declare propagate_carry.simps [simp del]

text \<open>Returns the buffer, the length and the decimal point.\<close>

definition GenerateCountedDigits ::
    "int \<Rightarrow> int \<Rightarrow> bignum \<Rightarrow> bignum \<Rightarrow> u8 list \<Rightarrow> (u8 list \<times> int \<times> int) option" where
  "GenerateCountedDigits count decimal_point numerator denominator buffer = do {
     ensure (count \<ge> 0);
     (numerator, buffer) \<leftarrow> for_up 0 (count - 1)
       (\<lambda>i (numerator, buffer). do {
          (digit, numerator) \<leftarrow> DivideModuloIntBignum denominator numerator;
          ensure (digit \<le> 9);
          buffer \<leftarrow> wr buffer i (digit_char digit);
          numerator \<leftarrow> Times10 numerator;
          Some (numerator, buffer) }) (numerator, buffer);
     (digit, numerator) \<leftarrow> DivideModuloIntBignum denominator numerator;
     c \<leftarrow> PlusCompare numerator numerator denominator;
     let digit = (if c \<ge> 0 then digit + 1 else digit);
     ensure (digit \<le> 10);
     buffer \<leftarrow> wr buffer (count - 1) (digit_char digit);
     buffer \<leftarrow> propagate_carry buffer (count - 1);
     first \<leftarrow> rd buffer 0;
     if first = ch CHR ''0'' + 10 then do {
       buffer \<leftarrow> wr buffer 0 (ch CHR ''1'');
       Some (buffer, count, decimal_point + 1) }
     else Some (buffer, count, decimal_point) }"

definition BignumToFixed ::
    "int \<Rightarrow> int \<Rightarrow> bignum \<Rightarrow> bignum \<Rightarrow> u8 list \<Rightarrow> (u8 list \<times> int \<times> int) option" where
  "BignumToFixed requested_digits decimal_point numerator denominator buffer =
     (if - decimal_point > requested_digits then Some (buffer, 0, - requested_digits)
      else if - decimal_point = requested_digits then do {
        ensure (decimal_point = - requested_digits);
        denominator \<leftarrow> Times10 denominator;
        c \<leftarrow> PlusCompare numerator numerator denominator;
        if c \<ge> 0 then do {
          buffer \<leftarrow> wr buffer 0 (ch CHR ''1'');
          Some (buffer, 1, decimal_point + 1) }
        else Some (buffer, 0, decimal_point) }
      else do {
        let needed_digits = decimal_point + requested_digits;
        GenerateCountedDigits needed_digits decimal_point numerator denominator buffer })"

text \<open>Returns the buffer, the length and the decimal point.\<close>

definition BignumDtoa ::
    "double \<Rightarrow> bignum_dtoa_mode \<Rightarrow> int \<Rightarrow> u8 list \<Rightarrow> (u8 list \<times> int \<times> int) option" where
  "BignumDtoa v mode requested_digits buffer = do {
     ensure (double_less 0 v);
     ensure (\<not> DoubleIsSpecial v);
     (significand, exponent, lower_boundary_is_closer) \<leftarrow>
       (if mode = BIGNUM_DTOA_SHORTEST_SINGLE then do {
          let f = float_of_double v;
          ensure (double_eq (double_of_float f) v);
          Some (ucast (SingleSignificand f), SingleExponent f, SingleLowerBoundaryIsCloser f) }
        else Some (DoubleSignificand v, DoubleExponent v, DoubleLowerBoundaryIsCloser v));
     let need_boundary_deltas =
       (mode = BIGNUM_DTOA_SHORTEST \<or> mode = BIGNUM_DTOA_SHORTEST_SINGLE);
     let is_even = (significand AND 1 = 0);
     normalized_exponent \<leftarrow> NormalizedExponent significand exponent;
     let estimated_power = EstimatePower normalized_exponent;
     if mode = BIGNUM_DTOA_FIXED \<and> - estimated_power - 1 > requested_digits then do {
       buffer \<leftarrow> wr buffer 0 0;
       Some (buffer, 0, - requested_digits) }
     else do {
       ensure (kMaxSignificantBits \<ge> 324 * 4);
       (numerator, denominator, delta_minus, delta_plus) \<leftarrow>
         InitialScaledStartValues significand exponent lower_boundary_is_closer estimated_power
           need_boundary_deltas Bignum0 Bignum0 Bignum0 Bignum0;
       (decimal_point, numerator, delta_minus, delta_plus) \<leftarrow>
         FixupMultiply10 estimated_power is_even numerator denominator delta_minus delta_plus;
       (buffer, len, decimal_point) \<leftarrow>
         (case mode of
            BIGNUM_DTOA_FIXED \<Rightarrow>
              BignumToFixed requested_digits decimal_point numerator denominator buffer
          | BIGNUM_DTOA_PRECISION \<Rightarrow>
              GenerateCountedDigits requested_digits decimal_point numerator denominator buffer
          | _ \<Rightarrow> do {
              (buffer, len) \<leftarrow>
                GenerateShortestDigits numerator denominator delta_minus delta_plus is_even buffer;
              Some (buffer, len, decimal_point) });
       buffer \<leftarrow> wr buffer len 0;
       Some (buffer, len, decimal_point) } }"

end
