(* ===== verification/Log_Estimate.thy ===== *)
theory Log_Estimate
  imports Double_Real Bignum_Value Bignum_Dtoa
begin

text \<open>The decimal exponent estimate (\<open>EstimatePower\<close>): bounds of the logarithm of ten by two neighbouring fractions, what the double arithmetic of the estimate guarantees, and the gap below a power of two that a power of five leaves.\<close>

section \<open>Powers of ten and of two\<close>

lemma quad_bound: "0 \<le> a \<Longrightarrow> a \<le> u * 2 ^ t \<Longrightarrow> u ^ 4 \<le> v * 2 ^ r \<Longrightarrow> a ^ 4 \<le> v * (2 :: int) ^ (4 * t + r)"
proof -
  assume a: "0 \<le> a" "a \<le> u * 2 ^ t" and v: "u ^ 4 \<le> v * 2 ^ r"
  have "a ^ 4 \<le> (u * 2 ^ t) ^ 4" by (rule power_mono) (use a in simp_all)
  also have "\<dots> = u ^ 4 * 2 ^ (4 * t)" by (simp only: power_mult_distrib power_mult[symmetric] mult.commute)
  also have "\<dots> \<le> v * 2 ^ r * 2 ^ (4 * t)" by (rule mult_right_mono[OF v]) simp
  also have "\<dots> = v * 2 ^ (4 * t + r)" by (simp only: power_add mult_ac)
  finally show ?thesis .
qed

lemma five_643: "(5::int) ^ 643 \<le> 2 ^ 1493"
proof -
  have 1: "(5::int) ^ 40 \<le> 16155871338927 * 2 ^ 49" by simp
  have 2: "((5::int) ^ 40) ^ 4 \<le> 12513019344897 * 2 ^ (4 * 49 + 132)" by (rule quad_bound[OF _ 1]) simp_all
  have 3: "(((5::int) ^ 40) ^ 4) ^ 4 \<le> 9005732273757 * 2 ^ (4 * (4 * 49 + 132) + 131)" by (rule quad_bound[OF _ 2]) simp_all
  have n: "643 = 40 * 4 * 4 + (3::nat)" and f: "(5::int) ^ 3 = 125" by simp_all
  have e: "(5::int) ^ 643 = ((5 ^ 40) ^ 4) ^ 4 * 125" unfolding n power_add power_mult f ..
  have "(5::int) ^ 643 \<le> 9005732273757 * 2 ^ (4 * (4 * 49 + 132) + 131) * 125" unfolding e by (rule mult_right_mono[OF 3]) simp
  also have "\<dots> = 1125716534219625 * 2 ^ 1443" by simp
  also have "\<dots> \<le> 2 ^ 50 * 2 ^ 1443" by (rule mult_right_mono) simp_all
  also have "\<dots> = 2 ^ 1493" by (simp only: power_add[symmetric]) simp
  finally show ?thesis .
qed

text \<open>The logarithm of ten to the base two lies between two neighbours of small denominator.\<close>

lemma log_ten: "485 / 146 \<le> log 2 10" "log 2 10 \<le> 2136 / 643"
proof -
  have "(2::real) ^ 485 \<le> 10 ^ 146" by simp
  then have "log 2 (2 ^ 485) \<le> log 2 ((10::real) ^ 146)" by (subst log_le_cancel_iff) simp_all
  then have "real 485 * log 2 2 \<le> real 146 * log 2 10" by (simp only: log_nat_power zero_less_numeral)
  then show "485 / 146 \<le> log 2 10" by simp
  have "(10::int) ^ 643 = 5 ^ 643 * 2 ^ 643"
  proof -
    have "(10::int) = 5 * 2" by simp
    then show ?thesis by (simp only: power_mult_distrib)
  qed
  also have "\<dots> \<le> 2 ^ 1493 * 2 ^ 643" by (rule mult_right_mono[OF five_643]) simp
  also have "\<dots> = 2 ^ 2136" by (simp only: power_add[symmetric]) simp
  finally have "of_int (10 ^ 643) \<le> (of_int (2 ^ 2136) :: real)" by (simp only: of_int_le_iff)
  then have "(10::real) ^ 643 \<le> 2 ^ 2136" by (simp only: of_int_power of_int_numeral)
  then have "log 2 ((10::real) ^ 643) \<le> log 2 (2 ^ 2136)"
    by (rule log_mono[rotated 2]) (simp, rule zero_less_power, simp)
  then have "real 643 * log 2 10 \<le> real 2136 * log 2 2" by (simp only: log_nat_power zero_less_numeral)
  then show "log 2 10 \<le> 2136 / 643" by simp
qed

lemma ten_le_two: "10 powi q \<le> (2::real) powi p" if "of_int q * log 2 10 \<le> of_int p"
proof -
  have "10 powi q = 2 powr (of_int q * log 2 10)"
    by (simp add: powr_powr[symmetric] mult.commute[of _ "log 2 10"] powr_real_of_int')
  also have "\<dots> \<le> 2 powr of_int p" using that by simp
  also have "2 powr real_of_int p = 2 powi p" by (simp add: powr_real_of_int')
  finally show ?thesis .
qed

lemma two_le_ten: "(2::real) powi p \<le> 10 powi q" if "of_int p \<le> of_int q * log 2 10"
proof -
  have "10 powi q = 2 powr (of_int q * log 2 10)"
    by (simp add: powr_powr[symmetric] mult.commute[of _ "log 2 10"] powr_real_of_int')
  moreover have "2 powr of_int p \<le> 2 powr (of_int q * log 2 10)" using that by simp
  moreover have "(2::real) powr of_int p = 2 powi p" by (simp add: powr_real_of_int')
  ultimately show ?thesis by simp
qed

section \<open>The estimates\<close>

abbreviation c10 :: real where "c10 \<equiv> 30102999566398114 / 100000000000000000"

lemma c10_double:
  "signed_double (round_double 30102999566398114 (10 ^ 17))" "\<bar>dreal (round_double 30102999566398114 (10 ^ 17)) - c10\<bar> \<le> 2 powi (-54)"
  using round_double_real[of 30102999566398114 "10 ^ 17" "-54"] by (simp_all add: power_int_def)

lemma scaled_log:
  assumes p: "\<bar>p\<bar> \<le> 1200"
  defines "m \<equiv> double_mult (double_of_int p) (round_double 30102999566398114 (10 ^ 17))"
  shows "signed_double m" "\<bar>dreal m - of_int p * c10\<bar> \<le> 1 / 4398046511104" "\<bar>dreal m\<bar> \<le> 400"
proof -
  let ?c = "dreal (round_double 30102999566398114 (10 ^ 17))"
  have small: "\<bar>p\<bar> < 2 ^ 53" using p by simp
  note I = double_of_int_real[OF small]
  have c: "\<bar>?c - c10\<bar> \<le> 1 / 18014398509481984" using c10_double(2) by (simp add: power_int_minus)
  have pr: "\<bar>real_of_int p\<bar> \<le> 1200" using p by linarith
  have d: "\<bar>of_int p * ?c - of_int p * c10\<bar> \<le> 1200 * (1 / 18014398509481984)"
    unfolding right_diff_distrib[symmetric] abs_mult by (rule mult_mono[OF pr c]) simp_all
  have pc: "\<bar>of_int p * c10\<bar> \<le> 1200 * c10" unfolding abs_mult by (rule mult_mono[OF pr]) simp_all
  have b: "\<bar>dreal (double_of_int p) * ?c\<bar> < 2 powi (-44 + 53)"
  proof -
    have "\<bar>of_int p * ?c\<bar> \<le> \<bar>of_int p * ?c - of_int p * c10\<bar> + \<bar>of_int p * c10\<bar>" by linarith
    then show ?thesis unfolding I(2) using d pc by simp
  qed
  have M: "signed_double m" "\<bar>dreal m - of_int p * ?c\<bar> \<le> 2 powi (-44)"
    using double_mult_real[OF I(1) c10_double(1) b] unfolding m_def I(2) by simp_all
  have M2: "\<bar>dreal m - of_int p * ?c\<bar> \<le> 1 / 17592186044416" using M(2) by (simp add: power_int_minus)
  show "signed_double m" by (rule M(1))
  have t: "\<bar>a - x\<bar> \<le> u \<Longrightarrow> \<bar>x - y\<bar> \<le> v \<Longrightarrow> \<bar>a - y\<bar> \<le> u + v" for a x y u v :: real by linarith
  show e: "\<bar>dreal m - of_int p * c10\<bar> \<le> 1 / 4398046511104" using t[OF M2 d] by linarith
  have "\<bar>a - x\<bar> \<le> u \<Longrightarrow> \<bar>x\<bar> \<le> v \<Longrightarrow> \<bar>a\<bar> \<le> u + v" for a x u v :: real by linarith
  from this[OF e pc] show "\<bar>dreal m\<bar> \<le> 400" by linarith
qed

text \<open>An integer below \<open>p * c10\<close>, and one that is not much below it.\<close>

lemma below_log:
  assumes p: "\<bar>p\<bar> \<le> 1200" and q: "of_int q < of_int p * c10"
  shows "of_int q * log 2 10 \<le> of_int p"
proof -
  have "real_of_int (100000000000000000 * q) < real_of_int (30102999566398114 * p)" using q by simp
  then have i: "100000000000000000 * q < 30102999566398114 * p" by (simp only: of_int_less_iff)
  show ?thesis
  proof (cases "0 < q")
    case True
    have "2136 * q \<le> 643 * p"
    proof (rule ccontr)
      assume "\<not> 2136 * q \<le> 643 * p"
      then have "643 * p + 1 \<le> 2136 * q" by simp
      then show False using i p by linarith
    qed
    then have "of_int (2136 * q) \<le> (of_int (643 * p) :: real)" by (simp only: of_int_le_iff)
    moreover have "of_int q * log 2 10 \<le> of_int q * (2136 / 643)" using True by (intro mult_left_mono log_ten) simp
    ultimately show ?thesis by simp
  next
    case False
    show ?thesis
    proof (cases "0 \<le> p")
      case True
      have "of_int q * log 2 10 \<le> 0" by (rule mult_nonpos_nonneg) (use False log_ten in auto)
      then show ?thesis using True by (meson of_int_0_le_iff order_trans)
    next
      case p0: False
      have "485 * q \<le> 146 * p"
      proof (rule ccontr)
        assume "\<not> 485 * q \<le> 146 * p"
        then have "146 * p + 1 \<le> 485 * q" by simp
        then show False using i p by linarith
      qed
      then have "of_int (485 * q) \<le> (of_int (146 * p) :: real)" by (simp only: of_int_le_iff)
      moreover have "of_int q * log 2 10 \<le> of_int q * (485 / 146)"
        by (rule mult_left_mono_neg[OF log_ten(1)]) (use False in simp)
      ultimately show ?thesis by simp
    qed
  qed
qed

lemma above_log:
  assumes p: "\<bar>p\<bar> \<le> 1200" and q: "of_int p * c10 - 1 / 1000000000 < of_int q"
  shows "of_int p + 1 \<le> (of_int q + 1) * log 2 10"
proof -
  have pr: "real_of_int p \<le> 1200" "- 1200 \<le> real_of_int p" using p by linarith+
  show ?thesis
  proof (cases "0 \<le> q + 1")
    case True
    have "(of_int q + 1) * (485 / 146) \<le> (of_int q + 1) * log 2 10"
      by (rule mult_left_mono[OF log_ten(1)]) (use True in linarith)
    moreover have "of_int p + 1 \<le> (of_int q + 1) * (485 / 146 :: real)" using q pr by (simp add: field_simps)
    ultimately show ?thesis by linarith
  next
    case False
    have "(of_int q + 1) * (2136 / 643) \<le> (of_int q + 1) * log 2 10"
      by (rule mult_left_mono_neg[OF log_ten(2)]) (use False in linarith)
    moreover have "of_int p + 1 \<le> (of_int q + 1) * (2136 / 643 :: real)" using q pr by (simp add: field_simps)
    ultimately show ?thesis by linarith
  qed
qed

text \<open>
  The estimate of the decimal exponent (\<open>bignum-dtoa.cc\<close>): \<open>10 ^ (k - 1)\<close> is not above \<open>2 ^ p\<close>
  and \<open>10 ^ (k + 1)\<close> not below \<open>2 ^ (p + 1)\<close>.
\<close>

lemma EstimatePower_bounds:
  assumes p: "\<bar>e + 52\<bar> \<le> 1200"
  shows "10 powi (EstimatePower e - 1) \<le> (2::real) powi (e + 52)" "(2::real) powi (e + 53) \<le> 10 powi (EstimatePower e + 1)"
    "of_int (EstimatePower e) < of_int (e + 52) * c10 + 1" "of_int (e + 52) * c10 - 1 / 1000000000 < of_int (EstimatePower e)"
proof -
  let ?m = "double_mult (double_of_int (e + 52)) (round_double 30102999566398114 (10 ^ 17))" and ?t = "round_double 1 (10 ^ 10)"
  note M = scaled_log[OF p]
  have tiny: "signed_double ?t" "\<bar>dreal ?t - 1 / 10000000000\<bar> \<le> 1 / 1208925819614629174706176"
    using round_double_real[of 1 "10 ^ 10" "-80"] by (simp_all add: power_int_minus)
  have b: "\<bar>dreal ?m - dreal ?t\<bar> < 2 powi (-44 + 53)"
  proof -
    have "\<bar>a\<bar> \<le> 400 \<Longrightarrow> \<bar>t - 1 / 10000000000\<bar> \<le> 1 / 1208925819614629174706176 \<Longrightarrow> \<bar>a - t\<bar> < (512::real)" for a t by linarith
    from this[OF M(3) tiny(2)] show ?thesis by simp
  qed
  let ?s = "double_sub ?m ?t"
  have S: "signed_double ?s" "\<bar>dreal ?s - (dreal ?m - dreal ?t)\<bar> \<le> 1 / 17592186044416"
    using double_sub_real[OF M(1) tiny(1) b] by (simp_all add: power_int_minus)
  define y where "y = dreal ?s"
  have e: "e + kDoubleSignificandSize - 1 = e + 52" by simp
  have k: "EstimatePower e = \<lceil>y\<rceil>"
    unfolding EstimatePower_def k1Log10_def y_def e by (rule double_ceil_real[OF S(1)])
  have y: "y < of_int (e + 52) * c10" "of_int (e + 52) * c10 - 1 / 1000000000 < y"
  proof -
    have "\<bar>y - (m - t)\<bar> \<le> 1 / 17592186044416 \<Longrightarrow> \<bar>m - x\<bar> \<le> 1 / 4398046511104 \<Longrightarrow>
        \<bar>t - 1 / 10000000000\<bar> \<le> 1 / 1208925819614629174706176 \<Longrightarrow> y < x \<and> x - 1 / 1000000000 < y" for m t x :: real by linarith
    from this[OF S(2)[folded y_def] M(2) tiny(2)]
    show "y < of_int (e + 52) * c10" "of_int (e + 52) * c10 - 1 / 1000000000 < y" by blast+
  qed
  have lo: "of_int (EstimatePower e - 1) < of_int (e + 52) * c10" using y(1) ceiling_correct[of y] unfolding k by linarith
  have hi: "of_int (e + 52) * c10 - 1 / 1000000000 < of_int (EstimatePower e)" using y(2) ceiling_correct[of y] unfolding k by linarith
  show "10 powi (EstimatePower e - 1) \<le> (2::real) powi (e + 52)" by (rule ten_le_two[OF below_log[OF p lo]])
  have "of_int (e + 53) \<le> of_int (EstimatePower e + 1) * log 2 10" using above_log[OF p hi] by simp
  then show "(2::real) powi (e + 53) \<le> 10 powi (EstimatePower e + 1)" by (rule two_le_ten)
  show "of_int (EstimatePower e) < of_int (e + 52) * c10 + 1" using lo unfolding of_int_diff by linarith
  show "of_int (e + 52) * c10 - 1 / 1000000000 < of_int (EstimatePower e)" by (rule hi)
qed


text \<open>A power of five is never just below a power of two.\<close>

lemma five_gap:
  assumes k: "k < 643" and lt: "(5::int) ^ k < 2 ^ m"
  shows "(5::int) ^ k * 2001 \<le> 2 ^ m * 2000"
proof -
  have l5: "log 2 5 = log 2 10 - (1::real)" using log_mult[of 2 5 2] by simp
  have k339: "339 * int k < 146 * int m"
  proof -
    have "(5::real) ^ k < 2 ^ m" using lt by (metis of_int_less_iff of_int_numeral of_int_power)
    then have "log 2 ((5::real) ^ k) < log 2 (2 ^ m)" by (subst log_less_cancel_iff) simp_all
    then have "real k * log 2 5 < real m" by (simp only: log_nat_power zero_less_numeral) simp
    moreover have "real k * (339 / 146) \<le> real k * log 2 5" by (rule mult_left_mono) (use log_ten(1) l5 in linarith)+
    ultimately have "real_of_int (339 * int k) < real_of_int (146 * int m)" by simp
    then show ?thesis by (simp only: of_int_less_iff)
  qed
  then have "1493 * int k + 1 \<le> 643 * int m" using k by linarith
  then have "real_of_int (1493 * int k + 1) \<le> real_of_int (643 * int m)" by (simp only: of_int_le_iff)
  moreover have "real k * log 2 5 \<le> real k * (1493 / 643)" by (rule mult_left_mono) (use log_ten(2) l5 in linarith)+
  ultimately have e: "real k * log 2 5 + 1 / 643 \<le> real m" by simp
  have "(1::real) + 1 / 2000 \<le> 2 powr (1 / 643)"
  proof -
    have "1 / 643 * ln 2 + 1 \<le> exp (1 / 643 * ln (2::real))" using exp_ge_add_one_self[of "1 / 643 * ln 2"] by linarith
    moreover have "(1::real) / 2 \<le> ln 2" using ln_le_minus_one[of "1 / 2"] by (simp add: ln_div)
    ultimately show ?thesis by (simp add: powr_def)
  qed
  then have "5 ^ k * (1 + 1 / 2000) \<le> 5 ^ k * (2::real) powr (1 / 643)" by (intro mult_left_mono) simp_all
  also have "\<dots> = 2 powr (real k * log 2 5 + 1 / 643)"
  proof -
    have "(5::real) ^ k = 2 powr (real k * log 2 5)"
      by (simp add: powr_powr[symmetric] mult.commute[of _ "log 2 5"] powr_realpow)
    then show ?thesis by (simp only: powr_add)
  qed
  also have "\<dots> \<le> 2 powr real m" using e by simp
  also have "\<dots> = 2 ^ m" by (simp add: powr_realpow)
  finally have "(5::real) ^ k * 2001 \<le> 2 ^ m * 2000" by simp
  then have "real_of_int (5 ^ k * 2001) \<le> real_of_int (2 ^ m * 2000)" by simp
  then show ?thesis by (simp only: of_int_le_iff)
qed

lemma top_room:
  assumes k: "k < 643" and L: "1 \<le> L" and lt: "(5::int) ^ k * 2 ^ t < W L"
  shows "5 ^ k * 2 ^ t + W (L - 1) \<le> W L"
proof -
  have WL: "W L = 268435456 * W (L - 1)" using W_Suc[of "L - 1"] L by simp
  have e: "W L = 2 ^ (28 * nat L)" unfolding W_def ..
  have t: "t < 28 * nat L"
  proof (rule ccontr)
    assume "\<not> t < 28 * nat L"
    then have "W L \<le> 2 ^ t" unfolding e by (simp only: not_less) (rule power_increasing, simp_all)
    also have "\<dots> \<le> 5 ^ k * 2 ^ t" by simp
    finally show False using lt by simp
  qed
  then have s: "W L = 2 ^ (28 * nat L - t) * 2 ^ t" unfolding e by (simp only: power_add[symmetric]) simp
  then have "(5::int) ^ k < 2 ^ (28 * nat L - t)" using lt by simp
  then have "5 ^ k * 2001 * 2 ^ t \<le> 2 ^ (28 * nat L - t) * 2000 * (2 ^ t :: int)" by (intro mult_right_mono five_gap[OF k]) simp_all
  then have "5 ^ k * 2 ^ t * 2001 \<le> W L * 2000" unfolding s by (simp only: mult_ac)
  then show ?thesis using WL W_pos[of "L - 1"] by linarith
qed

end
