(* ===== verification/Digit_Room.thy ===== *)
theory Digit_Room
  imports Digits
begin

text \<open>The specification of shortest digits: the room of the reals that read back as the same number, and the choice of the closest number of the shortest length in it.\<close>

text \<open>
  The value to print is \<open>n / d\<close>, the reals that read back as the same number reach from
  \<open>(n - a) / d\<close> to \<open>(n + b) / d\<close>; the ends belong to it when \<open>closed\<close>. \<open>E\<close> is tried as
  \<open>E / 10 ^ j\<close>.
\<close>

definition above_low :: "bool \<Rightarrow> int \<Rightarrow> int \<Rightarrow> int \<Rightarrow> int \<Rightarrow> nat \<Rightarrow> bool" where
  "above_low closed n d a E j = (if closed then (n - a) * 10 ^ j \<le> E * d else (n - a) * 10 ^ j < E * d)"

definition below_high :: "bool \<Rightarrow> int \<Rightarrow> int \<Rightarrow> int \<Rightarrow> int \<Rightarrow> nat \<Rightarrow> bool" where
  "below_high closed n d b E j = (if closed then E * d \<le> (n + b) * 10 ^ j else E * d < (n + b) * 10 ^ j)"

definition in_room :: "bool \<Rightarrow> int \<Rightarrow> int \<Rightarrow> int \<Rightarrow> int \<Rightarrow> int \<Rightarrow> nat \<Rightarrow> bool" where
  "in_room closed n d a b E j \<longleftrightarrow> above_low closed n d a E j \<and> below_high closed n d b E j"

lemma above_low_mono:
  assumes "above_low c n d a E j" "E \<le> F" "0 < d"
  shows "above_low c n d a F j"
proof -
  have "E * d \<le> F * d" by (rule mult_right_mono) (use assms in simp_all)
  with assms(1) show ?thesis unfolding above_low_def by (cases c; simp only: if_True if_False)
qed

lemma below_high_mono:
  assumes "below_high c n d b F j" "E \<le> F" "0 < d"
  shows "below_high c n d b E j"
proof -
  have "E * d \<le> F * d" by (rule mult_right_mono) (use assms in simp_all)
  with assms(1) show ?thesis unfolding below_high_def by (cases c; simp only: if_True if_False)
qed

lemma room_Suc [simp]:
  "above_low c n d a (10 * E) (Suc j) = above_low c n d a E j"
  "below_high c n d b (10 * E) (Suc j) = below_high c n d b E j"
  by (simp_all add: above_low_def below_high_def)

text \<open>What the loop tests: the remainder against the two scaled deltas.\<close>

lemma room_tests:
  assumes "n * 10 ^ j = D * d + r"
  shows "above_low c n d a D j = (if c then r \<le> a * 10 ^ j else r < a * 10 ^ j)"
    "below_high c n d b (D + 1) j = (if c then d \<le> r + b * 10 ^ j else d < r + b * 10 ^ j)"
  using assms by (auto simp: above_low_def below_high_def algebra_simps)

text \<open>The shortest and closest digits: no shorter number lies in the room, and none of the
  same length is closer; of two equally close ones the even one is taken.\<close>

definition shortest_digits :: "bool \<Rightarrow> int \<Rightarrow> int \<Rightarrow> int \<Rightarrow> int \<Rightarrow> int \<Rightarrow> nat \<Rightarrow> bool" where
  "shortest_digits closed n d a b E j \<longleftrightarrow>
     in_room closed n d a b E j \<and> (\<forall>i<j. \<forall>F. \<not> in_room closed n d a b F i) \<and>
     (\<forall>F. in_room closed n d a b F j \<longrightarrow> \<bar>E * d - n * 10 ^ j\<bar> \<le> \<bar>F * d - n * 10 ^ j\<bar>) \<and>
     (\<forall>F. F \<noteq> E \<longrightarrow> in_room closed n d a b F j \<longrightarrow> \<bar>E * d - n * 10 ^ j\<bar> = \<bar>F * d - n * 10 ^ j\<bar> \<longrightarrow> even E)"

definition no_room :: "bool \<Rightarrow> int \<Rightarrow> int \<Rightarrow> int \<Rightarrow> int \<Rightarrow> int \<Rightarrow> nat \<Rightarrow> bool" where
  "no_room closed n d a b D j \<longleftrightarrow> \<not> above_low closed n d a D j \<and> \<not> below_high closed n d b (D + 1) j"

lemma no_roomD: "no_room c n d a b D j \<Longrightarrow> 0 < d \<Longrightarrow> \<not> in_room c n d a b F j"
  unfolding no_room_def in_room_def
  using above_low_mono[of c n d a F j D] below_high_mono[of c n d b F j "D + 1"]
  by (metis add1_zle_eq not_le)

lemma floor_in:
  assumes "n * 10 ^ j = D * d + r" "0 \<le> r" "r < d" "0 < a" "0 < b"
  shows "below_high c n d b D j" "above_low c n d a (D + 1) j"
proof -
  define A B where "A = a * 10 ^ j" and "B = b * 10 ^ j"
  have "0 < A" "0 < B" using assms by (simp_all add: A_def B_def)
  then show "below_high c n d b D j" "above_low c n d a (D + 1) j"
    using assms unfolding above_low_def below_high_def left_diff_distrib distrib_right assms(1) A_def[symmetric] B_def[symmetric] by auto
qed

text \<open>The choice between the two neighbours.\<close>

lemma choose_digits:
  assumes D: "n * 10 ^ j = D * d + r" "0 \<le> r" "r < d" and ab: "0 < a" "0 < b"
    and prev: "\<And>i F. i < j \<Longrightarrow> \<not> in_room c n d a b F i"
    and lo: "lo = above_low c n d a D j" and up: "up = below_high c n d b (D + 1) j" and some: "lo \<or> up"
    and E: "E = (if lo \<and> up then (if 2 * r < d \<or> 2 * r = d \<and> even D then D else D + 1) else if lo then D else D + 1)"
  shows "shortest_digits c n d a b E j"
proof -
  have d: "0 < d" using D by simp
  note F = floor_in[OF D ab, of c]
  have ED: "E = D \<and> lo \<or> E = D + 1 \<and> up" using E some by auto
  have inE: "in_room c n d a b E j" using ED F lo up unfolding in_room_def by auto
  have dist: "\<bar>E * d - n * 10 ^ j\<bar> = (if E = D then r else d - r)" using ED D by (auto simp: algebra_simps)
  have key: "F = D \<and> lo \<and> \<bar>F * d - n * 10 ^ j\<bar> = r \<or> F = D + 1 \<and> up \<and> \<bar>F * d - n * 10 ^ j\<bar> = d - r \<or>
      F < D \<and> lo \<and> r + d \<le> \<bar>F * d - n * 10 ^ j\<bar> \<or> D + 1 < F \<and> up \<and> d - r + d \<le> \<bar>F * d - n * 10 ^ j\<bar>"
    if "in_room c n d a b F j" for F
  proof -
    have i: "above_low c n d a F j" "below_high c n d b F j" using that by (simp_all add: in_room_def)
    consider "F = D" | "F = D + 1" | "F < D" | "D + 1 < F" by linarith
    then show ?thesis
    proof cases
      case 1 then show ?thesis using i D lo by simp
    next
      case 2 then show ?thesis using i D up by (simp add: algebra_simps)
    next
      case 3
      have "(F + 1) * d \<le> D * d" by (rule mult_right_mono) (use 3 d in simp_all)
      then show ?thesis using 3 i D lo above_low_mono[OF i(1), of D] d by (simp add: algebra_simps)
    next
      case 4
      have "(D + 2) * d \<le> F * d" by (rule mult_right_mono) (use 4 d in simp_all)
      then show ?thesis using 4 i D up below_high_mono[OF i(2), of "D + 1"] d by (simp add: algebra_simps)
    qed
  qed
  have best: "\<bar>E * d - n * 10 ^ j\<bar> \<le> \<bar>F * d - n * 10 ^ j\<bar>" if "in_room c n d a b F j" for F
    unfolding dist using key[OF that] E D d by (auto split: if_splits)
  moreover have "even E" if "F \<noteq> E" "in_room c n d a b F j" "\<bar>E * d - n * 10 ^ j\<bar> = \<bar>F * d - n * 10 ^ j\<bar>" for F
    using key[OF that(2)] that(1,3) E D d unfolding dist by (auto split: if_splits)
  ultimately show ?thesis unfolding shortest_digits_def using inE prev by blast
qed

text \<open>The increment of the last digit never carries: otherwise the previous step had room.\<close>

lemma no_carry:
  assumes "below_high c n d b (10 * D' + q + 1) (Suc j)" "q = 9" "\<not> below_high c n d b (D' + 1) j"
  shows False
  using assms room_Suc(2)[of c n d b "D' + 1" j] by (simp add: algebra_simps)

text \<open>The search ends: when neither side has room the step is small against the room.\<close>

lemma no_room_bound:
  assumes "n * 10 ^ j = D * d + r" "no_room c n d a b D j"
  shows "(a + b) * 10 ^ j \<le> d"
  using assms(2) room_tests[OF assms(1), of c a] room_tests[OF assms(1), of c b] unfolding no_room_def
  by (auto simp: algebra_simps split: if_splits)

end
