(* ===== verification/Digit_Division.thy ===== *)
theory Digit_Division
  imports Log_Estimate Digit_Room Bignum_Dtoa Bignum_Correct
begin

text \<open>The interface every digit loop rests on: division of a numerator by a fixed denominator with the remainder kept (locale \<open>digit_division\<close>), and its interpretation on the bignums.\<close>

text \<open>The numerator before digit \<open>j + 1\<close>, when the \<open>j\<close> digits so far have the value \<open>D\<close>.\<close>

definition at_step :: "int \<Rightarrow> int \<Rightarrow> int \<Rightarrow> nat \<Rightarrow> int \<Rightarrow> bool" where
  "at_step n d D j m \<longleftrightarrow> 0 \<le> m \<and> m < 10 * d \<and> n * 10 ^ j = 10 * D * d + m"

lemma at_step_0 [simp]: "at_step n d 0 0 m \<longleftrightarrow> m = n \<and> 0 \<le> n \<and> n < 10 * d"
  by (auto simp: at_step_def)

lemma at_step_digit:
  assumes "at_step n d D j m" "0 < d"
  shows "n * 10 ^ j = (10 * D + m div d) * d + m mod d" "0 \<le> m div d" "m div d \<le> 9" "0 \<le> m mod d" "m mod d < d"
proof -
  have m: "0 \<le> m" "m < 10 * d" "n * 10 ^ j = 10 * D * d + m" using assms(1) by (simp_all add: at_step_def)
  show "n * 10 ^ j = (10 * D + m div d) * d + m mod d" unfolding m(3) distrib_right by simp
  show "0 \<le> m div d" "0 \<le> m mod d" "m mod d < d" using assms(2) m(1) by (simp_all add: pos_imp_zdiv_nonneg_iff)
  have "m div d < 10" by (rule div_less_mult) (use m assms(2) in \<open>simp_all add: mult.commute\<close>)
  then show "m div d \<le> 9" by simp
qed

lemma at_step_Suc:
  assumes "at_step n d D j m" "0 < d"
  shows "at_step n d (10 * D + m div d) (Suc j) (10 * (m mod d))"
proof -
  note s = at_step_digit[OF assms]
  have "n * 10 ^ Suc j = 10 * (n * 10 ^ j)" by simp
  also have "\<dots> = 10 * (10 * D + m div d) * d + 10 * (m mod d)" unfolding s(1) by (simp only: distrib_left[of 10 "(10 * D + m div d) * d"] mult.assoc)
  finally show ?thesis unfolding at_step_def using s(4,5) by simp
qed

section \<open>Digits written to the buffer\<close>

lemma digit_char_of:
  assumes "uint q \<le> 9"
  shows "q \<le> 9" "digit_of (digit_char q) = uint q"
proof -
  show "q \<le> 9" using assms by (simp add: word_le_def)
  have "uint (q + 48) = uint q + 48" by (subst uint_add_exact) (use assms in simp_all)
  then have "uint (digit_char q) = uint q + 48"
    using assms unfolding digit_char_def by (simp add: ch_def unsigned_ucast_eq take_bit_eq_mod)
  then show "digit_of (digit_char q) = uint q" by (simp add: digit_of_def)
qed

lemma take_write: "i < length xs \<Longrightarrow> take (Suc i) (xs[i := v]) = take i xs @ [v]"
  by (simp add: take_Suc_conv_app_nth)

section \<open>The interface of the division\<close>

text \<open>
  Every digit loop divides a numerator by a fixed denominator, writes the quotient and
  multiplies the remainder by ten. \<open>good\<close> are the denominators, \<open>valid\<close> the numerators.
\<close>

locale digit_division =
  fixes val :: "'b \<Rightarrow> int" and good valid :: "'b \<Rightarrow> bool"
    and divmod :: "'b \<Rightarrow> 'b \<Rightarrow> (u16 \<times> 'b) option" and times :: "'b \<Rightarrow> 'b option"
  assumes good_pos: "good den \<Longrightarrow> 0 < val den"
    and divmod: "good den \<Longrightarrow> valid m \<Longrightarrow> val m < 10 * val den \<Longrightarrow>
      ok (divmod den m) (\<lambda>(q, r). uint q = val m div val den \<and> valid r \<and> val r = val m mod val den)"
    and times: "good den \<Longrightarrow> valid m \<Longrightarrow> val m \<le> val den \<Longrightarrow> ok (times m) (\<lambda>r. valid r \<and> val r = 10 * val m)"
begin

lemma ok_divmod:
  assumes "good den" "valid m" "at_step n (val den) D j (val m)"
    and "\<And>q r. uint q \<le> 9 \<Longrightarrow> valid r \<Longrightarrow> 0 \<le> val r \<Longrightarrow> val r < val den \<Longrightarrow> n * 10 ^ j = (10 * D + uint q) * val den + val r \<Longrightarrow> Q (q, r)"
  shows "ok (divmod den m) Q"
proof -
  note p = good_pos[OF assms(1)]
  note s = at_step_digit[OF assms(3) p]
  have "val m < 10 * val den" using assms(3) by (simp add: at_step_def)
  from divmod[OF assms(1,2) this] show ?thesis
    by (rule ok_mono) (use s assms(4) in auto)
qed

lemma ok_times:
  assumes "good den" "valid m" "val m \<le> val den" "\<And>r. valid r \<Longrightarrow> val r = 10 * val m \<Longrightarrow> Q r"
  shows "ok (times m) Q"
  using times[OF assms(1-3)] by (rule ok_mono) (use assms(4) in auto)

text \<open>One digit, written at the end of the digits so far.\<close>

definition emitted :: "'b \<Rightarrow> int \<Rightarrow> u8 list \<Rightarrow> nat \<Rightarrow> 'b \<Rightarrow> u8 list \<Rightarrow> bool" where
  "emitted den n buf j s buf' \<longleftrightarrow> valid s \<and> length buf' = length buf \<and> drop j buf' = drop j buf \<and> digits (take j buf') \<and>
     at_step n (val den) (dec_val (take j buf')) j (val s)"

lemma ok_digit_loop:
  assumes g: "good den" and s: "valid s" "0 \<le> val s" "val s < 10 * val den" and m: "0 \<le> m" "m \<le> int (length buf)"
  shows "ok (for_up 0 m (\<lambda>i (s, buf). do {
           (q, s) \<leftarrow> divmod den s;
           ensure (q \<le> 9);
           buf \<leftarrow> wr buf i (digit_char q);
           s \<leftarrow> times s;
           Some (s, buf) }) (s, buf)) (\<lambda>(s', buf'). emitted den (val s) buf (nat m) s' buf')"
proof (rule ok_for_up[where P = "\<lambda>i (s', buf'). emitted den (val s) buf (nat i) s' buf'"])
  show "case (s, buf) of (s', buf') \<Rightarrow> emitted den (val s) buf (nat 0) s' buf'" using s by (simp add: emitted_def)
next
  fix i t assume i: "0 \<le> i" "i < m" and inv: "case t of (s', buf') \<Rightarrow> emitted den (val s) buf (nat i) s' buf'"
  obtain s' buf' where t: "t = (s', buf')" by (cases t)
  have e: "valid s'" "length buf' = length buf" "drop (nat i) buf' = drop (nat i) buf" "digits (take (nat i) buf')"
      "at_step (val s) (val den) (dec_val (take (nat i) buf')) (nat i) (val s')" using inv unfolding t emitted_def by simp_all
  have ni: "nat (i + 1) = Suc (nat i)" "nat i < length buf'" using i m e(2) by simp_all
  show "ok (case t of (s, buf) \<Rightarrow> do {
           (q, s) \<leftarrow> divmod den s;
           ensure (q \<le> 9);
           buf \<leftarrow> wr buf i (digit_char q);
           s \<leftarrow> times s;
           Some (s, buf) }) (\<lambda>(s', buf'). emitted den (val s) buf (nat (i + 1)) s' buf')"
    unfolding t prod.case
  proof (subst ok_bind, rule ok_divmod[OF g e(1) e(5)])
    fix q :: u16 and r assume q: "uint q \<le> 9" and r: "valid r" "0 \<le> val r" "val r < val den"
      and eq: "val s * 10 ^ nat i = (10 * dec_val (take (nat i) buf') + uint q) * val den + val r"
    note dq = digit_char_of[OF q]
    show "ok (case (q, r) of (q, s) \<Rightarrow> do {
           ensure (q \<le> 9);
           buf \<leftarrow> wr buf' i (digit_char q);
           s \<leftarrow> times s;
           Some (s, buf) }) (\<lambda>(s', buf'). emitted den (val s) buf (nat (i + 1)) s' buf')"
      unfolding prod.case
    proof (simp add: wp dq(1) i(1), intro conjI)
      show "i < int (length buf')" using ni(2) i(1) by linarith
      show "ok (times r) (\<lambda>x. emitted den (val s) buf (nat (i + 1)) x (buf'[nat i := digit_char q]))"
      proof (rule ok_times[OF g r(1)])
        fix r' assume r': "valid r'" "val r' = 10 * val r"
        have "drop (Suc (nat i)) buf' = drop (Suc (nat i)) buf" using arg_cong[OF e(3), of "drop 1"] by simp
        then show "emitted den (val s) buf (nat (i + 1)) r' (buf'[nat i := digit_char q])"
          unfolding emitted_def ni(1) take_write[OF ni(2)]
          using e(2,4) r' r(2,3) dq(2) q eq by (simp add: dec_val_snoc at_step_def algebra_simps)
      qed (use r in simp)
    qed
  qed
qed (use m in auto)

end

section \<open>The division of the bignums provides it\<close>

definition good_denominator :: "bignum \<Rightarrow> bool" where
  "good_denominator den \<longleftrightarrow> norm den \<and> (\<exists>k t. k < 643 \<and> bval den = 5 ^ k * 2 ^ t) \<and> 10 * bval den < W 127"

lemma ten_uint [simp]: "uint (10 :: u32) = 10" by simp

lemma ok_Times10:
  assumes "norm b" "10 * bval b < W 127" "\<And>r. norm r \<Longrightarrow> bval r = 10 * bval b \<Longrightarrow> Q r"
  shows "ok (Times10 b) Q"
  unfolding Times10_def by (rule ok_MultiplyByUInt32[OF assms(1)]) (use assms(2,3) in \<open>simp_all add: mult.commute\<close>)

interpretation bd: digit_division bval good_denominator norm DivideModuloIntBignum Times10
proof
  fix den m assume g: "good_denominator den"
  then obtain k t where kt: "k < 643" "bval den = 5 ^ k * 2 ^ t" and n: "norm den" and cap: "10 * bval den < W 127"
    by (auto simp: good_denominator_def)
  show pos: "0 < bval den" unfolding kt by simp
  assume m: "norm m"
  show "ok (Times10 m) (\<lambda>r. norm r \<and> bval r = 10 * bval m)" if "bval m \<le> bval den"
    by (rule ok_Times10[OF m]) (use that cap in simp_all)
  assume lt: "bval m < 10 * bval den"
  show "ok (DivideModuloIntBignum den m) (\<lambda>(q, r). uint q = bval m div bval den \<and> norm r \<and> bval r = bval m mod bval den)"
  proof (rule ok_DivideModuloIntBignum[OF m n])
    show "bval m < W 127" using lt cap by simp
    show "0 < used_digits den" using pos bval_0_iff[OF n] wfD[OF norm_wf[OF n]] by linarith
    show "bval m < 16 * bval den" using lt pos by linarith
    show "bval den + W (BigitLength den - 1) \<le> W (BigitLength den)"
      unfolding kt(2)
    proof (rule top_room[OF kt(1)])
      have "bval den < W (BigitLength den)" by (rule bval_less_W[OF norm_wf[OF n]])
      then show "5 ^ k * 2 ^ t < W (BigitLength den)" by (simp add: kt(2))
      show "1 \<le> BigitLength den"
      proof (rule ccontr)
        assume "\<not> 1 \<le> BigitLength den"
        then have "W (BigitLength den) \<le> W 0" by (intro W_mono) simp
        then show False using \<open>bval den < W (BigitLength den)\<close> pos by simp
      qed
    qed
  qed auto
qed

end
