(* ===== verification/Dtoa_Shortest.thy ===== *)
theory Dtoa_Shortest
  imports Digit_Division
begin

text \<open>\<open>GenerateShortestDigits\<close>: the loop ends, its assertions hold, and the digits are the shortest and closest ones.\<close>

section \<open>Consequences of the specification\<close>

text \<open>Shortest digits start with a nonzero digit and fit their length.\<close>

lemma shortest_range:
  assumes s: "shortest_digits c n d a b E j" and d: "0 < d" and ab: "0 < a" "0 < b" and an: "a < n"
    and low: "d \<le> n \<or> below_high c n d b 1 0" and high: "\<not> below_high c n d b 10 0"
  shows "10 ^ j \<le> E" "E < 10 ^ Suc j"
proof -
  have pw: "below_high c n d b (F * 10 ^ i) i = below_high c n d b F 0" for F i
  proof (induction i)
    case (Suc i)
    have "F * 10 ^ Suc i = 10 * (F * 10 ^ i)" by simp
    then show ?case using Suc by (simp only: room_Suc)
  qed simp
  have room: "above_low c n d a E j" "below_high c n d b E j" using s by (auto simp: shortest_digits_def in_room_def)
  have best: "in_room c n d a b F j \<Longrightarrow> \<bar>E * d - n * 10 ^ j\<bar> \<le> \<bar>F * d - n * 10 ^ j\<bar>"
    and first: "i < j \<Longrightarrow> \<not> in_room c n d a b F i" for F i using s by (auto simp: shortest_digits_def)
  show "E < 10 ^ Suc j"
  proof (rule ccontr)
    assume "\<not> E < 10 ^ Suc j"
    then have "below_high c n d b (10 * 10 ^ j) j" by (intro below_high_mono[OF room(2)] d) simp
    then show False using high pw[of 10 j] by simp
  qed
  show "10 ^ j \<le> E"
  proof (rule ccontr)
    assume less: "\<not> 10 ^ j \<le> E"
    show False
    proof (cases "d \<le> n")
      case True
      have "E * d < 10 ^ j * d" using less d by simp
      moreover have le: "10 ^ j * d \<le> n * 10 ^ j" using True by (simp add: mult.commute)
      moreover have "in_room c n d a b (10 ^ j) j"
      proof -
        have "0 < b * 10 ^ j" using ab by simp
        then have "10 ^ j * d < (n + b) * 10 ^ j" using le unfolding distrib_right by linarith
        then have "below_high c n d b (10 ^ j) j" by (simp add: below_high_def)
        moreover have "above_low c n d a (10 ^ j) j" by (rule above_low_mono[OF room(1) _ d]) (use less in simp)
        ultimately show ?thesis by (simp add: in_room_def)
      qed
      ultimately show False using best[of "10 ^ j"] by linarith
    next
      case False
      then have "in_room c n d a b 1 0" using low ab unfolding in_room_def by (simp add: above_low_def)
      then have j: "j = 0" using first[of 0 1] by blast
      then have "E * d \<le> 0" using less d by (simp add: mult_nonpos_nonneg)
      then show False using room(1) an unfolding j above_low_def by (auto split: if_splits)
    qed
  qed
qed

section \<open>The loop of the shortest digits\<close>

lemma inc_digit:
  assumes "uint q \<le> 8"
  shows "digit_of (digit_char q + 1) = uint q + 1"
proof -
  have "uint (digit_char q) = uint q + 48" using digit_char_of(2)[of q] assms by (simp add: digit_of_def)
  moreover from this have "uint (digit_char q + 1) = uint (digit_char q) + 1"
    by (subst uint_add_exact) (use assms in simp_all)
  ultimately show ?thesis by (simp add: digit_of_def)
qed

lemma digit_char_9: "uint q \<le> 9 \<Longrightarrow> (digit_char q = ch CHR ''9'') = (uint q = 9)"
  using digit_char_of(2)[of q] by (auto simp: digit_of_def ch_def word_uint_eq_iff)

lemma ok_round_up_digit:
  assumes q: "uint q \<le> 8" and j: "j < length buf"
  defines "buf' \<equiv> buf[j := digit_char q]"
  assumes Q: "Q (buf[j := digit_char q + 1], int j + 1)"
  shows "ok (do { last \<leftarrow> rd buf' (int j + 1 - 1); ensure (last \<noteq> ch CHR ''9''); buffer \<leftarrow> inc_char buf' (int j + 1 - 1); Some (buffer, int j + 1) }) Q"
proof -
  have n9: "digit_char q \<noteq> ch CHR ''9''" using digit_char_9[of q] q by simp
  show ?thesis unfolding inc_char_def using j Q n9 by (simp add: wp buf'_def)
qed

definition shortest_result :: "bool \<Rightarrow> int \<Rightarrow> int \<Rightarrow> int \<Rightarrow> int \<Rightarrow> nat \<Rightarrow> u8 list \<Rightarrow> u8 list \<times> int \<Rightarrow> bool" where
  "shortest_result c n d a b J buf = (\<lambda>(buf', len). \<exists>j \<le> J. len = int j + 1 \<and> length buf' = length buf \<and>
     drop (Suc j) buf' = drop (Suc j) buf \<and> digits (take (Suc j) buf') \<and>
     shortest_digits c n d a b (dec_val (take (Suc j) buf')) j)"

lemma ok_generate_shortest_from:
  fixes den :: bignum
  defines "d \<equiv> bval den"
  assumes g: "good_denominator den" and v: "norm num" "norm dm" "norm dp" and J: "J < length buf" and ab: "0 < a" "0 < b"
    and step: "at_step n d (dec_val (take j buf)) j (bval num)"
    and dig: "digits (take j buf)"
    and deltas: "bval dm = a * 10 ^ j" "alias \<Longrightarrow> a = b" "\<not> alias \<Longrightarrow> bval dp = b * 10 ^ j"
    and prev: "\<And>i F. i < j \<Longrightarrow> \<not> in_room c n d a b F i"
    and carry: "\<not> below_high c n d b (10 * (dec_val (take j buf) + 1)) j"
    and jJ: "j \<le> J" and fin: "d < (a + b) * 10 ^ J"
  shows "ok (generate_shortest_from c alias den num dm dp buf (int j)) (shortest_result c n d a b J buf)"
  using jJ v J step dig deltas prev carry
proof (induction "J - j" arbitrary: num dm dp buf j rule: less_induct)
  case less
  note jJ = less.prems(1) and v = less.prems(2-4) and len = less.prems(5) and step = less.prems(6)
    and dig = less.prems(7) and del = less.prems(8-10) and prev = less.prems(11) and carry = less.prems(12)
  have d: "0 < d" unfolding d_def by (rule bd.good_pos[OF g])
  let ?D = "dec_val (take j buf)"
  have jl: "j < length buf" using jJ len by simp
  have nd: "norm den" using g by (simp add: good_denominator_def)
  show ?case
  proof (subst generate_shortest_from.simps, subst ok_bind, rule bd.ok_divmod[OF g v(1) step[unfolded d_def]])
    fix q :: u16 and r
    assume q: "uint q \<le> 9" and r: "norm r" "0 \<le> bval r" "bval r < bval den"
      and eq: "n * 10 ^ j = (10 * ?D + uint q) * bval den + bval r"
    define D where "D = 10 * ?D + uint q"
    define buf1 where "buf1 = buf[j := digit_char q]"
    define lo where "lo = above_low c n d a D j"
    define up where "up = below_high c n d b (D + 1) j"
    note dq = digit_char_of[OF q]
    have eq': "n * 10 ^ j = D * d + bval r" using eq unfolding D_def d_def .
    have rd': "bval r < d" using r(3) unfolding d_def .
    have lo_eq: "(if c then bval r \<le> bval dm else bval r < bval dm) = lo"
      unfolding lo_def del(1) using room_tests(1)[OF eq', of c a] by (cases c) simp_all
    define dp' where "dp' = (if alias then dm else dp)"
    have dp': "norm dp'" "bval dp' = b * 10 ^ j" using v del by (auto simp: dp'_def)
    have up_eq: "(if c then 0 \<le> sgn (bval r + bval dp' - bval den) else 0 < sgn (bval r + bval dp' - bval den)) = up"
      unfolding up_def room_tests(2)[OF eq', of c b] dp'(2) by (auto simp: sgn_if d_def)
    have tk: "take (Suc j) buf1 = take j buf @ [digit_char q]" unfolding buf1_def by (rule take_write[OF jl])
    have D1: "dec_val (take (Suc j) buf1) = D" unfolding tk D_def by (simp add: dec_val_snoc dq)
    have dig1: "digits (take (Suc j) buf1)" unfolding tk using dig q dq by simp
    have dr1: "drop (Suc j) buf1 = drop (Suc j) buf" unfolding buf1_def by simp
    have q8: "uint q \<le> 8" if up
    proof (rule ccontr)
      assume "\<not> uint q \<le> 8"
      then have "uint q = 9" using q by simp
      then have "D + 1 = 10 * (?D + 1)" by (simp add: D_def)
      then show False using that carry unfolding up_def by (simp only: simp_thms)
    qed
    have fin_down: "shortest_result c n d a b J buf (buf1, int j + 1)"
      if "lo" "up \<Longrightarrow> 2 * bval r < d \<or> 2 * bval r = d \<and> even D"
    proof -
      have "shortest_digits c n d a b D j"
        by (rule choose_digits[OF eq' r(2) rd' ab prev lo_def up_def]) (use that in auto)
      then show ?thesis unfolding shortest_result_def prod.case
        by (intro exI[of _ j]) (use jJ D1 dig1 dr1 in \<open>simp add: buf1_def\<close>)
    qed
    have fin_up: "ok (do { last \<leftarrow> rd buf1 (int j + 1 - 1); ensure (last \<noteq> ch CHR ''9''); buffer \<leftarrow> inc_char buf1 (int j + 1 - 1); Some (buffer, int j + 1) }) (shortest_result c n d a b J buf)"
      if u: up and "lo \<Longrightarrow> \<not> (2 * bval r < d \<or> 2 * bval r = d \<and> even D)"
      unfolding buf1_def
    proof (rule ok_round_up_digit[OF q8[OF u] jl])
      have "shortest_digits c n d a b (D + 1) j"
        by (rule choose_digits[OF eq' r(2) rd' ab prev lo_def up_def]) (use that in auto)
      moreover have "take (Suc j) (buf[j := digit_char q + 1]) = take j buf @ [digit_char q + 1]" by (rule take_write[OF jl])
      moreover have "dec_val (take j buf @ [digit_char q + 1]) = D + 1" by (simp add: dec_val_snoc inc_digit[OF q8[OF u]] D_def)
      moreover have "digits (take j buf @ [digit_char q + 1])" using dig q8[OF u] by (simp add: inc_digit)
      ultimately show "shortest_result c n d a b J buf (buf[j := digit_char q + 1], int j + 1)" unfolding shortest_result_def prod.case
        by (intro exI[of _ j]) (use jJ in simp)
    qed
    have again: "ok (do { numerator \<leftarrow> Times10 r; delta_minus \<leftarrow> Times10 dm; delta_plus \<leftarrow> (if alias then Some dp else Times10 dp);
        generate_shortest_from c alias den numerator delta_minus delta_plus buf1 (int j + 1) }) (shortest_result c n d a b J buf)"
      if no: "\<not> lo" "\<not> up"
    proof -
      have nr: "no_room c n d a b D j" using no by (simp add: no_room_def lo_def up_def)
      have lej: "Suc j \<le> J"
      proof (rule ccontr)
        assume "\<not> Suc j \<le> J"
        then have "j = J" using jJ by simp
        then show False using no_room_bound[OF eq' nr] fin by simp
      qed
      have dm: "bval dm \<le> bval den" using no(1) r(3) unfolding lo_eq[symmetric] by (auto split: if_splits)
      have "bval r + bval dp' \<le> bval den" using no(2) unfolding up_eq[symmetric] by (auto split: if_splits simp: sgn_if)
      with r(2) have dpl: "bval dp' \<le> bval den" by linarith
      have "ok (if alias then Some dp else Times10 dp) (\<lambda>x. norm x \<and> (\<not> alias \<longrightarrow> bval x = b * 10 ^ Suc j))"
        using v(3) dpl del(3) by (auto simp: dp'_def intro: bd.ok_times[OF g])
      then obtain dp2 where dp2: "(if alias then Some dp else Times10 dp) = Some dp2" "norm dp2" "\<not> alias \<longrightarrow> bval dp2 = b * 10 ^ Suc j"
        by (auto elim!: okE)
      obtain num2 where n2: "Times10 r = Some num2" "norm num2" "bval num2 = 10 * bval r"
        by (rule okE[OF bd.times[OF g r(1)]]) (use r in auto)
      obtain dm2 where m2: "Times10 dm = Some dm2" "norm dm2" "bval dm2 = 10 * bval dm"
        by (rule okE[OF bd.times[OF g v(2) dm]]) auto
      have "ok (generate_shortest_from c alias den num2 dm2 dp2 buf1 (int (Suc j))) (shortest_result c n d a b J buf1)"
      proof (rule less.hyps)
        show "J - Suc j < J - j" using lej by simp
        show "at_step n d (dec_val (take (Suc j) buf1)) (Suc j) (bval num2)"
          unfolding D1 n2(3) using eq' r(2) rd' by (simp add: at_step_def algebra_simps)
        show "\<not> in_room c n d a b F i" if "i < Suc j" for i F
          using that prev no_roomD[OF nr d] by (cases "i = j") auto
        show "\<not> below_high c n d b (10 * (dec_val (take (Suc j) buf1) + 1)) (Suc j)"
          unfolding D1 room_Suc using no(2) by (simp add: up_def)
        show "bval dm2 = a * 10 ^ Suc j" using m2(3) del(1) by simp
      qed (use lej n2 m2 dp2 dig1 del(2) len in \<open>simp_all add: buf1_def\<close>)
      moreover have "shortest_result c n d a b J buf x" if res: "shortest_result c n d a b J buf1 x" for x
      proof -
        obtain buf' len where x: "x = (buf', len)" by (cases x)
        from res obtain i where i: "i \<le> J" "len = int i + 1" "length buf' = length buf1" "drop (Suc i) buf' = drop (Suc i) buf1"
            "digits (take (Suc i) buf')" "shortest_digits c n d a b (dec_val (take (Suc i) buf')) i"
          unfolding shortest_result_def x by auto
        have "j < i"
        proof (rule ccontr)
          assume "\<not> j < i"
          then have "\<not> in_room c n d a b (dec_val (take (Suc i) buf')) i"
            using prev no_roomD[OF nr d] by (cases "i = j") auto
          then show False using i(6) by (simp add: shortest_digits_def)
        qed
        then have "drop (Suc i) buf' = drop (Suc i) buf" using i(4) by (simp add: buf1_def)
        then show ?thesis unfolding shortest_result_def x prod.case using i by (intro exI[of _ i]) (simp add: buf1_def)
      qed
      ultimately show ?thesis unfolding n2(1) m2(1) dp2(1) by (simp add: add.commute) (erule ok_mono, blast)
    qed
    have less_ok: "ok (if c then LessEqual r dm else Less r dm) P = P lo" for P
      unfolding lo_eq[symmetric] using r(1) v(2) by (simp add: wp)
    have plus_ok: "ok (PlusCompare r dp' den) P = P (sgn (bval r + bval dp' - bval den))" for P
      using r(1) dp'(1) nd by (simp add: wp)
    have half_ok: "ok (PlusCompare r r den) P = P (sgn (bval r + bval r - bval den))" for P
      using r(1) nd by (simp add: wp)
    have last: "rd buf1 (int j + 1 - 1) = Some (digit_char q)" using jl by (simp add: rd_def buf1_def)
    have last': "rd buf1 (int j) = Some (digit_char q)" using last by simp
    have "(uint (digit_char q) - uint (ch CHR ''0'')) = uint q" using dq(2) by (simp add: digit_of_def)
    then have par: "((uint (digit_char q) - uint (ch CHR ''0'')) smod 2 = 0) = even D"
      using q by (simp add: D_def) presburger
    have en: "ensure (q \<le> 9) = Some ()" using dq(1) by (simp add: ensure_def)
    have w: "wr buf (int j) (digit_char q) = Some buf1" using jl by (simp add: wr_def buf1_def)
    have both: "ok (do {
         compare \<leftarrow> PlusCompare r r den;
         if compare < 0 then Some (buf1, int j + 1)
         else if compare > 0 then do {
           last \<leftarrow> rd buf1 (int j + 1 - 1);
           ensure (last \<noteq> ch CHR ''9'');
           buffer \<leftarrow> inc_char buf1 (int j + 1 - 1);
           Some (buffer, int j + 1) }
         else do {
           last \<leftarrow> rd buf1 (int j + 1 - 1);
           if (uint last - uint (ch CHR ''0'')) smod 2 = 0 then Some (buf1, int j + 1)
           else do {
             ensure (last \<noteq> ch CHR ''9'');
             buffer \<leftarrow> inc_char buf1 (int j + 1 - 1);
             Some (buffer, int j + 1) } } }) (shortest_result c n d a b J buf)" if l: lo and u: up
    proof -
      let ?up = "do { last \<leftarrow> rd buf1 (int j + 1 - 1); ensure (last \<noteq> ch CHR ''9''); buffer \<leftarrow> inc_char buf1 (int j + 1 - 1); Some (buffer, int j + 1) }"
      consider "2 * bval r < d" | "2 * bval r = d" "even D" | "2 * bval r = d" "odd D" | "d < 2 * bval r" by linarith
      then show ?thesis
      proof cases
        case 1
        then show ?thesis using fin_down[OF l] by (subst ok_bind) (simp add: half_ok d_def)
      next
        case 2
        then have "sgn (bval r + bval r - bval den) = 0" by (simp add: d_def)
        then show ?thesis using fin_down[OF l] 2 par by (subst ok_bind) (simp add: half_ok last' d_def)
      next
        case 3
        then have z: "sgn (bval r + bval r - bval den) = 0" by (simp add: d_def)
        have "ok ?up (shortest_result c n d a b J buf)" by (rule fin_up[OF u]) (use 3 in simp)
        then show ?thesis using 3 par by (subst ok_bind) (simp add: half_ok last' d_def)
      next
        case 4
        then have z: "sgn (bval r + bval r - bval den) = 1" by (simp add: d_def)
        have "ok ?up (shortest_result c n d a b J buf)" by (rule fin_up[OF u]) (use 4 in simp)
        then show ?thesis using 4 by (subst ok_bind) (simp add: half_ok last' d_def)
      qed
    qed
    show "ok (case (q, r) of (dg, numerator) \<Rightarrow> do {
       ensure (dg \<le> 9);
       buffer \<leftarrow> wr buf (int j) (digit_char dg);
       let len = int j + 1;
       in_delta_room_minus \<leftarrow> (if c then LessEqual numerator dm else Less numerator dm);
       cp \<leftarrow> PlusCompare numerator (if alias then dm else dp) den;
       let in_delta_room_plus = (if c then cp \<ge> 0 else cp > 0);
       if \<not> in_delta_room_minus \<and> \<not> in_delta_room_plus then do {
         numerator \<leftarrow> Times10 numerator;
         delta_minus \<leftarrow> Times10 dm;
         delta_plus \<leftarrow> (if alias then Some dp else Times10 dp);
         generate_shortest_from c alias den numerator delta_minus delta_plus buffer len }
       else if in_delta_room_minus \<and> in_delta_room_plus then do {
         compare \<leftarrow> PlusCompare numerator numerator den;
         if compare < 0 then Some (buffer, len)
         else if compare > 0 then do {
           last \<leftarrow> rd buffer (len - 1);
           ensure (last \<noteq> ch CHR ''9'');
           buffer \<leftarrow> inc_char buffer (len - 1);
           Some (buffer, len) }
         else do {
           last \<leftarrow> rd buffer (len - 1);
           if (uint last - uint (ch CHR ''0'')) smod 2 = 0 then Some (buffer, len)
           else do {
             ensure (last \<noteq> ch CHR ''9'');
             buffer \<leftarrow> inc_char buffer (len - 1);
             Some (buffer, len) } } }
       else if in_delta_room_minus then Some (buffer, len)
       else do {
         last \<leftarrow> rd buffer (len - 1);
         ensure (last \<noteq> ch CHR ''9'');
         buffer \<leftarrow> inc_char buffer (len - 1);
         Some (buffer, len) } }) (shortest_result c n d a b J buf)"
      unfolding prod.case Let_def dp'_def[symmetric]
      apply (simp only: en bind.simps w)
      apply (subst ok_bind, simp only: less_ok)
      apply (subst ok_bind, simp only: plus_ok up_eq)
      apply (cases lo; cases up; simp only: simp_thms if_True if_False)
      subgoal by (rule both) simp_all
      subgoal unfolding ok_Some by (rule fin_down) simp_all
      subgoal by (rule fin_up) simp_all
      subgoal by (rule again) simp_all
      done
  qed
qed

end
