(* ===== verification/Shortest_Decimal.thy ===== *)
theory Shortest_Decimal
  imports Dtoa_Shortest
begin

text \<open>The contract of the shortest digits as a statement about numbers, and its proof from the integers of the loop.\<close>

text \<open>A real between two bounds, which count themselves when \<open>ends\<close>.\<close>

definition between :: "bool \<Rightarrow> real \<Rightarrow> real \<Rightarrow> real \<Rightarrow> bool" where
  "between ends lo hi x = (if ends then lo \<le> x \<and> x \<le> hi else lo < x \<and> x < hi)"

lemma of_int_frac_less: "0 < d \<Longrightarrow> 0 < T \<Longrightarrow> of_int x / of_int d = y / T \<Longrightarrow>
    (x * 10 ^ j < E * d) = (y < of_int E * (T / 10 ^ j)) \<and> (x * 10 ^ j \<le> E * d) = (y \<le> of_int E * (T / 10 ^ j)) \<and>
    (E * d < x * 10 ^ j) = (of_int E * (T / 10 ^ j) < y) \<and> (E * d \<le> x * 10 ^ j) = (of_int E * (T / 10 ^ j) \<le> (y :: real))"
proof -
  assume d: "0 < d" and T: "0 < T" and e: "of_int x / of_int d = y / T"
  have dr: "0 < real_of_int d" using d by simp
  have y: "y = of_int x * T / of_int d" using e T dr by (simp add: field_simps)
  have l: "real_of_int (x * 10 ^ j) = y * (10 ^ j * of_int d / T)" "real_of_int (E * d) = of_int E * (T / 10 ^ j) * (10 ^ j * of_int d / T)"
    using T dr by (simp_all add: y)
  have c: "0 < 10 ^ j * of_int d / T" using T dr by simp
  have cmp: "(x * 10 ^ j < E * d) = (y * (10 ^ j * of_int d / T) < of_int E * (T / 10 ^ j) * (10 ^ j * of_int d / T))"
      "(x * 10 ^ j \<le> E * d) = (y * (10 ^ j * of_int d / T) \<le> of_int E * (T / 10 ^ j) * (10 ^ j * of_int d / T))"
      "(E * d < x * 10 ^ j) = (of_int E * (T / 10 ^ j) * (10 ^ j * of_int d / T) < y * (10 ^ j * of_int d / T))"
      "(E * d \<le> x * 10 ^ j) = (of_int E * (T / 10 ^ j) * (10 ^ j * of_int d / T) \<le> y * (10 ^ j * of_int d / T))"
    unfolding l[symmetric] by (simp_all only: of_int_less_iff of_int_le_iff)
  show ?thesis unfolding cmp mult_less_cancel_right_pos[OF c] mult_le_cancel_right_pos[OF c] by simp
qed

lemma in_room_real:
  assumes d: "0 < d" and T: "T = (10::real) powi (p - 1)"
    and lo: "of_int (n - a) / of_int d = lo / T" and hi: "of_int (n + b) / of_int d = hi / T"
  shows "in_room c n d a b E j = between c lo hi (of_int E * 10 powi (p - 1 - int j))"
proof -
  have T0: "0 < T" unfolding T by (simp add: zero_less_power_int)
  have w: "T / 10 ^ j = 10 powi (p - 1 - int j)" unfolding T by (simp add: power_int_diff)
  show ?thesis
    unfolding in_room_def above_low_def below_high_def between_def w[symmetric]
    using of_int_frac_less[OF d T0 lo, of j E] of_int_frac_less[OF d T0 hi, of j E] by auto
qed

text \<open>The contract of the shortest digits, as numbers.\<close>

definition shortest_decimal :: "bool \<Rightarrow> real \<Rightarrow> real \<Rightarrow> real \<Rightarrow> int \<Rightarrow> nat \<Rightarrow> int \<Rightarrow> bool" where
  "shortest_decimal c lo v hi E len p \<longleftrightarrow>
     1 \<le> len \<and> 10 ^ (len - 1) \<le> E \<and> E < 10 ^ len \<and>
     between c lo hi (of_int E * 10 powi (p - int len)) \<and>
     (\<forall>F q. 0 < F \<longrightarrow> F < 10 ^ (len - 1) \<longrightarrow> \<not> between c lo hi (of_int F * 10 powi q)) \<and>
     (\<forall>F. \<not> between c lo hi (of_int (10 * F) * 10 powi (p - int len))) \<and>
     (\<forall>F. between c lo hi (of_int F * 10 powi (p - int len)) \<longrightarrow>
        \<bar>of_int E * 10 powi (p - int len) - v\<bar> \<le> \<bar>of_int F * 10 powi (p - int len) - v\<bar>)"

lemma shortest_decimalI:
  assumes d: "0 < d" and T: "T = (10::real) powi (p - 1)"
    and v: "of_int n / of_int d = v / T" and lo: "of_int (n - a) / of_int d = lo / T" and hi: "of_int (n + b) / of_int d = hi / T"
    and s: "shortest_digits c n d a b E j" and ab: "0 < a" "0 < b" and an: "a < n"
    and low: "d \<le> n \<or> below_high c n d b 1 0" and high: "\<not> below_high c n d b 10 0"
  shows "shortest_decimal c lo v hi E (Suc j) p"
proof -
  have T0: "0 < T" unfolding T by (simp add: zero_less_power_int)
  have dr: "0 < real_of_int d" using d by simp
  note room = in_room_real[OF d T lo hi, of c]
  have e: "p - int (Suc j) = p - 1 - int j" for j by simp
  have inE: "in_room c n d a b E j" and prev: "i < j \<Longrightarrow> \<not> in_room c n d a b F i"
    and best: "in_room c n d a b F j \<Longrightarrow> \<bar>E * d - n * 10 ^ j\<bar> \<le> \<bar>F * d - n * 10 ^ j\<bar>" for i F
    using s by (auto simp: shortest_digits_def)
  have one: "in_room c n d a b 1 0" if "in_room c n d a b E' i" "E' < 10 ^ i" for E' i
  proof -
    have pa: "above_low c n d a (F * 10 ^ i) i = above_low c n d a F 0" for F i
    proof (induction i)
      case (Suc i)
      have "F * 10 ^ Suc i = 10 * (F * 10 ^ i)" by simp
      then show ?case using Suc by (simp only: room_Suc)
    qed simp
    have "above_low c n d a (1 * 10 ^ i) i"
      by (rule above_low_mono[OF _ _ d, of c n a E']) (use that in \<open>auto simp: in_room_def\<close>)
    then have "above_low c n d a 1 0" unfolding pa .
    moreover have "below_high c n d b 1 0" using low ab by (auto simp: below_high_def)
    ultimately show ?thesis by (simp add: in_room_def)
  qed
  have none: "\<not> between c lo hi (of_int F * 10 powi q)" if F: "0 < F" "F < 10 ^ j" for F q
  proof
    assume bt: "between c lo hi (of_int F * 10 powi q)"
    have j: "0 < j" using F by (cases j) auto
    show False
    proof (cases "q \<le> p - 1")
      case True
      define i where "i = nat (p - 1 - q)"
      have "q = p - 1 - int i" using True by (simp add: i_def)
      then have r: "in_room c n d a b F i" using bt room by simp
      show False
      proof (cases "i < j")
        case True then show False using prev r by blast
      next
        case False
        then have "(10::int) ^ j \<le> 10 ^ i" by (intro power_increasing) simp_all
        with F(2) have "F < 10 ^ i" by (rule less_le_trans)
        then show False using one[OF r] prev[OF j] by simp
      qed
    next
      case False
      have "(10::real) powi q = 10 ^ nat (q - p + 1) * 10 powi (p - 1)"
      proof -
        have "q = (q - p + 1) + (p - 1)" by simp
        then have "(10::real) powi q = 10 powi (q - p + 1) * 10 powi (p - 1)" by (subst power_int_add[symmetric]) simp_all
        then show ?thesis using False by (simp add: power_int_def)
      qed
      then have "between c lo hi (of_int (F * 10 ^ nat (q - p + 1)) * 10 powi (p - 1 - int 0))" using bt by (simp add: mult.assoc)
      then have "in_room c n d a b (F * 10 ^ nat (q - p + 1)) 0" unfolding room .
      then show False using prev[OF j] by blast
    qed
  qed
  have ten: "\<not> between c lo hi (of_int (10 * F) * 10 powi (p - 1 - int j))" for F
  proof
    assume "between c lo hi (of_int (10 * F) * 10 powi (p - 1 - int j))"
    then have r: "in_room c n d a b (10 * F) j" by (simp only: room)
    show False
    proof (cases j)
      case (Suc i)
      then have "in_room c n d a b F i" using r by (simp only: in_room_def room_Suc)
      then show False using prev[of i] Suc by blast
    next
      case 0
      have low: "above_low c n d a (10 * F) 0" and up: "below_high c n d b (10 * F) 0" using r unfolding 0 in_room_def by simp_all
      have "0 < 10 * F * d" using low an by (auto simp: above_low_def split: if_splits)
      then have "10 \<le> 10 * F" using d by (simp add: zero_less_mult_iff)
      then have "below_high c n d b 10 0" by (rule below_high_mono[OF up _ d])
      then show False using high by blast
    qed
  qed
  have dist: "\<bar>of_int F * 10 powi (p - 1 - int j) - v\<bar> = of_int \<bar>F * d - n * 10 ^ j\<bar> * (10 powi (p - 1 - int j) / of_int d)" for F
  proof -
    have vv: "v = of_int n * 10 ^ j / of_int d * 10 powi (p - 1 - int j)"
    proof -
      have "v = of_int n / of_int d * T" using v T0 by (simp add: field_simps)
      also have "T = 10 ^ j * 10 powi (p - 1 - int j)" unfolding T by (simp add: power_int_diff)
      finally show ?thesis by simp
    qed
    have "of_int F * 10 powi (p - 1 - int j) - v = of_int (F * d - n * 10 ^ j) * (10 powi (p - 1 - int j) / of_int d)"
      unfolding vv using dr by (simp add: field_simps)
    moreover have "0 < 10 powi (p - 1 - int j) / real_of_int d" using dr by (simp add: zero_less_power_int)
    ultimately show ?thesis using dr by (simp add: abs_mult)
  qed
  have "\<bar>of_int E * 10 powi (p - 1 - int j) - v\<bar> \<le> \<bar>of_int F * 10 powi (p - 1 - int j) - v\<bar>"
    if "between c lo hi (of_int F * 10 powi (p - 1 - int j))" for F
    unfolding dist using best[of F] that room dr by (intro mult_right_mono) (simp_all add: zero_le_power_int del: of_int_abs)
  then show ?thesis
    unfolding shortest_decimal_def e using shortest_range[OF s d ab an low high] inE room none ten by simp
qed

end
