(* ===== verification/Dtoa_Start.thy ===== *)
theory Dtoa_Start
  imports Shortest_Decimal
begin

text \<open>
  The start of \<open>BignumDtoa\<close>: the normalised exponent, the four start values at the scale of the
  estimated power, and the correction of the estimate.
\<close>

section \<open>The binary exponent\<close>

lemma ok_NormalizedExponent:
  assumes f: "0 < uint f" "uint f < 2 ^ 53"
    and Q: "\<And>k. k \<le> 52 \<Longrightarrow> 2 ^ 52 \<le> uint f * 2 ^ k \<Longrightarrow> uint f * 2 ^ k < 2 ^ 53 \<Longrightarrow> Q (e - int k)"
  shows "ok (NormalizedExponent f e) Q"
proof -
  have f0: "f \<noteq> 0" using f(1) by auto
  show ?thesis unfolding NormalizedExponent_def
    apply (simp only: ok_bind ok_ensure f0 not_False_eq_True simp_thms)
  proof (rule ok_while_do[where P = "\<lambda>(t, e'). \<exists>k. uint t = uint f * 2 ^ k \<and> e' = e - int k \<and> uint t < 2 ^ 53"
      and m = "\<lambda>(s, e). nat (2 ^ 53 - uint s)"], goal_cases)
    case 1
    then show ?case using f by (auto intro!: exI[of _ 0])
  next
    case (2 x)
    obtain t e' where t: "x = (t, e')" by (cases x)
    obtain k where k: "uint t = uint f * 2 ^ k" "e' = e - int k" "uint t < 2 ^ 53" using 2 t by auto
    note g = hidden_bit_small[OF k(3)]
    have kb: "1 * 2 ^ k \<le> uint f * 2 ^ k" by (rule mult_right_mono) (use f in simp_all)
    show ?case
    proof (cases "uint t < 2 ^ 52")
      case False
      have "2 ^ k < (2 :: int) ^ 53" using kb k by linarith
      then have "k < 53" by (rule power_less_imp_less_exp[rotated]) simp
      then show ?thesis using t g k Q[of k] False by auto
    next
      case True
      then have "uint (push_bit 1 t) = uint t * 2 ^ 1" by (intro uint_push_bit_exact) simp
      moreover have t0: "0 < uint t" unfolding k(1) using f by simp
      ultimately have p: "uint (push_bit 1 t) = uint f * 2 ^ Suc k" "uint (push_bit 1 t) < 2 ^ 53"
          "nat (2 ^ 53 - uint (push_bit 1 t)) < nat (2 ^ 53 - uint t)" using True k by simp_all
      have e: "e' - 1 = e - int (Suc k)" using k(2) by simp
      have "t AND kDoubleHiddenBit = 0" using g True by blast
      then show ?thesis unfolding t prod.case ok_Some using p e by (simp only: if_True simp_thms) blast
    qed
  qed
qed

section \<open>The start values\<close>

lemma ok_AssignPowerTen:
  assumes "wf this" "0 \<le> e" "e \<le> 400" and Q: "\<And>r. norm r \<Longrightarrow> bval r = 10 ^ nat e \<Longrightarrow> Q r"
  shows "ok (AssignPowerUInt16 10 e this) Q"
  by (rule ok_AssignPowerUInt16[OF assms(1), where s = 4]) (use assms in simp_all)

lemma ok_AssignOne:
  assumes "wf this" and Q: "\<And>r. norm r \<Longrightarrow> bval r = 1 \<Longrightarrow> Q r"
  shows "ok (AssignUInt16 1 this) Q"
  by (rule ok_AssignUInt16[OF assms(1)]) (use assms in simp_all)

text \<open>Numbers up to \<open>2 ^ 2500\<close> are far below the capacity.\<close>

definition small :: "int \<Rightarrow> bool" where "small x \<longleftrightarrow> x * 64 \<le> 2 ^ 3500"

lemma small_cap: "small x \<Longrightarrow> 0 \<le> x \<Longrightarrow> c \<le> 64 \<Longrightarrow> c * x < W 127"
proof -
  assume x: "small x" "0 \<le> x" "c \<le> 64"
  have "c * x \<le> 64 * x" by (rule mult_right_mono) (use x in simp_all)
  also have "\<dots> \<le> 2 ^ 3500" using x(1) by (simp only: small_def mult.commute)
  also have "\<dots> < W 127" unfolding W_def by (rule power_strict_increasing) simp_all
  finally show ?thesis .
qed

lemma ok_Shift:
  assumes "norm b" "0 \<le> s" "small (bval b)" and Q: "\<And>r. norm r \<Longrightarrow> bval r = bval b * 2 ^ nat s \<Longrightarrow> Q r"
  shows "ok (ShiftLeft s b) Q"
  by (rule ok_ShiftLeft[OF assms(1,2)]) (use small_cap[OF assms(3), of 1] Q in simp_all)

text \<open>The scale of the start values: \<open>v = significand * 2 ^ exponent\<close> over \<open>10 ^ power\<close>.\<close>

definition up_scale :: "int \<Rightarrow> int \<Rightarrow> int" where
  "up_scale e k = 2 ^ nat e * 10 ^ nat (- k)"

definition down_scale :: "int \<Rightarrow> int \<Rightarrow> int" where
  "down_scale e k = 10 ^ nat k * 2 ^ nat (- e)"

definition start_factor :: "bool \<Rightarrow> bool \<Rightarrow> int" where
  "start_factor need closer = (if need then if closer then 4 else 2 else 1)"

lemma pow10_le_2: "n \<le> 400 \<Longrightarrow> (10::int) ^ n \<le> 2 ^ 1600"
proof -
  assume n: "n \<le> 400"
  have "(10::int) ^ n \<le> (2 ^ 4) ^ n" by (rule power_mono) simp_all
  also have "\<dots> = 2 ^ (4 * n)" by (simp only: power_mult)
  also have "\<dots> \<le> 2 ^ 1600" by (rule power_increasing) (use n in simp_all)
  finally show ?thesis .
qed

lemma small_product:
  assumes "0 \<le> x" "x \<le> 2 ^ 1600" "0 \<le> y" "y \<le> 2 ^ 1200" "0 \<le> f" "f \<le> 2 ^ 64"
  shows "small (f * (x * y))"
proof -
  have "x * y \<le> 2 ^ 1600 * 2 ^ 1200" by (rule mult_mono) (use assms in simp_all)
  then have "f * (x * y) \<le> 2 ^ 64 * (2 ^ 1600 * 2 ^ 1200)" by (intro mult_mono) (use assms in simp_all)
  also have "\<dots> = 2 ^ 2864" by (simp only: power_add[symmetric]) simp
  finally have "f * (x * y) * 64 \<le> 2 ^ 2864 * 2 ^ 6" by (intro mult_mono) simp_all
  also have "\<dots> = 2 ^ 2870" by (simp only: power_add[symmetric]) simp
  also have "\<dots> \<le> 2 ^ 3500" by (rule power_increasing) simp_all
  finally show ?thesis unfolding small_def .
qed

lemma two_pow_le: "e \<le> 1200 \<Longrightarrow> (2::int) ^ nat e \<le> 2 ^ 1200"
  by (rule power_increasing) simp_all

lemma small_scales:
  assumes "\<bar>e\<bar> \<le> 1200" "\<bar>k\<bar> \<le> 400" "0 \<le> f" "f \<le> 2 ^ 64"
  shows "small (f * up_scale e k)" "small (f * down_scale e k)"
proof -
  have "small (f * (10 ^ nat (- k) * 2 ^ nat e))" "small (f * (10 ^ nat k * 2 ^ nat (- e)))"
    by (rule small_product; (rule pow10_le_2 two_pow_le | simp)?; use assms in simp)+
  then show "small (f * up_scale e k)" "small (f * down_scale e k)"
    by (simp_all only: up_scale_def down_scale_def mult.commute[of "2 ^ nat e"])
qed

definition start_values :: "bool \<Rightarrow> bool \<Rightarrow> int \<Rightarrow> int \<Rightarrow> int \<Rightarrow> bignum \<times> bignum \<times> bignum \<times> bignum \<Rightarrow> bool" where
  "start_values need closer f e k = (\<lambda>(n, d, a, b). norm n \<and> norm d \<and> norm a \<and> norm b \<and>
     bval n = start_factor need closer * f * up_scale e k \<and> bval d = start_factor need closer * down_scale e k \<and>
     (if need then bval a = up_scale e k \<and> bval b = (if closer then 2 else 1) * up_scale e k else a = Bignum0 \<and> b = Bignum0))"

lemma ok_StartPositiveExponent:
  assumes e: "0 \<le> e" "e \<le> 1200" and k: "0 \<le> k" "k \<le> 400"
  shows "ok (InitialScaledStartValuesPositiveExponent f e k need Bignum0 Bignum0 Bignum0 Bignum0) (start_values need False (uint f) e k)"
proof -
  have f: "0 \<le> uint f" "uint f \<le> 2 ^ 64" using uint_lt_2p[of f] by simp_all
  have ek: "\<bar>e\<bar> \<le> 1200" "\<bar>k\<bar> \<le> 400" using e k by simp_all
  have U: "up_scale e k = 2 ^ nat e" "down_scale e k = 10 ^ nat k" using e k by (simp_all add: up_scale_def down_scale_def)
  have sm: "small (uint f)" "small 1" "small (10 ^ nat k)" "small (uint f * 2 ^ nat e)"
    using small_scales(1)[of 0 0 "uint f"] small_scales(1)[of 0 0 1] small_scales(2)[OF ek, of 1] small_scales(1)[OF ek f] f
    by (simp_all only: U) (simp_all add: up_scale_def)
  show ?thesis unfolding InitialScaledStartValuesPositiveExponent_def
    apply (subst ok_bind, subst ok_ensure, rule conjI, rule k)
    apply (subst ok_bind, rule ok_AssignUInt64, simp)
    apply (subst ok_bind, rule ok_Shift, assumption, rule e, simp only: sm)
    apply (subst ok_bind, rule ok_AssignPowerTen, simp, rule k, rule k)
    apply (subst ok_if, intro conjI impI)
     apply (subst ok_bind, rule ok_Shift, assumption, simp, simp only: sm)
     apply (subst ok_bind, rule ok_Shift, assumption, simp, simp only: sm)
     apply (subst ok_bind, rule ok_AssignOne, simp)
     apply (subst ok_bind, rule ok_Shift, assumption, rule e, simp only: sm)
     apply (subst ok_bind, rule ok_AssignOne, simp)
     apply (subst ok_bind, rule ok_Shift, assumption, rule e, simp only: sm)
    by (simp_all add: start_values_def start_factor_def U)
qed

lemma ok_StartPositivePower:
  assumes e: "e < 0" "- 1200 \<le> e" and k: "0 \<le> k" "k \<le> 400"
  shows "ok (InitialScaledStartValuesNegativeExponentPositivePower f e k need Bignum0 Bignum0 Bignum0 Bignum0) (start_values need False (uint f) e k)"
proof -
  have f: "0 \<le> uint f" "uint f \<le> 2 ^ 64" using uint_lt_2p[of f] by simp_all
  have ek: "\<bar>e\<bar> \<le> 1200" "\<bar>k\<bar> \<le> 400" using e k by simp_all
  have U: "up_scale e k = 1" "down_scale e k = 10 ^ nat k * 2 ^ nat (- e)" using e k by (simp_all add: up_scale_def down_scale_def)
  have sm: "small (uint f)" "small (10 ^ nat k * 2 ^ nat (- e))" "small (10 ^ nat k)"
    using small_scales(1)[of 0 0 "uint f"] small_scales(2)[OF ek, of 1] small_scales(2)[of 0 k 1] ek f
    by (simp_all only: U) (simp_all add: up_scale_def down_scale_def)
  have e': "0 \<le> - e" using e by simp
  show ?thesis unfolding InitialScaledStartValuesNegativeExponentPositivePower_def
    apply (subst ok_bind, rule ok_AssignUInt64, simp)
    apply (subst ok_bind, rule ok_AssignPowerTen, simp, rule k, rule k)
    apply (subst ok_bind, rule ok_Shift, assumption, rule e', simp only: sm)
    apply (subst ok_if, intro conjI impI)
     apply (subst ok_bind, rule ok_Shift, assumption, simp, simp only: sm)
     apply (subst ok_bind, rule ok_Shift, assumption, simp, simp only: sm)
     apply (subst ok_bind, rule ok_AssignOne, simp)
     apply (subst ok_bind, rule ok_AssignOne, simp)
    by (simp_all add: start_values_def start_factor_def U)
qed

lemma ok_StartNegativePower:
  assumes e: "e < 0" "- 1200 \<le> e" and k: "k < 0" "- 400 \<le> k"
  shows "ok (InitialScaledStartValuesNegativeExponentNegativePower f e k need Bignum0 Bignum0 Bignum0 Bignum0) (start_values need False (uint f) e k)"
proof -
  have f: "0 \<le> uint f" "uint f \<le> 2 ^ 64" using uint_lt_2p[of f] by simp_all
  have ek: "\<bar>e\<bar> \<le> 1200" "\<bar>k\<bar> \<le> 400" using e k by simp_all
  have U: "up_scale e k = 10 ^ nat (- k)" "down_scale e k = 2 ^ nat (- e)" using e k by (simp_all add: up_scale_def down_scale_def)
  have sm: "small (10 ^ nat (- k) * uint f)" "small (2 ^ nat (- e))" "small 1"
    using small_scales(1)[OF ek f] small_scales(2)[OF ek, of 1] small_scales(2)[of 0 0 1]
    by (simp_all only: U mult.commute[of "uint f"]) (simp_all add: down_scale_def)
  have e': "0 \<le> - e" and k': "0 \<le> - k" "- k \<le> 400" using e k by simp_all
  have cap: "bval b * uint f < W 127" if "bval b = 10 ^ nat (- k)" for b
    using small_cap[OF sm(1), of 1] f that by simp
  show ?thesis unfolding InitialScaledStartValuesNegativeExponentNegativePower_def
    apply (subst ok_bind, rule ok_AssignPowerTen, simp, rule k', rule k')
    apply (cases need; simp only: if_True if_False bind.simps prod.case)
    subgoal
      apply (simp add: ok_bind[of "AssignBignum _ _"] ok_AssignBignum norm_wf)
      apply (subst ok_bind, rule ok_MultiplyByUInt64, assumption, rule cap, assumption)
      apply (subst ok_bind, rule ok_AssignOne, simp)
      apply (subst ok_bind, rule ok_Shift, assumption, rule e', simp only: sm)
      apply (subst ok_bind, rule ok_Shift, assumption, simp, simp only: sm)
      apply (subst ok_bind, rule ok_Shift, assumption, simp, simp only: sm mult_1)
      by (simp add: start_values_def start_factor_def U)
    subgoal
      apply (subst ok_bind, rule ok_MultiplyByUInt64, assumption, rule cap, assumption)
      apply (subst ok_bind, rule ok_AssignOne, simp)
      apply (subst ok_bind, rule ok_Shift, assumption, rule e', simp only: sm)
      by (simp add: start_values_def start_factor_def U)
    done
qed

lemma ok_InitialScaledStartValues:
  assumes e: "\<bar>e\<bar> \<le> 1200" and k: "\<bar>k\<bar> \<le> 400" "0 \<le> e \<Longrightarrow> 0 \<le> k" and f: "uint f < 2 ^ 53"
  shows "ok (InitialScaledStartValues f e closer k need Bignum0 Bignum0 Bignum0 Bignum0) (start_values need closer (uint f) e k)"
proof -
  have sm: "small (2 * uint f * up_scale e k)" "small (1 * up_scale e k)" "small (2 * down_scale e k)"
    by (rule small_scales[OF e k(1)]; use f in simp)+
  have base: "ok (if e \<ge> 0 then InitialScaledStartValuesPositiveExponent f e k need Bignum0 Bignum0 Bignum0 Bignum0
        else if k \<ge> 0 then InitialScaledStartValuesNegativeExponentPositivePower f e k need Bignum0 Bignum0 Bignum0 Bignum0
        else InitialScaledStartValuesNegativeExponentNegativePower f e k need Bignum0 Bignum0 Bignum0 Bignum0) (start_values need False (uint f) e k)"
    using ok_StartPositiveExponent[of e k f need] ok_StartPositivePower[of e k f need] ok_StartNegativePower[of e k f need] e k by auto
  show ?thesis unfolding InitialScaledStartValues_def
  proof (subst ok_bind, rule ok_mono[OF base])
    fix x assume sx: "start_values need False (uint f) e k x"
    obtain n d a b where x: "x = (n, d, a, b)" by (cases x)
    have nb: "norm n" "norm d" "norm a" "norm b" using sx by (simp_all add: start_values_def x)
    show "ok (case x of (numerator, denominator, delta_minus, delta_plus) \<Rightarrow>
        if need \<and> closer then do {
          denominator \<leftarrow> ShiftLeft 1 denominator;
          numerator \<leftarrow> ShiftLeft 1 numerator;
          delta_plus \<leftarrow> ShiftLeft 1 delta_plus;
          Some (numerator, denominator, delta_minus, delta_plus) }
        else Some (numerator, denominator, delta_minus, delta_plus)) (start_values need closer (uint f) e k)"
    proof (cases "need \<and> closer")
      case False
      then show ?thesis using sx by (auto simp: x start_values_def start_factor_def)
    next
      case True
      then have v: "bval n = 2 * uint f * up_scale e k" "bval d = 2 * down_scale e k" "bval a = up_scale e k" "bval b = up_scale e k"
        using sx by (simp_all add: x start_values_def start_factor_def)
      show ?thesis unfolding x prod.case
        apply (subst if_P[OF True])
        apply (subst ok_bind, rule ok_Shift, rule nb, simp, simp only: v sm)
        apply (subst ok_bind, rule ok_Shift, rule nb, simp, simp only: v sm)
        apply (subst ok_bind, rule ok_Shift, rule nb, simp, use sm(2) in \<open>simp add: v\<close>)
        using True v nb by (simp add: start_values_def start_factor_def)
    qed
  qed
qed

section \<open>Fixing the estimate\<close>

lemma ok_FixupMultiply10:
  assumes n: "norm num" "norm den" "norm dm" "norm dp"
    and cap: "10 * bval num < W 127" "10 * bval dm < W 127" "10 * bval dp < W 127"
    and Q: "\<And>m p n' a' b'. norm n' \<Longrightarrow> norm a' \<Longrightarrow> norm b' \<Longrightarrow>
       m = (if (if c then bval den \<le> bval num + bval dp else bval den < bval num + bval dp) then 1 else 10) \<Longrightarrow>
       p = (if m = 1 then k + 1 else k) \<Longrightarrow> bval n' = m * bval num \<Longrightarrow> bval a' = m * bval dm \<Longrightarrow> bval b' = m * bval dp \<Longrightarrow>
       Q (p, n', a', b')"
  shows "ok (FixupMultiply10 k c num den dm dp) Q"
proof -
  have t: "(if c then 0 \<le> sgn (bval num + bval dp - bval den) else 0 < sgn (bval num + bval dp - bval den)) =
      (if c then bval den \<le> bval num + bval dp else bval den < bval num + bval dp)" (is "_ = ?in") by (auto simp: sgn_if)
  show ?thesis
  proof (cases ?in)
    case True
    then show ?thesis unfolding FixupMultiply10_def Let_def
      apply (subst ok_bind, subst ok_PlusCompare[OF n(1) n(4) n(2)], simp only: t if_True ok_Some)
      using Q[of num dm dp 1 "k + 1"] n by simp
  next
    case False
    show ?thesis unfolding FixupMultiply10_def Let_def
      apply (subst ok_bind, subst ok_PlusCompare[OF n(1) n(4) n(2)], simp only: t False if_False)
      apply (subst ok_bind, rule ok_Times10[OF n(1) cap(1)])
      apply (subst ok_bind, subst ok_Equal[OF n(3) n(4)])
      apply (subst ok_if, intro conjI impI)
      subgoal
        apply (subst ok_bind, rule ok_Times10[OF n(3) cap(2)])
        apply (simp only: ok_bind[of "AssignBignum _ _"] ok_AssignBignum norm_wf n ok_Some)
        apply (rule Q[where m = 10]) using False by simp_all
      subgoal
        apply (subst ok_bind, rule ok_Times10[OF n(3) cap(2)])
        apply (subst ok_bind, rule ok_Times10[OF n(4) cap(3)])
        apply (simp only: ok_Some)
        apply (rule Q[where m = 10]) using False by simp_all
      done
  qed
qed

text \<open>The scales are the powers of the estimate, and bound the numerator on both sides.\<close>

lemma scales_pos: "0 < up_scale e k" "0 < down_scale e k"
  by (simp_all add: up_scale_def down_scale_def)

lemma scales_real: "of_int (up_scale e k) / of_int (down_scale e k) = (2::real) powi e / 10 powi k"
  by (simp add: up_scale_def down_scale_def powi_frac field_simps)

lemma estimate_scales:
  assumes f: "0 < f" "f < 2 ^ 53" and e: "- 1074 \<le> e" "e \<le> 971"
    and j: "j \<le> 52" "2 ^ 52 \<le> f * 2 ^ j" "f * 2 ^ j < 2 ^ 53"
  defines "k \<equiv> EstimatePower (e - int j)"
  shows "\<bar>k\<bar> \<le> 400" "0 \<le> e \<Longrightarrow> 0 \<le> k" "down_scale e k \<le> 10 * f * up_scale e k" "(f + 1) * up_scale e k \<le> 10 * down_scale e k"
proof -
  have p: "\<bar>e - int j + 52\<bar> \<le> 1200" using e j by linarith
  note B = EstimatePower_bounds[OF p, folded k_def]
  have pr: "real_of_int (e - int j + 52) \<le> 1200" "- 1200 \<le> real_of_int (e - int j + 52)" using p by linarith+
  have bd: "- 362 < x * c10" "x * c10 < 362" if "x \<le> 1200" "- 1200 \<le> x" for x :: real using that by linarith+
  have k1: "real_of_int k < 400" using B(3) bd(2)[OF pr] by linarith
  have k2: "- 400 < real_of_int k" using B(4) bd(1)[OF pr] by linarith
  show "\<bar>k\<bar> \<le> 400" using k1 k2 by linarith
  show "0 \<le> k" if "0 \<le> e"
  proof -
    have "0 \<le> real_of_int (e - int j + 52)" using that j by linarith
    moreover have "- 1 < y" if "0 \<le> x" "x * c10 - 1 / 1000000000 < y" for x y :: real using that by linarith
    ultimately have "- 1 < real_of_int k" using B(4) by blast
    then show ?thesis by linarith
  qed
  have dr: "0 < real_of_int (down_scale e k)" using scales_pos by simp
  have U: "real_of_int (up_scale e k) = of_int (down_scale e k) * (2 powi e / 10 powi k)"
    using scales_real[of e k] dr by (simp add: field_simps)
  have t: "(2::real) powi (e - int j + m) = 2 powi e * 2 ^ m' / 2 ^ j" if "m = int m'" for m m'
    using that by (simp add: power_int_add power_int_diff)
  have tj: "(0::real) < 2 ^ j" by simp
  have tk: "(0::real) < 10 powi k" "(0::real) < 2 powi e" by (simp_all add: zero_less_power_int)
  have l: "real_of_int (2 ^ 52) \<le> of_int (f * 2 ^ j)" "real_of_int (f * 2 ^ j + 2 ^ j) \<le> of_int (2 ^ 53)"
  proof -
    show "real_of_int (2 ^ 52) \<le> of_int (f * 2 ^ j)" using j(2) by (simp only: of_int_le_iff)
    have s: "(2::int) ^ (53 - j) * 2 ^ j = 2 ^ 53" using j(1) by (simp only: power_add[symmetric]) simp
    have "f * 2 ^ j < 2 ^ (53 - j) * 2 ^ j" unfolding s by (rule j(3))
    then have "f < 2 ^ (53 - j)" by simp
    then have "(f + 1) * 2 ^ j \<le> 2 ^ (53 - j) * 2 ^ j" by (intro mult_right_mono) simp_all
    then have "f * 2 ^ j + 2 ^ j \<le> 2 ^ 53" unfolding s by (simp only: distrib_right mult_1)
    then show "real_of_int (f * 2 ^ j + 2 ^ j) \<le> of_int (2 ^ 53)" by (simp only: of_int_le_iff)
  qed
  have "10 powi k / 10 \<le> 2 powi e * 2 ^ 52 / (2::real) ^ j"
    using B(1) t[of 52 52] by (simp add: power_int_diff)
  also have "\<dots> \<le> 2 powi e * (of_int f * 2 ^ j) / 2 ^ j"
    by (intro divide_right_mono mult_left_mono) (use l tk in simp_all)
  finally have "10 powi k \<le> 10 * of_int f * (2::real) powi e" by (simp add: mult_ac)
  then have "of_int (down_scale e k) * (10 powi k / 10 powi k) \<le> of_int (down_scale e k) * (10 * of_int f * 2 powi e / (10::real) powi k)"
    by (intro mult_left_mono divide_right_mono) (use dr tk in simp_all)
  then have "of_int (down_scale e k) \<le> real_of_int (10 * f * up_scale e k)" using tk by (simp add: U mult_ac)
  then show "down_scale e k \<le> 10 * f * up_scale e k" by (simp only: of_int_le_iff)
  have "2 powi e * (of_int f * 2 ^ j + 2 ^ j) / 2 ^ j \<le> 2 powi e * 2 ^ 53 / (2::real) ^ j"
    by (intro divide_right_mono mult_left_mono) (use l tk in simp_all)
  also have "\<dots> \<le> 10 powi k * 10" using B(2) t[of 53 53] by (simp add: power_int_add)
  finally have fin: "2 powi e * (of_int f * 2 ^ j + 2 ^ j) / (2::real) ^ j \<le> 10 powi k * 10" .
  have "2 powi e * (of_int f * 2 ^ j + 2 ^ j) / (2::real) ^ j = 2 powi e * (of_int f + 1)" by (simp add: add_divide_distrib distrib_left)
  with fin have "2 powi e * (of_int f + 1) \<le> 10 powi k * (10::real)" by (simp only:)
  then have "of_int (down_scale e k) * (2 powi e * (of_int f + 1) / 10 powi k) \<le> of_int (down_scale e k) * (10 powi k * 10 / (10::real) powi k)"
    by (intro mult_left_mono divide_right_mono) (use dr tk in simp_all)
  then have "real_of_int ((f + 1) * up_scale e k) \<le> of_int (10 * down_scale e k)" using tk by (simp add: U mult_ac)
  then show "(f + 1) * up_scale e k \<le> 10 * down_scale e k" by (simp only: of_int_le_iff)
qed

end
