(* ===== verification/Dtoa_Bignum.thy ===== *)
theory Dtoa_Bignum
  imports Dtoa_Start Strtod_Exact
begin

text \<open>
  \<open>BignumDtoa\<close> in its shortest mode: from the start values to the digits, and the reals that
  \<open>Strtod\<close> reads as the double the digits were made from.
\<close>

section \<open>From the start values to the digits\<close>

lemma ok_GenerateShortestDigits:
  assumes g: "good_denominator den" and v: "norm num" "norm dm" "norm dp" and J: "J < length buf"
    and ab: "0 < bval dm" "bval dm \<le> bval dp" and an: "bval dm < bval num"
    and n: "bval num < 10 * bval den"
    and low: "bval den \<le> bval num \<or> below_high c (bval num) (bval den) (bval dp) 1 0"
    and high: "\<not> below_high c (bval num) (bval den) (bval dp) 10 0" and fin: "bval den < (bval dm + bval dp) * 10 ^ J"
    and T: "T = (10::real) powi (p - 1)"
    and vr: "of_int (bval num) / of_int (bval den) = vv / T"
    and lo: "of_int (bval num - bval dm) / of_int (bval den) = lo / T"
    and hi: "of_int (bval num + bval dp) / of_int (bval den) = hi / T"
    and Q: "\<And>buf' len. 1 \<le> len \<Longrightarrow> len \<le> Suc J \<Longrightarrow> length buf' = length buf \<Longrightarrow> drop len buf' = drop len buf \<Longrightarrow>
       digits (take len buf') \<Longrightarrow> shortest_decimal c lo vv hi (dec_val (take len buf')) len p \<Longrightarrow> Q (buf', int len)"
  shows "ok (GenerateShortestDigits num den dm dp c buf) Q"
proof -
  have b0: "0 < bval dp" using ab by simp
  have "ok (generate_shortest_from c (bval dm = bval dp) den num dm dp buf (int 0)) (shortest_result c (bval num) (bval den) (bval dm) (bval dp) J buf)"
    by (rule ok_generate_shortest_from[OF g v J ab(1) b0 _ _ _ _ _ _ _ _ fin]) (use n high in simp_all)
  moreover have "Q x" if "shortest_result c (bval num) (bval den) (bval dm) (bval dp) J buf x" for x
  proof -
    obtain buf' len where x: "x = (buf', len)" by (cases x)
    from that obtain j where j: "j \<le> J" "len = int j + 1" "length buf' = length buf" "drop (Suc j) buf' = drop (Suc j) buf"
        "digits (take (Suc j) buf')" "shortest_digits c (bval num) (bval den) (bval dm) (bval dp) (dec_val (take (Suc j) buf')) j"
      unfolding shortest_result_def x by auto
    have "Q (buf', int (Suc j))"
      by (rule Q) (use j shortest_decimalI[OF bd.good_pos[OF g] T vr lo hi j(6) ab(1) b0 an low high] in simp_all)
    then show ?thesis unfolding x j(2) by (simp add: add.commute)
  qed
  ultimately show ?thesis
    unfolding GenerateShortestDigits_def using v by (subst ok_bind) (simp add: wp, erule ok_mono, blast)
qed

text \<open>The value of the significand and the two boundaries.\<close>

definition lo_bound :: "bool \<Rightarrow> int \<Rightarrow> int \<Rightarrow> real" where
  "lo_bound closer f e = (of_int f - (if closer then 1 / 4 else 1 / 2)) * 2 powi e"

definition hi_bound :: "int \<Rightarrow> int \<Rightarrow> real" where
  "hi_bound f e = (of_int f + 1 / 2) * 2 powi e"

lemma good_start:
  assumes "norm den" "bval den = start_factor need closer * down_scale e k" "\<bar>e\<bar> \<le> 1200" "\<bar>k\<bar> \<le> 400"
  shows "good_denominator den"
proof -
  have s: "start_factor need closer = 2 ^ (if need then if closer then 2 else 1 else 0)" by (simp add: start_factor_def)
  have "(10::int) ^ nat k = 5 ^ nat k * 2 ^ nat k" by (simp add: power_mult_distrib[symmetric])
  then have "bval den = 5 ^ nat k * 2 ^ ((if need then if closer then 2 else 1 else 0) + nat k + nat (- e))"
    unfolding assms(2) s down_scale_def power_add by (simp only: mult_ac)
  moreover have "nat k < 643" using assms(4) by simp
  moreover have "10 * bval den < W 127"
    unfolding assms(2) by (rule small_cap[OF small_scales(2)[OF assms(3,4)]])
      (use scales_pos(2)[of e k] in \<open>auto simp: start_factor_def\<close>)
  ultimately show ?thesis unfolding good_denominator_def using assms(1) by blast
qed

lemma ok_shortest_tail:
  assumes f: "0 < uint f" "uint f < 2 ^ 53" and e: "- 1074 \<le> e" "e \<le> 971"
    and J: "J < length buf" "start_factor True closer * uint f + (if closer then 2 else 1) < (if closer then 3 else 2) * 10 ^ J"
    and Q: "\<And>buf' len p. 1 \<le> len \<Longrightarrow> len \<le> Suc J \<Longrightarrow> length buf' = length buf \<Longrightarrow> drop len buf' = drop len buf \<Longrightarrow>
       digits (take len buf') \<Longrightarrow>
       shortest_decimal c (lo_bound closer (uint f) e) (of_int (uint f) * 2 powi e) (hi_bound (uint f) e) (dec_val (take len buf')) len p \<Longrightarrow>
       Q (buf', int len, p)"
  shows "ok (do {
     ne \<leftarrow> NormalizedExponent f e;
     (num, den, dm, dp) \<leftarrow> InitialScaledStartValues f e closer (EstimatePower ne) True Bignum0 Bignum0 Bignum0 Bignum0;
     (p, num, dm, dp) \<leftarrow> FixupMultiply10 (EstimatePower ne) c num den dm dp;
     (buf, len) \<leftarrow> GenerateShortestDigits num den dm dp c buf;
     Some (buf, len, p) }) Q"
proof (subst ok_bind, rule ok_NormalizedExponent[OF f])
  fix j assume j: "j \<le> 52" "2 ^ 52 \<le> uint f * 2 ^ j" "uint f * 2 ^ j < 2 ^ 53"
  define k where "k = EstimatePower (e - int j)"
  define U V s b1 where "U = up_scale e k" and "V = down_scale e k" and "s = start_factor True closer" and "b1 = (if closer then 2 else 1 :: int)"
  note E = estimate_scales[OF f e j, folded k_def, folded U_def V_def]
  have er: "\<bar>e\<bar> \<le> 1200" using e by simp
  have UV: "0 < U" "0 < V" by (simp_all add: U_def V_def scales_pos)
  have s: "2 \<le> s" "b1 < s" "1 \<le> b1" "s \<le> 4" "b1 \<le> 2" "s = 2 * b1" by (simp_all add: s_def b1_def start_factor_def)
  show "ok (do {
     (num, den, dm, dp) \<leftarrow> InitialScaledStartValues f e closer (EstimatePower (e - int j)) True Bignum0 Bignum0 Bignum0 Bignum0;
     (p, num, dm, dp) \<leftarrow> FixupMultiply10 (EstimatePower (e - int j)) c num den dm dp;
     (buf, len) \<leftarrow> GenerateShortestDigits num den dm dp c buf;
     Some (buf, len, p) }) Q"
    unfolding k_def[symmetric]
  proof (subst ok_bind, rule ok_mono[OF ok_InitialScaledStartValues[OF er E(1,2) f(2)]])
    fix x assume "start_values True closer (uint f) e k x"
    then obtain num den dm dp where x: "x = (num, den, dm, dp)" and n: "norm num" "norm den" "norm dm" "norm dp"
      and vals: "bval num = s * uint f * U" "bval den = s * V" "bval dm = U" "bval dp = b1 * U"
      by (cases x) (auto simp: start_values_def U_def V_def s_def b1_def)
    have g: "good_denominator den"
      by (rule good_start[OF n(2) _ er E(1), of True closer]) (simp add: vals(2) V_def s_def)
    have cap: "10 * bval num < W 127" "10 * bval dm < W 127" "10 * bval dp < W 127"
    proof -
      have "small (uint f * U)" "small (1 * U)"
        unfolding U_def by (rule small_scales(1)[OF er E(1)]; use f in simp)+
      then have c: "a * (uint f * U) < W 127" "a * (1 * U) < W 127" if "a \<le> 64" for a
        using small_cap[of "uint f * U" a] small_cap[of "1 * U" a] UV f that by simp_all
      have "10 * s \<le> 64" "10 * b1 \<le> 64" using s by simp_all
      then show "10 * bval num < W 127" "10 * bval dm < W 127" "10 * bval dp < W 127"
        using c(1)[of "10 * s"] c(2)[of 10] c(2)[of "10 * b1"] unfolding vals by (simp_all add: mult.assoc)
    qed
    show "ok (case x of (num, den, dm, dp) \<Rightarrow> do {
         (p, num, dm, dp) \<leftarrow> FixupMultiply10 k c num den dm dp;
         (buf, len) \<leftarrow> GenerateShortestDigits num den dm dp c buf;
         Some (buf, len, p) }) Q"
      unfolding x prod.case
    proof (subst ok_bind, rule ok_FixupMultiply10[OF n cap])
      fix m p n' a' b'
      assume nn: "norm n'" "norm a'" "norm b'"
        and m: "m = (if (if c then bval den \<le> bval num + bval dp else bval den < bval num + bval dp) then 1 else 10)"
        and p: "p = (if m = 1 then k + 1 else k)" and v': "bval n' = m * bval num" "bval a' = m * bval dm" "bval b' = m * bval dp"
      have m0: "0 < m" and m10: "m = 1 \<or> m = 10" by (simp_all add: m)
      have hi0: "s * uint f * U + b1 * U < 10 * (s * V)"
      proof -
        have "s * uint f * U + b1 * U < s * ((uint f + 1) * U)" using s UV by (simp add: algebra_simps)
        also have "\<dots> \<le> s * (10 * V)" by (rule mult_left_mono[OF E(4)]) (use s in simp)
        finally show ?thesis by simp
      qed
      have lo0: "s * V \<le> 10 * (s * uint f * U)"
        using mult_left_mono[OF E(3), of s] s by (simp add: mult_ac)
      have fJ: "s * uint f * U + b1 * U < (U + b1 * U) * 10 ^ J"
      proof -
        have "s * uint f + b1 < (1 + b1) * 10 ^ J" using J(2) by (simp add: s_def b1_def start_factor_def split: if_splits)
        then have "(s * uint f + b1) * U < (1 + b1) * 10 ^ J * U" using UV by simp
        then show ?thesis by (simp add: algebra_simps)
      qed
      have case1: "below_high c (bval n') (bval den) (bval b') 1 0" if "m = 1"
        using that m unfolding v' by (simp add: below_high_def split: if_splits)
      have case10: "\<not> below_high c (bval n') (bval den) (bval b') 10 0" "bval n' + bval b' \<le> 10 * bval den" "bval den \<le> bval n'" if "m = 10"
      proof -
        have "\<not> (if c then bval den \<le> bval num + bval dp else bval den < bval num + bval dp)" using that m by (auto split: if_splits)
        then show "\<not> below_high c (bval n') (bval den) (bval b') 10 0" "bval n' + bval b' \<le> 10 * bval den"
          unfolding v' that below_high_def by (auto split: if_splits)
        show "bval den \<le> bval n'" using lo0 unfolding v' that vals by simp
      qed
      have den_le: "bval den \<le> bval n' + bval b'"
      proof (cases "m = 1")
        case True
        then show ?thesis using case1 by (auto simp: below_high_def split: if_splits)
      next
        case False
        have "0 \<le> bval b'" by simp
        then show ?thesis using case10(3) False m10 by linarith
      qed
      have sum_less: "bval n' + bval b' < (bval a' + bval b') * 10 ^ J"
        using mult_strict_left_mono[OF fJ m0] unfolding v' vals by (simp add: algebra_simps)
      have T: "(10::real) powi (p - 1) = 10 powi k / of_int m" using m10 by (auto simp: p power_int_diff power_int_add)
      have tk: "(0::real) < 10 powi k" by (simp add: zero_less_power_int)
      have scaled: "of_int (m * (x * U)) / of_int (s * V) = of_int x / of_int s * 2 powi e / (10 powi (p - 1) :: real)" for x
      proof -
        have "of_int (m * (x * U)) / of_int (s * V) = of_int m * (of_int x / of_int s) * (real_of_int U / of_int V)" by simp
        also have "real_of_int U / of_int V = 2 powi e / 10 powi k" unfolding U_def V_def by (rule scales_real)
        finally show ?thesis unfolding T using m0 tk by simp
      qed
      show "ok (case (p, n', a', b') of (p, num, dm, dp) \<Rightarrow> do {
           (buf, len) \<leftarrow> GenerateShortestDigits num den dm dp c buf;
           Some (buf, len, p) }) Q"
        unfolding prod.case
      proof (subst ok_bind, rule ok_GenerateShortestDigits[OF g nn J(1) _ _ _ _ _ _ _ refl,
            where vv = "of_int (uint f) * 2 powi e" and lo = "lo_bound closer (uint f) e" and hi = "hi_bound (uint f) e" and p = p])
        have sr: "0 < real_of_int s" using s by simp
        have eqs: "bval n' = m * (s * uint f * U)" "bval n' - bval a' = m * ((s * uint f - 1) * U)" "bval n' + bval b' = m * ((s * uint f + b1) * U)"
          unfolding v' vals by (simp_all add: algebra_simps)
        have q: "real_of_int (s * uint f) / of_int s = of_int (uint f)"
            "real_of_int (s * uint f - 1) / of_int s = of_int (uint f) - (if closer then 1 / 4 else 1 / 2)"
            "real_of_int (s * uint f + b1) / of_int s = of_int (uint f) + 1 / 2"
          by (simp_all add: s_def b1_def start_factor_def add_divide_distrib diff_divide_distrib)
        show "real_of_int (bval n') / of_int (bval den) = of_int (uint f) * 2 powi e / 10 powi (p - 1)"
          unfolding eqs(1) vals(2) scaled q ..
        show "real_of_int (bval n' - bval a') / of_int (bval den) = lo_bound closer (uint f) e / 10 powi (p - 1)"
          unfolding eqs(2) vals(2) scaled q lo_bound_def ..
        show "real_of_int (bval n' + bval b') / of_int (bval den) = hi_bound (uint f) e / 10 powi (p - 1)"
          unfolding eqs(3) vals(2) scaled q hi_bound_def ..
        show "0 < bval a'" "bval a' \<le> bval b'" unfolding v' vals using m0 UV s by simp_all
        show "bval a' < bval n'"
        proof -
          have "2 * 1 \<le> s * uint f" by (rule mult_mono) (use s f in simp_all)
          then have "1 * U < s * uint f * U" by (intro mult_strict_right_mono) (use UV in simp_all)
          then show ?thesis unfolding v' vals using m0 by simp
        qed
        show "bval n' < 10 * bval den"
        proof -
          have "0 < bval b'" unfolding v' vals using m0 UV s by simp
          moreover have "bval n' + bval b' \<le> 10 * bval den"
            using m10 case10(2) hi0 unfolding v' vals by auto
          ultimately show ?thesis by linarith
        qed
        show "bval den \<le> bval n' \<or> below_high c (bval n') (bval den) (bval b') 1 0" using m10 case1 case10(3) by blast
        show "\<not> below_high c (bval n') (bval den) (bval b') 10 0"
          using m10 case10(1) hi0 by (auto simp: below_high_def v' vals)
        show "bval den < (bval a' + bval b') * 10 ^ J" using den_le sum_less by linarith
      qed (use Q in simp)
    qed
  qed
qed

section \<open>Reading back\<close>

lemma near_between:
  assumes v: "finite_double v" "0 < uint v"
  shows "near (units_of w) (uint v) = between (even (uint (DoubleSignificand v)))
    (lo_bound (DoubleLowerBoundaryIsCloser v) (uint (DoubleSignificand v)) (DoubleExponent v))
    (hi_bound (uint (DoubleSignificand v)) (DoubleExponent v)) w"
proof -
  define f e k where "f = uint (DoubleSignificand v)" and "e = DoubleExponent v" and "k = nat (e + 1074)"
  note F = finite_double_fields[OF v(1), folded f_def e_def]
  have fin: "uint v < INFTY" using v(1) by (simp add: finite_double_def)
  have u: "mid (uint v) = of_int ((2 * f + 1) * 2 ^ k)"
    using dbl.upper_midpoint[OF v(1)] by (simp add: mid_def f_def e_def k_def)
  have l: "mid (uint v - 1) = (2 * of_int f - (if DoubleLowerBoundaryIsCloser v then 1 / 2 else 1)) * 2 ^ k"
  proof -
    have L: "if DoubleLowerBoundaryIsCloser v then (4 * f - 1) * 2 ^ k = 2 * (fmt_units 52 (uint v - 1) + fmt_units 52 (uint v))
        else (2 * f - 1) * 2 ^ k = fmt_units 52 (uint v - 1) + fmt_units 52 (uint v)"
      using dbl.lower_midpoint[OF v] by (simp only: DoubleLowerBoundary_finite[OF v(1)] f_def e_def k_def diff_minus_eq_add)
    show ?thesis
    proof (cases "DoubleLowerBoundaryIsCloser v")
      case True
      then have "2 * mid (uint v - 1) = of_int ((4 * f - 1) * 2 ^ k)" using L by (simp add: mid_def)
      then show ?thesis using True by (simp add: algebra_simps)
    next
      case False
      then have "mid (uint v - 1) = of_int ((2 * f - 1) * 2 ^ k)" using L by (simp add: mid_def)
      then show ?thesis using False by simp
    qed
  qed
  have ev: "even (uint v) = even f"
  proof -
    have "uint v = f + int (fmt_shift 52 (uint v)) * 2 ^ 52"
      using fmt_decode(1)[of "uint v" 52] by (simp add: f_def Double_fields finite_double_mag[OF v(1)])
    moreover have "even ((2::int) ^ 52)" by simp
    ultimately show ?thesis by (metis even_add even_mult_iff)
  qed
  define P where "P = (2::real) ^ 1074"
  have P: "2 powi e * P = 2 ^ k" "0 < P"
  proof -
    have "(2::real) powi e * 2 powi (int 1074) = 2 powi (e + int 1074)" by (subst power_int_add) simp_all
    then show "2 powi e * P = 2 ^ k" using F(4) unfolding P_def k_def power_int_of_nat by (simp add: power_int_def)
    show "0 < P" unfolding P_def by (rule zero_less_power) simp
  qed
  have U: "units_of w = w * P" unfolding units_of_def P_def ..
  have lo: "mid (uint v - 1) = 2 * (lo_bound (DoubleLowerBoundaryIsCloser v) f e * P)"
    unfolding l lo_bound_def mult.assoc P(1) by (auto simp: algebra_simps)
  have hi: "mid (uint v) = 2 * (hi_bound f e * P)"
    unfolding u hi_bound_def mult.assoc P(1) by (simp add: algebra_simps)
  have c: "(x * P < y * P) = (x < y)" "(x * P = y * P) = (x = y)" for x y using P(2) by simp_all
  have "near (units_of w) (uint v) = ((w < hi_bound f e \<or> w = hi_bound f e \<and> even f) \<and>
      (lo_bound (DoubleLowerBoundaryIsCloser v) f e < w \<or> w = lo_bound (DoubleLowerBoundaryIsCloser v) f e \<and> even f))"
    unfolding near_def lo hi U ev using fin v(2) c by simp
  then show ?thesis unfolding between_def f_def e_def by auto
qed

lemma reads_back_iff:
  assumes v: "finite_double v" "0 < uint v" and m: "0 \<le> m"
  shows "(decimal_double m q = v) = between (even (uint (DoubleSignificand v)))
    (lo_bound (DoubleLowerBoundaryIsCloser v) (uint (DoubleSignificand v)) (DoubleExponent v))
    (hi_bound (uint (DoubleSignificand v)) (DoubleExponent v)) (of_int m * 10 powi q)"
  unfolding near_between[OF v, symmetric]
  using near_decimal_double[OF m, of q v] decimal_double_near[OF m, of q] by blast

section \<open>The shortest mode\<close>

lemma even_word: "(w AND 1 = (0 :: 'a::len word)) = even (uint w)"
proof -
  have "uint (w AND 1) = uint w mod 2"
    using uint_and_mask[of w 1] by (simp add: mask_eq_decr_exp)
  then show ?thesis unfolding zero_word_iff by (simp add: even_iff_mod_2_eq_zero)
qed

definition double_shortest :: "double \<Rightarrow> u8 list \<Rightarrow> int \<Rightarrow> bool" where
  "double_shortest v cs p \<longleftrightarrow> digits cs \<and> shortest_decimal (even (uint (DoubleSignificand v)))
     (lo_bound (DoubleLowerBoundaryIsCloser v) (uint (DoubleSignificand v)) (DoubleExponent v))
     (of_int (uint (DoubleSignificand v)) * 2 powi DoubleExponent v)
     (hi_bound (uint (DoubleSignificand v)) (DoubleExponent v)) (dec_val cs) (length cs) p"

lemma ok_BignumDtoa_shortest:
  assumes v: "finite_double v" "0 < uint v" and buf: "18 \<le> length buf"
    and Q: "\<And>buf' len p. 1 \<le> len \<Longrightarrow> len \<le> 17 \<Longrightarrow> length buf' = length buf \<Longrightarrow> buf' ! len = 0 \<Longrightarrow>
       drop (Suc len) buf' = drop (Suc len) buf \<Longrightarrow> double_shortest v (take len buf') p \<Longrightarrow> Q (buf', int len, p)"
  shows "ok (BignumDtoa v BIGNUM_DTOA_SHORTEST req buf) Q"
proof -
  note F = finite_double_fields[OF v(1)]
  have pos: "double_less 0 v" using v by (simp add: double_less_0_finite)
  have f0: "0 < uint (DoubleSignificand v)" using DoubleSignificand_pos[OF v] by simp
  note closer = closer_significand[OF v(1)]
  have J: "start_factor True (DoubleLowerBoundaryIsCloser v) * uint (DoubleSignificand v) + (if DoubleLowerBoundaryIsCloser v then 2 else 1) <
      (if DoubleLowerBoundaryIsCloser v then 3 else 2) * 10 ^ 16"
    using F(3) closer by (auto simp: start_factor_def)
  have k: "(324 * 4 \<le> kMaxSignificantBits) = True" by (simp add: kMaxSignificantBits_def)
  have tail: "ok (do {
     ne \<leftarrow> NormalizedExponent (DoubleSignificand v) (DoubleExponent v);
     (num, den, dm, dp) \<leftarrow> InitialScaledStartValues (DoubleSignificand v) (DoubleExponent v) (DoubleLowerBoundaryIsCloser v) (EstimatePower ne) True Bignum0 Bignum0 Bignum0 Bignum0;
     (p, num, dm, dp) \<leftarrow> FixupMultiply10 (EstimatePower ne) (DoubleSignificand v AND 1 = 0) num den dm dp;
     (buf, len) \<leftarrow> GenerateShortestDigits num den dm dp (DoubleSignificand v AND 1 = 0) buf;
     Some (buf, len, p) }) (\<lambda>(buf, len, p). ok (do { buf \<leftarrow> wr buf len 0; Some (buf, len, p) }) Q)"
  proof (rule ok_shortest_tail[OF f0 F(3-5) _ J])
    show "16 < length buf" using buf by simp
  next
    fix buf' len p
    assume r: "1 \<le> len" "len \<le> Suc 16" "length buf' = length buf" "drop len buf' = drop len buf" "digits (take len buf')"
      "shortest_decimal (DoubleSignificand v AND 1 = 0) (lo_bound (DoubleLowerBoundaryIsCloser v) (uint (DoubleSignificand v)) (DoubleExponent v))
        (of_int (uint (DoubleSignificand v)) * 2 powi DoubleExponent v) (hi_bound (uint (DoubleSignificand v)) (DoubleExponent v)) (dec_val (take len buf')) len p"
    have len: "len < length buf'" using r buf by simp
    then have t: "take len (buf'[len := 0]) = take len buf'" "length (take len buf') = len" by simp_all
    have "drop (Suc len) buf' = drop (Suc len) buf" using arg_cong[OF r(4), of "drop 1"] by simp
    then have "Q (buf'[len := 0], int len, p)"
      by (intro Q) (use r len t in \<open>simp_all add: double_shortest_def even_word\<close>)
    then show "case (buf', int len, p) of (buf, len, p) \<Rightarrow> ok (do { buf \<leftarrow> wr buf len 0; Some (buf, len, p) }) Q"
      using len by (simp add: wp)
  qed
  have m: "BignumDtoa v BIGNUM_DTOA_SHORTEST req buf = Option.bind (do {
     ne \<leftarrow> NormalizedExponent (DoubleSignificand v) (DoubleExponent v);
     (num, den, dm, dp) \<leftarrow> InitialScaledStartValues (DoubleSignificand v) (DoubleExponent v) (DoubleLowerBoundaryIsCloser v) (EstimatePower ne) True Bignum0 Bignum0 Bignum0 Bignum0;
     (p, num, dm, dp) \<leftarrow> FixupMultiply10 (EstimatePower ne) (DoubleSignificand v AND 1 = 0) num den dm dp;
     (buf, len) \<leftarrow> GenerateShortestDigits num den dm dp (DoubleSignificand v AND 1 = 0) buf;
     Some (buf, len, p) }) (\<lambda>(buf, len, p). do { buf \<leftarrow> wr buf len 0; Some (buf, len, p) })"
    unfolding BignumDtoa_def using pos F(2) k by (simp add: ensure_def Let_def split_def bind_assoc)
  show ?thesis unfolding m by (subst ok_bind, rule ok_mono[OF tail]) (simp add: split_def)
qed

end
