(* ===== verification/Dtoa_Counted.thy ===== *)
theory Dtoa_Counted
  imports Dtoa_Bignum
begin

text \<open>
  \<open>BignumDtoa\<close> with a given number of digits or of places: the digits stand for the value rounded
  at that place, the half upwards, with the carry propagated.
\<close>

section \<open>The carry\<close>

text \<open>All digits are in range but the last, which may be ten.\<close>

definition tens :: "u8 list \<Rightarrow> int \<Rightarrow> bool" where
  "tens cs m \<longleftrightarrow> (\<forall>c\<in>set cs. 0 \<le> digit_of c \<and> digit_of c \<le> m)"

lemma digit_of_10: "(c = ch CHR ''0'' + 10) = (digit_of c = 10)"
  by (simp add: digit_of_def ch_def word_uint_eq_iff)

lemma digit_of_inc: "0 \<le> digit_of c \<Longrightarrow> digit_of c \<le> 9 \<Longrightarrow> digit_of (c + 1) = digit_of c + 1"
  by (simp add: digit_of_def) (subst uint_add_exact, simp_all)

lemma digit_of_0 [simp]: "digit_of (ch CHR ''0'') = 0" "digit_of (ch CHR ''1'') = 1"
  by (simp_all add: digit_of_def ch_def)

lemma dec_val_Cons: "dec_val (c # cs) = digit_of c * 10 ^ length cs + dec_val cs"
  using dec_val_append[of "[c]" cs] dec_val_snoc[of "[]" c] by simp

lemma ok_propagate_carry:
  assumes i: "i < length buf" and d: "digits (take i buf)" and last: "0 \<le> digit_of (buf ! i)" "digit_of (buf ! i) \<le> 10"
    and Q: "\<And>buf'. length buf' = length buf \<Longrightarrow> drop (Suc i) buf' = drop (Suc i) buf \<Longrightarrow>
      dec_val (take (Suc i) buf') = dec_val (take (Suc i) buf) \<Longrightarrow> 0 \<le> digit_of (buf' ! 0) \<Longrightarrow> digit_of (buf' ! 0) \<le> 10 \<Longrightarrow>
      digits (drop 1 (take (Suc i) buf')) \<Longrightarrow> Q buf'"
  shows "ok (propagate_carry buf (int i)) Q"
  using i d last Q
proof (induction i arbitrary: buf Q)
  case 0
  have "ok (propagate_carry buf 0) Q"
    apply (subst propagate_carry.simps)
    apply (simp only: less_irrefl if_False ok_Some)
    by (rule "0.prems"(5)) (use "0.prems" in \<open>auto simp: take_Suc_conv_app_nth\<close>)
  then show ?case by simp
next
  case (Suc i)
  note i = Suc.prems(1) and d = Suc.prems(2) and last = Suc.prems(3,4) and Q = Suc.prems(5)
  have t: "take (Suc i) buf = take i buf @ [buf ! i]" "take (Suc (Suc i)) buf = take (Suc i) buf @ [buf ! Suc i]"
    using i by (simp_all add: take_Suc_conv_app_nth)
  have di: "digits (take i buf)" "0 \<le> digit_of (buf ! i)" "digit_of (buf ! i) \<le> 9" using d unfolding t(1) by auto
  have rd1: "rd buf (int (Suc i)) = Some (buf ! Suc i)" using i by (simp add: rd_def del: of_nat_Suc)
  have pos: "0 < int (Suc i)" by simp
  show ?case
  proof (cases "digit_of (buf ! Suc i) = 10")
    case False
    then have ne: "buf ! Suc i \<noteq> ch CHR ''0'' + 10" by (simp add: digit_of_10)
    have dd: "digits (take (Suc (Suc i)) buf)" unfolding t(2) using d last False by simp
    have "digits (drop 1 (take (Suc (Suc i)) buf))" by (rule digits_drop[OF dd])
    moreover have "0 \<le> digit_of (buf ! 0)" "digit_of (buf ! 0) \<le> 9" using digits_nth[OF dd, of 0] i by simp_all
    ultimately have "Q buf" by (intro Q) simp_all
    then show ?thesis by (subst propagate_carry.simps) (simp only: pos if_True rd1 bind.simps ne not_False_eq_True ok_Some)
  next
    case True
    then have e: "buf ! Suc i = ch CHR ''0'' + 10" by (simp add: digit_of_10)
    define buf1 where "buf1 = buf[Suc i := ch CHR ''0'']"
    define buf2 where "buf2 = buf1[i := buf ! i + 1]"
    have w: "wr buf (int (Suc i)) (ch CHR ''0'') = Some buf1" using i by (simp add: wr_def buf1_def del: of_nat_Suc)
    have inc: "inc_char buf1 (int (Suc i) - 1) = Some buf2" using i by (simp add: inc_char_def rd_def wr_def buf1_def buf2_def)
    have l2: "length buf2 = length buf" by (simp add: buf1_def buf2_def)
    have b2: "buf2 ! i = buf ! i + 1" "take i buf2 = take i buf" "buf2 ! Suc i = ch CHR ''0''" using i by (simp_all add: buf1_def buf2_def)
    have t2: "take (Suc i) buf2 = take i buf @ [buf ! i + 1]" "take (Suc (Suc i)) buf2 = take (Suc i) buf2 @ [ch CHR ''0'']"
      using i b2 l2 by (simp_all add: take_Suc_conv_app_nth)
    note inc9 = digit_of_inc[OF di(2,3)]
    have val: "dec_val (take (Suc (Suc i)) buf2) = dec_val (take (Suc (Suc i)) buf)"
      unfolding t2 t dec_val_snoc True inc9 by simp
    have "ok (propagate_carry buf2 (int i)) Q"
    proof (rule Suc.IH)
      show "i < length buf2" using i l2 by simp
      show "digits (take i buf2)" using di b2 by simp
      show "0 \<le> digit_of (buf2 ! i)" "digit_of (buf2 ! i) \<le> 10" unfolding b2 inc9 using di by simp_all
      fix buf' assume r: "length buf' = length buf2" "drop (Suc i) buf' = drop (Suc i) buf2"
        "dec_val (take (Suc i) buf') = dec_val (take (Suc i) buf2)" "0 \<le> digit_of (buf' ! 0)" "digit_of (buf' ! 0) \<le> 10"
        "digits (drop 1 (take (Suc i) buf'))"
      have l: "Suc i < length buf'" using r l2 i by simp
      have n: "buf' ! Suc i = ch CHR ''0''" using arg_cong[OF r(2), of "\<lambda>xs. xs ! 0"] l r(1) b2 by simp
      have t': "take (Suc (Suc i)) buf' = take (Suc i) buf' @ [ch CHR ''0'']" using l n by (simp add: take_Suc_conv_app_nth)
      show "Q buf'"
      proof (rule Q)
        show "drop (Suc (Suc i)) buf' = drop (Suc (Suc i)) buf"
          using arg_cong[OF r(2), of "drop 1"] by (simp add: buf1_def buf2_def)
        show "dec_val (take (Suc (Suc i)) buf') = dec_val (take (Suc (Suc i)) buf)"
          unfolding val[symmetric] t' t2(2) dec_val_snoc r(3) ..
        have "length (take (Suc i) buf') = Suc i" using l by simp
        then show "digits (drop 1 (take (Suc (Suc i)) buf'))" unfolding t' using r(6) by simp
      qed (use r l2 in simp_all)
    qed
    moreover have "propagate_carry buf (int (Suc i)) = propagate_carry buf2 (int i)"
      apply (subst propagate_carry.simps)
      by (simp only: pos if_True rd1 bind.simps e not_True_eq_False if_False w inc simp_thms) simp
    ultimately show ?thesis by simp
  qed
qed

section \<open>A given number of digits\<close>

text \<open>\<open>x\<close> rounded to the nearest integer, the half upwards.\<close>

definition half_up :: "real \<Rightarrow> int" where
  "half_up x = \<lfloor>x + 1 / 2\<rfloor>"

lemma half_up_frac:
  assumes "n * P = (q :: int) * d + r" "0 \<le> r" "r < d"
  shows "half_up (of_int n / of_int d * of_int P) = (if d \<le> 2 * r then q + 1 else q)"
proof -
  have d: "0 < real_of_int d" using assms by simp
  have e: "of_int n / of_int d * of_int P = of_int q + of_int r / real_of_int d"
  proof -
    have "of_int n / of_int d * of_int P = of_int (n * P) / real_of_int d" by simp
    then show ?thesis unfolding assms(1) using d by (simp add: add_divide_distrib)
  qed
  show ?thesis
  proof (cases "d \<le> 2 * r")
    case True
    then have "real_of_int d \<le> of_int (2 * r)" "real_of_int r < of_int d" using assms by (simp_all only: of_int_le_iff of_int_less_iff)
    then have "1 / 2 \<le> of_int r / real_of_int d" "of_int r / real_of_int d < 1" using d by (simp_all add: field_simps)
    then have "\<lfloor>of_int r / real_of_int d + 1 / 2\<rfloor> = 1" by (intro floor_unique; simp only: of_int_1; linarith)
    then show ?thesis unfolding half_up_def e using True by (simp add: add.assoc)
  next
    case False
    then have "real_of_int (2 * r) < of_int d" "0 \<le> real_of_int r" using assms by (simp_all only: of_int_less_iff of_int_0_le_iff not_le)
    then have "of_int r / real_of_int d < 1 / 2" "0 \<le> of_int r / real_of_int d" using d by (simp_all add: field_simps)
    then have "\<lfloor>of_int r / real_of_int d + 1 / 2\<rfloor> = 0" by (intro floor_unique; simp only: of_int_0; linarith)
    then show ?thesis unfolding half_up_def e using False by (simp add: add.assoc)
  qed
qed

text \<open>The digits of \<open>n / d\<close> after \<open>count\<close> places; a carry out of the first digit moves the point.\<close>

definition counted_result :: "int \<Rightarrow> int \<Rightarrow> nat \<Rightarrow> int \<Rightarrow> u8 list \<Rightarrow> u8 list \<times> int \<times> int \<Rightarrow> bool" where
  "counted_result n d m point buf = (\<lambda>(buf', len, point'). len = int m \<and> length buf' = length buf \<and> drop m buf' = drop m buf \<and>
     digits (take m buf') \<and>
     (let M = half_up (of_int n / of_int d * 10 ^ (m - 1)) in
      point' = point \<and> dec_val (take m buf') = M \<or> point' = point + 1 \<and> M = 10 ^ m \<and> dec_val (take m buf') = 10 ^ (m - 1)))"

lemma ok_GenerateCountedDigits:
  assumes g: "good_denominator den" and v: "norm num" and n: "bval num < 10 * bval den" and cap: "10 * bval den < W 127"
    and m: "1 \<le> m" "m \<le> length buf"
  shows "ok (GenerateCountedDigits (int m) point num den buf) (counted_result (bval num) (bval den) m point buf)"
proof -
  have nd: "norm den" using g by (simp add: good_denominator_def)
  note d0 = bd.good_pos[OF g]
  define i where "i = m - 1"
  have mi: "m = Suc i" "int m - 1 = int i" "i < length buf" using m by (simp_all add: i_def)
  show ?thesis
    unfolding GenerateCountedDigits_def mi(2)
    apply (subst ok_bind, subst ok_ensure, rule conjI, simp)
  proof (subst ok_bind, rule ok_mono[OF bd.ok_digit_loop[OF g v, of "int i" buf]], goal_cases)
    case (5 x)
    obtain s buf1 where x: "x = (s, buf1)" by (cases x)
    have e: "norm s" "length buf1 = length buf" "drop i buf1 = drop i buf" "digits (take i buf1)"
        "at_step (bval num) (bval den) (dec_val (take i buf1)) i (bval s)" using 5 unfolding x bd.emitted_def by simp_all
    have i1: "i < length buf1" using mi e by simp
    show ?case unfolding x prod.case
    proof (subst ok_bind, rule bd.ok_divmod[OF g e(1) e(5)])
      fix q :: u16 and r assume q: "uint q \<le> 9" and r: "norm r" "0 \<le> bval r" "bval r < bval den"
        and eq: "bval num * 10 ^ i = (10 * dec_val (take i buf1) + uint q) * bval den + bval r"
      define q' where "q' = (if bval den \<le> 2 * bval r then q + 1 else q)"
      have q1: "uint (q + 1) = uint q + 1" by (subst uint_add_exact) (use q in simp_all)
      have uq: "uint q' = (if bval den \<le> 2 * bval r then uint q + 1 else uint q)" by (simp add: q'_def q1)
      have q10: "uint q' \<le> 10" using uq q by (auto split: if_splits)
      have le10: "q' \<le> 10" using q10 by (simp add: word_le_def)
      have dq: "digit_of (digit_char q') = uint q'"
      proof -
        have "uint (q' + 48) = uint q' + 48" by (subst uint_add_exact) (use q10 in simp_all)
        then show ?thesis using q10 by (simp add: digit_char_def digit_of_def ch_def unsigned_ucast_eq take_bit_eq_mod)
      qed
      define buf2 where "buf2 = buf1[i := digit_char q']"
      have w: "wr buf1 (int i) (digit_char q') = Some buf2" using i1 by (simp add: wr_def buf2_def)
      have t2: "take (Suc i) buf2 = take i buf1 @ [digit_char q']" unfolding buf2_def by (rule take_write[OF i1])
      have M: "half_up (of_int (bval num) / of_int (bval den) * 10 ^ i) = dec_val (take (Suc i) buf2)" (is "?M = _")
      proof -
        have "half_up (of_int (bval num) / of_int (bval den) * of_int (10 ^ i)) =
            (if bval den \<le> 2 * bval r then 10 * dec_val (take i buf1) + uint q + 1 else 10 * dec_val (take i buf1) + uint q)"
          by (rule half_up_frac[OF eq r(2,3)])
        then show ?thesis unfolding t2 dec_val_snoc dq uq by simp
      qed
      have M10: "?M \<le> 10 ^ m"
      proof -
        have "(10 * dec_val (take i buf1) + uint q) * bval den \<le> bval num * 10 ^ i" using eq r(2) by simp
        also have "\<dots> < 10 * bval den * 10 ^ i" by (rule mult_strict_right_mono[OF n]) simp
        finally have "(10 * dec_val (take i buf1) + uint q) * bval den < 10 ^ Suc i * bval den" by (simp add: mult_ac)
        then have "10 * dec_val (take i buf1) + uint q < 10 ^ Suc i" using d0 by simp
        then show ?thesis unfolding M t2 dec_val_snoc dq uq mi(1) by simp
      qed
      have sg: "(if 0 \<le> sgn (bval r + bval r - bval den) then q + 1 else q) = q'" by (auto simp: q'_def sgn_if)
      have en: "ensure (q' \<le> 10) = Some ()" using le10 by (simp add: ensure_def)
      show "ok (case (q, r) of (dg, numerator) \<Rightarrow> do {
           c \<leftarrow> PlusCompare numerator numerator den;
           let dg = (if 0 \<le> c then dg + 1 else dg);
           ensure (dg \<le> 10);
           buffer \<leftarrow> wr buf1 (int i) (digit_char dg);
           buffer \<leftarrow> propagate_carry buffer (int i);
           first \<leftarrow> rd buffer 0;
           if first = ch CHR ''0'' + 10 then do {
             buffer \<leftarrow> wr buffer 0 (ch CHR ''1'');
             Some (buffer, int m, point + 1) }
           else Some (buffer, int m, point) }) (counted_result (bval num) (bval den) m point buf)"
        unfolding prod.case Let_def
        apply (subst ok_bind, subst ok_PlusCompare[OF r(1) r(1) nd])
        apply (simp only: sg en w bind.simps)
      proof (subst ok_bind, rule ok_propagate_carry)
        show "i < length buf2" using i1 by (simp add: buf2_def)
        show "digits (take i buf2)" using e(4) by (simp add: buf2_def)
        show "0 \<le> digit_of (buf2 ! i)" "digit_of (buf2 ! i) \<le> 10" using i1 dq q10 by (simp_all add: buf2_def)
        fix buf' assume b: "length buf' = length buf2" "drop (Suc i) buf' = drop (Suc i) buf2"
          "dec_val (take (Suc i) buf') = dec_val (take (Suc i) buf2)" "0 \<le> digit_of (buf' ! 0)" "digit_of (buf' ! 0) \<le> 10"
          "digits (drop 1 (take (Suc i) buf'))"
        have l: "length buf' = length buf" using b e by (simp add: buf2_def)
        have l0: "0 < length buf'" using l mi(3) by linarith
        have dr: "drop m buf' = drop m buf"
          using b(2) arg_cong[OF e(3), of "drop 1"] by (simp add: buf2_def mi(1))
        have hd: "take (Suc i) buf' = buf' ! 0 # drop 1 (take (Suc i) buf')" using l0 by (cases buf') simp_all
        have len: "length (drop 1 (take (Suc i) buf')) = i" using l mi by simp
        have val: "dec_val (take m buf') = digit_of (buf' ! 0) * 10 ^ i + dec_val (drop 1 (take (Suc i) buf'))"
          unfolding mi(1) using arg_cong[OF hd, of dec_val] len by (simp add: dec_val_Cons)
        have rest: "0 \<le> dec_val (drop 1 (take (Suc i) buf'))" using dec_val_bounds[OF b(6)] by simp
        have Mv: "?M = dec_val (take m buf')" unfolding M mi(1) b(3) ..
        have rd0: "rd buf' 0 = Some (buf' ! 0)" "wr buf' 0 (ch CHR ''1'') = Some (buf'[0 := ch CHR ''1''])" using l0 by (simp_all add: rd_def wr_def)
        show "ok (do {
             first \<leftarrow> rd buf' 0;
             if first = ch CHR ''0'' + 10 then do {
               buffer \<leftarrow> wr buf' 0 (ch CHR ''1'');
               Some (buffer, int m, point + 1) }
             else Some (buf', int m, point) }) (counted_result (bval num) (bval den) m point buf)"
          unfolding rd0 bind.simps digit_of_10
        proof (subst ok_if, intro conjI impI)
          assume ten: "digit_of (buf' ! 0) = 10"
          have z: "dec_val (drop 1 (take (Suc i) buf')) = 0" "?M = 10 ^ m"
            using rest M10 val ten unfolding Mv mi(1) by simp_all
          have tk: "take m (buf'[0 := ch CHR ''1'']) = ch CHR ''1'' # drop 1 (take (Suc i) buf')"
            using l0 by (cases buf') (simp_all add: mi(1))
          have "dec_val (take m (buf'[0 := ch CHR ''1''])) = 10 ^ i" "digits (take m (buf'[0 := ch CHR ''1'']))"
            unfolding tk using z(1) len b(6) by (simp_all add: dec_val_Cons)
          then show "ok (Some (buf'[0 := ch CHR ''1''], int m, point + 1)) (counted_result (bval num) (bval den) m point buf)"
            unfolding ok_Some counted_result_def using l dr z(2) m by (simp add: i_def)
        next
          assume n10: "digit_of (buf' ! 0) \<noteq> 10"
          have "digits (take m buf')" unfolding mi(1) by (subst hd) (use b n10 in simp)
          then show "ok (Some (buf', int m, point)) (counted_result (bval num) (bval den) m point buf)"
            unfolding ok_Some counted_result_def using l dr Mv by (simp add: i_def)
        qed
      qed
    qed
  qed (use m mi v n in auto)
qed

section \<open>Start values without boundaries\<close>

text \<open>No double with an odd significand is a power of ten at the estimated scale.\<close>

lemma odd_not_power:
  assumes f: "odd f" "0 < f" "f < 2 ^ 53" and e: "e < 0 \<or> 2 ^ 52 \<le> f"
  shows "f * up_scale e k \<noteq> down_scale e k"
proof
  assume eq: "f * up_scale e k = down_scale e k"
  show False
  proof (cases "k < 0")
    case True
    then obtain n where n: "nat (- k) = Suc n" using zero_less_imp_eq_int[of "- k"] by (cases "nat (- k)") auto
    have "5 dvd f * up_scale e k" unfolding up_scale_def n by (simp add: dvd_mult)
    then have "(5 :: int) dvd 2 ^ nat (- e)" unfolding eq using True by (simp add: down_scale_def)
    moreover have "coprime (5 :: int) (2 ^ nat (- e))" by simp
    ultimately have "is_unit (5 :: int)" by (metis coprime_common_divisor dvd_refl)
    then show False by simp
  next
    case False
    define a b where "a = nat e" and "b = nat k + nat (- e)"
    have ten: "(10::int) ^ nat k = 5 ^ nat k * 2 ^ nat k" by (simp add: power_mult_distrib[symmetric])
    have eq2: "f * 2 ^ a = 5 ^ nat k * 2 ^ b"
      using eq False by (simp add: up_scale_def down_scale_def a_def b_def ten power_add)
    have ab: "a = b"
    proof (rule linorder_cases[of a b])
      assume "a < b"
      then have "2 ^ b = (2::int) ^ (b - a) * 2 ^ a" by (simp only: power_add[symmetric]) simp
      then have "f = 5 ^ nat k * 2 ^ (b - a)" using eq2 by simp
      then show ?thesis using f(1) \<open>a < b\<close> by simp
    next
      assume "b < a"
      then have "2 ^ a = (2::int) ^ (a - b) * 2 ^ b" by (simp only: power_add[symmetric]) simp
      then have "f * 2 ^ (a - b) = 5 ^ nat k" using eq2 by simp
      moreover have "even (f * 2 ^ (a - b))" using \<open>b < a\<close> by simp
      ultimately have "even ((5::int) ^ nat k)" by (simp only:)
      then show ?thesis by simp
    qed
    then have fe: "f = 5 ^ nat k" using eq2 by simp
    have "0 \<le> e"
    proof (rule ccontr)
      assume "\<not> 0 \<le> e"
      then show False using ab False by (simp add: a_def b_def)
    qed
    then have big: "2 ^ 52 \<le> (5::int) ^ nat k" using e fe by simp
    show False
    proof (cases "nat k \<le> 22")
      case True
      then have "(5::int) ^ nat k \<le> 5 ^ 22" by (intro power_increasing) simp_all
      then show False using big by simp
    next
      case False
      then have "(5::int) ^ 23 \<le> 5 ^ nat k" by (intro power_increasing) simp_all
      then show False using f(3) fe by simp
    qed
  qed
qed

lemma ok_plain_start:
  assumes f: "0 < uint f" "uint f < 2 ^ 53" and e: "\<bar>e\<bar> \<le> 1200" "e < 0 \<or> 2 ^ 52 \<le> uint f"
    and k: "\<bar>k\<bar> \<le> 400" "0 \<le> e \<Longrightarrow> 0 \<le> k" "down_scale e k \<le> 10 * uint f * up_scale e k" "(uint f + 1) * up_scale e k \<le> 10 * down_scale e k"
    and Q: "\<And>num den dm dp p. good_denominator den \<Longrightarrow> norm num \<Longrightarrow> bval num < 10 * bval den \<Longrightarrow> bval den \<le> bval num \<Longrightarrow>
      of_int (bval num) / of_int (bval den) = of_int (uint f) * 2 powi e / (10 powi (p - 1) :: real) \<Longrightarrow> ok (cont (p, num, dm, dp) den) Q"
  shows "ok (do {
     (num, den, dm, dp) \<leftarrow> InitialScaledStartValues f e closer k False Bignum0 Bignum0 Bignum0 Bignum0;
     r \<leftarrow> FixupMultiply10 k (f AND 1 = 0) num den dm dp;
     cont r den }) Q"
proof (subst ok_bind, rule ok_mono[OF ok_InitialScaledStartValues[OF e(1) k(1,2) f(2)]])
  define U V where "U = up_scale e k" and "V = down_scale e k"
  have UV: "0 < U" "0 < V" by (simp_all add: U_def V_def scales_pos)
  fix x assume "start_values False closer (uint f) e k x"
  then obtain num den dm dp where x: "x = (num, den, dm, dp)" and n: "norm num" "norm den" "norm dm" "norm dp"
    and vals: "bval num = uint f * U" "bval den = V" and z: "dm = Bignum0" "dp = Bignum0"
    by (cases x) (auto simp: start_values_def start_factor_def U_def V_def)
  have z0: "bval dm = 0" "bval dp = 0" unfolding z by simp_all
  have g: "good_denominator den"
    by (rule good_start[OF n(2) _ e(1) k(1), of False closer]) (simp add: vals(2) V_def start_factor_def)
  have "10 * (uint f * U) < W 127"
  proof (rule small_cap)
    show "small (uint f * U)" unfolding U_def by (rule small_scales(1)[OF e(1) k(1)]) (use f in simp_all)
  qed (use f UV in simp_all)
  then have cap: "10 * bval num < W 127" "10 * bval dm < W 127" "10 * bval dp < W 127" unfolding vals z0 by simp_all
  show "ok (case x of (num, den, dm, dp) \<Rightarrow> do { r \<leftarrow> FixupMultiply10 k (f AND 1 = 0) num den dm dp; cont r den }) Q"
    unfolding x prod.case
  proof (subst ok_bind, rule ok_FixupMultiply10[OF n cap])
    fix m p n' a' b'
    assume nn: "norm n'"
      and m: "m = (if (if f AND 1 = 0 then bval den \<le> bval num + bval dp else bval den < bval num + bval dp) then 1 else 10)"
      and p: "p = (if m = 1 then k + 1 else k)" and v': "bval n' = m * bval num"
    have ne: "uint f * U \<noteq> V" if "f AND 1 \<noteq> 0"
      unfolding U_def V_def by (rule odd_not_power) (use that f e even_word[of f] in auto)
    have mm: "m = (if V \<le> uint f * U then 1 else 10)" using ne unfolding m z0 vals by auto
    have T: "(10::real) powi (p - 1) = 10 powi k / of_int m" using mm by (auto simp: p power_int_diff power_int_add)
    have tk: "(0::real) < 10 powi k" by (simp add: zero_less_power_int)
    show "ok (cont (p, n', a', b') den) Q"
    proof (rule Q[OF g nn])
      show "bval n' < 10 * bval den"
      proof -
        have "uint f * U < (uint f + 1) * U" using UV by simp
        then show ?thesis using k(4)[folded U_def V_def] unfolding v' vals mm by auto
      qed
      show "bval den \<le> bval n'" using k(3)[folded U_def V_def] unfolding v' vals mm by (auto simp: mult_ac)
      have "of_int (bval n') / of_int (bval den) = of_int m * of_int (uint f) * (real_of_int U / of_int V)" by (simp add: v' vals)
      also have "real_of_int U / of_int V = 2 powi e / 10 powi k" unfolding U_def V_def by (rule scales_real)
      finally show "of_int (bval n') / of_int (bval den) = of_int (uint f) * 2 powi e / (10 powi (p - 1) :: real)"
        unfolding T using tk mm by simp
    qed
  qed
qed

lemma counted_real:
  assumes r: "counted_result n d m p buf (buf', len, p')" and m: "1 \<le> m" and T: "of_int n / of_int d = v / (10 powi (p - 1) :: real)"
  shows "of_int (dec_val (take m buf')) * 10 powi (p' - int m) = of_int (half_up (v * 10 powi (int m - p))) * (10 powi (p - int m) :: real)"
proof -
  define M where "M = half_up (v * 10 powi (int m - p))"
  have e: "of_int n / of_int d * 10 ^ (m - 1) = v * (10 powi (int m - p) :: real)"
  proof -
    have "(10::real) ^ (m - 1) / 10 powi (p - 1) = 10 powi (int (m - 1) - (p - 1))" by (simp add: power_int_diff)
    also have "int (m - 1) - (p - 1) = int m - p" using m by simp
    finally show ?thesis unfolding T by (simp only: times_divide_eq_left times_divide_eq_right[symmetric])
  qed
  have "p' = p \<and> dec_val (take m buf') = M \<or> p' = p + 1 \<and> M = 10 ^ m \<and> dec_val (take m buf') = 10 ^ (m - 1)"
    using r unfolding counted_result_def prod.case e Let_def M_def by blast
  then show ?thesis
  proof
    assume a: "p' = p + 1 \<and> M = 10 ^ m \<and> dec_val (take m buf') = 10 ^ (m - 1)"
    moreover have "10 ^ (m - 1) * 10 powi (p + 1 - int m) = 10 ^ m * (10 powi (p - int m) :: real)"
    proof -
      have "10 powi (p + 1 - int m) = 10 * (10 powi (p - int m) :: real)" by (simp add: power_int_diff power_int_add)
      moreover have "10 ^ m = 10 ^ (m - 1) * (10 :: real)" using m by (cases m) simp_all
      ultimately show ?thesis by simp
    qed
    ultimately show ?thesis using a by (simp add: M_def[symmetric])
  qed (simp add: M_def)
qed

lemma counted_first:
  assumes r: "counted_result n d m p buf (buf', len, p')" and m: "1 \<le> m" and d: "0 < d" "d \<le> n"
  shows "10 ^ (m - 1) \<le> dec_val (take m buf')" "p' = p \<or> p' = p + 1" "digits (take m buf')"
proof -
  have "real_of_int d \<le> of_int n" "0 < real_of_int d" using d by simp_all
  then have "1 * 10 ^ (m - 1) \<le> of_int n / of_int d * (10 ^ (m - 1) :: real)" by (intro mult_right_mono) simp_all
  then have "real_of_int (10 ^ (m - 1)) \<le> of_int n / of_int d * 10 ^ (m - 1) + 1 / 2" by simp
  then have "10 ^ (m - 1) \<le> half_up (of_int n / of_int d * 10 ^ (m - 1))" unfolding half_up_def by (simp only: le_floor_iff)
  then show "10 ^ (m - 1) \<le> dec_val (take m buf')" "p' = p \<or> p' = p + 1" "digits (take m buf')"
    using r by (auto simp: counted_result_def Let_def)
qed

section \<open>A given number of digits, and of places\<close>

text \<open>The digits stand for the value rounded at a decimal place, the half upwards.\<close>

definition rounded_at :: "real \<Rightarrow> int \<Rightarrow> u8 list \<Rightarrow> int \<Rightarrow> bool" where
  "rounded_at v places cs p \<longleftrightarrow> digits cs \<and>
     of_int (dec_val cs) * 10 powi (p - int (length cs)) = of_int (half_up (v * 10 powi places)) * (10 powi (- places) :: real)"

lemma ok_BignumToFixed:
  assumes g: "good_denominator den" and n: "norm num" "bval num < 10 * bval den" "bval den \<le> bval num"
    and T: "of_int (bval num) / of_int (bval den) = v / (10 powi (p - 1) :: real)" and buf: "1 \<le> length buf" "p + req \<le> int (length buf)"
    and Q: "\<And>buf' len p'. len \<le> length buf \<Longrightarrow> int len \<le> max 1 (p + req) \<Longrightarrow> length buf' = length buf \<Longrightarrow> drop len buf' = drop len buf \<Longrightarrow>
       rounded_at v req (take len buf') p' \<Longrightarrow> (if len = 0 then p' = - req else 10 ^ (len - 1) \<le> dec_val (take len buf')) \<Longrightarrow> Q (buf', int len, p')"
  shows "ok (BignumToFixed req p num den buf) Q"
proof -
  note d = bd.good_pos[OF g]
  have nd: "norm den" and cap: "10 * bval den < W 127" using g by (simp_all add: good_denominator_def)
  have dr: "0 < real_of_int (bval den)" using d by simp
  have tp: "0 < (10::real) powi k" for k :: int by (simp add: zero_less_power_int)
  have v: "v = of_int (bval num) / of_int (bval den) * 10 powi (p - 1)" using T tp[of "p - 1"] by (simp add: field_simps)
  have v10: "v < 10 powi p" "0 < v"
  proof -
    have "real_of_int (bval num) < of_int (10 * bval den)" "0 < real_of_int (bval num)" using n d by (simp_all only: of_int_less_iff of_int_0_less_iff)
    then have "of_int (bval num) / real_of_int (bval den) < 10" "0 < of_int (bval num) / real_of_int (bval den)" using dr by (simp_all add: field_simps)
    then have "v < 10 * 10 powi (p - 1)" "0 < v" unfolding v by (simp_all only: mult_strict_right_mono tp mult_pos_pos)
    moreover have "10 * (10::real) powi (p - 1) = 10 powi p" by (simp add: power_int_diff)
    ultimately show "v < 10 powi p" "0 < v" by simp_all
  qed
  have zero: "rounded_at v req [] (- req)" if "2 * v < 10 powi (- req)"
  proof -
    have "2 * v * 10 powi req < 10 powi (- req) * (10 powi req :: real)" using that tp by simp
    also have "\<dots> = 1" by (simp add: power_int_minus)
    finally have "half_up (v * 10 powi req) = 0" unfolding half_up_def by (intro floor_unique) (use v10 tp[of req] in simp_all)
    then show ?thesis by (simp add: rounded_at_def)
  qed
  consider "req < - p" | "- p = req" | "- p < req" by linarith
  then show ?thesis
  proof cases
    case 1
    have "(10::real) powi (p + 1) \<le> 10 powi (- req)" by (rule power_int_increasing) (use 1 in simp_all)
    moreover have "(10::real) powi (p + 1) = 10 * 10 powi p" by (simp add: power_int_add)
    ultimately have "2 * v < 10 powi (- req)" using v10 tp[of p] by linarith
    then have "Q (buf, int 0, - req)" by (intro Q) (use zero in simp_all)
    then show ?thesis using 1 by (simp add: BignumToFixed_def)
  next
    case 2
    have half: "(0 \<le> sgn (bval num + bval num - 10 * bval den)) = (10 powi (- req) \<le> 2 * v)"
    proof -
      have "(0 \<le> sgn (bval num + bval num - 10 * bval den)) = (10 * bval den \<le> 2 * bval num)" by (auto simp: sgn_if)
      also have "\<dots> = (real_of_int (10 * bval den) \<le> of_int (2 * bval num))" by (simp only: of_int_le_iff)
      also have "\<dots> = (10 \<le> 2 * (of_int (bval num) / real_of_int (bval den)))" using dr by (simp add: field_simps)
      also have "\<dots> = (10 * 10 powi (p - 1) \<le> 2 * (of_int (bval num) / real_of_int (bval den)) * 10 powi (p - 1))" by (simp only: mult_le_cancel_right_pos[OF tp])
      also have "10 * (10::real) powi (p - 1) = 10 powi (- req)" using 2 by (auto simp: power_int_diff)
      finally show ?thesis by (simp add: v mult.assoc)
    qed
    show ?thesis
      unfolding BignumToFixed_def using 2 apply (simp add: ok_bind[of "ensure _"] ok_ensure)
    proof (subst ok_bind, rule ok_Times10[OF nd cap])
      fix den' assume d': "norm den'" "bval den' = 10 * bval den"
      show "ok (do { c \<leftarrow> PlusCompare num num den';
          if 0 \<le> c then do { buffer \<leftarrow> wr buf 0 (ch CHR ''1''); Some (buffer, 1, p + 1) } else Some (buf, 0, p) }) Q"
        apply (subst ok_bind, subst ok_PlusCompare[OF n(1) n(1) d'(1)])
        unfolding d'(2) half
      proof (subst ok_if, intro conjI impI)
        assume up: "10 powi (- req) \<le> 2 * v"
        have "10 powi (- req) * 10 powi req \<le> 2 * v * (10 powi req :: real)" by (rule mult_right_mono[OF up]) (use tp[of req] in simp)
        moreover have "10 powi (- req) * (10 powi req :: real) = 1" by (simp add: power_int_minus)
        moreover have "v * 10 powi req < 10 powi p * (10 powi req :: real)" by (rule mult_strict_right_mono[OF v10(1) tp])
        moreover have "10 powi p * (10 powi req :: real) = 1" using 2 by (auto simp: power_int_minus)
        ultimately have "half_up (v * 10 powi req) = 1" unfolding half_up_def by (intro floor_unique; simp only: of_int_1; linarith)
        moreover have "take 1 (buf[0 := ch CHR ''1'']) = [ch CHR ''1'']" using buf by (cases buf) simp_all
        moreover have "dec_val [ch CHR ''1''] = 1" by (simp add: dec_val_Cons)
        ultimately have "Q (buf[0 := ch CHR ''1''], int 1, p + 1)"
          by (intro Q) (use buf 2 in \<open>auto simp: rounded_at_def\<close>)
        then show "ok (do { buffer \<leftarrow> wr buf 0 (ch CHR ''1''); Some (buffer, 1, p + 1) }) Q" using buf by (auto simp: wp)
      next
        assume "\<not> 10 powi (- req) \<le> 2 * v"
        then have "Q (buf, int 0, - req)" by (intro Q) (use zero in simp_all)
        then show "ok (Some (buf, 0, p)) Q" using 2 by auto
      qed
    qed
  next
    case 3
    define m where "m = nat (p + req)"
    have m: "1 \<le> m" "int m = p + req" "m \<le> length buf" using 3 buf by (simp_all add: m_def)
    have "ok (GenerateCountedDigits (int m) p num den buf) Q"
    proof (rule ok_mono[OF ok_GenerateCountedDigits[OF g n(1,2) cap m(1,3)]])
      fix x assume r: "counted_result (bval num) (bval den) m p buf x"
      obtain buf' len p' where x: "x = (buf', len, p')" by (cases x)
      note C = counted_real[OF r[unfolded x] m(1) T] counted_first[OF r[unfolded x] m(1) d n(3)]
      have l: "len = int m" "length buf' = length buf" "drop m buf' = drop m buf" using r unfolding x by (auto simp: counted_result_def)
      have "Q (buf', int m, p')"
      proof (rule Q)
        have eq: "int m - p = req" "p - int m = - req" using m by simp_all
        have "length (take m buf') = m" using m l by simp
        then show "rounded_at v req (take m buf') p'" unfolding rounded_at_def using C(1)[unfolded eq] C(4) by simp
      qed (use m l C(2) in simp_all)
      then show "Q x" unfolding x l .
    qed
    then show ?thesis using 3 m(2) by (simp add: BignumToFixed_def add.commute)
  qed
qed

lemma double_parts:
  assumes v: "finite_double v" "0 < uint v"
  shows "double_less 0 v" "0 < uint (DoubleSignificand v)" "DoubleExponent v < 0 \<or> 2 ^ 52 \<le> uint (DoubleSignificand v)"
    "dreal v = of_int (uint (DoubleSignificand v)) * 2 powi DoubleExponent v"
proof -
  show "double_less 0 v" using v by (simp add: double_less_0_finite)
  show "0 < uint (DoubleSignificand v)"
    using v fmt_sig_0[of "uint v" 52] by (simp add: Double_fields finite_double_mag)
      (metis fmt_decode(2) less_le not_less uint_nonnegative)
  show "DoubleExponent v < 0 \<or> 2 ^ 52 \<le> uint (DoubleSignificand v)" using finite_double_fields(6)[OF v(1)] by auto
  show "dreal v = of_int (uint (DoubleSignificand v)) * 2 powi DoubleExponent v"
    using finite_double_fields(1)[OF v(1)] by (simp add: dreal_fields)
qed

lemma place_bound:
  assumes n: "0 < d" "d \<le> n" and T: "of_int n / of_int d = v / (10 powi (p - 1) :: real)" and v: "v < 10 powi P"
  shows "p \<le> P"
proof -
  have tp: "0 < (10::real) powi (p - 1)" by (simp add: zero_less_power_int)
  have "real_of_int d \<le> of_int n" "0 < real_of_int d" using n by simp_all
  then have "1 \<le> of_int n / real_of_int d" by simp
  then have "10 powi (p - 1) \<le> v" unfolding T using tp by (simp add: field_simps)
  then have "(10::real) powi (p - 1) < 10 powi P" using v by linarith
  moreover have "(10::real) powi P \<le> 10 powi (p - 1)" if "P < p" by (rule power_int_increasing) (use that in simp_all)
  ultimately show ?thesis by (meson not_le)
qed

lemma power_int_le_10: "k \<le> (m :: int) \<Longrightarrow> (10::real) powi k \<le> 10 powi m"
  by (rule power_int_increasing) simp_all

lemma ok_BignumDtoa_fixed:
  assumes v: "finite_double v" "0 < uint v" and P: "dreal v < 10 powi P" and buf: "2 \<le> length buf" "P + req < int (length buf)"
    and Q: "\<And>buf' len p. length buf' = length buf \<Longrightarrow> len < length buf \<Longrightarrow> buf' ! len = 0 \<Longrightarrow> drop (Suc len) buf' = drop (Suc len) buf \<Longrightarrow>
       rounded_at (dreal v) req (take len buf') p \<Longrightarrow> (if len = 0 then p = - req else 10 ^ (len - 1) \<le> dec_val (take len buf')) \<Longrightarrow> Q (buf', int len, p)"
  shows "ok (BignumDtoa v BIGNUM_DTOA_FIXED req buf) Q"
proof -
  define f e where "f = DoubleSignificand v" and "e = DoubleExponent v"
  note F = finite_double_fields[OF v(1), folded f_def e_def] and D = double_parts[OF v, folded f_def e_def]
  have kb: "(324 * 4 \<le> kMaxSignificantBits) = True" by (simp add: kMaxSignificantBits_def)
  have er: "\<bar>e\<bar> \<le> 1200" using F by simp
  let ?rest = "\<lambda>k. if - k - 1 > req then do { buffer \<leftarrow> wr buf 0 0; Some (buffer, 0, - req) }
     else do {
       (num, den, dm, dp) \<leftarrow> InitialScaledStartValues f e (DoubleLowerBoundaryIsCloser v) k False Bignum0 Bignum0 Bignum0 Bignum0;
       r \<leftarrow> FixupMultiply10 k (f AND 1 = 0) num den dm dp;
       (case r of (p, num, dm, dp) \<Rightarrow> do {
         (buffer, len, p) \<leftarrow> BignumToFixed req p num den buf;
         buffer \<leftarrow> wr buffer len 0;
         Some (buffer, len, p) }) }"
  have m: "BignumDtoa v BIGNUM_DTOA_FIXED req buf = Option.bind (NormalizedExponent f e) (\<lambda>ne. ?rest (EstimatePower ne))"
    unfolding BignumDtoa_def f_def[symmetric] e_def[symmetric] using D(1) F(2) kb by (simp add: ensure_def Let_def split_def cong: if_cong)
  have tp: "0 < (10::real) powi k" for k :: int by (simp add: zero_less_power_int)
  have finish: "ok (do { buffer \<leftarrow> wr buf' (int len) 0; Some (buffer, int len, p) }) Q"
    if r: "len < length buf" "length buf' = length buf" "drop len buf' = drop len buf" "rounded_at (dreal v) req (take len buf') p"
      "if len = 0 then p = - req else 10 ^ (len - 1) \<le> dec_val (take len buf')" for buf' len p
  proof -
    have "take len (buf'[len := 0]) = take len buf'" by simp
    moreover have "drop (Suc len) (buf'[len := 0]) = drop (Suc len) buf" using arg_cong[OF r(3), of "drop 1"] by simp
    ultimately have "Q (buf'[len := 0], int len, p)" by (intro Q) (use r in \<open>auto split: if_splits\<close>)
    then show ?thesis using r by (simp add: wp)
  qed
  show ?thesis unfolding m
  proof (subst ok_bind, rule ok_NormalizedExponent[OF D(2) F(3)])
    fix j assume j: "j \<le> 52" "2 ^ 52 \<le> uint f * 2 ^ j" "uint f * 2 ^ j < 2 ^ 53"
    define k where "k = EstimatePower (e - int j)"
    note E = estimate_scales[OF D(2) F(3-5) j, folded k_def]
    show "ok (?rest (EstimatePower (e - int j))) Q" unfolding k_def[symmetric]
    proof (subst ok_if, intro conjI impI)
      assume early: "req < - k - 1"
      have "dreal v < 10 * 10 powi k"
      proof -
        have U: "real_of_int (up_scale e k) = of_int (down_scale e k) * (2 powi e / 10 powi k)"
          using scales_real[of e k] scales_pos(2)[of e k] by (simp add: field_simps)
        have "real_of_int ((uint f + 1) * up_scale e k) \<le> of_int (10 * down_scale e k)" using E(4) by (simp only: of_int_le_iff)
        then have "of_int (down_scale e k) * ((of_int (uint f) + 1) * (2 powi e / 10 powi k)) \<le> real_of_int (down_scale e k) * 10"
          by (simp add: U mult_ac)
        moreover have "0 < real_of_int (down_scale e k)" using scales_pos(2)[of e k] by simp
        ultimately have "(of_int (uint f) + 1) * (2 powi e / 10 powi k) \<le> (10 :: real)" by (simp only: mult_le_cancel_left_pos)
        then have "(of_int (uint f) + 1) * 2 powi e \<le> (10 * 10 powi k :: real)" using tp[of k] by (simp add: field_simps)
        moreover have "of_int (uint f) * 2 powi e < (of_int (uint f) + 1) * (2 powi e :: real)" by (simp add: zero_less_power_int)
        ultimately show ?thesis unfolding D(4) by linarith
      qed
      also have "10 * (10::real) powi k = 10 powi (k + 1)" by (simp add: power_int_add)
      also have "\<dots> \<le> 10 powi (- req - 1)" by (rule power_int_le_10) (use early in simp)
      also have "\<dots> = 10 powi (- req) / (10::real)" by (simp add: power_int_diff)
      finally have "10 * dreal v * 10 powi req < 10 powi (- req) * (10 powi req :: real)" using tp[of req] by simp
      also have "\<dots> = 1" by (simp add: power_int_minus)
      finally have lt: "10 * (dreal v * 10 powi req) < 1" by simp
      have "0 \<le> dreal v * 10 powi req" unfolding D(4) by (intro mult_nonneg_nonneg of_int_nonneg uint_nonnegative) (use tp[of req] in \<open>simp_all add: zero_le_power_int\<close>)
      then have "half_up (dreal v * 10 powi req) = 0" unfolding half_up_def by (intro floor_unique; simp only: of_int_0; use lt in linarith)
      then have "rounded_at (dreal v) req (take 0 buf) (- req)" by (simp add: rounded_at_def)
      then show "ok (do { buffer \<leftarrow> wr buf 0 0; Some (buffer, 0, - req) }) Q" using finish[of 0 buf "- req"] buf by (cases buf) simp_all
    next
      show "ok (do {
         (num, den, dm, dp) \<leftarrow> InitialScaledStartValues f e (DoubleLowerBoundaryIsCloser v) k False Bignum0 Bignum0 Bignum0 Bignum0;
         r \<leftarrow> FixupMultiply10 k (f AND 1 = 0) num den dm dp;
         (case r of (p, num, dm, dp) \<Rightarrow> do {
           (buffer, len, p) \<leftarrow> BignumToFixed req p num den buf;
           buffer \<leftarrow> wr buffer len 0;
           Some (buffer, len, p) }) }) Q"
      proof (rule ok_plain_start[OF D(2) F(3) er D(3) E])
        fix num den dm dp p
        assume g: "good_denominator den" "norm num" "bval num < 10 * bval den" "bval den \<le> bval num"
          and T: "of_int (bval num) / of_int (bval den) = of_int (uint f) * 2 powi e / (10 powi (p - 1) :: real)"
        note T' = T[folded D(4)]
        have pP: "p \<le> P" by (rule place_bound[OF bd.good_pos[OF g(1)] g(4) T' P])
        show "ok (case (p, num, dm, dp) of (p, num, dm, dp) \<Rightarrow> do {
           (buffer, len, p) \<leftarrow> BignumToFixed req p num den buf;
           buffer \<leftarrow> wr buffer len 0;
           Some (buffer, len, p) }) Q"
          unfolding prod.case
        proof (subst ok_bind, rule ok_BignumToFixed[OF g T'])
          fix buf' len p' assume r: "len \<le> length buf" "int len \<le> max 1 (p + req)" "length buf' = length buf" "drop len buf' = drop len buf"
            "rounded_at (dreal v) req (take len buf') p'" "if len = 0 then p' = - req else 10 ^ (len - 1) \<le> dec_val (take len buf')"
          have "len < length buf" using r(2) pP buf by linarith
          then show "ok (case (buf', int len, p') of (buffer, len, p) \<Rightarrow> do { buffer \<leftarrow> wr buffer len 0; Some (buffer, len, p) }) Q"
            unfolding prod.case by (rule finish) (rule r)+
        qed (use buf pP in linarith)+
      qed
    qed
  qed
qed

lemma ok_BignumDtoa_precision:
  assumes v: "finite_double v" "0 < uint v" and m: "1 \<le> m" "m < length buf"
    and Q: "\<And>buf' p p'. length buf' = length buf \<Longrightarrow> buf' ! m = 0 \<Longrightarrow> drop (Suc m) buf' = drop (Suc m) buf \<Longrightarrow>
       10 powi (p - 1) \<le> dreal v \<Longrightarrow> dreal v < 10 powi p \<Longrightarrow> p' = p \<or> p' = p + 1 \<Longrightarrow>
       rounded_at (dreal v) (int m - p) (take m buf') p' \<Longrightarrow> 10 ^ (m - 1) \<le> dec_val (take m buf') \<Longrightarrow> Q (buf', int m, p')"
  shows "ok (BignumDtoa v BIGNUM_DTOA_PRECISION (int m) buf) Q"
proof -
  define f e where "f = DoubleSignificand v" and "e = DoubleExponent v"
  note F = finite_double_fields[OF v(1), folded f_def e_def] and D = double_parts[OF v, folded f_def e_def]
  have kb: "(324 * 4 \<le> kMaxSignificantBits) = True" by (simp add: kMaxSignificantBits_def)
  have er: "\<bar>e\<bar> \<le> 1200" using F by simp
  have tp: "0 < (10::real) powi k" for k :: int by (simp add: zero_less_power_int)
  let ?rest = "\<lambda>k. do {
       (num, den, dm, dp) \<leftarrow> InitialScaledStartValues f e (DoubleLowerBoundaryIsCloser v) k False Bignum0 Bignum0 Bignum0 Bignum0;
       r \<leftarrow> FixupMultiply10 k (f AND 1 = 0) num den dm dp;
       (case r of (p, num, dm, dp) \<Rightarrow> do {
         (buffer, len, p) \<leftarrow> GenerateCountedDigits (int m) p num den buf;
         buffer \<leftarrow> wr buffer len 0;
         Some (buffer, len, p) }) }"
  have eq: "BignumDtoa v BIGNUM_DTOA_PRECISION (int m) buf = Option.bind (NormalizedExponent f e) (\<lambda>ne. ?rest (EstimatePower ne))"
    unfolding BignumDtoa_def f_def[symmetric] e_def[symmetric] using D(1) F(2) kb by (simp add: ensure_def Let_def split_def cong: if_cong)
  show ?thesis unfolding eq
  proof (subst ok_bind, rule ok_NormalizedExponent[OF D(2) F(3)])
    fix j assume j: "j \<le> 52" "2 ^ 52 \<le> uint f * 2 ^ j" "uint f * 2 ^ j < 2 ^ 53"
    define k where "k = EstimatePower (e - int j)"
    note E = estimate_scales[OF D(2) F(3-5) j, folded k_def]
    show "ok (?rest (EstimatePower (e - int j))) Q" unfolding k_def[symmetric]
    proof (rule ok_plain_start[OF D(2) F(3) er D(3) E])
      fix num den dm dp p
      assume g: "good_denominator den" "norm num" "bval num < 10 * bval den" "bval den \<le> bval num"
        and T: "of_int (bval num) / of_int (bval den) = of_int (uint f) * 2 powi e / (10 powi (p - 1) :: real)"
      note T' = T[folded D(4)] and d = bd.good_pos[OF g(1)]
      have cap: "10 * bval den < W 127" using g(1) by (simp add: good_denominator_def)
      have dr: "0 < real_of_int (bval den)" using d by simp
      have "real_of_int (bval den) \<le> of_int (bval num)" "real_of_int (bval num) < of_int (10 * bval den)"
        using g by (simp_all only: of_int_le_iff of_int_less_iff)
      then have "1 \<le> of_int (bval num) / real_of_int (bval den)" "of_int (bval num) / real_of_int (bval den) < 10"
        using dr by (simp_all add: field_simps)
      then have "10 powi (p - 1) \<le> dreal v" "dreal v < 10 * 10 powi (p - 1)" unfolding T' using tp[of "p - 1"] by (simp_all add: field_simps)
      then have place: "10 powi (p - 1) \<le> dreal v" "dreal v < 10 powi p" by (simp_all add: power_int_diff)
      show "ok (case (p, num, dm, dp) of (p, num, dm, dp) \<Rightarrow> do {
           (buffer, len, p) \<leftarrow> GenerateCountedDigits (int m) p num den buf;
           buffer \<leftarrow> wr buffer len 0;
           Some (buffer, len, p) }) Q"
        unfolding prod.case
      proof (subst ok_bind, rule ok_mono[OF ok_GenerateCountedDigits[OF g(1-3) cap m(1) less_imp_le[OF m(2)]]])
        fix x assume r: "counted_result (bval num) (bval den) m p buf x"
        obtain buf' len p' where x: "x = (buf', len, p')" by (cases x)
        note C = counted_real[OF r[unfolded x] m(1) T'] counted_first[OF r[unfolded x] m(1) d g(4)]
        have l: "len = int m" "length buf' = length buf" "drop m buf' = drop m buf" using r unfolding x by (auto simp: counted_result_def)
        have t: "take m (buf'[m := 0]) = take m buf'" "length (take m buf') = m" using l m by simp_all
        have "drop (Suc m) (buf'[m := 0]) = drop (Suc m) buf" using arg_cong[OF l(3), of "drop 1"] by simp
        moreover have "rounded_at (dreal v) (int m - p) (take m buf') p'"
          unfolding rounded_at_def t(2) minus_diff_eq using C(1,4) by blast
        ultimately have "Q (buf'[m := 0], int m, p')" by (intro Q[OF _ _ _ place C(3)]) (use l m t C(2) in simp_all)
        then show "ok (case x of (buffer, len, p) \<Rightarrow> do { buffer \<leftarrow> wr buffer len 0; Some (buffer, len, p) }) Q"
          unfolding x l using l m by (simp add: wp)
      qed
    qed
  qed
qed

end
