(* ===== verification/Dtoa_Correct.thy ===== *)
theory Dtoa_Correct
  imports Dtoa_Counted
begin

text \<open>The properties of the exact digit generation: printing and reading back is the identity, the digits are the shortest and closest, and the counted digits are correctly rounded.\<close>

section \<open>Shortest digits\<close>

text \<open>C6: Printing and reading back is the identity: for every positive finite double BignumDtoa in shortest mode returns, in a buffer of 18 characters, at most 17 digits followed by the zero byte, and Strtod of these digits at the returned decimal point is the double.\<close>

theorem BignumDtoa_shortest_roundtrip:
  assumes "finite_double v" "0 < uint v" "18 \<le> length buffer"
  shows "\<exists>buf len p. BignumDtoa v BIGNUM_DTOA_SHORTEST requested buffer = Some (buf, len, p) \<and> 1 \<le> len \<and> len \<le> 17 \<and>
    buf ! nat len = 0 \<and> digits (take (nat len) buf) \<and> Strtod (take (nat len) buf) (p - len) = Some v"
proof -
  let ?R = "\<lambda>(buf, len, p). 1 \<le> len \<and> len \<le> 17 \<and> buf ! nat len = 0 \<and> digits (take (nat len) buf) \<and> Strtod (take (nat len) buf) (p - len) = Some v"
  have "ok (BignumDtoa v BIGNUM_DTOA_SHORTEST requested buffer) ?R"
  proof (rule ok_BignumDtoa_shortest[OF assms], goal_cases)
    case (1 buf len p)
    then have l: "length (take len buf) = len" using assms(3) by simp
    note S = 1(6)[unfolded double_shortest_def shortest_decimal_def l]
    have m: "0 \<le> dec_val (take len buf)" using dec_val_bounds S by blast
    have "decimal_double (dec_val (take len buf)) (p - int len) = v"
      using reads_back_iff[OF assms(1,2) m, of "p - int len"] S by blast
    then have "ok (Strtod (take len buf) (p - int len)) (\<lambda>r. r = v)" by (intro ok_Strtod) (use S in auto)
    then show ?case using 1 S by (simp add: ok_def)
  qed
  then show ?thesis by (auto simp: ok_def)
qed

lemma BignumDtoa_shortest_roundtrip_witness:
  "\<exists>buf len p. BignumDtoa 0x3FB999999999999A BIGNUM_DTOA_SHORTEST 0 (replicate 18 0) = Some (buf, len, p) \<and> 1 \<le> len \<and> len \<le> 17 \<and>
    buf ! nat len = 0 \<and> digits (take (nat len) buf) \<and> Strtod (take (nat len) buf) (p - len) = Some 0x3FB999999999999A"
  by (rule BignumDtoa_shortest_roundtrip) (simp_all add: finite_double_def)

text \<open>C7: The digits are the shortest: they start with a nonzero digit, and no number with fewer decimal digits, at any decimal exponent, is read as the double.\<close>

theorem BignumDtoa_shortest_minimal:
  assumes "finite_double v" "0 < uint v" "18 \<le> length buffer"
  shows "\<exists>buf len p. BignumDtoa v BIGNUM_DTOA_SHORTEST requested buffer = Some (buf, len, p) \<and> buf ! 0 \<noteq> ch CHR ''0'' \<and>
    (\<forall>cs q. digits cs \<and> Strtod cs q = Some v \<longrightarrow> len \<le> int (length cs))"
proof -
  let ?R = "\<lambda>(buf, len, p). buf ! 0 \<noteq> ch CHR ''0'' \<and> (\<forall>cs q. digits cs \<and> Strtod cs q = Some v \<longrightarrow> len \<le> int (length cs))"
  have "ok (BignumDtoa v BIGNUM_DTOA_SHORTEST requested buffer) ?R"
  proof (rule ok_BignumDtoa_shortest[OF assms], goal_cases)
    case (1 buf len p)
    then have l: "length (take len buf) = len" "0 < length buf" using assms(3) by auto
    note S = 1(6)[unfolded double_shortest_def shortest_decimal_def l(1)]
    define hd tl where "hd = buf ! 0" and "tl = drop 1 (take len buf)"
    have b0: "take len buf = hd # tl" using l(2) 1(1) by (cases buf; cases len) (simp_all add: hd_def tl_def)
    have tl: "length tl = len - 1" using l(1) unfolding b0 by simp
    have "hd \<noteq> ch CHR ''0''"
    proof
      assume "hd = ch CHR ''0''"
      then have "dec_val (take len buf) = dec_val tl" unfolding b0 by (simp add: dec_val_Cons)
      moreover have "dec_val tl < 10 ^ (len - 1)" using dec_val_bounds[of tl] S unfolding b0 tl by simp
      ultimately show False using S by simp
    qed
    moreover have "len \<le> length cs" if d: "digits cs" and r: "Strtod cs q = Some v" for cs q
    proof (rule ccontr)
      assume short: "\<not> len \<le> length cs"
      have c: "0 \<le> dec_val cs" "dec_val cs < 10 ^ length cs" using dec_val_bounds[OF d] by simp_all
      moreover have "(10::int) ^ length cs \<le> 10 ^ (len - 1)" by (rule power_increasing) (use short in simp_all)
      ultimately have c2: "dec_val cs < 10 ^ (len - 1)" by linarith
      have "ok (Strtod cs q) (\<lambda>r. r = decimal_double (dec_val cs) q)" by (rule ok_Strtod[OF d]) simp
      then have "decimal_double (dec_val cs) q = v" using r by simp
      note bt = this[unfolded reads_back_iff[OF assms(1,2) c(1)]]
      have "dec_val cs \<noteq> 0"
      proof
        assume z: "dec_val cs = 0"
        have "(1::real) \<le> of_int (uint (DoubleSignificand v))" using double_parts(2)[OF assms(1,2)] by linarith
        then have "0 < lo_bound (DoubleLowerBoundaryIsCloser v) (uint (DoubleSignificand v)) (DoubleExponent v)"
          unfolding lo_bound_def by (intro mult_pos_pos) (auto simp: zero_less_power_int)
        then show False using bt unfolding z between_def by (auto split: if_splits)
      qed
      then show False using bt S c(1) c2 by auto
    qed
    ultimately show ?case unfolding prod.case hd_def of_nat_le_iff by blast
  qed
  then obtain r where r: "BignumDtoa v BIGNUM_DTOA_SHORTEST requested buffer = Some r" "?R r" unfolding ok_def by blast
  then show ?thesis by (cases r) auto
qed

lemma BignumDtoa_shortest_minimal_witness:
  "\<exists>buf len p. BignumDtoa 0x3FB999999999999A BIGNUM_DTOA_SHORTEST 0 (replicate 18 0) = Some (buf, len, p) \<and> buf ! 0 \<noteq> ch CHR ''0'' \<and>
    (\<forall>cs q. digits cs \<and> Strtod cs q = Some 0x3FB999999999999A \<longrightarrow> len \<le> int (length cs))"
  by (rule BignumDtoa_shortest_minimal) (simp_all add: finite_double_def)

text \<open>C10: Among the numbers with that many digits after the point the digits are the closest: no other number at the same decimal place that is read as the double is nearer to the exact value of the double.\<close>

theorem BignumDtoa_shortest_closest:
  assumes "finite_double v" "0 < uint v" "18 \<le> length buffer"
  shows "\<exists>buf len p. BignumDtoa v BIGNUM_DTOA_SHORTEST requested buffer = Some (buf, len, p) \<and>
    (\<forall>cs. digits cs \<and> Strtod cs (p - len) = Some v \<longrightarrow>
      \<bar>of_int (dec_val (take (nat len) buf)) * 10 powi (p - len) - dreal v\<bar> \<le> \<bar>of_int (dec_val cs) * 10 powi (p - len) - dreal v\<bar>)"
proof -
  let ?R = "\<lambda>(buf, len, p). \<forall>cs. digits cs \<and> Strtod cs (p - len) = Some v \<longrightarrow>
      \<bar>of_int (dec_val (take (nat len) buf)) * 10 powi (p - len) - dreal v\<bar> \<le> \<bar>of_int (dec_val cs) * 10 powi (p - len) - dreal v\<bar>"
  have "ok (BignumDtoa v BIGNUM_DTOA_SHORTEST requested buffer) ?R"
  proof (rule ok_BignumDtoa_shortest[OF assms], goal_cases)
    case (1 buf len p)
    then have l: "length (take len buf) = len" using assms(3) by simp
    note S = 1(6)[unfolded double_shortest_def shortest_decimal_def l]
    show ?case unfolding prod.case nat_int
    proof (intro allI impI)
      fix cs assume a: "digits cs \<and> Strtod cs (p - int len) = Some v"
      have m: "0 \<le> dec_val cs" using dec_val_bounds[of cs] a by simp
      have "ok (Strtod cs (p - int len)) (\<lambda>r. r = decimal_double (dec_val cs) (p - int len))" by (rule ok_Strtod) (use a in simp_all)
      then have "decimal_double (dec_val cs) (p - int len) = v" using a by simp
      then show "\<bar>of_int (dec_val (take len buf)) * 10 powi (p - int len) - dreal v\<bar> \<le> \<bar>of_int (dec_val cs) * 10 powi (p - int len) - dreal v\<bar>"
        using S reads_back_iff[OF assms(1,2) m, of "p - int len"] unfolding double_parts(4)[OF assms(1,2)] by blast
    qed
  qed
  then obtain r where r: "BignumDtoa v BIGNUM_DTOA_SHORTEST requested buffer = Some r" "?R r" unfolding ok_def by blast
  then show ?thesis by (cases r) auto
qed

lemma BignumDtoa_shortest_closest_witness:
  "\<exists>buf len p. BignumDtoa 0x3FB999999999999A BIGNUM_DTOA_SHORTEST 0 (replicate 18 0) = Some (buf, len, p) \<and>
    (\<forall>cs. digits cs \<and> Strtod cs (p - len) = Some 0x3FB999999999999A \<longrightarrow>
      \<bar>of_int (dec_val (take (nat len) buf)) * 10 powi (p - len) - dreal 0x3FB999999999999A\<bar> \<le>
      \<bar>of_int (dec_val cs) * 10 powi (p - len) - dreal 0x3FB999999999999A\<bar>)"
  by (rule BignumDtoa_shortest_closest) (simp_all add: finite_double_def)

section \<open>Counted digits\<close>

text \<open>C11: With a given number of digits BignumDtoa returns exactly that many: with p the place of the value (10^(p-1) <= v < 10^p) they are v rounded at the last of them, the half upwards, the carry out of the first digit moving the decimal point.\<close>

theorem BignumDtoa_precision_rounds:
  assumes "finite_double v" "0 < uint v" "1 \<le> m" "m < length buffer"
  shows "\<exists>buf p p'. BignumDtoa v BIGNUM_DTOA_PRECISION (int m) buffer = Some (buf, int m, p') \<and> digits (take m buf) \<and> buf ! m = 0 \<and>
    10 ^ (m - 1) \<le> dec_val (take m buf) \<and> 10 powi (p - 1) \<le> dreal v \<and> dreal v < 10 powi p \<and> (p' = p \<or> p' = p + 1) \<and>
    of_int (dec_val (take m buf)) * 10 powi (p' - int m) = of_int \<lfloor>dreal v * 10 powi (int m - p) + 1 / 2\<rfloor> * (10 powi (p - int m) :: real)"
proof -
  let ?R = "\<lambda>(buf, len, p'). len = int m \<and> (\<exists>p. digits (take m buf) \<and> buf ! m = 0 \<and>
    10 ^ (m - 1) \<le> dec_val (take m buf) \<and> 10 powi (p - 1) \<le> dreal v \<and> dreal v < 10 powi p \<and> (p' = p \<or> p' = p + 1) \<and>
    of_int (dec_val (take m buf)) * 10 powi (p' - int m) = of_int \<lfloor>dreal v * 10 powi (int m - p) + 1 / 2\<rfloor> * (10 powi (p - int m) :: real))"
  have "ok (BignumDtoa v BIGNUM_DTOA_PRECISION (int m) buffer) ?R"
  proof (rule ok_BignumDtoa_precision[OF assms], goal_cases)
    case (1 buf p p')
    then have l: "length (take m buf) = m" using assms(4) by simp
    note R = 1(7)[unfolded rounded_at_def half_up_def l minus_diff_eq]
    show ?case unfolding prod.case using 1 R by blast
  qed
  then show ?thesis by (auto simp: ok_def)
qed

lemma BignumDtoa_precision_rounds_witness:
  "\<exists>buf p p'. BignumDtoa 0x3FB999999999999A BIGNUM_DTOA_PRECISION (int 3) (replicate 4 0) = Some (buf, int 3, p') \<and> digits (take 3 buf) \<and> buf ! 3 = 0 \<and>
    10 ^ (3 - 1) \<le> dec_val (take 3 buf) \<and> 10 powi (p - 1) \<le> dreal 0x3FB999999999999A \<and> dreal 0x3FB999999999999A < 10 powi p \<and> (p' = p \<or> p' = p + 1) \<and>
    of_int (dec_val (take 3 buf)) * 10 powi (p' - int 3) = of_int \<lfloor>dreal 0x3FB999999999999A * 10 powi (int 3 - p) + 1 / 2\<rfloor> * (10 powi (p - int 3) :: real)"
  by (rule BignumDtoa_precision_rounds) (simp_all add: finite_double_def)



end
