(* ===== verification/Fast_Dtoa.thy ===== *)
theory Fast_Dtoa
  imports Cached_Powers
begin

text \<open>
  Grisu3 (\<open>fast-dtoa.cc\<close>): digits from 64-bit arithmetic with a tracked error, which gives up
  when the error leaves the result in doubt.
\<close>

datatype fast_dtoa_mode =
  FAST_DTOA_SHORTEST
| FAST_DTOA_SHORTEST_SINGLE
| FAST_DTOA_PRECISION

definition kMinimalTargetExponent :: int where [simp]: "kMinimalTargetExponent = -60"
definition kMaximalTargetExponent :: int where [simp]: "kMaximalTargetExponent = -32"

text \<open>Returns the answer and the buffer, whose last digit may have been decremented.\<close>

definition RoundWeed ::
    "u8 list \<Rightarrow> int \<Rightarrow> u64 \<Rightarrow> u64 \<Rightarrow> u64 \<Rightarrow> u64 \<Rightarrow> u64 \<Rightarrow> (bool \<times> u8 list) option" where
  "RoundWeed buffer len distance_too_high_w unsafe_interval rest ten_kappa unit = do {
     let small_distance = distance_too_high_w - unit;
     let big_distance = distance_too_high_w + unit;
     ensure (rest \<le> unsafe_interval);
     (buffer, rest) \<leftarrow> while_do
       (\<lambda>(buffer, rest). Some (rest < small_distance \<and>
          unsafe_interval - rest \<ge> ten_kappa \<and>
          (rest + ten_kappa < small_distance \<or>
           small_distance - rest \<ge> rest + ten_kappa - small_distance)))
       (\<lambda>(buffer, rest). do {
          c \<leftarrow> rd buffer (len - 1);
          buffer \<leftarrow> wr buffer (len - 1) (c - 1);
          Some (buffer, rest + ten_kappa) }) (buffer, rest);
     if rest < big_distance \<and>
        unsafe_interval - rest \<ge> ten_kappa \<and>
        (rest + ten_kappa < big_distance \<or>
         big_distance - rest > rest + ten_kappa - big_distance) then Some (False, buffer)
     else Some (2 * unit \<le> rest \<and> rest \<le> unsafe_interval - 4 * unit, buffer) }"

function propagate_nines :: "u8 list \<Rightarrow> int \<Rightarrow> u8 list option" where
  "propagate_nines buffer i =
     (if i > 0 then do {
        c \<leftarrow> rd buffer i;
        if c \<noteq> ch CHR ''0'' + 10 then Some buffer
        else do {
          buffer \<leftarrow> wr buffer i (ch CHR ''0'');
          p \<leftarrow> rd buffer (i - 1);
          buffer \<leftarrow> wr buffer (i - 1) (p + 1);
          propagate_nines buffer (i - 1) } }
      else Some buffer)"
  by pat_completeness auto
termination
  by (relation "measure (\<lambda>(buffer, i). nat i)") auto

declare propagate_nines.simps [simp del]

text \<open>Returns the answer, the buffer and kappa.\<close>

definition RoundWeedCounted ::
    "u8 list \<Rightarrow> int \<Rightarrow> u64 \<Rightarrow> u64 \<Rightarrow> u64 \<Rightarrow> int \<Rightarrow> (bool \<times> u8 list \<times> int) option" where
  "RoundWeedCounted buffer len rest ten_kappa unit kappa = do {
     ensure (rest < ten_kappa);
     if unit \<ge> ten_kappa then Some (False, buffer, kappa)
     else if ten_kappa - unit \<le> unit then Some (False, buffer, kappa)
     else if ten_kappa - rest > rest \<and> ten_kappa - 2 * rest \<ge> 2 * unit then
       Some (True, buffer, kappa)
     else if rest > unit \<and> ten_kappa - (rest - unit) \<le> rest - unit then do {
       c \<leftarrow> rd buffer (len - 1);
       buffer \<leftarrow> wr buffer (len - 1) (c + 1);
       buffer \<leftarrow> propagate_nines buffer (len - 1);
       first \<leftarrow> rd buffer 0;
       if first = ch CHR ''0'' + 10 then do {
         buffer \<leftarrow> wr buffer 0 (ch CHR ''1'');
         Some (True, buffer, kappa + 1) }
       else Some (True, buffer, kappa) }
     else Some (False, buffer, kappa) }"

definition kSmallPowersOfTen :: "u32 list" where
  "kSmallPowersOfTen =
     [0, 1, 10, 100, 1000, 10000, 100000, 1000000, 10000000, 100000000, 1000000000]"

text \<open>Returns the power and its exponent plus one; \<open>1u << n\<close> needs \<open>n\<close> below 32.\<close>

definition BiggestPowerTen :: "u32 \<Rightarrow> int \<Rightarrow> (u32 \<times> int) option" where
  "BiggestPowerTen number number_bits = do {
     ensure (0 \<le> number_bits + 1 \<and> number_bits + 1 < 32);
     ensure (number < push_bit (nat (number_bits + 1)) 1);
     let exponent_plus_one_guess = drop_bit 12 ((number_bits + 1) * 1233);
     let exponent_plus_one_guess = exponent_plus_one_guess + 1;
     guess_power \<leftarrow> rd kSmallPowersOfTen exponent_plus_one_guess;
     let exponent_plus_one_guess =
       (if number < guess_power then exponent_plus_one_guess - 1 else exponent_plus_one_guess);
     power \<leftarrow> rd kSmallPowersOfTen exponent_plus_one_guess;
     Some (power, exponent_plus_one_guess) }"

section \<open>Shortest digits\<close>

text \<open>
  The two loops of \<open>DigitGen\<close>. Both return the answer, the buffer, its length and kappa; the
  first one goes on to the second when the integral digits are used up.
\<close>

partial_function (option) digit_gen_fractionals ::
    "diyfp \<Rightarrow> diyfp \<Rightarrow> diyfp \<Rightarrow> u64 \<Rightarrow> u64 \<Rightarrow> u64 \<Rightarrow> u8 list \<Rightarrow> int \<Rightarrow> int \<Rightarrow>
     (bool \<times> u8 list \<times> int \<times> int) option" where
  [code]: "digit_gen_fractionals w too_high one fractionals unsafe_interval unit buffer len kappa = do {
     let fractionals = fractionals * 10;
     let unit = unit * 10;
     let unsafe_interval = unsafe_interval * 10;
     d \<leftarrow> shr64 fractionals (- fp_e one);
     let digit = c_int d;
     ensure (digit \<le> 9);
     buffer \<leftarrow> wr buffer len (word_of_int (uint (ch CHR ''0'') + digit));
     let len = len + 1;
     let fractionals = fractionals AND (fp_f one - 1);
     let kappa = kappa - 1;
     if fractionals < unsafe_interval then do {
       too_high_w \<leftarrow> Minus too_high w;
       (result, buffer) \<leftarrow> RoundWeed buffer len (fp_f too_high_w * unit) unsafe_interval
         fractionals (fp_f one) unit;
       Some (result, buffer, len, kappa) }
     else digit_gen_fractionals w too_high one fractionals unsafe_interval unit buffer len kappa }"

partial_function (option) digit_gen_integrals ::
    "diyfp \<Rightarrow> diyfp \<Rightarrow> diyfp \<Rightarrow> u64 \<Rightarrow> u64 \<Rightarrow> u64 \<Rightarrow> u32 \<Rightarrow> u32 \<Rightarrow> u8 list \<Rightarrow> int \<Rightarrow> int \<Rightarrow>
     (bool \<times> u8 list \<times> int \<times> int) option" where
  [code]: "digit_gen_integrals w too_high one fractionals unsafe_interval unit integrals divisor
      buffer len kappa =
     (if kappa > 0 then do {
        q \<leftarrow> udiv integrals divisor;
        let digit = sint q;
        ensure (digit \<le> 9);
        buffer \<leftarrow> wr buffer len (word_of_int (uint (ch CHR ''0'') + digit));
        let len = len + 1;
        let integrals = integrals mod divisor;
        let kappa = kappa - 1;
        i \<leftarrow> shl64 (ucast integrals) (- fp_e one);
        let rest = i + fractionals;
        if rest < unsafe_interval then do {
          too_high_w \<leftarrow> Minus too_high w;
          ten_kappa \<leftarrow> shl64 (ucast divisor) (- fp_e one);
          (result, buffer) \<leftarrow>
            RoundWeed buffer len (fp_f too_high_w) unsafe_interval rest ten_kappa unit;
          Some (result, buffer, len, kappa) }
        else digit_gen_integrals w too_high one fractionals unsafe_interval unit integrals
               (divisor div 10) buffer len kappa }
      else do {
        ensure (fp_e one \<ge> -60);
        ensure (fractionals < fp_f one);
        ensure (0xFFFFFFFFFFFFFFFF div 10 \<ge> fp_f one);
        digit_gen_fractionals w too_high one fractionals unsafe_interval unit buffer len kappa })"

definition DigitGen ::
    "diyfp \<Rightarrow> diyfp \<Rightarrow> diyfp \<Rightarrow> u8 list \<Rightarrow> (bool \<times> u8 list \<times> int \<times> int) option" where
  "DigitGen low w high buffer = do {
     ensure (fp_e low = fp_e w \<and> fp_e w = fp_e high);
     ensure (fp_f low + 1 \<le> fp_f high - 1);
     ensure (kMinimalTargetExponent \<le> fp_e w \<and> fp_e w \<le> kMaximalTargetExponent);
     let unit = 1;
     let too_low = DiyFp (fp_f low - unit) (fp_e low);
     let too_high = DiyFp (fp_f high + unit) (fp_e high);
     unsafe_interval \<leftarrow> Minus too_high too_low;
     one_f \<leftarrow> shl64 1 (- fp_e w);
     let one = DiyFp one_f (fp_e w);
     i \<leftarrow> shr64 (fp_f too_high) (- fp_e one);
     let integrals = (ucast i :: u32);
     let fractionals = fp_f too_high AND (fp_f one - 1);
     (divisor, divisor_exponent_plus_one) \<leftarrow>
       BiggestPowerTen integrals (kDiySignificandSize - (- fp_e one));
     digit_gen_integrals w too_high one fractionals (fp_f unsafe_interval) unit integrals divisor
       buffer 0 divisor_exponent_plus_one }"

section \<open>A given number of digits\<close>

definition DigitGenCounted ::
    "diyfp \<Rightarrow> int \<Rightarrow> u8 list \<Rightarrow> (bool \<times> u8 list \<times> int \<times> int) option" where
  "DigitGenCounted w requested_digits buffer = do {
     ensure (kMinimalTargetExponent \<le> fp_e w \<and> fp_e w \<le> kMaximalTargetExponent);
     ensure (kMinimalTargetExponent \<ge> -60);
     ensure (kMaximalTargetExponent \<le> -32);
     let w_error = (1 :: u64);
     one_f \<leftarrow> shl64 1 (- fp_e w);
     let one = DiyFp one_f (fp_e w);
     i \<leftarrow> shr64 (fp_f w) (- fp_e one);
     let integrals = (ucast i :: u32);
     let fractionals = fp_f w AND (fp_f one - 1);
     (divisor, divisor_exponent_plus_one) \<leftarrow>
       BiggestPowerTen integrals (kDiySignificandSize - (- fp_e one));
     (buffer, len, kappa, requested_digits, integrals, divisor, _) \<leftarrow> while_do
       (\<lambda>(buffer, len, kappa, requested_digits, integrals, divisor, break). Some (\<not> break \<and> kappa > 0))
       (\<lambda>(buffer, len, kappa, requested_digits, integrals, divisor, break). do {
          q \<leftarrow> udiv integrals divisor;
          let digit = sint q;
          ensure (digit \<le> 9);
          buffer \<leftarrow> wr buffer len (word_of_int (uint (ch CHR ''0'') + digit));
          let requested_digits = requested_digits - 1;
          let integrals = integrals mod divisor;
          let kappa = kappa - 1;
          if requested_digits = 0 then
            Some (buffer, len + 1, kappa, requested_digits, integrals, divisor, True)
          else Some (buffer, len + 1, kappa, requested_digits, integrals, divisor div 10, False) })
       (buffer, 0 :: int, divisor_exponent_plus_one, requested_digits, integrals, divisor, False);
     if requested_digits = 0 then do {
       i \<leftarrow> shl64 (ucast integrals) (- fp_e one);
       let rest = i + fractionals;
       ten_kappa \<leftarrow> shl64 (ucast divisor) (- fp_e one);
       (result, buffer, kappa) \<leftarrow> RoundWeedCounted buffer len rest ten_kappa w_error kappa;
       Some (result, buffer, len, kappa) }
     else do {
       ensure (fp_e one \<ge> -60);
       ensure (fractionals < fp_f one);
       ensure (0xFFFFFFFFFFFFFFFF div 10 \<ge> fp_f one);
       (buffer, len, kappa, requested_digits, fractionals, w_error) \<leftarrow> while_do
         (\<lambda>(buffer, len, kappa, requested_digits, fractionals, w_error).
            Some (requested_digits > 0 \<and> fractionals > w_error))
         (\<lambda>(buffer, len, kappa, requested_digits, fractionals, w_error). do {
            let fractionals = fractionals * 10;
            let w_error = w_error * 10;
            d \<leftarrow> shr64 fractionals (- fp_e one);
            let digit = c_int d;
            ensure (digit \<le> 9);
            buffer \<leftarrow> wr buffer len (word_of_int (uint (ch CHR ''0'') + digit));
            Some (buffer, len + 1, kappa - 1, requested_digits - 1,
                  fractionals AND (fp_f one - 1), w_error) })
         (buffer, len, kappa, requested_digits, fractionals, w_error);
       if requested_digits \<noteq> 0 then Some (False, buffer, len, kappa)
       else do {
         (result, buffer, kappa) \<leftarrow>
           RoundWeedCounted buffer len fractionals (fp_f one) w_error kappa;
         Some (result, buffer, len, kappa) } } }"

section \<open>Grisu3\<close>

text \<open>All return the answer, the buffer, its length and the decimal exponent (or point).\<close>

definition Grisu3 ::
    "double \<Rightarrow> fast_dtoa_mode \<Rightarrow> u8 list \<Rightarrow> (bool \<times> u8 list \<times> int \<times> int) option" where
  "Grisu3 v mode buffer = do {
     w \<leftarrow> DoubleAsNormalizedDiyFp v;
     (boundary_minus, boundary_plus) \<leftarrow>
       (if mode = FAST_DTOA_SHORTEST then DoubleNormalizedBoundaries v
        else do {
          ensure (mode = FAST_DTOA_SHORTEST_SINGLE);
          let single_v = float_of_double v;
          SingleNormalizedBoundaries single_v });
     ensure (fp_e boundary_plus = fp_e w);
     let ten_mk_minimal_binary_exponent = kMinimalTargetExponent - (fp_e w + kDiySignificandSize);
     let ten_mk_maximal_binary_exponent = kMaximalTargetExponent - (fp_e w + kDiySignificandSize);
     (ten_mk, mk) \<leftarrow> GetCachedPowerForBinaryExponentRange
       ten_mk_minimal_binary_exponent ten_mk_maximal_binary_exponent;
     ensure (kMinimalTargetExponent \<le> fp_e w + fp_e ten_mk + kDiySignificandSize \<and>
             kMaximalTargetExponent \<ge> fp_e w + fp_e ten_mk + kDiySignificandSize);
     let scaled_w = Times w ten_mk;
     ensure (fp_e scaled_w = fp_e boundary_plus + fp_e ten_mk + kDiySignificandSize);
     let scaled_boundary_minus = Times boundary_minus ten_mk;
     let scaled_boundary_plus = Times boundary_plus ten_mk;
     (result, buffer, len, kappa) \<leftarrow>
       DigitGen scaled_boundary_minus scaled_w scaled_boundary_plus buffer;
     Some (result, buffer, len, - mk + kappa) }"

definition Grisu3Counted ::
    "double \<Rightarrow> int \<Rightarrow> u8 list \<Rightarrow> (bool \<times> u8 list \<times> int \<times> int) option" where
  "Grisu3Counted v requested_digits buffer = do {
     w \<leftarrow> DoubleAsNormalizedDiyFp v;
     let ten_mk_minimal_binary_exponent = kMinimalTargetExponent - (fp_e w + kDiySignificandSize);
     let ten_mk_maximal_binary_exponent = kMaximalTargetExponent - (fp_e w + kDiySignificandSize);
     (ten_mk, mk) \<leftarrow> GetCachedPowerForBinaryExponentRange
       ten_mk_minimal_binary_exponent ten_mk_maximal_binary_exponent;
     ensure (kMinimalTargetExponent \<le> fp_e w + fp_e ten_mk + kDiySignificandSize \<and>
             kMaximalTargetExponent \<ge> fp_e w + fp_e ten_mk + kDiySignificandSize);
     let scaled_w = Times w ten_mk;
     (result, buffer, len, kappa) \<leftarrow> DigitGenCounted scaled_w requested_digits buffer;
     Some (result, buffer, len, - mk + kappa) }"

text \<open>
  Returns the answer, the buffer, its length and the decimal point; the last is assigned
  only when the answer is \<open>true\<close>.
\<close>

definition FastDtoa ::
    "double \<Rightarrow> fast_dtoa_mode \<Rightarrow> int \<Rightarrow> u8 list \<Rightarrow> (bool \<times> u8 list \<times> int \<times> int option) option" where
  "FastDtoa v mode requested_digits buffer = do {
     ensure (double_less 0 v);
     ensure (\<not> DoubleIsSpecial v);
     (result, buffer, len, decimal_exponent) \<leftarrow>
       (case mode of
          FAST_DTOA_PRECISION \<Rightarrow> Grisu3Counted v requested_digits buffer
        | _ \<Rightarrow> Grisu3 v mode buffer);
     if result then do {
       let decimal_point = len + decimal_exponent;
       buffer \<leftarrow> wr buffer len 0;
       Some (True, buffer, len, Some decimal_point) }
     else Some (False, buffer, len, None) }"

end
