(* ===== verification/Grisu_Weed.thy ===== *)
theory Grisu_Weed
  imports Dtoa_Correct Fast_Dtoa
begin

text \<open>\<open>RoundWeed\<close> (\<open>fast-dtoa.cc\<close>): the last digit is moved inside the safe interval, and accepted only when it is the closest for every value the error allows.\<close>


section \<open>Weeding\<close>

text \<open>
  \<open>rest\<close> is the distance from the upper bound down to the number in the buffer; a decrement of the
  last digit adds \<open>tk\<close>. One step towards \<open>small\<close> comes closer to everything above \<open>small\<close>.
\<close>

lemma weed_step:
  fixes d :: real
  assumes "r < s" "r + tk < s \<or> r + tk - s \<le> s - r" "of_int s < d" "0 < (tk :: int)"
  shows "\<bar>of_int (r + tk) - d\<bar> \<le> \<bar>of_int r - d\<bar>"
proof -
  have r: "of_int r < d" using assms(1,3) by linarith
  show ?thesis
  proof (cases "real_of_int (r + tk) \<le> d")
    case True
    then show ?thesis using assms(4) by (simp add: abs_real_def)
  next
    case False
    have "\<not> r + tk < s" using False assms(3) by linarith
    then have "r + tk - s \<le> s - r" using assms(2) by blast
    then have "real_of_int (r + tk - s) \<le> of_int (s - r)" by (simp only: of_int_le_iff)
    then show ?thesis using False r assms(3) by (simp add: abs_real_def)
  qed
qed

lemma weed_stop:
  fixes d :: real
  assumes stop: "\<not> (r < b \<and> tk \<le> U - r \<and> (r + tk < b \<or> r + tk - b < b - r))" and d: "d < of_int b"
    and x: "x = r + int j * tk" "x \<le> U" and tk: "0 < tk"
  shows "\<bar>of_int r - d\<bar> \<le> \<bar>of_int x - d\<bar>"
proof (cases j)
  case (Suc i)
  have ge: "r + tk \<le> x" using tk by (simp add: x(1) Suc algebra_simps)
  show ?thesis
  proof (cases "d \<le> of_int r")
    case True
    then show ?thesis using ge tk by (simp add: abs_real_def)
  next
    case False
    then have "r < b" "tk \<le> U - r" using d ge x(2) by linarith+
    then have "b \<le> r + tk" "b - r \<le> r + tk - b" using stop by auto
    then have "real_of_int (b - r) \<le> of_int (r + tk - b)" "real_of_int b \<le> of_int (r + tk)" "real_of_int (r + tk) \<le> of_int x"
      using ge by (simp_all only: of_int_le_iff)
    then show ?thesis using False d by (simp add: abs_real_def)
  qed
qed (simp add: x(1))

definition weeded :: "int \<Rightarrow> int \<Rightarrow> int \<Rightarrow> int \<Rightarrow> int \<Rightarrow> nat \<Rightarrow> bool" where
  "weeded dw unit U rest tk m \<longleftrightarrow>
     2 * unit \<le> rest + int m * tk \<and> rest + int m * tk \<le> U - 4 * unit \<and>
     (\<forall>d j. of_int (dw - unit) < d \<longrightarrow> d < of_int (dw + unit) \<longrightarrow> rest + int j * tk \<le> U \<longrightarrow>
        \<bar>of_int (rest + int m * tk) - d\<bar> \<le> \<bar>of_int (rest + int j * tk) - (d :: real)\<bar>)"

lemma word_sub: "uint b \<le> uint a \<Longrightarrow> uint (a - b :: u64) = uint a - uint b"
  by (rule uint_sub_exact)

lemma word_add: "uint a + uint b < 2 ^ 64 \<Longrightarrow> uint (a + b :: u64) = uint a + uint b"
  by (rule uint_add_exact) simp

lemma ok_RoundWeed:
  assumes len: "n < length buf" and unit: "1 \<le> uint unit" "uint unit \<le> uint dw" "uint dw + uint unit < 2 ^ 64"
    and U: "uint rest \<le> uint U" "4 * uint unit \<le> uint U" and tk: "0 < uint tk"
    and Q: "\<And>m res. uint rest + int m * uint tk \<le> uint U \<Longrightarrow>
      (res \<Longrightarrow> weeded (uint dw) (uint unit) (uint U) (uint rest) (uint tk) m) \<Longrightarrow>
      Q (res, buf[n := buf ! n - of_nat m])"
  shows "ok (RoundWeed buf (int n + 1) dw U rest tk unit) Q"
proof -
  define s b where "s = dw - unit" and "b = dw + unit"
  have sb: "uint s = uint dw - uint unit" "uint b = uint dw + uint unit"
    using unit by (simp_all add: s_def b_def word_sub word_add)
  have u4: "uint (4 * unit) = 4 * uint unit" "uint (2 * unit) = 2 * uint unit"
    using U(2) uint_lt_2p[of U] uint_mult_exact[of "4 :: u64" unit] uint_mult_exact[of "2 :: u64" unit] unit(1) by simp_all
  have Ub: "uint U < 2 ^ 64" using uint_lt_2p[of U] by simp
  have tests: "(rest' < s \<and> U - rest' \<ge> tk \<and> (rest' + tk < s \<or> s - rest' \<ge> rest' + tk - s)) =
      (uint rest' < uint s \<and> uint tk \<le> uint U - uint rest' \<and> (uint rest' + uint tk < uint s \<or> uint rest' + uint tk - uint s \<le> uint s - uint rest'))"
      "(rest' < b \<and> U - rest' \<ge> tk \<and> (rest' + tk < b \<or> b - rest' > rest' + tk - b)) =
      (uint rest' < uint b \<and> uint tk \<le> uint U - uint rest' \<and> (uint rest' + uint tk < uint b \<or> uint rest' + uint tk - uint b < uint b - uint rest'))"
    if "uint rest' \<le> uint U" for rest'
  proof -
    have 1: "uint (U - rest') = uint U - uint rest'" by (rule word_sub[OF that])
    have 2: "uint (rest' + tk) = uint rest' + uint tk" if "uint tk \<le> uint U - uint rest'" using that Ub by (intro word_add) linarith
    have 3: "uint (x - rest') = uint x - uint rest'" if "uint rest' < uint x" for x using that by (intro word_sub) simp
    have 4: "uint (rest' + tk - x) = uint rest' + uint tk - uint x" if "uint tk \<le> uint U - uint rest'" "\<not> uint rest' + uint tk < uint x" for x
      using that 2 by (subst word_sub) simp_all
    show "(rest' < s \<and> U - rest' \<ge> tk \<and> (rest' + tk < s \<or> s - rest' \<ge> rest' + tk - s)) =
      (uint rest' < uint s \<and> uint tk \<le> uint U - uint rest' \<and> (uint rest' + uint tk < uint s \<or> uint rest' + uint tk - uint s \<le> uint s - uint rest'))"
      unfolding word_less_def word_le_def 1
      by (cases "uint rest' < uint s"; cases "uint tk \<le> uint U - uint rest'"; cases "uint rest' + uint tk < uint s"; simp only: 2 3 4 simp_thms)
    show "(rest' < b \<and> U - rest' \<ge> tk \<and> (rest' + tk < b \<or> b - rest' > rest' + tk - b)) =
      (uint rest' < uint b \<and> uint tk \<le> uint U - uint rest' \<and> (uint rest' + uint tk < uint b \<or> uint rest' + uint tk - uint b < uint b - uint rest'))"
      unfolding word_less_def word_le_def 1
      by (cases "uint rest' < uint b"; cases "uint tk \<le> uint U - uint rest'"; cases "uint rest' + uint tk < uint b"; simp only: 2 3 4 simp_thms)
  qed
  let ?P = "\<lambda>(buf', rest'). \<exists>m. buf' = buf[n := buf ! n - of_nat m] \<and> uint rest' = uint rest + int m * uint tk \<and> uint rest' \<le> uint U \<and>
      (\<forall>d i. of_int (uint s) < d \<longrightarrow> i \<le> m \<longrightarrow> \<bar>of_int (uint rest') - d\<bar> \<le> \<bar>of_int (uint rest + int i * uint tk) - (d :: real)\<bar>)"
  have final: "ok (if rest' < b \<and> U - rest' \<ge> tk \<and> (rest' + tk < b \<or> b - rest' > rest' + tk - b) then Some (False, buf')
       else Some (2 * unit \<le> rest' \<and> rest' \<le> U - 4 * unit, buf')) Q" if P: "?P (buf', rest')" for buf' rest'
  proof -
    obtain m where m: "buf' = buf[n := buf ! n - of_nat m]" "uint rest' = uint rest + int m * uint tk" "uint rest' \<le> uint U"
      "\<And>d i. of_int (uint s) < d \<Longrightarrow> i \<le> m \<Longrightarrow> \<bar>of_int (uint rest') - d\<bar> \<le> \<bar>of_int (uint rest + int i * uint tk) - (d :: real)\<bar>"
      using P unfolding prod.case by blast
    have le: "uint rest + int m * uint tk \<le> uint U" using m by simp
    show ?thesis unfolding tests(2)[OF m(3)]
    proof (subst ok_if, intro conjI impI)
      show "ok (Some (False, buf')) Q" unfolding ok_Some m(1) by (rule Q[OF le]) simp
      assume stop: "\<not> (uint rest' < uint b \<and> uint tk \<le> uint U - uint rest' \<and> (uint rest' + uint tk < uint b \<or> uint rest' + uint tk - uint b < uint b - uint rest'))"
      show "ok (Some (2 * unit \<le> rest' \<and> rest' \<le> U - 4 * unit, buf')) Q"
        unfolding ok_Some m(1)
      proof (rule Q[OF le])
        assume safe: "2 * unit \<le> rest' \<and> rest' \<le> U - 4 * unit"
        have "uint (U - 4 * unit) = uint U - 4 * uint unit" using U(2) u4 by (subst word_sub) simp_all
        then have "2 * uint unit \<le> uint rest'" "uint rest' \<le> uint U - 4 * uint unit" using safe u4 by (simp_all add: word_le_def)
        moreover have "\<bar>of_int (uint rest + int m * uint tk) - d\<bar> \<le> \<bar>of_int (uint rest + int j * uint tk) - d\<bar>"
          if d: "of_int (uint dw - uint unit) < d" "d < of_int (uint dw + uint unit)" and j: "uint rest + int j * uint tk \<le> uint U" for d :: real and j
        proof (cases "j \<le> m")
          case True
          then show ?thesis using m(4)[of d j] d(1) unfolding sb m(2) by blast
        next
          case False
          have "uint rest + int j * uint tk = uint rest' + int (j - m) * uint tk" using False by (simp add: m(2) algebra_simps)
          then show ?thesis using weed_stop[OF stop _ _ j tk, of d "j - m"] d(2) unfolding sb m(2)[symmetric] by blast
        qed
        ultimately show "weeded (uint dw) (uint unit) (uint U) (uint rest) (uint tk) m" unfolding weeded_def m(2) by blast
      qed
    qed
  qed
  have e: "ensure (rest \<le> U) = Some ()" using U(1) by (simp add: ensure_def word_le_def)
  show ?thesis unfolding RoundWeed_def Let_def s_def[symmetric] b_def[symmetric] e bind.simps
  proof (subst ok_bind, rule ok_while_do[where P = ?P and m = "\<lambda>(buf, rest). nat (2 ^ 64 - uint rest)"], goal_cases)
    case 1
    have "buf[n := buf ! n - of_nat 0] = buf" by simp
    then show ?case using U(1) by (auto intro!: exI[of _ 0])
  next
    case (2 t)
    obtain buf' rest' where t: "t = (buf', rest')" by (cases t)
    obtain m where m: "buf' = buf[n := buf ! n - of_nat m]" "uint rest' = uint rest + int m * uint tk" "uint rest' \<le> uint U"
      "\<And>d i. of_int (uint s) < d \<Longrightarrow> i \<le> m \<Longrightarrow> \<bar>of_int (uint rest') - d\<bar> \<le> \<bar>of_int (uint rest + int i * uint tk) - (d :: real)\<bar>"
      using 2 unfolding t prod.case by blast
    let ?g = "uint rest' < uint s \<and> uint tk \<le> uint U - uint rest' \<and> (uint rest' + uint tk < uint s \<or> uint rest' + uint tk - uint s \<le> uint s - uint rest')"
    show ?case unfolding t prod.case tests(1)[OF m(3)] ok_Some
    proof (cases ?g)
      case False
      show "if ?g then ok (Option.bind (rd buf' (int n + 1 - 1)) (\<lambda>c. Option.bind (wr buf' (int n + 1 - 1) (c - 1)) (\<lambda>buffer. Some (buffer, rest' + tk))))
          (\<lambda>u. ?P u \<and> (case u of (buf, rest) \<Rightarrow> nat (2 ^ 64 - uint rest)) < nat (2 ^ 64 - uint rest'))
        else ok (if rest' < b \<and> U - rest' \<ge> tk \<and> (rest' + tk < b \<or> b - rest' > rest' + tk - b) then Some (False, buf')
          else Some (2 * unit \<le> rest' \<and> rest' \<le> U - 4 * unit, buf')) Q"
        using final[of buf' rest'] 2[unfolded t] False by (simp only: if_False)
    next
      case True
      have ra: "uint (rest' + tk) = uint rest' + uint tk" using True Ub by (intro word_add) linarith
      have r: "rd buf' (int n + 1 - 1) = Some (buf ! n - of_nat m)" "wr buf' (int n + 1 - 1) (buf ! n - of_nat m - 1) = Some (buf[n := buf ! n - of_nat (Suc m)])"
        using len by (simp_all add: rd_def wr_def m(1) diff_diff_eq add.commute)
      have "?P (buf[n := buf ! n - of_nat (Suc m)], rest' + tk)"
        unfolding prod.case
      proof (intro exI[of _ "Suc m"] conjI allI impI)
        show "uint (rest' + tk) = uint rest + int (Suc m) * uint tk" unfolding ra m(2) by (simp add: distrib_right)
        show "uint (rest' + tk) \<le> uint U" using True unfolding ra by linarith
        fix d :: real and i assume d: "of_int (uint s) < d" and i: "i \<le> Suc m"
        have step: "\<bar>of_int (uint (rest' + tk)) - d\<bar> \<le> \<bar>of_int (uint rest') - d\<bar>"
          unfolding ra by (rule weed_step[OF _ _ d tk]) (use True in auto)
        show "\<bar>of_int (uint (rest' + tk)) - d\<bar> \<le> \<bar>of_int (uint rest + int i * uint tk) - d\<bar>"
        proof (cases "i = Suc m")
          case True
          then show ?thesis unfolding ra m(2) by (simp add: distrib_right add.assoc)
        next
          case False
          then show ?thesis using step m(4)[OF d, of i] i by linarith
        qed
      qed simp
      moreover have "nat (2 ^ 64 - uint (rest' + tk)) < nat (2 ^ 64 - uint rest')" using ra tk m(3) Ub by linarith
      ultimately show "if ?g then ok (Option.bind (rd buf' (int n + 1 - 1)) (\<lambda>c. Option.bind (wr buf' (int n + 1 - 1) (c - 1)) (\<lambda>buffer. Some (buffer, rest' + tk))))
          (\<lambda>u. ?P u \<and> (case u of (buf, rest) \<Rightarrow> nat (2 ^ 64 - uint rest)) < nat (2 ^ 64 - uint rest'))
        else ok (if rest' < b \<and> U - rest' \<ge> tk \<and> (rest' + tk < b \<or> b - rest' > rest' + tk - b) then Some (False, buf')
          else Some (2 * unit \<le> rest' \<and> rest' \<le> U - 4 * unit, buf')) Q"
        using True unfolding r bind.simps ok_Some by (simp only: if_True prod.case simp_thms)
    qed
  qed
qed


section \<open>The digits after weeding\<close>

text \<open>
  The bounds are \<open>l\<close> and \<open>h\<close>, the number is \<open>x\<close>, all known up to one; the digits \<open>E\<close> stand for
  \<open>E * tk / unit\<close>.
\<close>

definition grisu_ok :: "int \<Rightarrow> int \<Rightarrow> int \<Rightarrow> int \<Rightarrow> int \<Rightarrow> int \<Rightarrow> nat \<Rightarrow> bool" where
  "grisu_ok l x h tk unit E n \<longleftrightarrow> 10 ^ n \<le> E \<and> E < 10 ^ Suc n \<and> (l + 3) * unit \<le> E * tk \<and> E * tk \<le> (h - 1) * unit \<and>
     (\<forall>F. \<not> ((l - 1) * unit < F * (10 * tk) \<and> F * (10 * tk) \<le> (h + 1) * unit)) \<and>
     (\<forall>F X. \<bar>X - of_int x\<bar> < 1 \<longrightarrow> (l - 1) * unit \<le> F * tk \<longrightarrow> F * tk \<le> (h + 1) * unit \<longrightarrow>
        \<bar>of_int (E * tk) - X * of_int unit\<bar> \<le> \<bar>of_int (F * tk) - (X :: real) * of_int unit\<bar>)"

lemma grisu_okI:
  assumes th: "(h + 1) * unit = (10 * D' + d) * tk + rest" and rest: "0 \<le> rest" "rest < tk" and d: "d \<le> 9"
    and prev: "(h - l + 2) * unit \<le> d * tk + rest" and D': "0 \<le> D'" "n = 0 \<and> D' = 0 \<or> 0 < n \<and> 10 ^ (n - 1) \<le> D'" "D' < 10 ^ n"
    and unit: "1 \<le> unit" and w: "weeded ((h + 1 - x) * unit) unit ((h - l + 2) * unit) rest tk m"
  shows "grisu_ok l x h tk unit (10 * D' + d - int m) n" "int m < d"
proof -
  have tk: "0 < tk" using rest by simp
  note W = w[unfolded weeded_def]
  have "rest + int m * tk < d * tk + rest" using W prev unit by linarith
  then have "int m * tk < d * tk" by simp
  then show md: "int m < d" using tk by simp
  define E where "E = 10 * D' + d - int m"
  have Et: "E * tk = (h + 1) * unit - (rest + int m * tk)" unfolding th E_def by (simp add: algebra_simps)
  have E1: "10 ^ n \<le> E"
  proof (cases n)
    case 0
    then show ?thesis using D' md by (simp add: E_def)
  next
    case (Suc i)
    then have "10 ^ i \<le> D'" using D'(2) by simp
    then show ?thesis using md by (simp add: E_def Suc)
  qed
  have E2: "E < 10 ^ Suc n" using D'(3) d by (simp add: E_def)
  have safe: "(l + 3) * unit \<le> E * tk" "E * tk \<le> (h - 1) * unit"
    using W unfolding Et by (simp_all add: algebra_simps)
  have none: "\<not> ((l - 1) * unit < F * (10 * tk) \<and> F * (10 * tk) \<le> (h + 1) * unit)" for F
  proof
    assume F: "(l - 1) * unit < F * (10 * tk) \<and> F * (10 * tk) \<le> (h + 1) * unit"
    have th': "(h + 1) * unit = D' * (10 * tk) + (d * tk + rest)" unfolding th by (simp add: algebra_simps)
    have d9: "d * tk \<le> 9 * tk" by (rule mult_right_mono[OF d]) (use tk in simp)
    have "(D' + 1) * (10 * tk) = D' * (10 * tk) + 10 * tk" by (simp add: distrib_right)
    then have "F * (10 * tk) < (D' + 1) * (10 * tk)" using F rest th' d9 by linarith
    then have "F \<le> D'" using tk by simp
    then have "F * (10 * tk) \<le> D' * (10 * tk)" by (rule mult_right_mono) (use tk in simp)
    then have "(h - l + 2) * unit \<le> (h + 1) * unit - F * (10 * tk)" using prev th' by linarith
    then show False using F by (simp add: algebra_simps)
  qed
  have best: "\<bar>of_int (E * tk) - X * of_int unit\<bar> \<le> \<bar>of_int (F * tk) - (X :: real) * of_int unit\<bar>"
    if X: "\<bar>X - of_int x\<bar> < 1" and F: "(l - 1) * unit \<le> F * tk" "F * tk \<le> (h + 1) * unit" for F X
  proof -
    have "F * tk < (10 * D' + d + 1) * tk" using F(2) rest unfolding th by (simp add: distrib_right)
    then have Fle: "F \<le> 10 * D' + d" using tk by simp
    define j where "j = nat (10 * D' + d - F)"
    have j: "F = 10 * D' + d - int j" using Fle by (simp add: j_def)
    have Ft: "F * tk = (h + 1) * unit - (rest + int j * tk)" unfolding th j by (simp add: algebra_simps)
    have ur: "0 < real_of_int unit" using unit by simp
    define y where "y = (of_int (h + 1) - X) * real_of_int unit"
    have "of_int ((h + 1 - x) * unit - unit) < y" "y < of_int ((h + 1 - x) * unit + unit)"
    proof -
      have e: "real_of_int ((h + 1 - x) * unit - unit) = (of_int (h + 1) - (of_int x + 1)) * of_int unit"
          "real_of_int ((h + 1 - x) * unit + unit) = (of_int (h + 1) - (of_int x - 1)) * of_int unit" by (simp_all add: algebra_simps)
      show "of_int ((h + 1 - x) * unit - unit) < y" "y < of_int ((h + 1 - x) * unit + unit)"
        unfolding e y_def using X ur by (simp_all add: mult_less_cancel_right_pos abs_less_iff)
    qed
    moreover have "rest + int j * tk \<le> (h - l + 2) * unit" using F(1) unfolding Ft by (simp add: algebra_simps)
    ultimately have "\<bar>of_int (rest + int m * tk) - y\<bar> \<le> \<bar>of_int (rest + int j * tk) - y\<bar>" using W by blast
    moreover have "of_int (E * tk) - X * of_int unit = - (of_int (rest + int m * tk) - y)"
        "of_int (F * tk) - X * of_int unit = - (of_int (rest + int j * tk) - y)"
      unfolding Et Ft y_def by (simp_all add: algebra_simps)
    ultimately show ?thesis by (simp only: abs_minus_cancel)
  qed
  show "grisu_ok l x h tk unit (10 * D' + d - int m) n"
    unfolding grisu_ok_def E_def[symmetric] using E1 E2 safe none best by blast
qed

lemma digit_of_minus:
  assumes "digit_of c = d" "0 \<le> d" "d \<le> 9" "int m \<le> d"
  shows "digit_of (c - of_nat m) = d - int m"
proof -
  have c: "uint c = d + 48" using assms(1) by (simp add: digit_of_def)
  have m: "uint (of_nat m :: u8) = int m" using assms by (simp add: unsigned_of_nat take_bit_eq_mod)
  have "uint (c - of_nat m) = uint c - uint (of_nat m :: u8)" by (rule uint_sub_exact) (use assms c m in simp)
  then show ?thesis using c m by (simp add: digit_of_def)
qed

lemma ok_weed_digits:
  assumes n: "n < length buf" and dig: "digits (take (Suc n) buf)"
    and D': "n = 0 \<or> 10 ^ (n - 1) \<le> dec_val (take n buf)"
    and th: "(h + 1) * uint unit = dec_val (take (Suc n) buf) * uint tk + uint rest" and rest: "uint rest < uint tk"
    and prev: "(h - l + 2) * uint unit \<le> digit_of (buf ! n) * uint tk + uint rest" "uint rest < (h - l + 2) * uint unit"
    and lxh: "l \<le> x" "x \<le> h" "l + 2 \<le> h" and unit: "1 \<le> uint unit"
    and U: "uint U = (h - l + 2) * uint unit" and dw: "uint dw = (h + 1 - x) * uint unit"
    and Q: "\<And>res buf'. length buf' = length buf \<Longrightarrow> drop (Suc n) buf' = drop (Suc n) buf \<Longrightarrow>
       (res \<Longrightarrow> digits (take (Suc n) buf') \<and> grisu_ok l x h (uint tk) (uint unit) (dec_val (take (Suc n) buf')) n) \<Longrightarrow> Q (res, buf')"
  shows "ok (RoundWeed buf (int n + 1) dw U rest tk unit) Q"
proof (rule ok_RoundWeed[OF n unit])
  have u0: "0 < uint unit" using unit by simp
  have "1 * uint unit \<le> (h + 1 - x) * uint unit" by (rule mult_right_mono) (use lxh unit in simp_all)
  then show "uint unit \<le> uint dw" unfolding dw by simp
  have "(h + 1 - x) * uint unit + uint unit \<le> (h - l + 2) * uint unit"
  proof -
    have "(h + 1 - x + 1) * uint unit \<le> (h - l + 2) * uint unit" by (rule mult_right_mono) (use lxh unit in simp_all)
    moreover have "(h + 1 - x + 1) * uint unit = (h + 1 - x) * uint unit + uint unit" by (simp only: distrib_right mult_1)
    ultimately show ?thesis by linarith
  qed
  then show "uint dw + uint unit < 2 ^ 64" using uint_lt_2p[of U] unfolding dw U[symmetric] by simp
  have "4 * uint unit \<le> (h - l + 2) * uint unit" by (rule mult_right_mono) (use lxh unit in simp_all)
  then show "4 * uint unit \<le> uint U" unfolding U .
  show "uint rest \<le> uint U" using prev(2) unfolding U by simp
  show "0 < uint tk" using rest uint_nonnegative[of rest] by linarith
  fix m res
  assume W: "res \<Longrightarrow> weeded (uint dw) (uint unit) (uint U) (uint rest) (uint tk) m"
  have tS: "take (Suc n) buf = take n buf @ [buf ! n]" by (rule take_Suc_conv_app_nth[OF n])
  have dn: "digits (take n buf)" "0 \<le> digit_of (buf ! n)" "digit_of (buf ! n) \<le> 9" using dig unfolding tS by simp_all
  have th': "(h + 1) * uint unit = (10 * dec_val (take n buf) + digit_of (buf ! n)) * uint tk + uint rest"
    using th unfolding tS dec_val_snoc by (simp add: mult.commute)
  have D: "0 \<le> dec_val (take n buf)" "dec_val (take n buf) < 10 ^ n" using dec_val_bounds[OF dn(1)] n by simp_all
  have D2: "n = 0 \<and> dec_val (take n buf) = 0 \<or> 0 < n \<and> 10 ^ (n - 1) \<le> dec_val (take n buf)" using D' by (cases n) auto
  show "Q (res, buf[n := buf ! n - of_nat m])"
  proof (rule Q)
    show "digits (take (Suc n) (buf[n := buf ! n - of_nat m])) \<and>
        grisu_ok l x h (uint tk) (uint unit) (dec_val (take (Suc n) (buf[n := buf ! n - of_nat m]))) n" if res
    proof -
      note G = grisu_okI[OF th' uint_nonnegative rest dn(3) prev(1) D(1) D2 D(2) unit W[OF that, unfolded dw U]]
      have dm: "digit_of (buf ! n - of_nat m) = digit_of (buf ! n) - int m"
        by (rule digit_of_minus[OF refl dn(2,3)]) (use G(2) in simp)
      show ?thesis unfolding take_write[OF n] dec_val_snoc dm
        using G dn dm by (simp add: mult.commute add_diff_eq)
    qed
  qed simp_all
qed

end
