(* ===== verification/Grisu_Digits.thy ===== *)
theory Grisu_Digits
  imports Grisu_Weed
begin

text \<open>\<open>DigitGen\<close> (\<open>fast-dtoa.cc\<close>): the digit loops stop inside the unsafe interval before the eighteenth digit.\<close>


section \<open>The digit loops\<close>

definition grisu_result :: "int \<Rightarrow> int \<Rightarrow> int \<Rightarrow> int \<Rightarrow> u8 list \<Rightarrow> bool \<times> u8 list \<times> int \<times> int \<Rightarrow> bool" where
  "grisu_result l x h q buf = (\<lambda>(res, buf', len, kappa). \<exists>n\<le>16. len = int n + 1 \<and> length buf' = length buf \<and>
     drop (Suc n) buf' = drop (Suc n) buf \<and>
     (res \<longrightarrow> digits (take (Suc n) buf') \<and>
       (\<exists>tk unit. 1 \<le> unit \<and> 0 < tk \<and> of_int tk / of_int unit = (10 powi kappa * 2 powi (- q) :: real) \<and>
         grisu_ok l x h tk unit (dec_val (take (Suc n) buf')) n)))"

text \<open>The loops stop before the eighteenth digit.\<close>

lemma digits_left:
  assumes th: "(h + 1) * unit = (D :: int) * tk + r" "U * unit \<le> r" "r < tk" "0 \<le> r" and D: "n = 0 \<or> 10 ^ (n - 1) \<le> D"
    and U: "h + 1 \<le> U * 10 ^ 16" "0 < U" and unit: "1 \<le> unit"
  shows "n \<le> 16"
proof (rule ccontr)
  assume n: "\<not> n \<le> 16"
  then have "(10::int) ^ 16 \<le> 10 ^ (n - 1)" by (intro power_increasing) simp_all
  then have D: "10 ^ 16 \<le> D" using D n by auto
  have "U * unit < tk" using th by simp
  then have "10 ^ 16 * (U * unit) < 10 ^ 16 * tk" by simp
  also have "\<dots> \<le> D * tk" by (rule mult_right_mono[OF D]) (use th in simp)
  also have "\<dots> \<le> (h + 1) * unit" using th by simp
  also have "\<dots> \<le> U * 10 ^ 16 * unit" by (rule mult_right_mono[OF U(1)]) (use unit in simp)
  finally show False by simp
qed

lemma c_int_digit: "uint d \<le> 9 \<Longrightarrow> c_int d = uint d"
proof -
  assume d: "uint d \<le> 9"
  have "uint (ucast d :: u32) = uint d" using d by (simp add: unsigned_ucast_eq take_bit_eq_mod)
  then show ?thesis using sint_small[of "ucast d"] d by (simp add: c_int_def)
qed

lemma digit_of_int:
  assumes "0 \<le> d" "d \<le> 9"
  shows "digit_of (word_of_int (uint (ch CHR ''0'') + d)) = d"
proof -
  have "uint (word_of_int (48 + d) :: u8) = 48 + d" using assms by (simp only: uint_word_of_int) simp
  then show ?thesis by (simp add: digit_of_def)
qed

lemma snoc_digit:
  assumes "n < length buf" "digits (take n buf)" "0 \<le> d" "d \<le> 9"
  defines "buf' \<equiv> buf[n := word_of_int (uint (ch CHR ''0'') + d)]"
  shows "take (Suc n) buf' = take n buf @ [word_of_int (uint (ch CHR ''0'') + d)]" "digits (take (Suc n) buf')"
    "dec_val (take (Suc n) buf') = 10 * dec_val (take n buf) + d" "digit_of (buf' ! n) = d" "take n buf' = take n buf"
    "length buf' = length buf" "drop (Suc n) buf' = drop (Suc n) buf"
proof -
  show t: "take (Suc n) buf' = take n buf @ [word_of_int (uint (ch CHR ''0'') + d)]" unfolding buf'_def by (rule take_write[OF assms(1)])
  show "digits (take (Suc n) buf')" "dec_val (take (Suc n) buf') = 10 * dec_val (take n buf) + d"
    unfolding t dec_val_snoc using assms digit_of_int[OF assms(3,4)] by (simp_all only: digits_append digits_Cons digits_Nil simp_thms mult.commute)
  show "digit_of (buf' ! n) = d" using assms digit_of_int[OF assms(3,4)] by (simp only: buf'_def nth_list_update_eq)
qed (simp_all add: buf'_def)

definition grisu_context :: "diyfp \<Rightarrow> diyfp \<Rightarrow> diyfp \<Rightarrow> int \<Rightarrow> int \<Rightarrow> int \<Rightarrow> int \<Rightarrow> bool" where
  "grisu_context w too_high one l x h q \<longleftrightarrow>
     fp_e one = q \<and> - 60 \<le> q \<and> q \<le> - 32 \<and> uint (fp_f one) = 2 ^ nat (- q) \<and>
     fp_e too_high = fp_e w \<and> uint (fp_f too_high) = h + 1 \<and> uint (fp_f w) = x \<and>
     1 \<le> l \<and> l \<le> x \<and> x \<le> h \<and> l + 2 \<le> h \<and> h + 1 \<le> (h - l + 2) * 10 ^ 16"

lemma grisu_Minus:
  assumes "grisu_context w too_high one l x h q"
  obtains d where "Minus too_high w = Some d" "uint (fp_f d) = h + 1 - x"
proof -
  have c: "fp_e too_high = fp_e w" "uint (fp_f too_high) = h + 1" "uint (fp_f w) = x" "x \<le> h" using assms by (simp_all add: grisu_context_def)
  have le: "fp_f too_high \<ge> fp_f w" using c by (simp add: word_le_def)
  have "Minus too_high w = Some (too_high\<lparr>fp_f := fp_f too_high - fp_f w\<rparr>)"
    using c le by (simp add: Minus_def Subtract_def ensure_def)
  moreover have "uint (fp_f (too_high\<lparr>fp_f := fp_f too_high - fp_f w\<rparr>)) = h + 1 - x" using c by (simp add: word_sub)
  ultimately show thesis by (rule that)
qed

lemma grisu_finish:
  assumes C: "grisu_context w too_high one l x h q" and n: "n \<le> 16" "n < length buf"
    and dig: "digits (take (Suc n) buf)" and D': "n = 0 \<or> 10 ^ (n - 1) \<le> dec_val (take n buf)"
    and th: "(h + 1) * uint unit = dec_val (take (Suc n) buf) * uint tk + uint rest" and rest: "uint rest < uint tk"
    and prev: "(h - l + 2) * uint unit \<le> digit_of (buf ! n) * uint tk + uint rest" "uint rest < (h - l + 2) * uint unit"
    and unit: "1 \<le> uint unit" and U: "uint U = (h - l + 2) * uint unit" and dw: "uint dw = (h + 1 - x) * uint unit"
    and tk: "of_int (uint tk) / of_int (uint unit) = (10 powi kappa * 2 powi (- q) :: real)"
    and frame: "length buf = length buf0" "drop (Suc n) buf = drop (Suc n) buf0"
  shows "ok (do { (result, buffer) \<leftarrow> RoundWeed buf (int n + 1) dw U rest tk unit; Some (result, buffer, int n + 1, kappa) }) (grisu_result l x h q buf0)"
proof (subst ok_bind, rule ok_weed_digits[OF n(2) dig D' th rest prev _ _ _ unit U dw], goal_cases)
  case (4 res buf')
  have tk0: "0 < uint tk" using rest uint_nonnegative[of rest] by linarith
  show ?case unfolding prod.case ok_Some grisu_result_def
    by (intro exI[of _ n] conjI) (use 4 n frame tk tk0 unit in \<open>simp_all del: of_int_eq_iff, blast?\<close>)
qed (use C in \<open>simp_all add: grisu_context_def\<close>)

lemma ok_digit_gen_fractionals:
  assumes C: "grisu_context w too_high one l x h q" and buf: "17 \<le> length buf0"
    and n: "0 < n" "digits (take n buf)" "10 ^ (n - 1) \<le> dec_val (take n buf)" "length buf = length buf0" "drop n buf = drop n buf0"
    and fr: "uint fr < 2 ^ nat (- q)" "(h - l + 2) * uint unit \<le> uint fr" "uint U = (h - l + 2) * uint unit"
    and th: "(h + 1) * uint unit = dec_val (take n buf) * 2 ^ nat (- q) + uint fr"
    and unit: "uint unit = 10 ^ i"
  shows "ok (digit_gen_fractionals w too_high one fr U unit buf (int n) (- int i)) (grisu_result l x h q buf0)"
  using n fr th unit
proof (induction "17 - n" arbitrary: n buf fr U unit i rule: less_induct)
  case less
  note n = less.prems(1-5) and fr = less.prems(6-8) and th = less.prems(9) and unit = less.prems(10)
  define b where "b = nat (- q)"
  have c: "fp_e one = q" "uint (fp_f one) = 2 ^ b" "b \<le> 60" "32 \<le> b" "- q = int b" "1 \<le> l" "l \<le> x" "x \<le> h" "l + 2 \<le> h" "h + 1 \<le> (h - l + 2) * 10 ^ 16"
  proof -
    have q: "- 60 \<le> q" "q \<le> - 32" using C unfolding grisu_context_def by blast+
    then show "b \<le> 60" "32 \<le> b" "- q = int b" by (simp_all add: b_def)
  qed (use C in \<open>unfold grisu_context_def b_def, blast+\<close>)
  note fr = fr[folded b_def] and th = th[folded b_def]
  have u1: "1 \<le> uint unit" unfolding unit by simp
  have n16: "n \<le> 16"
    by (rule digits_left[OF th fr(2,1) uint_nonnegative _ c(10) _ u1]) (use n(3) c in simp_all)
  have nl: "n < length buf" using n16 n(4) buf by simp
  have b60: "(2::int) ^ b \<le> 2 ^ 60" by (rule power_increasing[OF c(3)]) simp
  have un: "1 * uint unit \<le> (h - l + 2) * uint unit" by (rule mult_right_mono) (use c in simp_all)
  have frb: "uint fr < 2 ^ 60" using fr(1) b60 by linarith
  have ten: "uint (y * 10) = uint y * 10" if "uint y \<le> uint fr" for y :: u64
    using that frb by (subst uint_mult_exact) simp_all
  have fr10: "uint (fr * 10) = uint fr * 10" by (rule ten) simp
  have U10: "uint (U * 10) = uint U * 10" by (rule ten) (use fr in linarith)
  have unit10: "uint (unit * 10) = uint unit * 10" by (rule ten) (use fr un in linarith)
  define d where "d = drop_bit b (fr * 10)"
  define fr' where "fr' = (fr * 10) AND (fp_f one - 1)"
  have d: "uint d = uint fr * 10 div 2 ^ b" by (simp only: d_def uint_drop_bit fr10)
  have one_mask: "fp_f one - 1 = mask b"
  proof -
    have "(2::int) ^ b < 2 ^ 64" by (rule power_strict_increasing) (use c(3) in simp_all)
    then have "uint (push_bit b (1 :: u64)) = 2 ^ b" by (subst uint_push_bit_exact) simp_all
    then have "fp_f one = 2 ^ b" using c(2) by (simp add: word_uint_eq_iff push_bit_of_1)
    then show ?thesis by (simp add: mask_eq_decr_exp)
  qed
  have fr': "uint fr' = uint fr * 10 mod 2 ^ b" by (simp only: fr'_def one_mask uint_and_mask fr10)
  have dm: "uint fr * 10 = uint d * 2 ^ b + uint fr'" unfolding d fr' by (rule div_mult_mod_eq[symmetric])
  have fr'b: "uint fr' < 2 ^ b" unfolding fr' by simp
  have d9: "uint d \<le> 9"
  proof -
    have "uint d < 10" unfolding d by (rule div_less_mult) (use fr(1) in simp_all)
    then show ?thesis by simp
  qed
  have sh: "shr64 (fr * 10) (- fp_e one) = Some d" using c by (simp add: shr64_def d_def)
  define buf' where "buf' = buf[n := word_of_int (uint (ch CHR ''0'') + uint d)]"
  note S = snoc_digit[OF nl n(2) uint_nonnegative d9, folded buf'_def]
  have w: "wr buf (int n) (word_of_int (uint (ch CHR ''0'') + c_int d)) = Some buf'"
    using nl by (simp add: wr_def buf'_def c_int_digit[OF d9])
  have e: "ensure (c_int d \<le> 9) = Some ()" using d9 by (simp add: ensure_def c_int_digit)
  have th': "(h + 1) * uint (unit * 10) = dec_val (take (Suc n) buf') * 2 ^ b + uint fr'"
    unfolding unit10 S(3) using th dm by (simp add: algebra_simps)
  have dr: "drop (Suc n) buf' = drop (Suc n) buf0" using S(7) arg_cong[OF n(5), of "drop 1"] by simp
  have D1: "10 ^ n \<le> dec_val (take (Suc n) buf')"
  proof -
    have "10 ^ n = 10 * (10 ^ (n - 1) :: int)" using n(1) by (cases n) simp_all
    then show ?thesis unfolding S(3) using n(3) uint_nonnegative[of d] by linarith
  qed
  have U': "uint (U * 10) = (h - l + 2) * uint (unit * 10)" unfolding U10 unit10 fr(3) by simp
  have "ok (if fr' < U * 10 then do {
        too_high_w \<leftarrow> Minus too_high w;
        (result, buffer) \<leftarrow> RoundWeed buf' (int n + 1) (fp_f too_high_w * (unit * 10)) (U * 10) fr' (fp_f one) (unit * 10);
        Some (result, buffer, int n + 1, - int i - 1) }
      else digit_gen_fractionals w too_high one fr' (U * 10) (unit * 10) buf' (int n + 1) (- int i - 1)) (grisu_result l x h q buf0)"
  proof (subst ok_if, intro conjI impI)
    assume "fr' < U * 10"
    then have lt: "uint fr' < (h - l + 2) * uint (unit * 10)" unfolding word_less_def U' .
    obtain tw where tw: "Minus too_high w = Some tw" "uint (fp_f tw) = h + 1 - x" by (rule grisu_Minus[OF C])
    have "(h + 1 - x) * uint (unit * 10) \<le> (h - l + 2) * uint (unit * 10)" by (rule mult_right_mono) (use c in simp_all)
    then have "(h + 1 - x) * uint (unit * 10) < 2 ^ 64" using U' uint_lt_2p[of "U * 10"] by simp
    then have dw: "uint (fp_f tw * (unit * 10)) = (h + 1 - x) * uint (unit * 10)" using tw(2) by (subst uint_mult_exact) simp_all
    show "ok (do {
        too_high_w \<leftarrow> Minus too_high w;
        (result, buffer) \<leftarrow> RoundWeed buf' (int n + 1) (fp_f too_high_w * (unit * 10)) (U * 10) fr' (fp_f one) (unit * 10);
        Some (result, buffer, int n + 1, - int i - 1) }) (grisu_result l x h q buf0)"
      unfolding tw(1) bind.simps
    proof (rule grisu_finish[OF C n16 _ S(2) _ _ _ _ lt _ U' dw _ _ dr])
      show "n < length buf'" "length buf' = length buf0" using nl n(4) S(6) by simp_all
      show "n = 0 \<or> 10 ^ (n - 1) \<le> dec_val (take n buf')" using n(3) S(5) by simp
      show "(h + 1) * uint (unit * 10) = dec_val (take (Suc n) buf') * uint (fp_f one) + uint fr'" using th' by (simp only: c(2))
      show "uint fr' < uint (fp_f one)" using fr'b by (simp only: c(2))
      show "(h - l + 2) * uint (unit * 10) \<le> digit_of (buf' ! n) * uint (fp_f one) + uint fr'"
        unfolding S(4) c(2) dm[symmetric] unit10 using fr(2) by simp
      show "1 \<le> uint (unit * 10)" unfolding unit10 using u1 by simp
      have ui: "uint (unit * 10) = 10 ^ Suc i" unfolding unit10 unit by simp
      have "- int i - 1 = - int (Suc i)" by simp
      then show "of_int (uint (fp_f one)) / of_int (uint (unit * 10)) = (10 powi (- int i - 1) * 2 powi (- q) :: real)"
        unfolding ui c(2,5) by (simp only: power_int_minus power_int_of_nat) (simp add: field_simps)
    qed
  next
    assume "\<not> fr' < U * 10"
    have suc: "int (Suc n) = int n + 1" "- int (Suc i) = - int i - 1" by simp_all
    from \<open>\<not> fr' < U * 10\<close> have ge: "(h - l + 2) * uint (unit * 10) \<le> uint fr'" unfolding word_less_def U' by simp
    have "ok (digit_gen_fractionals w too_high one fr' (U * 10) (unit * 10) buf' (int (Suc n)) (- int (Suc i))) (grisu_result l x h q buf0)"
      by (rule less.hyps) (use n16 S(2) D1 n(4) S(6) dr fr'b ge U' th' unit unit10 in \<open>simp_all add: b_def\<close>)
    then show "ok (digit_gen_fractionals w too_high one fr' (U * 10) (unit * 10) buf' (int n + 1) (- int i - 1)) (grisu_result l x h q buf0)"
      by (simp only: suc)
  qed
  then show ?case
    by (subst digit_gen_fractionals.simps) (simp only: Let_def sh e w bind.simps fr'_def[symmetric])
qed

lemma ok_digit_gen_integrals:
  assumes C: "grisu_context w too_high one l x h q" and buf: "17 \<le> length buf0"
    and n: "digits (take n buf)" "length buf = length buf0" "drop n buf = drop n buf0"
    and I: "uint I < 10 ^ k" "0 < k \<Longrightarrow> uint dv = 10 ^ (k - 1)" and fr: "uint fr < 2 ^ nat (- q)" and U: "uint U = h - l + 2"
    and th: "h + 1 = (dec_val (take n buf) * 10 ^ k + uint I) * 2 ^ nat (- q) + uint fr"
    and state: "n = 0 \<and> 0 < k \<and> 10 ^ (k - 1) \<le> uint I \<or> 0 < n \<and> 10 ^ (n - 1) \<le> dec_val (take n buf) \<and> h - l + 2 \<le> uint I * 2 ^ nat (- q) + uint fr"
  shows "ok (digit_gen_integrals w too_high one fr U 1 I dv buf (int n) (int k)) (grisu_result l x h q buf0)"
  using n I th state
proof (induction k arbitrary: n buf I dv)
  case 0
  note n = 0(1-3) and I = 0(4,5) and th = 0(6) and state = 0(7)
  have c: "fp_e one = q" "uint (fp_f one) = 2 ^ nat (- q)" "- 60 \<le> q" "q \<le> - 32" using C unfolding grisu_context_def by blast+
  have I0: "uint I = 0"
  proof -
    have "uint I < 1" using I(1) by simp
    then show ?thesis using uint_nonnegative[of I] by linarith
  qed
  have b60: "(2::int) ^ nat (- q) \<le> 2 ^ 60" by (rule power_increasing) (use c in simp_all)
  have e: "ensure (fp_e one \<ge> -60) = Some ()" "ensure (fr < fp_f one) = Some ()" "ensure (0xFFFFFFFFFFFFFFFF div 10 \<ge> fp_f one) = Some ()"
    using c fr b60 by (simp_all add: ensure_def word_less_def word_le_def)
  have "ok (digit_gen_fractionals w too_high one fr U 1 buf (int n) (- int 0)) (grisu_result l x h q buf0)"
    by (rule ok_digit_gen_fractionals[OF C buf _ n(1) _ n(2,3) fr]) (use th state U I0 in simp_all)
  moreover have z: "int 0 = 0" by simp
  ultimately show ?case by (subst digit_gen_integrals.simps) (simp only: z minus_zero less_irrefl if_False e bind.simps)
next
  case (Suc k)
  note n = Suc.prems(1-3) and I = Suc.prems(4,5) and th = Suc.prems(6) and state = Suc.prems(7)
  define b where "b = nat (- q)"
  have c: "fp_e one = q" "b \<le> 60" "32 \<le> b" "- q = int b" "1 \<le> l" "l \<le> x" "x \<le> h" "l + 2 \<le> h" "h + 1 \<le> (h - l + 2) * 10 ^ 16"
  proof -
    have q: "- 60 \<le> q" "q \<le> - 32" using C unfolding grisu_context_def by blast+
    then show "b \<le> 60" "32 \<le> b" "- q = int b" by (simp_all add: b_def)
  qed (use C in \<open>unfold grisu_context_def, blast+\<close>)
  note fr = fr[folded b_def] and th = th[folded b_def] and state = state[folded b_def]
  have h64: "h + 1 < 2 ^ 64"
  proof -
    have "uint (fp_f too_high) = h + 1" using C unfolding grisu_context_def by blast
    then show ?thesis using uint_lt_2p[of "fp_f too_high"] by simp
  qed
  let ?D = "dec_val (take n buf)"
  have Dn: "0 \<le> ?D" using dec_val_bounds[OF n(1)] by simp
  have dv: "uint dv = 10 ^ k" using I(2) by simp
  have dv0: "dv \<noteq> 0" using dv by auto
  define d where "d = uint I div 10 ^ k"
  define I' where "I' = I mod dv"
  have I': "uint I' = uint I mod 10 ^ k" by (simp add: I'_def uint_mod dv)
  have dq: "uint (I div dv) = d" by (simp add: uint_div dv d_def)
  have dI: "uint I = d * 10 ^ k + uint I'" unfolding d_def I' by (rule div_mult_mod_eq[symmetric])
  have d9: "0 \<le> d" "d \<le> 9"
  proof -
    have "d < 10" unfolding d_def by (rule div_less_mult) (use I(1) in simp_all)
    then show "d \<le> 9" by simp
    show "0 \<le> d" unfolding d_def by (simp add: pos_imp_zdiv_nonneg_iff)
  qed
  have sd: "sint (I div dv) = d" using sint_small[of "I div dv"] d9 dq by simp
  have tot: "(?D * 10 ^ Suc k + uint I) * 2 ^ b + uint fr = (10 * ?D + d) * (10 ^ k * 2 ^ b) + (uint I' * 2 ^ b + uint fr)"
    unfolding dI by (simp add: algebra_simps)
  define r where "r = uint I' * 2 ^ b + uint fr"
  have r0: "0 \<le> r" by (simp add: r_def)
  have r_lt: "r < 10 ^ k * 2 ^ b"
  proof -
    have "uint I' < 10 ^ k" unfolding I' by (rule pos_mod_bound) simp
    then have "uint I' + 1 \<le> 10 ^ k" by linarith
    then have "(uint I' + 1) * 2 ^ b \<le> 10 ^ k * 2 ^ b" by (rule mult_right_mono) simp
    then show ?thesis using fr by (simp add: r_def distrib_right)
  qed
  have rd: "uint I * 2 ^ b + uint fr = d * (10 ^ k * 2 ^ b) + r" unfolding r_def dI by (simp add: algebra_simps)
  have prev: "h - l + 2 \<le> d * (10 ^ k * 2 ^ b) + r"
    using state unfolding rd[symmetric]
  proof
    assume "n = 0 \<and> 0 < Suc k \<and> 10 ^ (Suc k - 1) \<le> uint I"
    then show "h - l + 2 \<le> uint I * 2 ^ b + uint fr" using th c(5) by simp
  qed simp
  have n16: "n \<le> 16"
  proof (cases "n = 0")
    case False
    have "h + 1 = ?D * (10 ^ Suc k * 2 ^ b) + (uint I * 2 ^ b + uint fr)" unfolding th by (simp add: algebra_simps)
    then have f1: "(h + 1) * 1 = ?D * (10 ^ Suc k * 2 ^ b) + (uint I * 2 ^ b + uint fr)" by simp
    have f2: "uint I * 2 ^ b + uint fr < 10 ^ Suc k * 2 ^ b"
    proof -
      have "(uint I + 1) * 2 ^ b \<le> 10 ^ Suc k * 2 ^ b" by (rule mult_right_mono) (use I(1) in simp_all)
      then show ?thesis using fr by (simp add: distrib_right)
    qed
    show ?thesis
      by (rule digits_left[OF f1 _ f2, where U = "h - l + 2"]) (use state False c in simp_all)
  qed simp
  have nl: "n < length buf" using n16 n(2) buf by simp
  have D'1: "1 \<le> 10 * ?D + d"
    using state
  proof
    assume "n = 0 \<and> 0 < Suc k \<and> 10 ^ (Suc k - 1) \<le> uint I"
    then have "1 * 10 ^ k \<le> uint I" by simp
    then have "1 \<le> d" unfolding d_def by (simp add: le_zdiv)
    then show ?thesis using Dn by simp
  next
    assume "0 < n \<and> 10 ^ (n - 1) \<le> ?D \<and> h - l + 2 \<le> uint I * 2 ^ b + uint fr"
    moreover have "(1::int) \<le> 10 ^ (n - 1)" by simp
    ultimately show ?thesis using d9 by linarith
  qed
  have th2: "h + 1 = (10 * ?D + d) * (10 ^ k * 2 ^ b) + r" unfolding th tot r_def ..
  have tkb: "10 ^ k * 2 ^ b < (2::int) ^ 64"
  proof -
    have "1 * (10 ^ k * 2 ^ b) \<le> (10 * ?D + d) * (10 ^ k * 2 ^ b)" by (rule mult_right_mono[OF D'1]) simp
    then show ?thesis using th2 r0 h64 by linarith
  qed
  have u32: "uint (ucast y :: u64) = uint y" for y :: u32 by (rule uint_ucast_up)
  have rb: "uint I' * 2 ^ b + uint fr < 2 ^ 64" using r_lt tkb unfolding r_def by linarith
  have Ib: "uint I' * 2 ^ b < 2 ^ 64" using rb uint_nonnegative[of fr] by linarith
  define rest where "rest = push_bit b (ucast I' :: u64) + fr"
  have rest: "uint rest = r"
  proof -
    have "uint (push_bit b (ucast I' :: u64)) = uint I' * 2 ^ b" by (subst uint_push_bit_exact) (use Ib u32 in simp_all)
    then show ?thesis unfolding rest_def r_def using rb by (subst uint_add_exact) simp_all
  qed
  have sh: "shl64 (ucast I') (- fp_e one) = Some (push_bit b (ucast I'))" "shl64 (ucast dv) (- fp_e one) = Some (push_bit b (ucast dv))"
    using c by (simp_all add: shl64_def)
  have tk: "uint (push_bit b (ucast dv :: u64)) = 10 ^ k * 2 ^ b" by (subst uint_push_bit_exact) (use tkb u32 dv in simp_all)
  define buf' where "buf' = buf[n := word_of_int (uint (ch CHR ''0'') + d)]"
  note S = snoc_digit[OF nl n(1) d9, folded buf'_def]
  have wq: "wr buf (int n) (word_of_int (uint (ch CHR ''0'') + sint (I div dv))) = Some buf'" using nl by (simp add: wr_def buf'_def sd)
  have e: "ensure (sint (I div dv) \<le> 9) = Some ()" "udiv I dv = Some (I div dv)" using d9 dv0 by (simp_all add: ensure_def sd udiv_def)
  have dr: "drop (Suc n) buf' = drop (Suc n) buf0" using S(7) arg_cong[OF n(3), of "drop 1"] by simp
  have "ok (if rest < U then do {
          too_high_w \<leftarrow> Minus too_high w;
          ten_kappa \<leftarrow> shl64 (ucast dv) (- fp_e one);
          (result, buffer) \<leftarrow> RoundWeed buf' (int n + 1) (fp_f too_high_w) U rest ten_kappa 1;
          Some (result, buffer, int n + 1, int k) }
        else digit_gen_integrals w too_high one fr U 1 I' (dv div 10) buf' (int n + 1) (int k)) (grisu_result l x h q buf0)"
  proof (subst ok_if, intro conjI impI)
    assume "rest < U"
    then have lt: "uint rest < (h - l + 2) * uint (1 :: u64)" unfolding word_less_def U by simp
    obtain tw where tw: "Minus too_high w = Some tw" "uint (fp_f tw) = h + 1 - x" by (rule grisu_Minus[OF C])
    show "ok (do {
          too_high_w \<leftarrow> Minus too_high w;
          ten_kappa \<leftarrow> shl64 (ucast dv) (- fp_e one);
          (result, buffer) \<leftarrow> RoundWeed buf' (int n + 1) (fp_f too_high_w) U rest ten_kappa 1;
          Some (result, buffer, int n + 1, int k) }) (grisu_result l x h q buf0)"
      unfolding tw(1) sh bind.simps
    proof (rule grisu_finish[OF C n16 _ S(2) _ _ _ _ lt _ _ _ _ _ dr])
      show "n < length buf'" "length buf' = length buf0" using nl n(2) S(6) by simp_all
      show "n = 0 \<or> 10 ^ (n - 1) \<le> dec_val (take n buf')" using state S(5) by auto
      show "(h + 1) * uint (1 :: u64) = dec_val (take (Suc n) buf') * uint (push_bit b (ucast dv :: u64)) + uint rest"
        unfolding S(3) tk rest th2 by simp
      show "uint rest < uint (push_bit b (ucast dv :: u64))" unfolding tk rest by (rule r_lt)
      show "(h - l + 2) * uint (1 :: u64) \<le> digit_of (buf' ! n) * uint (push_bit b (ucast dv :: u64)) + uint rest"
        unfolding S(4) tk rest using prev by simp
      show "of_int (uint (push_bit b (ucast dv :: u64))) / of_int (uint (1 :: u64)) = (10 powi int k * 2 powi (- q) :: real)"
        unfolding tk c(4) by simp
    qed (use U tw in simp_all)
  next
    assume nlt: "\<not> rest < U"
    have ge: "h - l + 2 \<le> uint I' * 2 ^ b + uint fr" using nlt U rest unfolding word_less_def r_def by simp
    have "ok (digit_gen_integrals w too_high one fr U 1 I' (dv div 10) buf' (int (Suc n)) (int k)) (grisu_result l x h q buf0)"
    proof (rule Suc.IH[OF S(2) _ dr])
      show "length buf' = length buf0" using S(6) n(2) by simp
      show "uint I' < 10 ^ k" unfolding I' by simp
      show "uint (dv div 10) = 10 ^ (k - 1)" if "0 < k" using that dv by (cases k) (simp_all add: uint_div)
      show "h + 1 = (dec_val (take (Suc n) buf') * 10 ^ k + uint I') * 2 ^ nat (- q) + uint fr"
        unfolding th2 S(3) r_def b_def by (simp add: algebra_simps)
      have "10 ^ n \<le> dec_val (take (Suc n) buf')"
      proof (cases n)
        case 0
        then show ?thesis using D'1 S(3) by simp
      next
        case (Suc i)
        then have "10 ^ i \<le> ?D" using state by simp
        then show ?thesis unfolding S(3) using d9 by (simp add: Suc)
      qed
      then show "Suc n = 0 \<and> 0 < k \<and> 10 ^ (k - 1) \<le> uint I' \<or> 0 < Suc n \<and> 10 ^ (Suc n - 1) \<le> dec_val (take (Suc n) buf') \<and> h - l + 2 \<le> uint I' * 2 ^ nat (- q) + uint fr"
        using ge by (simp add: b_def)
    qed
    moreover have "int (Suc n) = int n + 1" by simp
    ultimately show "ok (digit_gen_integrals w too_high one fr U 1 I' (dv div 10) buf' (int n + 1) (int k)) (grisu_result l x h q buf0)"
      by (simp only:)
  qed
  moreover have "0 < int (Suc k)" "int (Suc k) - 1 = int k" by simp_all
  ultimately show ?case
    by (subst digit_gen_integrals.simps) (simp only: if_True Let_def sh(1) e wq bind.simps rest_def[symmetric] I'_def[symmetric])
qed


section \<open>The biggest power of ten\<close>

lemma small_powers: "1 \<le> g \<Longrightarrow> g \<le> 10 \<Longrightarrow> rd kSmallPowersOfTen g = Some (10 ^ nat (g - 1))"
proof -
  assume g: "1 \<le> g" "g \<le> 10"
  then have "g = 1 \<or> g = 2 \<or> g = 3 \<or> g = 4 \<or> g = 5 \<or> g = 6 \<or> g = 7 \<or> g = 8 \<or> g = 9 \<or> g = 10" by presburger
  then show ?thesis by (elim disjE) (simp_all add: kSmallPowersOfTen_def rd_def)
qed

definition power_guess :: "int \<Rightarrow> int" where
  "power_guess nb = drop_bit 12 ((nb + 1) * 1233) + 1"

lemma power_guesses:
  assumes "4 \<le> nb" "nb \<le> 30"
  shows "1 \<le> power_guess nb" "power_guess nb \<le> 10" "2 ^ nat nb \<le> (10::int) ^ nat (power_guess nb)"
    "(10::int) ^ nat (power_guess nb - 1) \<le> 10 * 2 ^ nat (nb - 2)"
proof -
  have "list_all (\<lambda>nb. 1 \<le> power_guess nb \<and> power_guess nb \<le> 10 \<and> 2 ^ nat nb \<le> (10::int) ^ nat (power_guess nb) \<and>
      (10::int) ^ nat (power_guess nb - 1) \<le> 10 * 2 ^ nat (nb - 2)) [4..30]" by code_simp
  moreover have "nb \<in> set [4..30]" unfolding set_upto atLeastAtMost_iff using assms by blast
  ultimately show "1 \<le> power_guess nb" "power_guess nb \<le> 10" "2 ^ nat nb \<le> (10::int) ^ nat (power_guess nb)"
    "(10::int) ^ nat (power_guess nb - 1) \<le> 10 * 2 ^ nat (nb - 2)" unfolding list_all_iff by blast+
qed

lemma ok_BiggestPowerTen:
  assumes nb: "4 \<le> nb" "nb \<le> 30" and n: "2 ^ nat (nb - 2) \<le> uint number" "uint number < 2 ^ nat nb"
    and Q: "\<And>k p. 0 < k \<Longrightarrow> uint p = 10 ^ (k - 1) \<Longrightarrow> 10 ^ (k - 1) \<le> uint number \<Longrightarrow> uint number < 10 ^ k \<Longrightarrow> Q (p, int k)"
  shows "ok (BiggestPowerTen number nb) Q"
proof -
  define g where "g = power_guess nb"
  note G = power_guesses[OF nb, folded g_def]
  have pw: "uint (10 ^ i :: u32) = 10 ^ i" if "i \<le> 9" for i
  proof -
    have "(10::int) ^ i \<le> 10 ^ 9" by (rule power_increasing[OF that]) simp
    then have "(10::int) ^ i mod 2 ^ 32 = 10 ^ i" by (intro mod_pos_pos_trivial) simp_all
    moreover have "(10 :: u32) ^ i = word_of_int (10 ^ i)" by simp
    ultimately show ?thesis by (simp only: uint_word_of_int len_num1 len_bit0 len_bit1) simp
  qed
  have b: "0 \<le> nb + 1" "nb + 1 < 32" using nb by simp_all
  have lt: "number < push_bit (nat (nb + 1)) 1"
  proof -
    have "(2::int) ^ nat (nb + 1) < 2 ^ 32" by (rule power_strict_increasing) (use nb in simp_all)
    then have u: "uint (push_bit (nat (nb + 1)) (1 :: u32)) = 2 ^ nat (nb + 1)" by (subst uint_push_bit_exact) simp_all
    have "(2::int) ^ nat nb \<le> 2 ^ nat (nb + 1)" by (rule power_increasing) (use nb in simp_all)
    then show ?thesis unfolding word_less_def u using n by linarith
  qed
  have e: "ensure (0 \<le> nb + 1 \<and> nb + 1 < 32) = Some ()" "ensure (number < push_bit (nat (nb + 1)) 1) = Some ()"
    using b lt by (simp_all add: ensure_def)
  have gp: "rd kSmallPowersOfTen (drop_bit 12 ((nb + 1) * 1233) + 1) = Some (10 ^ nat (g - 1))"
    using small_powers[OF G(1,2)] unfolding g_def power_guess_def .
  have unf: "BiggestPowerTen number nb = (let g' = (if number < 10 ^ nat (g - 1) then g - 1 else g) in
      Option.bind (rd kSmallPowersOfTen g') (\<lambda>p. Some (p, g')))"
    unfolding BiggestPowerTen_def Let_def e bind.simps gp by (simp only: g_def power_guess_def)
  show ?thesis
  proof (cases "uint number < 10 ^ nat (g - 1)")
    case False
    have "\<not> number < 10 ^ nat (g - 1)" unfolding word_less_def using False pw[of "nat (g - 1)"] G by simp
    then have r: "BiggestPowerTen number nb = Some (10 ^ nat (g - 1), g)"
      unfolding unf using small_powers[OF G(1,2)] by simp
    have gi: "int (nat g) = g" "nat (g - 1) = nat g - 1" using G(1) by simp_all
    have "Q (10 ^ nat (g - 1), int (nat g))"
    proof (rule Q)
      show "uint number < 10 ^ nat g" using G(3) n(2) by linarith
      show "uint (10 ^ nat (g - 1) :: u32) = 10 ^ (nat g - 1)" unfolding gi(2)[symmetric] by (rule pw) (use G in simp)
    qed (use G False gi in simp_all)
    then show ?thesis unfolding r gi by simp
  next
    case True
    have "number < 10 ^ nat (g - 1)" unfolding word_less_def using True pw[of "nat (g - 1)"] G by simp
    have g2: "2 \<le> g"
    proof (rule ccontr)
      assume "\<not> 2 \<le> g"
      then have "g = 1" using G(1) by simp
      then have "uint number < 1" using True by simp
      moreover have "(1::int) \<le> 2 ^ nat (nb - 2)" by simp
      ultimately show False using n(1) by linarith
    qed
    have r: "BiggestPowerTen number nb = Some (10 ^ nat (g - 1 - 1), g - 1)"
      unfolding unf using small_powers[of "g - 1"] G g2 \<open>number < 10 ^ nat (g - 1)\<close> by simp
    have gi: "int (nat (g - 1)) = g - 1" "nat (g - 1 - 1) = nat (g - 1) - 1" "nat (g - 1) = Suc (nat (g - 1) - 1)" using g2 by simp_all
    have "Q (10 ^ nat (g - 1 - 1), int (nat (g - 1)))"
    proof (rule Q)
      show "uint (10 ^ nat (g - 1 - 1) :: u32) = 10 ^ (nat (g - 1) - 1)" unfolding gi(2)[symmetric] by (rule pw) (use G in simp)
      have "(10::int) ^ nat (g - 1) = 10 * 10 ^ (nat (g - 1) - 1)" by (subst gi(3)) simp
      then show "10 ^ (nat (g - 1) - 1) \<le> uint number" using G(4) n(1) by linarith
    qed (use True g2 in simp_all)
    then show ?thesis unfolding r gi(1) by simp
  qed
qed

section \<open>DigitGen\<close>

lemma ok_DigitGen:
  assumes e: "fp_e low = q" "fp_e w = q" "fp_e high = q" "- 60 \<le> q" "q \<le> - 34"
    and order: "1 \<le> uint (fp_f low)" "uint (fp_f low) \<le> uint (fp_f w)" "uint (fp_f w) \<le> uint (fp_f high)" "uint (fp_f low) + 2 \<le> uint (fp_f high)"
    and high: "2 ^ 62 \<le> uint (fp_f high)" "uint (fp_f high) + 1 < 2 ^ 64"
    and wide: "uint (fp_f high) + 1 \<le> (uint (fp_f high) - uint (fp_f low) + 2) * 10 ^ 16" and buf: "17 \<le> length buf"
  shows "ok (DigitGen low w high buf) (grisu_result (uint (fp_f low)) (uint (fp_f w)) (uint (fp_f high)) q buf)"
proof -
  define l x h b where "l = uint (fp_f low)" and "x = uint (fp_f w)" and "h = uint (fp_f high)" and "b = nat (- q)"
  note order = order[folded l_def x_def h_def] and high = high[folded h_def] and wide = wide[folded l_def h_def]
  have b: "34 \<le> b" "b \<le> 60" "- q = int b" using e by (simp_all add: b_def)
  have up: "uint (fp_f high + 1) = h + 1" "uint (fp_f low + 1) = l + 1" by (subst uint_add_exact; use high order in \<open>simp add: h_def l_def\<close>)+
  have dn: "uint (fp_f high - 1) = h - 1" "uint (fp_f low - 1) = l - 1"
    by (subst uint_sub_exact; use order high in \<open>simp add: h_def l_def\<close>)+
  define th tl where "th = DiyFp (fp_f high + 1) (fp_e high)" and "tl = DiyFp (fp_f low - 1) (fp_e low)"
  have un: "Minus th tl = Some (th\<lparr>fp_f := fp_f th - fp_f tl\<rparr>)"
    using e order by (simp add: Minus_def Subtract_def ensure_def th_def tl_def word_le_def up dn)
  have unf: "uint (fp_f (th\<lparr>fp_f := fp_f th - fp_f tl\<rparr>)) = h - l + 2"
  proof -
    have "fp_f (th\<lparr>fp_f := fp_f th - fp_f tl\<rparr>) = (fp_f high + 1) - (fp_f low - 1)"
      by (simp only: diyfp.select_convs diyfp.update_convs diyfp.surjective th_def tl_def DiyFp_def)
    then show ?thesis using order by (simp only:) (subst uint_sub_exact; simp only: up dn)
  qed
  define one where "one = DiyFp (push_bit b 1) q"
  have one: "uint (fp_f one) = 2 ^ b"
  proof -
    have "(2::int) ^ b < 2 ^ 64" by (rule power_strict_increasing) (use b in simp_all)
    then show ?thesis unfolding one_def DiyFp_sel by (subst uint_push_bit_exact) simp_all
  qed
  have C: "grisu_context w th one l x h q"
  proof -
    have "fp_e one = q" "uint (fp_f one) = 2 ^ nat (- q)" "fp_e th = fp_e w" "uint (fp_f th) = h + 1"
      using e one up by (simp_all only: one_def th_def b_def DiyFp_sel)
    moreover have "q \<le> - 32" using e by simp
    ultimately show ?thesis unfolding grisu_context_def x_def[symmetric] using e(4) order wide by blast
  qed
  have m: "fp_f one - 1 = mask b" unfolding one_def DiyFp_sel by (simp add: mask_eq_decr_exp push_bit_of_1)
  have oe: "fp_e one = q" "fp_f th = fp_f high + 1" by (simp_all add: one_def th_def)
  define I fr where "I = (ucast (drop_bit b (fp_f high + 1)) :: u32)" and "fr = fp_f th AND mask b"
  have hb: "h + 1 < 2 ^ (64 - b) * 2 ^ b" "2 ^ (62 - b) * 2 ^ b \<le> h + 1"
  proof -
    have "(2::int) ^ (64 - b) * 2 ^ b = 2 ^ 64" "(2::int) ^ (62 - b) * 2 ^ b = 2 ^ 62" using b by (simp_all only: power_add[symmetric]) simp_all
    then show "h + 1 < 2 ^ (64 - b) * 2 ^ b" "2 ^ (62 - b) * 2 ^ b \<le> h + 1" using high by simp_all
  qed
  have Ib: "(h + 1) div 2 ^ b < 2 ^ (64 - b)" by (rule div_less_mult) (use hb in \<open>simp_all add: mult.commute\<close>)
  have Il: "2 ^ (62 - b) \<le> (h + 1) div 2 ^ b" using hb(2) by (simp add: le_zdiv)
  have I: "uint I = (h + 1) div 2 ^ b"
  proof -
    have d: "uint (drop_bit b (fp_f high + 1)) = (h + 1) div 2 ^ b" by (simp only: uint_drop_bit up)
    have "(2::int) ^ (64 - b) \<le> 2 ^ 30" by (rule power_increasing) (use b in simp_all)
    then have "(h + 1) div 2 ^ b < 2 ^ 30" using Ib by linarith
    then have "(h + 1) div 2 ^ b < 2 ^ 32" by simp
    then have "take_bit 32 ((h + 1) div 2 ^ b) = (h + 1) div 2 ^ b"
      by (intro take_bit_int_eq_self) (use high in \<open>simp_all add: pos_imp_zdiv_nonneg_iff\<close>)
    then show ?thesis unfolding I_def by (simp add: unsigned_ucast_eq d)
  qed
  have fr: "uint fr = (h + 1) mod 2 ^ b" by (simp only: fr_def uint_and_mask oe(2) up)
  have hI: "h + 1 = uint I * 2 ^ b + uint fr" unfolding I fr by (rule div_mult_mod_eq[symmetric])
  have nb: "nat (64 - int b) = 64 - b" "nat (64 - int b - 2) = 62 - b" using b by simp_all
  have en: "ensure (fp_e low = fp_e w \<and> fp_e w = fp_e high) = Some ()" "ensure (fp_f low + 1 \<le> fp_f high - 1) = Some ()"
      "ensure (kMinimalTargetExponent \<le> fp_e w \<and> fp_e w \<le> kMaximalTargetExponent) = Some ()"
    using e order by (simp_all add: ensure_def word_le_def up dn)
  have sh: "shl64 1 (- fp_e w) = Some (push_bit b 1)" "shr64 (fp_f th) (- fp_e one) = Some (drop_bit b (fp_f high + 1))"
    using e by (simp_all add: shl64_def shr64_def one_def th_def b_def)
  have "ok (DigitGen low w high buf) (grisu_result l x h q buf)"
    unfolding DigitGen_def Let_def en bind.simps
    unfolding th_def[symmetric] tl_def[symmetric] un bind.simps sh(1)
    unfolding e(2) one_def[symmetric] sh(2) bind.simps
    unfolding oe(1) m I_def[symmetric] fr_def[symmetric] kDiySignificandSize_def b(3) minus_minus
  proof (subst ok_bind, rule ok_BiggestPowerTen, goal_cases)
    case (5 k p)
    have "ok (digit_gen_integrals w th one fr (fp_f (th\<lparr>fp_f := fp_f th - fp_f tl\<rparr>)) 1 I p buf (int 0) (int k)) (grisu_result l x h q buf)"
      by (rule ok_digit_gen_integrals[OF C buf _ refl refl]) (use 5 hI fr unf in \<open>simp_all add: b_def[symmetric]\<close>)
    then show ?case by simp
  qed (use b(1,2) in simp, use b(1,2) in simp, use Il in \<open>simp only: nb I\<close>, use Ib in \<open>simp only: nb I\<close>)
  then show ?thesis by (simp only: l_def x_def h_def)
qed

end
