(* ===== verification/Grisu_Power.thy ===== *)
theory Grisu_Power
  imports Grisu_Digits
begin

text \<open>\<open>GetCachedPowerForBinaryExponentRange\<close> (\<open>cached-powers.cc\<close>) finds a power in every range, and the error of the scaled numbers stays below one.\<close>


section \<open>The power for a binary exponent range\<close>

lemma log_up:
  assumes p: "\<bar>p\<bar> \<le> 1200" and q: "of_int p * c10 - 1 / 1000000000 \<le> of_int q"
  shows "of_int p \<le> of_int q * log 2 10"
proof -
  have "real_of_int (30102999566398114 * p - 100000000) \<le> of_int (100000000000000000 * q)" using q by simp
  then have i: "30102999566398114 * p - 100000000 \<le> 100000000000000000 * q" by (simp only: of_int_le_iff)
  show ?thesis
  proof (cases "0 \<le> q")
    case True
    have "146 * p \<le> 485 * q"
    proof (rule ccontr)
      assume "\<not> 146 * p \<le> 485 * q"
      then have "485 * q + 1 \<le> 146 * p" by simp
      then show False using i p by linarith
    qed
    then have "of_int (146 * p) \<le> (of_int (485 * q) :: real)" by (simp only: of_int_le_iff)
    moreover have "of_int q * (485 / 146) \<le> of_int q * log 2 10" using True by (intro mult_left_mono log_ten) simp
    ultimately show ?thesis by simp
  next
    case False
    have "643 * p \<le> 2136 * q"
    proof (rule ccontr)
      assume "\<not> 643 * p \<le> 2136 * q"
      then have "2136 * q + 1 \<le> 643 * p" by simp
      then show False using i p False by linarith
    qed
    then have "of_int (643 * p) \<le> (of_int (2136 * q) :: real)" by (simp only: of_int_le_iff)
    moreover have "of_int q * (2136 / 643) \<le> of_int q * log 2 10"
      by (rule mult_left_mono_neg[OF log_ten(2)]) (use False in simp)
    ultimately show ?thesis by simp
  qed
qed

lemma log_down:
  assumes p: "\<bar>p\<bar> \<le> 1200" and q: "of_int q \<le> of_int p * c10 + 1 / 1000000000"
  shows "of_int q * log 2 10 \<le> of_int p"
proof -
  have e: "of_int (- p) * c10 - 1 / 1000000000 \<le> of_int (- q)" using q by simp
  have "of_int (- p) \<le> of_int (- q) * log 2 10" by (rule log_up[OF _ e]) (use p in simp)
  then show ?thesis by simp
qed

lemma ok_GetCachedPowerForBinaryExponentRange:
  assumes m: "- 1084 \<le> mn" "mn \<le> 1013" and mx: "mn + 26 \<le> mx"
    and Q: "\<And>f be d. near_power (uint f) be d \<Longrightarrow> mn \<le> be \<Longrightarrow> be \<le> mn + 26 \<Longrightarrow> Q (DiyFp f be, d)"
  shows "ok (GetCachedPowerForBinaryExponentRange mn mx) Q"
proof -
  define p where "p = mn + 63"
  have p: "\<bar>p\<bar> \<le> 1200" using m by (simp add: p_def)
  let ?m = "double_mult (double_of_int p) (round_double 30102999566398114 (10 ^ 17))"
  note M = scaled_log[OF p]
  define k where "k = double_ceil ?m"
  have kc: "k = \<lceil>dreal ?m\<rceil>" unfolding k_def by (rule double_ceil_real[OF M(1)])
  have k1: "dreal ?m \<le> of_int k" "of_int k - 1 < dreal ?m" unfolding kc by linarith+
  have err: "dreal ?m \<le> of_int p * c10 + 1 / 1000000000" "of_int p * c10 - 1 / 1000000000 \<le> dreal ?m"
  proof -
    have "\<bar>a - b\<bar> \<le> 1 / 4398046511104 \<Longrightarrow> a \<le> b + 1 / 1000000000 \<and> b - 1 / 1000000000 \<le> a" for a b :: real by linarith
    from this[OF M(2)] show "dreal ?m \<le> of_int p * c10 + 1 / 1000000000" "of_int p * c10 - 1 / 1000000000 \<le> dreal ?m" by simp_all
  qed
  have up: "of_int p \<le> of_int k * log 2 10" by (rule log_up[OF p]) (use k1 err in linarith)
  have down: "of_int (k - 1) * log 2 10 \<le> of_int p" 
  proof (rule log_down[OF p])
    have "real_of_int (k - 1) < dreal ?m" using k1(2) by simp
    then show "of_int (k - 1) \<le> of_int p * c10 + 1 / 1000000000" using err(1) by linarith
  qed
  have kb: "- 309 \<le> k" "k \<le> 326"
  proof -
    have pr: "real_of_int p \<le> 1076" "- 1021 \<le> real_of_int p" using m by (simp_all add: p_def)
    have b: "- 308 \<le> x * c10" "x * c10 \<le> 324" if "x \<le> 1076" "- 1021 \<le> x" for x :: real using that by linarith+
    have "real_of_int k < 326" using k1(2) err(1) b(1,2)[OF pr] by linarith
    moreover have "- 309 < real_of_int k" using k1(1) err(2) b(1,2)[OF pr] by linarith
    ultimately show "- 309 \<le> k" "k \<le> 326" by linarith+
  qed
  define i where "i = (348 + k - 1) div 8 + 1"
  have i: "0 \<le> i" "i < 87" "k \<le> 8 * i - 348" "8 * i - 348 \<le> k + 7" using kb unfolding i_def by presburger+
  define c where "c = kCachedPowers ! nat i"
  have T: "decimal_exponent c = 8 * i - 348" "power_ok c" using kCachedPowers_nth[of "nat i"] i by (simp_all add: c_def)
  define f be d where "f = significand c" and "be = binary_exponent c" and "d = decimal_exponent c"
  have np: "near_power (uint f) be d" using T(2) by (simp add: power_ok_def f_def be_def d_def)
  note R = near_power_real[OF np]
  have f63: "(9223372036854775808 :: real) \<le> of_int (uint f)" using R(2) by linarith
  have le: "(10::real) powi k \<le> 10 powi d" "(10::real) powi d \<le> 100000000 * 10 powi (k - 1)"
  proof -
    show "(10::real) powi k \<le> 10 powi d" by (rule power_int_increasing) (use i T(1) in \<open>simp_all add: d_def\<close>)
    have "(10::real) powi d \<le> 10 powi (8 + (k - 1))" by (rule power_int_increasing) (use i T(1) in \<open>simp_all add: d_def\<close>)
    also have "\<dots> = 100000000 * 10 powi (k - 1)" by (subst power_int_add) simp_all
    finally show "(10::real) powi d \<le> 100000000 * 10 powi (k - 1)" .
  qed
  have two: "(2::real) powi p \<le> 10 powi k" "(10::real) powi (k - 1) \<le> 2 powi p"
    by (rule two_le_ten[OF up], rule ten_le_two[OF down])
  have pos: "0 < (2::real) powi j" for j by (simp add: zero_less_power_int)
  have bemin: "mn \<le> be"
  proof (rule ccontr)
    assume "\<not> mn \<le> be"
    then have "(2::real) powi 64 \<le> 2 powi (p + - be)" by (intro power_int_increasing) (simp_all add: p_def)
    also have "\<dots> = 2 powi p * 2 powi (- be)" by (subst power_int_add) simp_all
    also have "\<dots> \<le> 10 powi d * 2 powi (- be)" by (rule mult_right_mono) (use two(1) le(1) pos[of "- be"] in \<open>linarith+\<close>)
    finally have "18446744073709551616 \<le> 10 powi d * (2::real) powi (- be)" by simp
    moreover have "uint f \<le> 18446744073709551615" using uint_lt_2p[of f] by simp
    then have "real_of_int (uint f) \<le> 18446744073709551615" by linarith
    moreover have "2 * \<bar>y - z\<bar> \<le> 1 \<Longrightarrow> 18446744073709551616 \<le> y \<Longrightarrow> z \<le> 18446744073709551615 \<Longrightarrow> False" for y z :: real by (simp add: abs_real_def split: if_splits)
    ultimately show False using R(1) by blast
  qed
  have bemax: "be \<le> mn + 26"
  proof (rule ccontr)
    assume "\<not> be \<le> mn + 26"
    then have "(2::real) powi (p + - be) \<le> 2 powi 36" by (intro power_int_increasing) (simp_all add: p_def)
    moreover have "10 powi d * (2::real) powi (- be) \<le> 100000000 * 2 powi p * 2 powi (- be)"
      by (rule mult_right_mono) (use two(2) le(2) pos[of "- be"] in \<open>linarith+\<close>)
    moreover have "(2::real) powi (p + - be) = 2 powi p * 2 powi (- be)" by (subst power_int_add) simp_all
    moreover have "u \<le> 68719476736 \<Longrightarrow> v \<le> 100000000 * a * b \<Longrightarrow> u = a * b \<Longrightarrow> v \<le> 100000000 * 68719476736" for u v a b :: real by (simp add: mult.assoc)
    moreover have "(2::real) powi 36 = 68719476736" by simp
    ultimately have "10 powi d * (2::real) powi (- be) \<le> 100000000 * 68719476736" by metis
    moreover have "2 * \<bar>y - z\<bar> \<le> 1 \<Longrightarrow> y \<le> 100000000 * 68719476736 \<Longrightarrow> 9223372036854775808 \<le> z \<Longrightarrow> False" for y z :: real by (simp add: abs_real_def split: if_splits)
    ultimately show False using R(1) f63 by blast
  qed
  have e: "mn + kDiySignificandSize - 1 = p" by (simp add: p_def)
  have sd: "(kCachedPowersOffset + k - 1) sdiv kDecimalExponentDistance + 1 = i"
    using kb by (simp add: i_def)
  have len: "kCachedPowersLength = 87" by (simp add: kCachedPowersLength_def)
  have "rd kCachedPowers i = Some c" using i by (simp add: rd_def c_def)
  then show ?thesis
    unfolding GetCachedPowerForBinaryExponentRange_def Let_def kD_1_LOG2_10_def e k_def[symmetric] sd len
    using i bemin bemax mx Q[OF np bemin bemax] by (simp add: wp f_def be_def d_def)
qed

section \<open>The error of the scaled numbers\<close>

lemma Times_error:
  assumes np: "near_power (uint f) be d"
  shows "\<bar>of_int (uint (fp_f (Times y (DiyFp f be)))) - of_int (uint (fp_f y)) * (10 powi d * 2 powi (- be) / 18446744073709551616)\<bar> < (1::real)"
    "fp_e (Times y (DiyFp f be)) = fp_e y + be + 64"
proof -
  show "fp_e (Times y (DiyFp f be)) = fp_e y + be + 64" unfolding Times_def Multiply_value by simp
  define a where "a = uint (fp_f y)"
  define z where "z = a * uint f"
  define g :: real where "g = 10 powi d * 2 powi (- be)"
  have a: "0 \<le> real_of_int a" "real_of_int a < 18446744073709551616"
  proof -
    have "a < 18446744073709551616" using uint_lt_2p[of "fp_f y"] by (simp add: a_def)
    then show "real_of_int a < 18446744073709551616" by linarith
    show "0 \<le> real_of_int a" by (simp only: a_def of_int_0_le_iff uint_nonnegative)
  qed
  have u: "uint (fp_f (Times y (DiyFp f be))) = (z + 9223372036854775808) div 18446744073709551616"
    unfolding Times_def Multiply_value DiyFp_sel a_def z_def ..
  define t where "t = (z + 9223372036854775808) div 18446744073709551616"
  have "z + 9223372036854775808 = t * 18446744073709551616 + (z + 9223372036854775808) mod 18446744073709551616"
    unfolding t_def by (rule div_mult_mod_eq[symmetric])
  moreover have "0 \<le> (z + 9223372036854775808) mod 18446744073709551616" "(z + 9223372036854775808) mod 18446744073709551616 < 18446744073709551616"
    by simp_all
  ultimately have "\<bar>t * 18446744073709551616 - z\<bar> \<le> 9223372036854775808" by linarith
  then have "of_int \<bar>t * 18446744073709551616 - z\<bar> \<le> (9223372036854775808 :: real)" by (simp only: of_int_le_numeral_iff)
  then have t: "\<bar>of_int t * 18446744073709551616 - of_int z\<bar> \<le> (9223372036854775808 :: real)" by simp
  have "of_int a * (2 * \<bar>g - of_int (uint f)\<bar>) \<le> of_int a * (1::real)"
    by (rule mult_left_mono) (use near_power_real(1)[OF np] a in \<open>simp_all add: g_def\<close>)
  then have "2 * \<bar>of_int a * g - of_int z\<bar> \<le> of_int a"
    unfolding z_def using a(1) by (simp add: abs_mult[symmetric] right_diff_distrib[symmetric] abs_of_nonneg mult.left_commute[of 2] flip: abs_mult)
      (simp add: abs_mult right_diff_distrib[symmetric])
  moreover have "2 * \<bar>x - z\<bar> \<le> a \<Longrightarrow> \<bar>t - z\<bar> \<le> 9223372036854775808 \<Longrightarrow> a < 18446744073709551616 \<Longrightarrow> \<bar>t - x\<bar> < 18446744073709551616" for x z t a :: real by (simp add: abs_real_def split: if_splits)
  ultimately have "\<bar>of_int t * 18446744073709551616 - of_int a * g\<bar> < (18446744073709551616 :: real)" using t a(2) by blast
  then show "\<bar>of_int (uint (fp_f (Times y (DiyFp f be)))) - of_int (uint (fp_f y)) * (10 powi d * 2 powi (- be) / 18446744073709551616)\<bar> < (1::real)"
    unfolding u t_def[symmetric] a_def[symmetric] g_def[symmetric] by (simp add: abs_less_iff field_simps)
qed

end
