(* ===== verification/Grisu_Shortest.thy ===== *)
theory Grisu_Shortest
  imports Grisu_Power
begin

text \<open>Digits that \<open>DigitGen\<close> accepts are the shortest decimal between the boundaries, strictly the closest one, and so the only possible answer.\<close>


section \<open>The accepted digits are the shortest\<close>

lemma between_mono: "between c lo hi x \<Longrightarrow> between c lo hi z \<Longrightarrow> x \<le> y \<Longrightarrow> y \<le> z \<Longrightarrow> between c lo hi y"
  by (auto simp: between_def split: if_splits)

text \<open>The distance to the number is attained once.\<close>

definition strictly_closest :: "bool \<Rightarrow> real \<Rightarrow> real \<Rightarrow> real \<Rightarrow> int \<Rightarrow> int \<Rightarrow> bool" where
  "strictly_closest c lo v hi E s \<longleftrightarrow>
     (\<forall>F. F \<noteq> E \<longrightarrow> between c lo hi (of_int F * 10 powi s) \<longrightarrow> \<bar>of_int E * 10 powi s - v\<bar> < \<bar>of_int F * 10 powi s - v\<bar>)"

lemma closest_everywhere_strict:
  fixes X0 U a b x :: real
  assumes x: "\<bar>X0 - x\<bar> < 1" and U: "0 < U" and ab: "a \<noteq> b" and all: "\<And>X. \<bar>X - x\<bar> < 1 \<Longrightarrow> \<bar>a - X * U\<bar> \<le> \<bar>b - X * U\<bar>"
  shows "\<bar>a - X0 * U\<bar> < \<bar>b - X0 * U\<bar>"
proof (rule ccontr)
  assume "\<not> \<bar>a - X0 * U\<bar> < \<bar>b - X0 * U\<bar>"
  then have eq: "\<bar>a - X0 * U\<bar> = \<bar>b - X0 * U\<bar>" using all[OF x] by simp
  define e where "e = (1 - \<bar>X0 - x\<bar>) / 2"
  have e: "0 < e" "\<bar>X0 - x\<bar> + e < 1" using x by (simp_all add: e_def field_simps)
  define d where "d = e * U"
  have d: "0 < d" using e U by (simp add: d_def)
  have up: "\<bar>X0 + e - x\<bar> < 1" and dn: "\<bar>X0 - e - x\<bar> < 1" using e by (simp_all add: abs_real_def split: if_splits)
  have U': "(X0 + e) * U = X0 * U + d" "(X0 - e) * U = X0 * U - d" by (simp_all add: d_def algebra_simps)
  have gen: "\<bar>a - y\<bar> = \<bar>b - y\<bar> \<Longrightarrow> \<bar>a - (y + d)\<bar> \<le> \<bar>b - (y + d)\<bar> \<Longrightarrow> \<bar>a - (y - d)\<bar> \<le> \<bar>b - (y - d)\<bar> \<Longrightarrow> False" for y :: real
    using d ab by (simp add: abs_real_def split: if_splits)
  show False using gen[OF eq] all[OF up] all[OF dn] unfolding U' by blast
qed

lemma grisu_shortest:
  assumes g: "grisu_ok l x h tk unit E n" and u: "1 \<le> unit" "0 < tk"
    and t: "of_int tk / of_int unit = (10 powi kappa * 2 powi (- q) :: real)" and S: "S = 10 powi mk * 2 powi (- q)"
    and lo: "\<bar>of_int l - lo * S\<bar> < 1" and x: "\<bar>of_int x - v * S\<bar> < 1" and hi: "\<bar>of_int h - hi * S\<bar> < 1"
  shows "shortest_decimal c lo v hi E (Suc n) (kappa - mk + int (Suc n))" "strictly_closest c lo v hi E (kappa - mk)"
proof -
  define U where "U = real_of_int unit"
  define s where "s = kappa - mk"
  have U: "1 \<le> U" using u by (simp add: U_def)
  have S0: "0 < S" unfolding S by (simp add: zero_less_power_int)
  have ts: "of_int tk = 10 powi s * S * U"
  proof -
    have "(10::real) powi kappa = 10 powi s * 10 powi mk" unfolding s_def by (subst power_int_add[symmetric]) simp_all
    then show ?thesis using t U unfolding S U_def[symmetric] by (simp add: field_simps)
  qed
  have num: "of_int (F * tk) = of_int F * 10 powi s * (S * U)" for F by (simp add: ts)
  have SU: "0 < S * U" using S0 U by simp
  have low: "of_int ((l - 1) * unit) < lo * (S * U)" "lo * (S * U) < of_int ((l + 1) * unit)"
  proof -
    have "(of_int l - 1) * U < lo * S * U" "lo * S * U < (of_int l + 1) * U" using lo U by (simp_all add: abs_less_iff)
    then show "of_int ((l - 1) * unit) < lo * (S * U)" "lo * (S * U) < of_int ((l + 1) * unit)" by (simp_all add: U_def mult.assoc)
  qed
  have high: "of_int ((h - 1) * unit) < hi * (S * U)" "hi * (S * U) < of_int ((h + 1) * unit)"
  proof -
    have "(of_int h - 1) * U < hi * S * U" "hi * S * U < (of_int h + 1) * U" using hi U by (simp_all add: abs_less_iff)
    then show "of_int ((h - 1) * unit) < hi * (S * U)" "hi * (S * U) < of_int ((h + 1) * unit)" by (simp_all add: U_def mult.assoc)
  qed
  note G = g[unfolded grisu_ok_def]
  have span: "(l - 1) * unit < F * tk \<and> F * tk < (h + 1) * unit" if "between c lo hi (of_int F * 10 powi s)" for F
  proof -
    have "lo \<le> of_int F * 10 powi s" "of_int F * 10 powi s \<le> hi" using that by (auto simp: between_def split: if_splits)
    then have "lo * (S * U) \<le> of_int (F * tk)" "of_int (F * tk) \<le> hi * (S * U)" unfolding num using SU by (simp_all only: mult_le_cancel_right_pos)
    then have "real_of_int ((l - 1) * unit) < of_int (F * tk)" "real_of_int (F * tk) < of_int ((h + 1) * unit)"
      using low high by linarith+
    then show ?thesis by (simp only: of_int_less_iff)
  qed
  have strict: "between c lo hi (of_int E * 10 powi s)"
  proof -
    have "(l + 1) * unit \<le> (l + 3) * unit" using u by simp
    then have "(l + 1) * unit \<le> E * tk" "E * tk \<le> (h - 1) * unit" using G by simp_all
    then have "real_of_int ((l + 1) * unit) \<le> of_int (E * tk)" "real_of_int (E * tk) \<le> of_int ((h - 1) * unit)" by (simp_all only: of_int_le_iff)
    then have "lo * (S * U) < of_int E * 10 powi s * (S * U)" "of_int E * 10 powi s * (S * U) < hi * (S * U)"
      unfolding num using low(2) high(1) by linarith+
    then have "lo < of_int E * 10 powi s" "of_int E * 10 powi s < hi" using SU by (simp_all only: mult_less_cancel_right_pos)
    then show ?thesis by (simp add: between_def)
  qed
  have ten: "\<not> between c lo hi (of_int (10 * F) * 10 powi s)" for F
    using span[of "10 * F"] G by (auto simp: mult.assoc mult.left_commute)
  have none: "\<not> between c lo hi (of_int F * 10 powi r)" if F: "0 < F" "F < 10 ^ n" for F r
  proof
    assume b: "between c lo hi (of_int F * 10 powi r)"
    show False
    proof (cases "s < r")
      case True
      have "(10::real) powi r = 10 * 10 ^ nat (r - s - 1) * 10 powi s"
      proof -
        have "r = 1 + (r - s - 1) + s" by simp
        then have "(10::real) powi r = 10 powi 1 * 10 powi (r - s - 1) * 10 powi s" by (subst power_int_add[symmetric], simp)+ simp
        then show ?thesis using True by (simp add: power_int_def)
      qed
      then have "of_int F * 10 powi r = of_int (10 * (F * 10 ^ nat (r - s - 1))) * (10::real) powi s" by simp
      then show False using b ten by metis
    next
      case False
      obtain m where m: "n = Suc m" using F by (cases n) auto
      have "(10::real) powi r \<le> 10 powi s" by (rule power_int_increasing) (use False in simp_all)
      then have "of_int F * 10 powi r \<le> of_int F * (10::real) powi s" using F by simp
      also have "\<dots> \<le> of_int (10 ^ n) * 10 powi s"
      proof (rule mult_right_mono)
        show "real_of_int F \<le> of_int (10 ^ n)" using F by (simp only: of_int_le_iff)
      qed simp
      finally have up: "of_int F * 10 powi r \<le> of_int (10 ^ n) * (10::real) powi s" .
      have "real_of_int (10 ^ n) \<le> of_int E" using G by (simp only: of_int_le_iff)
      then have dn: "of_int (10 ^ n) * (10::real) powi s \<le> of_int E * 10 powi s" by (intro mult_right_mono) simp_all
      have "between c lo hi (of_int (10 ^ n) * 10 powi s)" 
        by (rule between_mono[OF b strict up dn])
      then show False using ten[of "10 ^ m"] unfolding m by simp
    qed
  qed
  have dist: "\<bar>of_int F * 10 powi s - v\<bar> * (S * U) = \<bar>of_int (F * tk) - v * S * of_int unit\<bar>" for F
  proof -
    have "of_int (F * tk) - v * S * of_int unit = (of_int F * 10 powi s - v) * (S * U)" unfolding num by (simp add: U_def algebra_simps)
    then show ?thesis using SU by (metis abs_mult abs_of_pos)
  qed
  have best: "\<bar>of_int E * 10 powi s - v\<bar> \<le> \<bar>of_int F * 10 powi s - v\<bar>" if "between c lo hi (of_int F * 10 powi s)" for F
  proof -
    have "\<bar>v * S - of_int x\<bar> < 1" using x by linarith
    then have "\<bar>of_int E * 10 powi s - v\<bar> * (S * U) \<le> \<bar>of_int F * 10 powi s - v\<bar> * (S * U)"
      unfolding dist using G span[OF that] by (simp only: less_imp_le)
    then show ?thesis using SU by (simp only: mult_le_cancel_right_pos)
  qed
  have "\<bar>of_int E * 10 powi s - v\<bar> < \<bar>of_int F * 10 powi s - v\<bar>" if F: "F \<noteq> E" "between c lo hi (of_int F * 10 powi s)" for F
  proof -
    have "\<bar>v * S - of_int x\<bar> < 1" using x by linarith
    then have "\<bar>of_int (E * tk) - v * S * U\<bar> < \<bar>of_int (F * tk) - v * S * U\<bar>"
    proof (rule closest_everywhere_strict)
      show "real_of_int (E * tk) \<noteq> of_int (F * tk)" using F(1) u by (simp only: of_int_eq_iff) simp
      show "\<bar>of_int (E * tk) - X * U\<bar> \<le> \<bar>of_int (F * tk) - X * U\<bar>" if "\<bar>X - of_int x\<bar> < 1" for X
        unfolding U_def using G span[OF F(2)] that by (simp only: less_imp_le)
    qed (use U in simp)
    then have "\<bar>of_int E * 10 powi s - v\<bar> * (S * U) < \<bar>of_int F * 10 powi s - v\<bar> * (S * U)" by (simp only: dist U_def[symmetric])
    then show ?thesis using SU by (simp only: mult_less_cancel_right_pos)
  qed
  then show "strictly_closest c lo v hi E (kappa - mk)" unfolding strictly_closest_def s_def[symmetric] by blast
  have p: "kappa - mk + int (Suc n) - int (Suc n) = s" by (simp add: s_def)
  show "shortest_decimal c lo v hi E (Suc n) (kappa - mk + int (Suc n))" unfolding shortest_decimal_def p using G strict none ten best by simp
qed

section \<open>One answer only\<close>

lemma shortest_unique:
  assumes A: "shortest_decimal c lo v hi E len p" and S: "strictly_closest c lo v hi E (p - int len)"
    and B: "shortest_decimal c lo v hi E' len' p'"
  shows "E' = E \<and> len' = len \<and> p' = p"
proof -
  note A = A[unfolded shortest_decimal_def] and B = B[unfolded shortest_decimal_def]
  have pos: "(0::int) < 10 ^ k" for k by simp
  have E0: "0 < E" "0 < E'" using A B pos[of "len - 1"] pos[of "len' - 1"] by (simp_all only: less_le_trans)
  have noF: "\<not> (0 < F \<and> F < 10 ^ (len - 1) \<and> between c lo hi (of_int F * 10 powi q))" for F q using A by blast
  have noF': "\<not> (0 < F \<and> F < 10 ^ (len' - 1) \<and> between c lo hi (of_int F * 10 powi q))" for F q using B by blast
  have len: "len' = len"
  proof (rule ccontr)
    assume "len' \<noteq> len"
    then consider "len \<le> len' - 1" | "len' \<le> len - 1" by linarith
    then show False
    proof cases
      case 1
      then have "(10::int) ^ len \<le> 10 ^ (len' - 1)" by (intro power_increasing) simp_all
      then have "E < 10 ^ (len' - 1)" using A by linarith
      then show False using noF'[of E "p - int len"] E0 A by blast
    next
      case 2
      then have "(10::int) ^ len' \<le> 10 ^ (len - 1)" by (intro power_increasing) simp_all
      then have "E' < 10 ^ (len - 1)" using B by linarith
      then show False using noF[of E' "p' - int len'"] E0 B by blast
    qed
  qed
  define s s' where "s = p - int len" and "s' = p' - int len"
  note A = A[folded s_def] and B = B[unfolded len, folded s'_def]
  have higher: False
    if lt: "s1 < s2" and l1: "E1 < 10 ^ len" and b1: "between c lo hi (of_int E1 * 10 powi s1)" and l2: "10 ^ (len - 1) \<le> E2"
      and b2: "between c lo hi (of_int E2 * 10 powi s2)" and t: "\<And>F. \<not> between c lo hi (of_int (10 * F) * 10 powi s1)" for s1 s2 E1 E2
  proof -
    obtain m where m: "len = Suc m" using A by (cases len) auto
    have "real_of_int E1 \<le> of_int (10 ^ len)" using l1 by (simp only: of_int_le_iff)
    then have u: "of_int E1 * (10::real) powi s1 \<le> of_int (10 ^ len) * 10 powi s1" by (intro mult_right_mono) simp_all
    have e: "(10::real) powi (1 + s1) = 10 powi 1 * 10 powi s1" by (rule power_int_add) simp
    have "(10::real) powi (1 + s1) \<le> 10 powi s2" by (rule power_int_increasing) (use lt in simp_all)
    then have x: "of_int (10 ^ m) * (10 * 10 powi s1) \<le> of_int (10 ^ m) * (10::real) powi s2" unfolding e by (intro mult_left_mono) simp_all
    have "real_of_int (10 ^ m) \<le> of_int E2" using l2 unfolding m by simp
    then have y: "of_int (10 ^ m) * (10::real) powi s2 \<le> of_int E2 * 10 powi s2" by (intro mult_right_mono) simp_all
    have "of_int (10 ^ len) * (10::real) powi s1 = of_int (10 ^ m) * (10 * 10 powi s1)" by (simp add: m)
    then have w: "of_int (10 ^ len) * (10::real) powi s1 \<le> of_int E2 * 10 powi s2" using x y by linarith
    have "between c lo hi (of_int (10 * 10 ^ m) * 10 powi s1)" using between_mono[OF b1 b2 u w] by (simp add: m)
    then show False using t by blast
  qed
  have ss: "s' = s"
  proof (rule ccontr)
    assume "s' \<noteq> s"
    then consider "s < s'" | "s' < s" by linarith
    then show False by cases (use higher[of s s' E E'] higher[of s' s E' E] A B in blast)+
  qed
  have "E' = E"
  proof (rule ccontr)
    assume ne: "E' \<noteq> E"
    have "\<bar>of_int E * 10 powi s - v\<bar> < \<bar>of_int E' * 10 powi s - v\<bar>"
      using S ne B unfolding strictly_closest_def s_def[symmetric] ss by blast
    moreover have "\<bar>of_int E' * 10 powi s - v\<bar> \<le> \<bar>of_int E * 10 powi s - v\<bar>" using B A unfolding ss by blast
    ultimately show False by simp
  qed
  then show ?thesis using len ss by (simp add: s_def s'_def)
qed

end
