(* ===== verification/Grisu_Double.thy ===== *)
theory Grisu_Double
  imports Grisu_Shortest
begin

text \<open>\<open>Grisu3\<close> (\<open>fast-dtoa.cc\<close>): the scaled boundaries of a double satisfy what \<open>DigitGen\<close> needs, so what it returns with \<open>true\<close> is the shortest decimal.\<close>


section \<open>The normalised value\<close>

lemma ok_DoubleAsNormalizedDiyFp:
  assumes v: "finite_double v" "0 < uint v"
    and Q: "\<And>w j. uint (fp_f w) = uint (DoubleSignificand v) * 2 ^ (j + 11) \<Longrightarrow> 2 ^ 63 \<le> uint (fp_f w) \<Longrightarrow>
      fp_e w = DoubleExponent v - int j - 11 \<Longrightarrow> Q w"
  shows "ok (DoubleAsNormalizedDiyFp v) Q"
proof -
  note F = finite_double_fields[OF v(1)]
  let ?s = "DoubleSignificand v" and ?e = "DoubleExponent v"
  note s1 = DoubleSignificand_pos[OF v]
  have loop: "ok (while_do (\<lambda>(f, e). Some (f AND kDoubleHiddenBit = 0)) (\<lambda>(f, e). Some (push_bit 1 f, e - 1)) (?s, ?e))
     (\<lambda>(g, e'). \<exists>j. uint g = uint ?s * 2 ^ j \<and> e' = ?e - int j \<and> 2 ^ 52 \<le> uint g \<and> uint g < 2 ^ 53)"
  proof (rule ok_while_do[where P = "\<lambda>(t, e'). \<exists>k. uint t = uint ?s * 2 ^ k \<and> e' = ?e - int k \<and> uint t < 2 ^ 53"
      and m = "\<lambda>(t, e). nat (2 ^ 53 - uint t)"], goal_cases)
    case 1
    then show ?case using F by (auto intro!: exI[of _ 0])
  next
    case (2 x)
    obtain t e' where t: "x = (t, e')" by (cases x)
    obtain k where k: "uint t = uint ?s * 2 ^ k" "e' = ?e - int k" "uint t < 2 ^ 53" using 2 t by auto
    note g = hidden_bit_small[OF k(3)]
    have t1: "1 \<le> uint t" unfolding k(1) using s1 by (simp add: int_one_le_iff_zero_less)
    show ?case
    proof (cases "uint t < 2 ^ 52")
      case False
      then show ?thesis using t g k by auto
    next
      case True
      then have "uint (push_bit 1 t) = uint t * 2 ^ 1" by (intro uint_push_bit_exact) simp
      then have "uint (push_bit 1 t) = uint ?s * 2 ^ Suc k" "uint (push_bit 1 t) < 2 ^ 53" "uint t < uint (push_bit 1 t)" using k True t1 by simp_all
      then show ?thesis using t g True k by (auto intro!: exI[of _ "Suc k"])
    qed
  qed
  have fin: "Q (DiyFp (push_bit 11 g) (e' - 11))" if "uint g = uint ?s * 2 ^ j" "e' = ?e - int j" "2 ^ 52 \<le> uint g" "uint g < 2 ^ 53" for g e' j
  proof -
    have p: "uint (push_bit 11 g) = uint g * 2 ^ 11" by (rule uint_push_bit_exact) (use that(4) in simp)
    then show ?thesis by (intro Q[where j = j]) (use that in \<open>simp_all add: power_add\<close>)
  qed
  show ?thesis
    unfolding DoubleAsNormalizedDiyFp_def
    apply (simp only: ok_bind[of "ensure _"] ok_ensure double_less_0_finite[OF v(1)] v(2) simp_thms)
    apply (subst ok_bind, rule ok_mono[OF loop])
    using fin by (auto simp: Let_def)
qed


section \<open>Grisu3\<close>

definition diy_real :: "diyfp \<Rightarrow> real" where
  "diy_real x = of_int (uint (fp_f x)) * 2 powi fp_e x"

text \<open>The lower boundary, the number and the upper boundary, with one exponent.\<close>

definition grisu_input :: "diyfp \<Rightarrow> diyfp \<Rightarrow> diyfp \<Rightarrow> bool" where
  "grisu_input mm w mp \<longleftrightarrow> fp_e mm = fp_e w \<and> fp_e mp = fp_e w \<and> - 1137 \<le> fp_e w \<and> fp_e w \<le> 960 \<and>
     8 \<le> uint (fp_f mm) \<and> uint (fp_f mm) \<le> uint (fp_f w) \<and> uint (fp_f w) \<le> uint (fp_f mp) \<and> 2 ^ 63 \<le> uint (fp_f mp) \<and>
     uint (fp_f mp) + 8 \<le> (uint (fp_f mp) - uint (fp_f mm)) * 10 ^ 16"

lemma scaled_wide:
  fixes T :: real
  assumes T: "1 / 4 \<le> T" and lh: "\<bar>of_int l - of_int l0 * T\<bar> < 1" "\<bar>of_int h - of_int h0 * T\<bar> < 1"
    and w: "8 \<le> l0" "2 ^ 63 \<le> h0" "h0 + 8 \<le> (h0 - l0) * 10 ^ 16"
  shows "1 \<le> l" "l + 2 \<le> h" "h + 1 \<le> (h - l + 2) * 10 ^ 16"
proof -
  have pos: "0 < T" using T by simp
  have m: "4 * n \<le> m \<Longrightarrow> real_of_int n \<le> of_int m * T" if "0 \<le> m" for n m
  proof -
    assume "4 * n \<le> m"
    then have "real_of_int n \<le> of_int m * (1 / 4)" by simp
    also have "\<dots> \<le> of_int m * T" by (rule mult_left_mono[OF T]) (use that in simp)
    finally show ?thesis .
  qed
  have "real_of_int 2 \<le> of_int l0 * T" by (rule m) (use w in simp_all)
  then have "0 < real_of_int l" using lh(1) by linarith
  then show "1 \<le> l" by linarith
  have d: "4 * 4 \<le> h0 - l0" using w(2,3) by simp
  have "real_of_int 4 \<le> of_int (h0 - l0) * T" by (rule m[OF _ d]) (use d in simp)
  then have "real_of_int 4 \<le> of_int h0 * T - of_int l0 * T" by (simp add: left_diff_distrib)
  then have "1 < real_of_int h - of_int l" using lh by linarith
  then show "l + 2 \<le> h" by linarith
  have "real_of_int (h0 + 8) * T \<le> of_int ((h0 - l0) * 10 ^ 16) * T"
    by (rule mult_right_mono) (use w(3) pos in \<open>simp_all only: of_int_le_iff less_imp_le\<close>)
  then have "of_int h0 * T + 8 * T \<le> (of_int h0 * T - of_int l0 * T) * (10 ^ 16 :: real)" by (simp add: algebra_simps)
  moreover have "2 \<le> 8 * T" using T by simp
  moreover have "of_int h0 * T - of_int l0 * T \<le> of_int h - of_int l + 2" using lh by linarith
  then have "(of_int h0 * T - of_int l0 * T) * (10 ^ 16 :: real) \<le> (of_int h - of_int l + 2) * 10 ^ 16" by (rule mult_right_mono) simp
  ultimately have "of_int h + 1 \<le> (of_int h - of_int l + 2) * (10 ^ 16 :: real)" using lh(2) by linarith
  then have "real_of_int (h + 1) \<le> of_int ((h - l + 2) * 10 ^ 16)" by simp
  then show "h + 1 \<le> (h - l + 2) * 10 ^ 16" by (simp only: of_int_le_iff)
qed

lemma Times_mono: "uint (fp_f x) \<le> uint (fp_f y) \<Longrightarrow> uint (fp_f (Times x t)) \<le> uint (fp_f (Times y t))"
  unfolding Times_def Multiply_value by (intro zdiv_mono1 add_right_mono mult_left_mono) (simp_all add: mult_right_mono)

lemma Times_bounds:
  assumes "2 ^ 63 \<le> uint (fp_f x)" "2 ^ 63 \<le> uint (fp_f t)"
  shows "2 ^ 62 \<le> uint (fp_f (Times x t))" "uint (fp_f (Times x t)) + 1 < 2 ^ 64"
proof -
  have "(2::int) ^ 63 * 2 ^ 63 \<le> uint (fp_f t) * uint (fp_f x)" by (rule mult_mono) (use assms in simp_all)
  then have "(2::int) ^ 126 \<le> uint (fp_f t) * uint (fp_f x)" by simp
  then show "2 ^ 62 \<le> uint (fp_f (Times x t))" unfolding Times_def Multiply_value by (subst le_zdiv) (simp_all add: mult.commute)
  have "uint (fp_f t) * uint (fp_f x) \<le> (2 ^ 64 - 1) * (2 ^ 64 - 1)"
    by (rule mult_mono) (use uint_lt_2p[of "fp_f t"] uint_lt_2p[of "fp_f x"] in simp_all)
  then have "uint (fp_f t) * uint (fp_f x) + 9223372036854775808 < (2 ^ 64 - 1) * 18446744073709551616" by simp
  then have "(uint (fp_f t) * uint (fp_f x) + 9223372036854775808) div 18446744073709551616 < 2 ^ 64 - 1"
    unfolding not_le[symmetric] by (subst le_zdiv) simp_all
  then show "uint (fp_f (Times x t)) + 1 < 2 ^ 64" unfolding Times_def Multiply_value by (simp add: mult.commute)
qed

definition grisu_digits :: "real \<Rightarrow> real \<Rightarrow> real \<Rightarrow> u8 list \<Rightarrow> bool \<times> u8 list \<times> int \<times> int \<Rightarrow> bool" where
  "grisu_digits lo x hi buf = (\<lambda>(res, buf', len, e). \<exists>n\<le>16. len = int n + 1 \<and> length buf' = length buf \<and>
     drop (Suc n) buf' = drop (Suc n) buf \<and>
     (res \<longrightarrow> digits (take (Suc n) buf') \<and>
       (\<forall>c. shortest_decimal c lo x hi (dec_val (take (Suc n) buf')) (Suc n) (len + e) \<and>
         strictly_closest c lo x hi (dec_val (take (Suc n) buf')) e)))"

lemma ok_Grisu3:
  assumes A: "ok (DoubleAsNormalizedDiyFp v) (\<lambda>w. ok (if mode = FAST_DTOA_SHORTEST then DoubleNormalizedBoundaries v
        else do { ensure (mode = FAST_DTOA_SHORTEST_SINGLE);
          let single_v = float_of_double v;
          SingleNormalizedBoundaries single_v })
      (\<lambda>(mm, mp). grisu_input mm w mp \<and> diy_real mm = lo \<and> diy_real w = x \<and> diy_real mp = hi))"
    and buf: "17 \<le> length buf"
  shows "ok (Grisu3 v mode buf) (grisu_digits lo x hi buf)"
proof -
  have main: "ok (do { (ten_mk, mk) \<leftarrow> GetCachedPowerForBinaryExponentRange (- 60 - (fp_e w + 64)) (- 32 - (fp_e w + 64));
       ensure (- 60 \<le> fp_e w + fp_e ten_mk + 64 \<and> fp_e w + fp_e ten_mk + 64 \<le> - 32);
       ensure (fp_e (Times w ten_mk) = fp_e w + fp_e ten_mk + 64);
       (result, buffer, len, kappa) \<leftarrow> DigitGen (Times mm ten_mk) (Times w ten_mk) (Times mp ten_mk) buf;
       Some (result, buffer, len, - mk + kappa) }) (grisu_digits (diy_real mm) (diy_real w) (diy_real mp) buf)"
    if G: "grisu_input mm w mp" for mm w mp
  proof (subst ok_bind, rule ok_GetCachedPowerForBinaryExponentRange)
    note g = G[unfolded grisu_input_def]
    show "- 1084 \<le> - 60 - (fp_e w + 64)" "- 60 - (fp_e w + 64) \<le> 1013" "- 60 - (fp_e w + 64) + 26 \<le> - 32 - (fp_e w + 64)"
      using g by linarith+
    fix f :: u64 and be d
    assume np: "near_power (uint f) be d" and be: "- 60 - (fp_e w + 64) \<le> be" "be \<le> - 60 - (fp_e w + 64) + 26"
    let ?t = "DiyFp f be"
    define q where "q = fp_e w + be + 64"
    have q: "- 60 \<le> q" "q \<le> - 34" using be by (simp_all add: q_def)
    define T :: real where "T = 10 powi d * 2 powi (- be) / 18446744073709551616"
    note R = near_power_real[OF np]
    have f63: "2 ^ 63 \<le> uint f" using R(2) by simp
    have T: "1 / 4 \<le> T"
    proof -
      have "9223372036854775808 \<le> real_of_int (uint f)" using R(2) by linarith
      then have "4611686018427387904 \<le> 10 powi d * (2::real) powi (- be)" using R(1) by (simp add: abs_real_def split: if_splits)
      then show ?thesis by (simp add: T_def)
    qed
    have err: "\<bar>of_int (uint (fp_f (Times y ?t))) - of_int (uint (fp_f y)) * T\<bar> < 1" for y
      unfolding T_def by (rule Times_error(1)[OF np])
    have e: "fp_e (Times y ?t) = q" if "fp_e y = fp_e w" for y using Times_error(2)[OF np, of y] that by (simp add: q_def)
    let ?l = "uint (fp_f (Times mm ?t))" and ?x = "uint (fp_f (Times w ?t))" and ?h = "uint (fp_f (Times mp ?t))"
    note W = scaled_wide[OF T err[of mm] err[of mp]]
    have o: "?l \<le> ?x" "?x \<le> ?h" using g by (simp_all add: Times_mono)
    have t63: "2 ^ 63 \<le> uint (fp_f ?t)" using f63 by simp
    have h: "2 ^ 62 \<le> ?h" "?h + 1 < 2 ^ 64" by (rule Times_bounds[OF _ t63]; use g in simp)+
    have scale: "of_int (uint (fp_f y)) * T = diy_real y * (10 powi d * 2 powi (- q))" if "fp_e y = fp_e w" for y
    proof -
      have "(2::real) powi (- be) = 2 powi fp_e w * 2 powi (- q) * 2 powi 64"
        by (subst power_int_add[symmetric], simp)+ (simp add: q_def)
      then show ?thesis unfolding T_def diy_real_def that by simp
    qed
    have dg: "ok (DigitGen (Times mm ?t) (Times w ?t) (Times mp ?t) buf) (grisu_result ?l ?x ?h q buf)"
      by (rule ok_DigitGen) (use e g q W o h buf in auto)
    have conv: "grisu_digits (diy_real mm) (diy_real w) (diy_real mp) buf (res, buf', len, - d + kappa)"
      if "grisu_result ?l ?x ?h q buf (res, buf', len, kappa)" for res buf' len kappa
    proof -
      from that[unfolded grisu_result_def prod.case] obtain n
        where N: "n \<le> 16 \<and> len = int n + 1 \<and> length buf' = length buf \<and> drop (Suc n) buf' = drop (Suc n) buf \<and>
          (res \<longrightarrow> digits (take (Suc n) buf') \<and> (\<exists>tk unit. 1 \<le> unit \<and> 0 < tk \<and>
           of_int tk / of_int unit = (10 powi kappa * 2 powi (- q) :: real) \<and> grisu_ok ?l ?x ?h tk unit (dec_val (take (Suc n) buf')) n))" ..
      then have n: "n \<le> 16" "len = int n + 1" "length buf' = length buf" "drop (Suc n) buf' = drop (Suc n) buf"
        and r: "res \<Longrightarrow> digits (take (Suc n) buf')" "res \<Longrightarrow> (\<exists>tk unit. 1 \<le> unit \<and> 0 < tk \<and>
           of_int tk / of_int unit = (10 powi kappa * 2 powi (- q) :: real) \<and> grisu_ok ?l ?x ?h tk unit (dec_val (take (Suc n) buf')) n)"
        by simp_all
      have p: "kappa - d + int (Suc n) = len + (- d + kappa)" using n by simp
      have "shortest_decimal c (diy_real mm) (diy_real w) (diy_real mp) (dec_val (take (Suc n) buf')) (Suc n) (len + (- d + kappa)) \<and>
          strictly_closest c (diy_real mm) (diy_real w) (diy_real mp) (dec_val (take (Suc n) buf')) (- d + kappa)" if res: res for c
      proof -
        obtain tk unit where t: "1 \<le> unit" "0 < tk" "of_int tk / of_int unit = (10 powi kappa * 2 powi (- q) :: real)"
          "grisu_ok ?l ?x ?h tk unit (dec_val (take (Suc n) buf')) n" using r(2)[OF res] by blast
        have m: "- d + kappa = kappa - d" by simp
        show ?thesis unfolding p[symmetric] unfolding m
          by (intro conjI; rule grisu_shortest[OF t(4,1,2,3) refl]; subst scale[symmetric]; use g err in simp)
      qed
      then show ?thesis using n r(1) unfolding grisu_digits_def prod.case by (intro exI[of _ n]) simp
    qed
    show "ok (case (?t, d) of (ten_mk, mk) \<Rightarrow> do {
       ensure (- 60 \<le> fp_e w + fp_e ten_mk + 64 \<and> fp_e w + fp_e ten_mk + 64 \<le> - 32);
       ensure (fp_e (Times w ten_mk) = fp_e w + fp_e ten_mk + 64);
       (result, buffer, len, kappa) \<leftarrow> DigitGen (Times mm ten_mk) (Times w ten_mk) (Times mp ten_mk) buf;
       Some (result, buffer, len, - mk + kappa) }) (grisu_digits (diy_real mm) (diy_real w) (diy_real mp) buf)"
    proof -
      have "ok (DigitGen (Times mm ?t) (Times w ?t) (Times mp ?t) buf)
          (\<lambda>r. case r of (res, buf', len, kappa) \<Rightarrow> grisu_digits (diy_real mm) (diy_real w) (diy_real mp) buf (res, buf', len, - d + kappa))"
        by (rule ok_mono[OF dg]) (use conv in blast)
      then show ?thesis using be e[of w, OF refl] by (simp add: ok_bind ok_ensure ok_split q_def split_def)
    qed
  qed
  show ?thesis unfolding Grisu3_def
  proof (subst ok_bind, rule ok_mono[OF A], subst ok_bind, rule ok_mono, assumption)
    fix w p
    assume "case p of (mm, mp) \<Rightarrow> grisu_input mm w mp \<and> diy_real mm = lo \<and> diy_real w = x \<and> diy_real mp = hi"
    then obtain mm mp where p: "p = (mm, mp)" and g: "grisu_input mm w mp" "diy_real mm = lo" "diy_real w = x" "diy_real mp = hi"
      by (cases p) auto
    have eq: "fp_e mp = fp_e w" using g(1) by (simp add: grisu_input_def)
    show "ok (case p of (boundary_minus, boundary_plus) \<Rightarrow> do {
     ensure (fp_e boundary_plus = fp_e w);
     let ten_mk_minimal_binary_exponent = kMinimalTargetExponent - (fp_e w + kDiySignificandSize);
     let ten_mk_maximal_binary_exponent = kMaximalTargetExponent - (fp_e w + kDiySignificandSize);
     (ten_mk, mk) \<leftarrow> GetCachedPowerForBinaryExponentRange
       ten_mk_minimal_binary_exponent ten_mk_maximal_binary_exponent;
     ensure (kMinimalTargetExponent \<le> fp_e w + fp_e ten_mk + kDiySignificandSize \<and>
             kMaximalTargetExponent \<ge> fp_e w + fp_e ten_mk + kDiySignificandSize);
     let scaled_w = Times w ten_mk;
     ensure (fp_e scaled_w = fp_e boundary_plus + fp_e ten_mk + kDiySignificandSize);
     let scaled_boundary_minus = Times boundary_minus ten_mk;
     let scaled_boundary_plus = Times boundary_plus ten_mk;
     (result, buffer, len, kappa) \<leftarrow>
       DigitGen scaled_boundary_minus scaled_w scaled_boundary_plus buf;
     Some (result, buffer, len, - mk + kappa) }) (grisu_digits lo x hi buf)"
      using main[OF g(1)] unfolding p prod.case eq g(2-4) Let_def ok_bind[of "ensure (fp_e w = fp_e w)"] ok_ensure by simp
  qed
qed


section \<open>The boundaries of a double\<close>

lemma same_shift:
  assumes "(2::int) ^ 63 \<le> (2 * f + 1) * 2 ^ k" "(2 * f + 1) * 2 ^ k < (2::int) ^ 64" "(2::int) ^ 63 \<le> f * 2 ^ m" "f * 2 ^ m < (2::int) ^ 64"
    "k \<le> 62" "0 \<le> f"
  shows "m = Suc k"
proof (rule ccontr)
  assume "m \<noteq> Suc k"
  then consider "m \<le> k" | "Suc (Suc k) \<le> m" by linarith
  then show False
  proof cases
    case 1
    then have "(2::int) ^ m \<le> 2 ^ k" by (intro power_increasing) simp_all
    then have "f * 2 ^ m \<le> f * 2 ^ k" using assms(6) by (intro mult_left_mono)
    then have "2 ^ 64 \<le> (2 * f) * (2::int) ^ k" using assms(3) by simp
    moreover have "(2 * f) * (2::int) ^ k \<le> (2 * f + 1) * 2 ^ k" by (rule mult_right_mono) simp_all
    ultimately show False using assms(2) by linarith
  next
    case 2
    then have "(2::int) ^ Suc (Suc k) \<le> 2 ^ m" by (intro power_increasing) simp_all
    then have "f * 2 ^ Suc (Suc k) \<le> f * 2 ^ m" using assms(6) by (intro mult_left_mono)
    then have lt: "f * 2 ^ Suc k < (2::int) ^ 63" using assms(4) by simp
    have p: "(2::int) ^ 63 = 2 ^ (62 - k) * 2 ^ Suc k" using assms(5) by (simp flip: power_add)
    have "f < 2 ^ (62 - k)" using lt unfolding p by (rule mult_right_less_imp_less) simp
    then have "(f + 1) * 2 ^ Suc k \<le> 2 ^ (62 - k) * 2 ^ Suc k" by (intro mult_right_mono) simp_all
    then have "(2 * f + 2) * 2 ^ k \<le> (2::int) ^ 63" unfolding p by (simp add: algebra_simps)
    moreover have "(2 * f + 1) * 2 ^ k < (2 * f + 2) * (2::int) ^ k" by simp
    ultimately show False using assms(1) by linarith
  qed
qed

lemma double_grisu_input:
  assumes v: "finite_double v" "0 < uint v"
    and w: "uint (fp_f w) = uint (DoubleSignificand v) * 2 ^ (j + 11)" "2 ^ 63 \<le> uint (fp_f w)" "fp_e w = DoubleExponent v - int j - 11"
    and e: "fp_e mm = fp_e mp" "2 ^ 63 \<le> uint (fp_f mp)" "fp_e mp = DoubleExponent v - 1 - int k" "10 \<le> k" "k \<le> 62"
    and mp: "uint (fp_f mp) = (2 * uint (DoubleSignificand v) + 1) * 2 ^ k"
    and mm: "uint (fp_f mm) = (if DoubleLowerBoundaryIsCloser v then (4 * uint (DoubleSignificand v) - 1) * 2 ^ (k - 1)
        else (2 * uint (DoubleSignificand v) - 1) * 2 ^ k)"
  shows "grisu_input mm w mp"
    "diy_real mm = lo_bound (DoubleLowerBoundaryIsCloser v) (uint (DoubleSignificand v)) (DoubleExponent v)"
    "diy_real w = of_int (uint (DoubleSignificand v)) * 2 powi DoubleExponent v"
    "diy_real mp = hi_bound (uint (DoubleSignificand v)) (DoubleExponent v)"
proof -
  note F = finite_double_fields[OF v(1)]
  define f E c where "f = uint (DoubleSignificand v)" and "E = DoubleExponent v" and "c = DoubleLowerBoundaryIsCloser v"
  note w = w[folded f_def E_def] and mp = mp[folded f_def] and mm = mm[folded f_def c_def] and e = e[folded E_def]
  have f: "1 \<le> f" "f < 2 ^ 53" using F DoubleSignificand_pos[OF v] by (simp_all add: f_def)
  have jk: "j + 11 = Suc k"
    by (rule same_shift[of f k]) (use w e mp f uint_lt_2p[of "fp_f w"] uint_lt_2p[of "fp_f mp"] in simp_all)
  obtain i where i: "k = Suc i" using e(4) by (cases k) auto
  have ew: "fp_e w = E - int k - 1" using w(3) jk by simp
  define P where "P = (2::int) ^ i"
  have P: "512 \<le> P"
  proof -
    have "(2::int) ^ 9 \<le> 2 ^ i" by (rule power_increasing) (use i e(4) in simp_all)
    then show ?thesis by (simp add: P_def)
  qed
  have vals: "uint (fp_f w) = 4 * f * P" "uint (fp_f mp) = (4 * f + 2) * P" "uint (fp_f mm) = (if c then (4 * f - 1) * P else (4 * f - 2) * P)"
    using w(1) mp mm unfolding jk i P_def by (simp_all add: algebra_simps)
  have closer: "f = 2 ^ 52" if c
    using closer_significand[OF v(1)] that by (simp add: c_def f_def)
  show "grisu_input mm w mp" unfolding grisu_input_def
  proof (intro conjI)
    show "fp_e mm = fp_e w" "fp_e mp = fp_e w" using e ew by simp_all
    show "- 1137 \<le> fp_e w" "fp_e w \<le> 960" unfolding ew using F e by (simp_all add: E_def)
    show "2 ^ 63 \<le> uint (fp_f mp)" by (rule e(2))
    have a: "x * P \<le> y * P" if "x \<le> y" for x y using that P by (intro mult_right_mono) simp_all
    show "uint (fp_f mm) \<le> uint (fp_f w)" "uint (fp_f w) \<le> uint (fp_f mp)" unfolding vals using a by simp_all
    have "512 \<le> (4 * f - 2) * P" "512 \<le> (4 * f - 1) * P" using a[of 1 "4 * f - 2"] a[of 1 "4 * f - 1"] f P by linarith+
    then show "8 \<le> uint (fp_f mm)" unfolding vals by simp
    have wide: "(4 * f + 2) * P + 8 \<le> (4 * f + 3) * P" using P by (simp add: left_diff_distrib distrib_right)
    show "uint (fp_f mp) + 8 \<le> (uint (fp_f mp) - uint (fp_f mm)) * 10 ^ 16"
    proof (cases c)
      case True
      have "(4 * f + 3) * P \<le> (3 * 10 ^ 16) * P" by (rule a) (use closer[OF True] in simp)
      also have "\<dots> = ((4 * f + 2) * P - (4 * f - 1) * P) * 10 ^ 16" by (simp add: left_diff_distrib distrib_right)
      finally show ?thesis unfolding vals using wide by (simp only: True if_True if_False)
    next
      case False
      have "(4 * f + 3) * P \<le> (4 * 10 ^ 16) * P" by (rule a) (use f in simp)
      also have "\<dots> = ((4 * f + 2) * P - (4 * f - 2) * P) * 10 ^ 16" by (simp add: left_diff_distrib distrib_right)
      finally show ?thesis unfolding vals using wide by (simp only: False if_True if_False)
    qed
  qed
  have two: "(2::real) powi E = of_int P * 4 * 2 powi (E - int k - 1)"
  proof -
    have "(2::real) powi E = 2 powi (int i + 2) * 2 powi (E - int k - 1)" by (subst power_int_add[symmetric]) (simp_all add: i)
    moreover have "(2::real) powi (int i + 2) = of_int P * 4" by (subst power_int_add) (simp_all add: P_def)
    ultimately show ?thesis by simp
  qed
  show "diy_real mm = lo_bound (DoubleLowerBoundaryIsCloser v) (uint (DoubleSignificand v)) (DoubleExponent v)"
    "diy_real w = of_int (uint (DoubleSignificand v)) * 2 powi DoubleExponent v"
    "diy_real mp = hi_bound (uint (DoubleSignificand v)) (DoubleExponent v)"
    unfolding diy_real_def lo_bound_def hi_bound_def f_def[symmetric] E_def[symmetric] c_def[symmetric] two vals e(1) ew e(3)
    by (simp_all add: algebra_simps)
qed

end
