(* ===== verification/Fixed_Dtoa.thy ===== *)
theory Fixed_Dtoa
  imports Ieee
begin

text \<open>
  Fixed-point printing with 64- and 128-bit integers (\<open>fixed-dtoa.cc\<close>).
  The functions that fill a buffer return the buffer and its length (and the decimal point
  where they change it).
\<close>

section \<open>128-bit integers\<close>

record uint128 =
  high_bits :: u64
  low_bits :: u64

definition UInt128 :: "u64 \<Rightarrow> u64 \<Rightarrow> uint128" where
  "UInt128 high low = \<lparr>high_bits = high, low_bits = low\<rparr>"

definition kMask32 :: u64 where "kMask32 = 0xFFFFFFFF"

definition UInt128Multiply :: "u32 \<Rightarrow> uint128 \<Rightarrow> uint128 option" where
  "UInt128Multiply multiplicand this = do {
     let m = (ucast multiplicand :: u64);
     let accumulator = (low_bits this AND kMask32) * m;
     let part = (ucast (accumulator AND kMask32) :: u32);
     let accumulator = drop_bit 32 accumulator;
     let accumulator = accumulator + drop_bit 32 (low_bits this) * m;
     let low = push_bit 32 accumulator + ucast part;
     let accumulator = drop_bit 32 accumulator;
     let accumulator = accumulator + (high_bits this AND kMask32) * m;
     let part = (ucast (accumulator AND kMask32) :: u32);
     let accumulator = drop_bit 32 accumulator;
     let accumulator = accumulator + drop_bit 32 (high_bits this) * m;
     let high = push_bit 32 accumulator + ucast part;
     ensure (drop_bit 32 accumulator = 0);
     Some (UInt128 high low) }"

definition UInt128Shift :: "int \<Rightarrow> uint128 \<Rightarrow> uint128 option" where
  "UInt128Shift shift_amount this = do {
     ensure (-64 \<le> shift_amount \<and> shift_amount \<le> 64);
     if shift_amount = 0 then Some this
     else if shift_amount = -64 then Some (UInt128 (low_bits this) 0)
     else if shift_amount = 64 then Some (UInt128 0 (high_bits this))
     else if shift_amount \<le> 0 then do {
       high \<leftarrow> shl64 (high_bits this) (- shift_amount);
       carry \<leftarrow> shr64 (low_bits this) (64 + shift_amount);
       low \<leftarrow> shl64 (low_bits this) (- shift_amount);
       Some (UInt128 (high + carry) low) }
     else do {
       low \<leftarrow> shr64 (low_bits this) shift_amount;
       carry \<leftarrow> shl64 (high_bits this) (64 - shift_amount);
       high \<leftarrow> shr64 (high_bits this) shift_amount;
       Some (UInt128 high (low + carry)) } }"

definition DivModPowerOf2 :: "int \<Rightarrow> uint128 \<Rightarrow> (int \<times> uint128) option" where
  "DivModPowerOf2 exp2 this =
     (if exp2 \<ge> 64 then do {
        h \<leftarrow> shr64 (high_bits this) (exp2 - 64);
        let result = c_int h;
        r \<leftarrow> shl64 (word_of_int result) (exp2 - 64);
        Some (result, this\<lparr>high_bits := high_bits this - r\<rparr>) }
      else do {
        part_low \<leftarrow> shr64 (low_bits this) exp2;
        part_high \<leftarrow> shl64 (high_bits this) (64 - exp2);
        let result = c_int (part_low + part_high);
        r \<leftarrow> shl64 part_low exp2;
        Some (result, UInt128 0 (low_bits this - r)) })"

definition IsZero :: "uint128 \<Rightarrow> bool" where
  "IsZero this \<longleftrightarrow> high_bits this = 0 \<and> low_bits this = 0"

definition BitAt :: "int \<Rightarrow> uint128 \<Rightarrow> int option" where
  "BitAt position this =
     (if position \<ge> 64 then do { x \<leftarrow> shr64 (high_bits this) (position - 64); Some (c_int x AND 1) }
      else do { x \<leftarrow> shr64 (low_bits this) position; Some (c_int x AND 1) })"

section \<open>Digits of integers\<close>

definition FillDigits32FixedLength :: "u32 \<Rightarrow> int \<Rightarrow> u8 list \<Rightarrow> int \<Rightarrow> (u8 list \<times> int) option" where
  "FillDigits32FixedLength number requested_length buffer len = do {
     (buffer, _) \<leftarrow> for_down (requested_length - 1) 0
       (\<lambda>i (buffer, number). do {
          buffer \<leftarrow> wr buffer (len + i) (ch CHR ''0'' + ucast (number mod 10));
          Some (buffer, number div 10) }) (buffer, number);
     Some (buffer, len + requested_length) }"

definition FillDigits32 :: "u32 \<Rightarrow> u8 list \<Rightarrow> int \<Rightarrow> (u8 list \<times> int) option" where
  "FillDigits32 number buffer len = do {
     (buffer, _, number_length) \<leftarrow> while_do (\<lambda>(buffer, number, n). Some (number \<noteq> 0))
       (\<lambda>(buffer, number, n). do {
          let digit = number mod 10;
          let number = number div 10;
          buffer \<leftarrow> wr buffer (len + n) (ch CHR ''0'' + ucast digit);
          Some (buffer, number, n + 1) }) (buffer, number, 0);
     (buffer, _, _) \<leftarrow> while_do (\<lambda>(buffer, i, j). Some (i < j))
       (\<lambda>(buffer, i, j). do {
          tmp \<leftarrow> rd buffer i;
          c \<leftarrow> rd buffer j;
          buffer \<leftarrow> wr buffer i c;
          buffer \<leftarrow> wr buffer j tmp;
          Some (buffer, i + 1, j - 1) }) (buffer, len, len + number_length - 1);
     Some (buffer, len + number_length) }"

definition FillDigits64FixedLength :: "u64 \<Rightarrow> u8 list \<Rightarrow> int \<Rightarrow> (u8 list \<times> int) option" where
  "FillDigits64FixedLength number buffer len = do {
     let kTen7 = (10000000 :: u64);
     let part2 = (ucast (number mod kTen7) :: u32);
     let number = number div kTen7;
     let part1 = (ucast (number mod kTen7) :: u32);
     let part0 = (ucast (number div kTen7) :: u32);
     (buffer, len) \<leftarrow> FillDigits32FixedLength part0 3 buffer len;
     (buffer, len) \<leftarrow> FillDigits32FixedLength part1 7 buffer len;
     FillDigits32FixedLength part2 7 buffer len }"

definition FillDigits64 :: "u64 \<Rightarrow> u8 list \<Rightarrow> int \<Rightarrow> (u8 list \<times> int) option" where
  "FillDigits64 number buffer len = do {
     let kTen7 = (10000000 :: u64);
     let part2 = (ucast (number mod kTen7) :: u32);
     let number = number div kTen7;
     let part1 = (ucast (number mod kTen7) :: u32);
     let part0 = (ucast (number div kTen7) :: u32);
     if part0 \<noteq> 0 then do {
       (buffer, len) \<leftarrow> FillDigits32 part0 buffer len;
       (buffer, len) \<leftarrow> FillDigits32FixedLength part1 7 buffer len;
       FillDigits32FixedLength part2 7 buffer len }
     else if part1 \<noteq> 0 then do {
       (buffer, len) \<leftarrow> FillDigits32 part1 buffer len;
       FillDigits32FixedLength part2 7 buffer len }
     else FillDigits32 part2 buffer len }"

section \<open>Rounding and fractions\<close>

text \<open>
  The loop of \<open>RoundUp\<close>, which returns from the function at the first digit that is in range
  and otherwise ends with the check of the first digit.
\<close>

function round_up_from :: "int \<Rightarrow> u8 list \<Rightarrow> int \<Rightarrow> (u8 list \<times> int) option" where
  "round_up_from i buffer decimal_point =
     (if i > 0 then do {
        c \<leftarrow> rd buffer i;
        if c \<noteq> ch CHR ''0'' + 10 then Some (buffer, decimal_point)
        else do {
          buffer \<leftarrow> wr buffer i (ch CHR ''0'');
          p \<leftarrow> rd buffer (i - 1);
          buffer \<leftarrow> wr buffer (i - 1) (p + 1);
          round_up_from (i - 1) buffer decimal_point } }
      else do {
        c \<leftarrow> rd buffer 0;
        if c = ch CHR ''0'' + 10 then do {
          buffer \<leftarrow> wr buffer 0 (ch CHR ''1'');
          Some (buffer, decimal_point + 1) }
        else Some (buffer, decimal_point) })"
  by pat_completeness auto
termination
  by (relation "measure (\<lambda>(i, buffer, decimal_point). nat i)") auto

declare round_up_from.simps [simp del]

definition RoundUp :: "u8 list \<Rightarrow> int \<Rightarrow> int \<Rightarrow> (u8 list \<times> int \<times> int) option" where
  "RoundUp buffer len decimal_point =
     (if len = 0 then do {
        buffer \<leftarrow> wr buffer 0 (ch CHR ''1'');
        Some (buffer, 1, 1) }
      else do {
        c \<leftarrow> rd buffer (len - 1);
        buffer \<leftarrow> wr buffer (len - 1) (c + 1);
        (buffer, decimal_point) \<leftarrow> round_up_from (len - 1) buffer decimal_point;
        Some (buffer, len, decimal_point) })"

definition FillFractionals ::
    "u64 \<Rightarrow> int \<Rightarrow> int \<Rightarrow> u8 list \<Rightarrow> int \<Rightarrow> int \<Rightarrow> (u8 list \<times> int \<times> int) option" where
  "FillFractionals fractionals exponent fractional_count buffer len decimal_point = do {
     ensure (-128 \<le> exponent \<and> exponent \<le> 0);
     if - exponent \<le> 64 then do {
       ensure (drop_bit 56 fractionals = 0);
       (_, fractionals, point, buffer, len) \<leftarrow> while_do
         (\<lambda>(i, fractionals, point, buffer, len). Some (i < fractional_count \<and> fractionals \<noteq> 0))
         (\<lambda>(i, fractionals, point, buffer, len). do {
            let fractionals = fractionals * 5;
            let point = point - 1;
            d \<leftarrow> shr64 fractionals point;
            let digit = c_int d;
            ensure (digit \<le> 9);
            buffer \<leftarrow> wr buffer len (word_of_int (uint (ch CHR ''0'') + digit));
            r \<leftarrow> shl64 (word_of_int digit) point;
            Some (i + 1, fractionals - r, point, buffer, len + 1) })
         (0, fractionals, - exponent, buffer, len);
       b \<leftarrow> shr64 fractionals (point - 1);
       if b AND 1 = 1 then RoundUp buffer len decimal_point
       else Some (buffer, len, decimal_point) }
     else do {
       ensure (64 < - exponent \<and> - exponent \<le> 128);
       fractionals128 \<leftarrow> UInt128Shift (- exponent - 64) (UInt128 fractionals 0);
       (_, fractionals128, point, buffer, len) \<leftarrow> while_do
         (\<lambda>(i, f, point, buffer, len). Some (i < fractional_count \<and> \<not> IsZero f))
         (\<lambda>(i, f, point, buffer, len). do {
            f \<leftarrow> UInt128Multiply 5 f;
            let point = point - 1;
            (digit, f) \<leftarrow> DivModPowerOf2 point f;
            ensure (digit \<le> 9);
            buffer \<leftarrow> wr buffer len (word_of_int (uint (ch CHR ''0'') + digit));
            Some (i + 1, f, point, buffer, len + 1) })
         (0, fractionals128, 128, buffer, len);
       b \<leftarrow> BitAt (point - 1) fractionals128;
       if b = 1 then RoundUp buffer len decimal_point
       else Some (buffer, len, decimal_point) } }"

definition TrimZeros :: "u8 list \<Rightarrow> int \<Rightarrow> int \<Rightarrow> (u8 list \<times> int \<times> int) option" where
  "TrimZeros buffer len decimal_point = do {
     len \<leftarrow> while_do
       (\<lambda>len. if len > 0 then do { c \<leftarrow> rd buffer (len - 1); Some (c = ch CHR ''0'') } else Some False)
       (\<lambda>len. Some (len - 1)) len;
     first_non_zero \<leftarrow> while_do
       (\<lambda>i. if i < len then do { c \<leftarrow> rd buffer i; Some (c = ch CHR ''0'') } else Some False)
       (\<lambda>i. Some (i + 1)) 0;
     if first_non_zero \<noteq> 0 then do {
       buffer \<leftarrow> for_up first_non_zero len
         (\<lambda>i buffer. do { c \<leftarrow> rd buffer i; wr buffer (i - first_non_zero) c }) buffer;
       Some (buffer, len - first_non_zero, decimal_point - first_non_zero) }
     else Some (buffer, len, decimal_point) }"

text \<open>
  \<open>Some None\<close> is the return value \<open>false\<close>; \<open>Some (Some (buffer, length, decimal_point))\<close> is
  \<open>true\<close> with the out-parameters.
\<close>

definition FastFixedDtoa :: "double \<Rightarrow> int \<Rightarrow> u8 list \<Rightarrow> (u8 list \<times> int \<times> int) option option" where
  "FastFixedDtoa v fractional_count buffer = do {
     let kMaxUInt32 = (0xFFFFFFFF :: u64);
     let significand = DoubleSignificand v;
     let exponent = DoubleExponent v;
     if exponent > 20 then Some None
     else if fractional_count > 20 then Some None
     else do {
       (buffer, len, decimal_point) \<leftarrow>
         (if exponent + kDoubleSignificandSize > 64 then do {
            let kFive17 = (0xB1A2BC2EC5 :: u64);
            let divisor = kFive17;
            let divisor_power = (17 :: int);
            let dividend = significand;
            (quotient, remainder) \<leftarrow>
              (if exponent > divisor_power then do {
                 dividend \<leftarrow> shl64 dividend (exponent - divisor_power);
                 remainder \<leftarrow> shl64 (dividend mod divisor) divisor_power;
                 Some (ucast (dividend div divisor) :: u32, remainder) }
               else do {
                 divisor \<leftarrow> shl64 divisor (divisor_power - exponent);
                 remainder \<leftarrow> shl64 (dividend mod divisor) exponent;
                 Some (ucast (dividend div divisor), remainder) });
            (buffer, len) \<leftarrow> FillDigits32 quotient buffer 0;
            (buffer, len) \<leftarrow> FillDigits64FixedLength remainder buffer len;
            Some (buffer, len, len) }
          else if exponent \<ge> 0 then do {
            significand \<leftarrow> shl64 significand exponent;
            (buffer, len) \<leftarrow> FillDigits64 significand buffer 0;
            Some (buffer, len, len) }
          else if exponent > - kDoubleSignificandSize then do {
            integrals \<leftarrow> shr64 significand (- exponent);
            i \<leftarrow> shl64 integrals (- exponent);
            let fractionals = significand - i;
            (buffer, len) \<leftarrow>
              (if integrals > kMaxUInt32 then FillDigits64 integrals buffer 0
               else FillDigits32 (ucast integrals) buffer 0);
            FillFractionals fractionals exponent fractional_count buffer len len }
          else if exponent < -128 then do {
            ensure (fractional_count \<le> 20);
            buffer \<leftarrow> wr buffer 0 0;
            Some (buffer, 0, - fractional_count) }
          else FillFractionals significand exponent fractional_count buffer 0 0);
       (buffer, len, decimal_point) \<leftarrow> TrimZeros buffer len decimal_point;
       buffer \<leftarrow> wr buffer len 0;
       let decimal_point = (if len = 0 then - fractional_count else decimal_point);
       Some (Some (buffer, len, decimal_point)) } }"

end
