(* ===== verification/Double_To_String.thy ===== *)
theory Double_To_String
  imports Bignum_Dtoa Fixed_Dtoa Fast_Dtoa
begin

text \<open>
  Printing: the string builder (\<open>utils.h\<close>) and the class \<open>DoubleToStringConverter\<close>
  (\<open>double-conversion.h\<close>, \<open>double-conversion.cc\<close>).
\<close>

section \<open>StringBuilder\<close>

record string_builder =
  sb_buffer :: "u8 list"
  sb_position :: int

definition StringBuilder :: "u8 list \<Rightarrow> string_builder" where
  "StringBuilder buffer = \<lparr>sb_buffer = buffer, sb_position = 0\<rparr>"

definition is_finalized :: "string_builder \<Rightarrow> bool" where
  "is_finalized sb \<longleftrightarrow> sb_position sb < 0"

definition sb_size :: "string_builder \<Rightarrow> int" where
  "sb_size sb = int (length (sb_buffer sb))"

definition position :: "string_builder \<Rightarrow> int option" where
  "position sb = do { ensure (\<not> is_finalized sb); Some (sb_position sb) }"

definition Reset :: "string_builder \<Rightarrow> string_builder" where
  "Reset sb = sb\<lparr>sb_position := 0\<rparr>"

definition AddCharacter :: "u8 \<Rightarrow> string_builder \<Rightarrow> string_builder option" where
  "AddCharacter c sb = do {
     ensure (c \<noteq> 0);
     ensure (\<not> is_finalized sb \<and> sb_position sb < int (length (sb_buffer sb)));
     buffer \<leftarrow> wr (sb_buffer sb) (sb_position sb) c;
     Some \<lparr>sb_buffer = buffer, sb_position = sb_position sb + 1\<rparr> }"

text \<open>
  The string argument is the memory from the pointer on. \<open>n <= strlen(s)\<close> says that the
  first \<open>n\<close> characters are there and none of them is 0.
\<close>

definition AddSubstring :: "u8 list \<Rightarrow> int \<Rightarrow> string_builder \<Rightarrow> string_builder option" where
  "AddSubstring s n sb = do {
     ensure (\<not> is_finalized sb \<and> sb_position sb + n < int (length (sb_buffer sb)));
     ensure (0 \<le> n \<and> n \<le> int (length s) \<and> 0 \<notin> set (take (nat n) s));
     buffer \<leftarrow> for_up 0 n
       (\<lambda>i buffer. do { c \<leftarrow> rd s i; wr buffer (sb_position sb + i) c }) (sb_buffer sb);
     Some \<lparr>sb_buffer = buffer, sb_position = sb_position sb + n\<rparr> }"

text \<open>The argument is the string without its terminator.\<close>

definition AddString :: "u8 list \<Rightarrow> string_builder \<Rightarrow> string_builder option" where
  "AddString s sb = AddSubstring s (int (length s)) sb"

definition AddPadding :: "u8 \<Rightarrow> int \<Rightarrow> string_builder \<Rightarrow> string_builder option" where
  "AddPadding c count sb = (if 0 < count then for_up 0 count (\<lambda>i. AddCharacter c) sb else Some sb)"

definition Finalize :: "string_builder \<Rightarrow> string_builder option" where
  "Finalize sb = do {
     ensure (\<not> is_finalized sb \<and> sb_position sb < int (length (sb_buffer sb)));
     buffer \<leftarrow> wr (sb_buffer sb) (sb_position sb) 0;
     ensure (length (takeWhile (\<lambda>c. c \<noteq> 0) buffer) = nat (sb_position sb));
     Some \<lparr>sb_buffer = buffer, sb_position = -1\<rparr> }"

section \<open>The converter\<close>

definition kMaxFixedDigitsBeforePoint :: int where [simp]: "kMaxFixedDigitsBeforePoint = 60"
definition kMaxFixedDigitsAfterPoint :: int where [simp]: "kMaxFixedDigitsAfterPoint = 60"
definition kMaxExponentialDigits :: int where [simp]: "kMaxExponentialDigits = 120"
definition kMinPrecisionDigits :: int where [simp]: "kMinPrecisionDigits = 1"
definition kMaxPrecisionDigits :: int where [simp]: "kMaxPrecisionDigits = 120"
definition kBase10MaximalLength :: int where [simp]: "kBase10MaximalLength = 17"

definition EMIT_POSITIVE_EXPONENT_SIGN :: int where "EMIT_POSITIVE_EXPONENT_SIGN = 1"
definition EMIT_TRAILING_DECIMAL_POINT :: int where "EMIT_TRAILING_DECIMAL_POINT = 2"
definition EMIT_TRAILING_ZERO_AFTER_POINT :: int where "EMIT_TRAILING_ZERO_AFTER_POINT = 4"
definition UNIQUE_ZERO :: int where "UNIQUE_ZERO = 8"

datatype dtoa_mode = SHORTEST | SHORTEST_SINGLE | FIXED | PRECISION

record to_string_converter =
  flags :: int
  infinity_symbol :: "u8 list option"
  nan_symbol :: "u8 list option"
  exponent_character :: u8
  decimal_in_shortest_low :: int
  decimal_in_shortest_high :: int
  max_leading_padding_zeroes_in_precision_mode :: int
  max_trailing_padding_zeroes_in_precision_mode :: int

definition c_string :: "string \<Rightarrow> u8 list" where
  "c_string s = map ch s"

definition DoubleToStringConverter ::
    "int \<Rightarrow> u8 list option \<Rightarrow> u8 list option \<Rightarrow> u8 \<Rightarrow> int \<Rightarrow> int \<Rightarrow> int \<Rightarrow> int \<Rightarrow>
     to_string_converter option" where
  "DoubleToStringConverter fl inf_s nan_s exp_c low high max_leading max_trailing = do {
     ensure (fl AND EMIT_TRAILING_DECIMAL_POINT \<noteq> 0 \<or>
             \<not> (fl AND EMIT_TRAILING_ZERO_AFTER_POINT \<noteq> 0));
     Some \<lparr>flags = fl, infinity_symbol = inf_s, nan_symbol = nan_s, exponent_character = exp_c,
           decimal_in_shortest_low = low, decimal_in_shortest_high = high,
           max_leading_padding_zeroes_in_precision_mode = max_leading,
           max_trailing_padding_zeroes_in_precision_mode = max_trailing\<rparr> }"

definition EcmaScriptConverter :: "to_string_converter option" where
  "EcmaScriptConverter =
     DoubleToStringConverter (UNIQUE_ZERO OR EMIT_POSITIVE_EXPONENT_SIGN)
       (Some (c_string ''Infinity'')) (Some (c_string ''NaN'')) (ch CHR ''e'') (-6) 21 6 0"

text \<open>The methods return the answer and the builder.\<close>

definition HandleSpecialValues ::
    "to_string_converter \<Rightarrow> double \<Rightarrow> string_builder \<Rightarrow> (bool \<times> string_builder) option" where
  "HandleSpecialValues c value sb =
     (if DoubleIsInfinite value then
        (case infinity_symbol c of
           None \<Rightarrow> Some (False, sb)
         | Some s \<Rightarrow> do {
             sb \<leftarrow> (if double_less value 0 then AddCharacter (ch CHR ''-'') sb else Some sb);
             sb \<leftarrow> AddString s sb;
             Some (True, sb) })
      else if DoubleIsNan value then
        (case nan_symbol c of
           None \<Rightarrow> Some (False, sb)
         | Some s \<Rightarrow> do {
             sb \<leftarrow> AddString s sb;
             Some (True, sb) })
      else Some (False, sb))"

definition kMaxExponentLength :: int where [simp]: "kMaxExponentLength = 5"

definition CreateExponentialRepresentation ::
    "to_string_converter \<Rightarrow> u8 list \<Rightarrow> int \<Rightarrow> int \<Rightarrow> string_builder \<Rightarrow> string_builder option" where
  "CreateExponentialRepresentation conv decimal_digits len exponent sb = do {
     ensure (len \<noteq> 0);
     d \<leftarrow> rd decimal_digits 0;
     sb \<leftarrow> AddCharacter d sb;
     sb \<leftarrow> (if len \<noteq> 1 then do {
              sb \<leftarrow> AddCharacter (ch CHR ''.'') sb;
              AddSubstring (drop 1 decimal_digits) (len - 1) sb }
            else Some sb);
     sb \<leftarrow> AddCharacter (exponent_character conv) sb;
     (exponent, sb) \<leftarrow>
       (if exponent < 0 then do {
          sb \<leftarrow> AddCharacter (ch CHR ''-'') sb;
          Some (- exponent, sb) }
        else if flags conv AND EMIT_POSITIVE_EXPONENT_SIGN \<noteq> 0 then do {
          sb \<leftarrow> AddCharacter (ch CHR ''+'') sb;
          Some (exponent, sb) }
        else Some (exponent, sb));
     if exponent = 0 then AddCharacter (ch CHR ''0'') sb
     else do {
       ensure (exponent < 10000);
       buffer \<leftarrow> wr (replicate (nat (kMaxExponentLength + 1)) 0) kMaxExponentLength 0;
       (buffer, first_char_pos, _) \<leftarrow> while_do (\<lambda>(buffer, pos, exponent). Some (exponent > 0))
         (\<lambda>(buffer, pos, exponent). do {
            buffer \<leftarrow> wr buffer (pos - 1) (ch CHR ''0'' + word_of_int (exponent smod 10));
            Some (buffer, pos - 1, exponent sdiv 10) }) (buffer, kMaxExponentLength, exponent);
       AddSubstring (drop (nat first_char_pos) buffer) (kMaxExponentLength - first_char_pos) sb } }"

definition CreateDecimalRepresentation ::
    "to_string_converter \<Rightarrow> u8 list \<Rightarrow> int \<Rightarrow> int \<Rightarrow> int \<Rightarrow> string_builder \<Rightarrow> string_builder option" where
  "CreateDecimalRepresentation conv decimal_digits len decimal_point digits_after_point sb = do {
     sb \<leftarrow>
       (if decimal_point \<le> 0 then do {
          sb \<leftarrow> AddCharacter (ch CHR ''0'') sb;
          if digits_after_point > 0 then do {
            sb \<leftarrow> AddCharacter (ch CHR ''.'') sb;
            sb \<leftarrow> AddPadding (ch CHR ''0'') (- decimal_point) sb;
            ensure (len \<le> digits_after_point - (- decimal_point));
            sb \<leftarrow> AddSubstring decimal_digits len sb;
            let remaining_digits = digits_after_point - (- decimal_point) - len;
            AddPadding (ch CHR ''0'') remaining_digits sb }
          else Some sb }
        else if decimal_point \<ge> len then do {
          sb \<leftarrow> AddSubstring decimal_digits len sb;
          sb \<leftarrow> AddPadding (ch CHR ''0'') (decimal_point - len) sb;
          if digits_after_point > 0 then do {
            sb \<leftarrow> AddCharacter (ch CHR ''.'') sb;
            AddPadding (ch CHR ''0'') digits_after_point sb }
          else Some sb }
        else do {
          ensure (digits_after_point > 0);
          sb \<leftarrow> AddSubstring decimal_digits decimal_point sb;
          sb \<leftarrow> AddCharacter (ch CHR ''.'') sb;
          ensure (len - decimal_point \<le> digits_after_point);
          sb \<leftarrow> AddSubstring (drop (nat decimal_point) decimal_digits) (len - decimal_point) sb;
          let remaining_digits = digits_after_point - (len - decimal_point);
          AddPadding (ch CHR ''0'') remaining_digits sb });
     if digits_after_point = 0 then do {
       sb \<leftarrow> (if flags conv AND EMIT_TRAILING_DECIMAL_POINT \<noteq> 0
              then AddCharacter (ch CHR ''.'') sb else Some sb);
       if flags conv AND EMIT_TRAILING_ZERO_AFTER_POINT \<noteq> 0
       then AddCharacter (ch CHR ''0'') sb else Some sb }
     else Some sb }"

section \<open>Digits of a double\<close>

fun DtoaToBignumDtoaMode :: "dtoa_mode \<Rightarrow> bignum_dtoa_mode" where
  "DtoaToBignumDtoaMode SHORTEST = BIGNUM_DTOA_SHORTEST"
| "DtoaToBignumDtoaMode SHORTEST_SINGLE = BIGNUM_DTOA_SHORTEST_SINGLE"
| "DtoaToBignumDtoaMode FIXED = BIGNUM_DTOA_FIXED"
| "DtoaToBignumDtoaMode PRECISION = BIGNUM_DTOA_PRECISION"

text \<open>
  Returns the buffer, the sign, the length and the point. The argument \<open>point\<close> is the value of
  the out-parameter before the call: one path of the code does not assign it.
\<close>

definition DoubleToAscii ::
    "double \<Rightarrow> dtoa_mode \<Rightarrow> int \<Rightarrow> u8 list \<Rightarrow> int \<Rightarrow> (u8 list \<times> bool \<times> int \<times> int) option" where
  "DoubleToAscii v mode requested_digits vector point = do {
     ensure (\<not> DoubleIsSpecial v);
     ensure (mode = SHORTEST \<or> mode = SHORTEST_SINGLE \<or> requested_digits \<ge> 0);
     let sign = (DoubleSign v < 0);
     let v = (if sign then double_neg v else v);
     if mode = PRECISION \<and> requested_digits = 0 then do {
       vector \<leftarrow> wr vector 0 0;
       Some (vector, sign, 0, point) }
     else if double_eq v 0 then do {
       vector \<leftarrow> wr vector 0 (ch CHR ''0'');
       vector \<leftarrow> wr vector 1 0;
       Some (vector, sign, 1, 1) }
     else do {
       (fast, vector) \<leftarrow>
         (case mode of
            SHORTEST \<Rightarrow> do {
              (ok, vector, len, point) \<leftarrow> FastDtoa v FAST_DTOA_SHORTEST 0 vector;
              Some (map_option (Pair len) point, vector) }
          | SHORTEST_SINGLE \<Rightarrow> do {
              (ok, vector, len, point) \<leftarrow> FastDtoa v FAST_DTOA_SHORTEST_SINGLE 0 vector;
              Some (map_option (Pair len) point, vector) }
          | FIXED \<Rightarrow> do {
              r \<leftarrow> FastFixedDtoa v requested_digits vector;
              case r of
                None \<Rightarrow> Some (None, vector)
              | Some (vector, len, point) \<Rightarrow> Some (Some (len, point), vector) }
          | PRECISION \<Rightarrow> do {
              (ok, vector, len, point) \<leftarrow> FastDtoa v FAST_DTOA_PRECISION requested_digits vector;
              Some (map_option (Pair len) point, vector) });
       case fast of
         Some (len, point) \<Rightarrow> Some (vector, sign, len, point)
       | None \<Rightarrow> do {
           let bignum_mode = DtoaToBignumDtoaMode mode;
           (vector, len, point) \<leftarrow> BignumDtoa v bignum_mode requested_digits vector;
           vector \<leftarrow> wr vector len 0;
           Some (vector, sign, len, point) } } }"

section \<open>The printing methods\<close>

text \<open>The local array \<open>decimal_rep\<close> is written before it is read.\<close>

definition decimal_rep :: "int \<Rightarrow> u8 list" where
  "decimal_rep capacity = replicate (nat capacity) 0"

definition add_sign ::
    "to_string_converter \<Rightarrow> bool \<Rightarrow> double \<Rightarrow> string_builder \<Rightarrow> string_builder option" where
  "add_sign conv sign value sb =
     (let unique_zero = (flags conv AND UNIQUE_ZERO \<noteq> 0)
      in if sign \<and> (\<not> double_eq value 0 \<or> \<not> unique_zero)
         then AddCharacter (ch CHR ''-'') sb else Some sb)"

definition ToShortestIeeeNumber ::
    "to_string_converter \<Rightarrow> double \<Rightarrow> string_builder \<Rightarrow> dtoa_mode \<Rightarrow>
     (bool \<times> string_builder) option" where
  "ToShortestIeeeNumber conv value sb mode = do {
     ensure (mode = SHORTEST \<or> mode = SHORTEST_SINGLE);
     if DoubleIsSpecial value then HandleSpecialValues conv value sb
     else do {
       let kDecimalRepCapacity = kBase10MaximalLength + 1;
       (rep, sign, len, decimal_point) \<leftarrow>
         DoubleToAscii value mode 0 (decimal_rep kDecimalRepCapacity) 0;
       sb \<leftarrow> add_sign conv sign value sb;
       let exponent = decimal_point - 1;
       sb \<leftarrow>
         (if decimal_in_shortest_low conv \<le> exponent \<and> exponent < decimal_in_shortest_high conv
          then CreateDecimalRepresentation conv rep len decimal_point (max 0 (len - decimal_point)) sb
          else CreateExponentialRepresentation conv rep len exponent sb);
       Some (True, sb) } }"

definition ToShortest ::
    "to_string_converter \<Rightarrow> double \<Rightarrow> string_builder \<Rightarrow> (bool \<times> string_builder) option" where
  "ToShortest conv value sb = ToShortestIeeeNumber conv value sb SHORTEST"

definition ToShortestSingle ::
    "to_string_converter \<Rightarrow> float \<Rightarrow> string_builder \<Rightarrow> (bool \<times> string_builder) option" where
  "ToShortestSingle conv value sb =
     ToShortestIeeeNumber conv (double_of_float value) sb SHORTEST_SINGLE"

definition kFirstNonFixed :: double where "kFirstNonFixed = round_double (10 ^ 60) 1"

definition ToFixed ::
    "to_string_converter \<Rightarrow> double \<Rightarrow> int \<Rightarrow> string_builder \<Rightarrow> (bool \<times> string_builder) option" where
  "ToFixed conv value requested_digits sb = do {
     ensure (kMaxFixedDigitsBeforePoint = 60);
     if DoubleIsSpecial value then HandleSpecialValues conv value sb
     else if requested_digits > kMaxFixedDigitsAfterPoint then Some (False, sb)
     else if (double_less kFirstNonFixed value \<or> double_eq value kFirstNonFixed) \<or>
             (double_less value (double_neg kFirstNonFixed) \<or>
              double_eq value (double_neg kFirstNonFixed)) then Some (False, sb)
     else do {
       let kDecimalRepCapacity = kMaxFixedDigitsBeforePoint + kMaxFixedDigitsAfterPoint + 1;
       (rep, sign, len, decimal_point) \<leftarrow>
         DoubleToAscii value FIXED requested_digits (decimal_rep kDecimalRepCapacity) 0;
       sb \<leftarrow> add_sign conv sign value sb;
       sb \<leftarrow> CreateDecimalRepresentation conv rep len decimal_point requested_digits sb;
       Some (True, sb) } }"

definition ToExponential ::
    "to_string_converter \<Rightarrow> double \<Rightarrow> int \<Rightarrow> string_builder \<Rightarrow> (bool \<times> string_builder) option" where
  "ToExponential conv value requested_digits sb =
     (if DoubleIsSpecial value then HandleSpecialValues conv value sb
      else if requested_digits < -1 then Some (False, sb)
      else if requested_digits > kMaxExponentialDigits then Some (False, sb)
      else do {
        let kDecimalRepCapacity = kMaxExponentialDigits + 2;
        ensure (kDecimalRepCapacity > kBase10MaximalLength);
        (rep, sign, len, decimal_point) \<leftarrow>
          (if requested_digits = -1 then
             DoubleToAscii value SHORTEST 0 (decimal_rep kDecimalRepCapacity) 0
           else do {
             (rep, sign, len, decimal_point) \<leftarrow>
               DoubleToAscii value PRECISION (requested_digits + 1) (decimal_rep kDecimalRepCapacity) 0;
             ensure (len \<le> requested_digits + 1);
             rep \<leftarrow> for_up len (requested_digits + 1) (\<lambda>i rep. wr rep i (ch CHR ''0'')) rep;
             Some (rep, sign, requested_digits + 1, decimal_point) });
        sb \<leftarrow> add_sign conv sign value sb;
        let exponent = decimal_point - 1;
        sb \<leftarrow> CreateExponentialRepresentation conv rep len exponent sb;
        Some (True, sb) })"

definition ToPrecision ::
    "to_string_converter \<Rightarrow> double \<Rightarrow> int \<Rightarrow> string_builder \<Rightarrow> (bool \<times> string_builder) option" where
  "ToPrecision conv value precision sb =
     (if DoubleIsSpecial value then HandleSpecialValues conv value sb
      else if precision < kMinPrecisionDigits \<or> precision > kMaxPrecisionDigits then Some (False, sb)
      else do {
        let kDecimalRepCapacity = kMaxPrecisionDigits + 1;
        (rep, sign, len, decimal_point) \<leftarrow>
          DoubleToAscii value PRECISION precision (decimal_rep kDecimalRepCapacity) 0;
        ensure (len \<le> precision);
        sb \<leftarrow> add_sign conv sign value sb;
        let exponent = decimal_point - 1;
        let extra_zero = (if flags conv AND EMIT_TRAILING_ZERO_AFTER_POINT \<noteq> 0 then 1 else 0 :: int);
        sb \<leftarrow>
          (if - decimal_point + 1 > max_leading_padding_zeroes_in_precision_mode conv \<or>
              decimal_point - precision + extra_zero >
                max_trailing_padding_zeroes_in_precision_mode conv then do {
             rep \<leftarrow> for_up len precision (\<lambda>i rep. wr rep i (ch CHR ''0'')) rep;
             CreateExponentialRepresentation conv rep precision exponent sb }
           else CreateDecimalRepresentation conv rep len decimal_point
                  (max 0 (precision - decimal_point)) sb);
        Some (True, sb) })"

end
