(* ===== verification/Grisu_Dtoa.thy ===== *)
theory Grisu_Dtoa
  imports Grisu_Double Double_To_String
begin

text \<open>\<open>FastDtoa\<close> and \<open>DoubleToAscii\<close> in shortest mode.\<close>


section \<open>FastDtoa\<close>

lemma dec_val_inject:
  "digits xs \<Longrightarrow> digits ys \<Longrightarrow> length xs = length ys \<Longrightarrow> dec_val xs = dec_val ys \<Longrightarrow> xs = ys"
proof (induction xs arbitrary: ys rule: rev_induct)
  case (snoc c cs)
  obtain d ds where y: "ys = ds @ [d]" using snoc(4) by (cases ys rule: rev_cases) auto
  have D: "digits cs" "digits ds" "0 \<le> digit_of c" "digit_of c \<le> 9" "0 \<le> digit_of d" "digit_of d \<le> 9"
    using snoc(2,3) unfolding y by simp_all
  have e: "dec_val cs * 10 + digit_of c = dec_val ds * 10 + digit_of d" using snoc(5) unfolding y dec_val_snoc .
  have "dec_val cs = dec_val ds" "digit_of c = digit_of d" using e D(3-6) by presburger+
  moreover have "cs = ds" by (rule snoc(1)) (use D snoc(4) y \<open>dec_val cs = dec_val ds\<close> in simp_all)
  ultimately show ?case unfolding y by (simp add: digit_of_def word_uint_eq_iff)
qed simp

text \<open>The digits of the other algorithm, whenever there are some.\<close>

lemma double_shortest_unique:
  assumes A: "double_shortest v cs p" and B: "double_shortest v ds p'"
    and S: "strictly_closest (even (uint (DoubleSignificand v)))
     (lo_bound (DoubleLowerBoundaryIsCloser v) (uint (DoubleSignificand v)) (DoubleExponent v))
     (of_int (uint (DoubleSignificand v)) * 2 powi DoubleExponent v)
     (hi_bound (uint (DoubleSignificand v)) (DoubleExponent v)) (dec_val cs) (p - int (length cs))"
  shows "ds = cs \<and> p' = p"
proof -
  note A = A[unfolded double_shortest_def] and B = B[unfolded double_shortest_def]
  have u: "dec_val ds = dec_val cs \<and> length ds = length cs \<and> p' = p"
    by (rule shortest_unique[OF _ S]) (use A B in blast)+
  then have "ds = cs" by (intro dec_val_inject) (use A B in simp_all)
  then show ?thesis using u by simp
qed

definition fast_shortest :: "double \<Rightarrow> u8 list \<Rightarrow> bool \<times> u8 list \<times> int \<times> int option \<Rightarrow> bool" where
  "fast_shortest v buf = (\<lambda>(res, buf', len, pt). length buf' = length buf \<and> res = (pt \<noteq> None) \<and>
     (\<forall>p. pt = Some p \<longrightarrow> (\<exists>n. 1 \<le> n \<and> n \<le> 17 \<and> len = int n \<and> buf' ! n = 0 \<and> drop (Suc n) buf' = drop (Suc n) buf \<and>
        double_shortest v (take n buf') p \<and> strictly_closest (even (uint (DoubleSignificand v)))
     (lo_bound (DoubleLowerBoundaryIsCloser v) (uint (DoubleSignificand v)) (DoubleExponent v))
     (of_int (uint (DoubleSignificand v)) * 2 powi DoubleExponent v)
     (hi_bound (uint (DoubleSignificand v)) (DoubleExponent v)) (dec_val (take n buf')) (p - int n))))"

lemma ok_FastDtoa_shortest:
  assumes v: "finite_double v" "0 < uint v" and buf: "18 \<le> length buf"
  shows "ok (FastDtoa v FAST_DTOA_SHORTEST req buf) (fast_shortest v buf)"
proof -
  note F = finite_double_fields[OF v(1)]
  have pos: "double_less 0 v" using v by (simp add: double_less_0_finite)
  let ?lo = "lo_bound (DoubleLowerBoundaryIsCloser v) (uint (DoubleSignificand v)) (DoubleExponent v)"
  let ?x = "of_int (uint (DoubleSignificand v)) * (2::real) powi DoubleExponent v"
  let ?hi = "hi_bound (uint (DoubleSignificand v)) (DoubleExponent v)"
  have g: "ok (Grisu3 v FAST_DTOA_SHORTEST buf) (grisu_digits ?lo ?x ?hi buf)"
  proof (rule ok_Grisu3)
    show "ok (DoubleAsNormalizedDiyFp v) (\<lambda>w. ok (if FAST_DTOA_SHORTEST = FAST_DTOA_SHORTEST then DoubleNormalizedBoundaries v
        else do { ensure (FAST_DTOA_SHORTEST = FAST_DTOA_SHORTEST_SINGLE);
          let single_v = float_of_double v;
          SingleNormalizedBoundaries single_v })
      (\<lambda>(mm, mp). grisu_input mm w mp \<and> diy_real mm = ?lo \<and> diy_real w = ?x \<and> diy_real mp = ?hi))"
      unfolding simp_thms if_True
    proof (rule ok_DoubleAsNormalizedDiyFp[OF v], rule ok_DoubleNormalizedBoundaries[OF v])
      fix w mm mp :: diyfp and j k
      assume a: "uint (fp_f w) = uint (DoubleSignificand v) * 2 ^ (j + 11)" "2 ^ 63 \<le> uint (fp_f w)" "fp_e w = DoubleExponent v - int j - 11"
        "fp_e mm = fp_e mp" "2 ^ 63 \<le> uint (fp_f mp)" "fp_e mp = DoubleExponent v - 1 - int k" "10 \<le> k" "k \<le> 62"
        "uint (fp_f mp) = (2 * uint (DoubleSignificand v) + 1) * 2 ^ k"
        "uint (fp_f mm) = (if DoubleLowerBoundaryIsCloser v then (4 * uint (DoubleSignificand v) - 1) * 2 ^ (k - 1)
        else (2 * uint (DoubleSignificand v) - 1) * 2 ^ k)"
      show "case (mm, mp) of (mm, mp) \<Rightarrow> grisu_input mm w mp \<and> diy_real mm = ?lo \<and> diy_real w = ?x \<and> diy_real mp = ?hi"
        using double_grisu_input[OF v a] by simp
    qed
  qed (use buf in simp)
  show ?thesis unfolding FastDtoa_def fast_dtoa_mode.case
  proof (simp only: ok_bind[of "ensure _"] ok_ensure pos F simp_thms, subst ok_bind, rule ok_mono[OF g])
    fix r assume r: "grisu_digits ?lo ?x ?hi buf r"
    obtain res buf' len e where rr: "r = (res, buf', len, e)" by (cases r)
    from r[unfolded rr grisu_digits_def prod.case] obtain n
      where N: "n \<le> 16 \<and> len = int n + 1 \<and> length buf' = length buf \<and> drop (Suc n) buf' = drop (Suc n) buf \<and>
       (res \<longrightarrow> digits (take (Suc n) buf') \<and>
       (\<forall>c. shortest_decimal c ?lo ?x ?hi (dec_val (take (Suc n) buf')) (Suc n) (len + e) \<and>
         strictly_closest c ?lo ?x ?hi (dec_val (take (Suc n) buf')) e))" ..
    have l: "int (Suc n) = len" "length (take (Suc n) buf') = Suc n" using N buf by simp_all
    have i: "0 \<le> len" "len < int (length buf')" "nat len = Suc n" using N buf by simp_all
    let ?b = "buf'[Suc n := 0]"
    have t: "take (Suc n) ?b = take (Suc n) buf'" "?b ! Suc n = 0" "drop (Suc (Suc n)) ?b = drop (Suc (Suc n)) buf"
    proof -
      show "take (Suc n) ?b = take (Suc n) buf'" by simp
      show "?b ! Suc n = 0" using N buf by simp
      have "drop (Suc (Suc n)) buf' = drop (Suc (Suc n)) buf" using N drop_drop[of 1 "Suc n" buf'] drop_drop[of 1 "Suc n" buf] by simp
      then show "drop (Suc (Suc n)) ?b = drop (Suc (Suc n)) buf" by simp
    qed
    have "fast_shortest v buf (True, ?b, len, Some (len + e))" if res
    proof -
      have "double_shortest v (take (Suc n) buf') (len + e)" unfolding double_shortest_def l using N that by blast
      moreover have "len + e - int (Suc n) = e" using l by simp
      ultimately have "1 \<le> Suc n \<and> Suc n \<le> 17 \<and> len = int (Suc n) \<and> ?b ! Suc n = 0 \<and> drop (Suc (Suc n)) ?b = drop (Suc (Suc n)) buf \<and>
        double_shortest v (take (Suc n) ?b) (len + e) \<and> strictly_closest (even (uint (DoubleSignificand v))) ?lo ?x ?hi
          (dec_val (take (Suc n) ?b)) (len + e - int (Suc n))"
        using N t that by simp
      moreover have "length ?b = length buf" using N by simp
      ultimately show ?thesis unfolding fast_shortest_def prod.case option.inject by blast
    qed
    moreover have "fast_shortest v buf (False, buf', len, None)" using N by (simp add: fast_shortest_def)
    ultimately show "ok (case r of (result, buffer, len, de) \<Rightarrow>
       if result then let decimal_point = len + de in
         do { buffer \<leftarrow> wr buffer len 0; Some (True, buffer, len, Some decimal_point) }
       else Some (False, buffer, len, None)) (fast_shortest v buf)"
      unfolding rr prod.case Let_def using i by (simp add: wp)
  qed
qed


section \<open>DoubleToAscii in shortest mode\<close>

definition with_sign :: "bool \<Rightarrow> double \<Rightarrow> double" where
  "with_sign neg v = (if neg then double_neg v else v)"

lemma double_neg_neg [simp]: "double_neg (double_neg v) = v"
  by (simp add: double_neg_def xor.assoc)

lemma with_sign_fields:
  assumes v: "finite_double v"
  shows "\<not> DoubleIsSpecial (with_sign neg v)" "(DoubleSign (with_sign neg v) < 0) = neg"
    "(if neg then double_neg (with_sign neg v) else with_sign neg v) = v"
proof -
  note F = finite_double_fields[OF v]
  have u: "uint (double_neg v) = uint v + 2 ^ 63" by (rule uint_double_neg[OF v])
  have lt: "uint v < 0x7FF0000000000000" using v by (simp add: finite_double_def)
  have m: "mag64 (double_neg v) = uint v" using u lt by (simp add: mag64_def)
  show "\<not> DoubleIsSpecial (with_sign neg v)" using F lt by (simp add: with_sign_def Double_fields m)
  show "(DoubleSign (with_sign neg v) < 0) = neg" using F u lt by (simp add: with_sign_def Double_fields)
  show "(if neg then double_neg (with_sign neg v) else with_sign neg v) = v" by (simp add: with_sign_def)
qed

lemma double_eq_0_finite: "finite_double v \<Longrightarrow> double_eq v 0 \<longleftrightarrow> uint v = 0"
proof -
  assume v: "finite_double v"
  then have lt: "uint v < 0x7FF0000000000000" by (simp add: finite_double_def)
  have "\<not> double_is_nan v" "\<not> double_is_nan 0" using lt by (simp_all add: double_is_nan_mag mag64_def)
  moreover have "double_rank v = uint v" using lt by (simp add: double_rank_mag)
  moreover have "double_rank 0 = 0" by (simp add: double_rank_mag)
  ultimately show ?thesis by (simp add: double_eq_def)
qed

lemma ok_DoubleToAscii_shortest:
  assumes v: "finite_double v" "0 < uint v" and buf: "18 \<le> length buf"
    and Q: "\<And>buf' n p. 1 \<le> n \<Longrightarrow> n \<le> 17 \<Longrightarrow> length buf' = length buf \<Longrightarrow> buf' ! n = 0 \<Longrightarrow>
       double_shortest v (take n buf') p \<Longrightarrow> Q (buf', neg, int n, p)"
  shows "ok (DoubleToAscii (with_sign neg v) SHORTEST req buf pt) Q"
proof -
  note W = with_sign_fields[OF v(1), of neg]
  have nz: "\<not> double_eq v 0" using double_eq_0_finite[OF v(1)] v(2) by simp
  have slow: "ok (do { (vector, len, point) \<leftarrow> BignumDtoa v BIGNUM_DTOA_SHORTEST req vec;
       vector \<leftarrow> wr vector len 0; Some (vector, neg, len, point) }) Q" if l: "length vec = length buf" for vec
    by (subst ok_bind, rule ok_BignumDtoa_shortest[OF v]) (use Q buf l in \<open>auto simp: wp\<close>)
  have fast: "ok (do { (ok, vector, len, point) \<leftarrow> FastDtoa v FAST_DTOA_SHORTEST 0 buf; Some (map_option (Pair len) point, vector) })
      (\<lambda>(fast, vector). length vector = length buf \<and> (\<forall>len point. fast = Some (len, point) \<longrightarrow> Q (vector, neg, len, point)))"
  proof (subst ok_bind, rule ok_mono[OF ok_FastDtoa_shortest[OF v buf]])
    fix r assume r: "fast_shortest v buf r"
    obtain res buf' len p where rr: "r = (res, buf', len, p)" by (cases r)
    have "Q (buf', neg, len, q)" if "p = Some q" for q
      using r that unfolding rr fast_shortest_def prod.case by (auto intro!: Q)
    then show "ok (case r of (res, vector, len, point) \<Rightarrow> Some (map_option (Pair len) point, vector))
      (\<lambda>(fast, vector). length vector = length buf \<and> (\<forall>len point. fast = Some (len, point) \<longrightarrow> Q (vector, neg, len, point)))"
      using r unfolding rr fast_shortest_def prod.case by auto
  qed
  show ?thesis
    unfolding DoubleToAscii_def Let_def W simp_thms dtoa_mode.case DtoaToBignumDtoaMode.simps
    apply (simp only: ok_bind[of "ensure _"] ok_ensure simp_thms dtoa_mode.simps if_False if_True W nz)
    apply (subst ok_bind, rule ok_mono[OF fast])
    using slow by (auto split: option.splits)
qed

lemma ok_DoubleToAscii_zero:
  assumes buf: "2 \<le> length buf" and m: "mode \<noteq> PRECISION \<or> 0 < req" and r: "mode = SHORTEST \<or> mode = SHORTEST_SINGLE \<or> 0 \<le> req"
  shows "DoubleToAscii (with_sign neg 0) mode req buf pt = Some (buf[0 := ch CHR ''0'', 1 := 0], neg, 1, 1)"
proof -
  have v: "finite_double 0" by (simp add: finite_double_def)
  note W = with_sign_fields[OF v]
  have e: "double_eq 0 0" using double_eq_0_finite[OF v] by simp
  show ?thesis
    unfolding DoubleToAscii_def Let_def W using e m r buf W(1)[of neg] by (auto simp: ensure_def wr_def)
qed

end
