(* ===== verification/Grisu_Correct.thy ===== *)
theory Grisu_Correct
  imports Grisu_Dtoa
begin

text \<open>The properties of the shortest mode: the fast algorithm agrees with the exact one, and what is printed reads back.\<close>


section \<open>Shortest digits\<close>

text \<open>C5: Grisu3 is equivalent to the exact algorithm whenever it answers: on every positive finite double FastDtoa in shortest mode returns, without a failed assertion, and with true only if its buffer, its length and its decimal point are those of BignumDtoa.\<close>

theorem FastDtoa_shortest_is_BignumDtoa:
  assumes "finite_double v" "0 < uint v" "18 \<le> length buffer"
  shows "\<exists>success buf len p. FastDtoa v FAST_DTOA_SHORTEST requested buffer = Some (success, buf, len, p) \<and> success = (p \<noteq> None) \<and>
    (\<forall>q. p = Some q \<longrightarrow> BignumDtoa v BIGNUM_DTOA_SHORTEST requested buffer = Some (buf, len, q))"
proof -
  obtain success buf len p where F: "FastDtoa v FAST_DTOA_SHORTEST requested buffer = Some (success, buf, len, p)"
    and r: "fast_shortest v buffer (success, buf, len, p)"
    by (rule okE[OF ok_FastDtoa_shortest[OF assms, of requested]]) (metis prod_cases4)
  note r = r[unfolded fast_shortest_def prod.case]
  have "BignumDtoa v BIGNUM_DTOA_SHORTEST requested buffer = Some (buf, len, q)" if p: "p = Some q" for q
  proof -
    obtain n where n: "1 \<le> n" "n \<le> 17" "len = int n" "buf ! n = 0" "drop (Suc n) buf = drop (Suc n) buffer" "double_shortest v (take n buf) q"
      and s: "strictly_closest (even (uint (DoubleSignificand v)))
     (lo_bound (DoubleLowerBoundaryIsCloser v) (uint (DoubleSignificand v)) (DoubleExponent v))
     (of_int (uint (DoubleSignificand v)) * 2 powi DoubleExponent v)
     (hi_bound (uint (DoubleSignificand v)) (DoubleExponent v)) (dec_val (take n buf)) (q - int n)"
      using r p by blast
    have l: "length buf = length buffer" "length (take n buf) = n" using r n assms(3) by auto
    have "ok (BignumDtoa v BIGNUM_DTOA_SHORTEST requested buffer) (\<lambda>x. x = (buf, len, q))"
    proof (rule ok_BignumDtoa_shortest[OF assms])
      fix b m p' assume b: "1 \<le> m" "m \<le> 17" "length b = length buffer" "b ! m = 0" "drop (Suc m) b = drop (Suc m) buffer"
        "double_shortest v (take m b) p'"
      have "take m b = take n buf \<and> p' = q" by (rule double_shortest_unique[OF n(6) b(6)]) (use s l in simp)
      then have t: "take m b = take n buf" "p' = q" by simp_all
      have "length (take m b) = m" using b assms(3) by simp
      then have mn: "m = n" using t l by simp
      have "b = take n b @ b ! n # drop (Suc n) b" by (rule id_take_nth_drop) (use b(3) n assms(3) in simp)
      moreover have "buf = take n buf @ buf ! n # drop (Suc n) buf" by (rule id_take_nth_drop) (use l n assms(3) in simp)
      ultimately have "b = buf" using t b(4,5) n mn by simp
      then show "(b, int m, p') = (buf, len, q)" using mn n t by simp
    qed
    then show ?thesis by (auto simp: ok_def)
  qed
  then show ?thesis using F r by blast
qed

lemma FastDtoa_shortest_is_BignumDtoa_witness:
  "\<exists>success buf len p. FastDtoa 0x3FF8000000000000 FAST_DTOA_SHORTEST 0 (replicate 18 0) = Some (success, buf, len, p) \<and> success = (p \<noteq> None) \<and>
    (\<forall>q. p = Some q \<longrightarrow> BignumDtoa 0x3FF8000000000000 BIGNUM_DTOA_SHORTEST 0 (replicate 18 0) = Some (buf, len, q))"
  by (rule FastDtoa_shortest_is_BignumDtoa) (simp_all add: finite_double_def)

text \<open>C4: DoubleToAscii in shortest mode, whichever algorithm it ends up with, prints what reads back: for every finite nonzero double of either sign it returns the sign and at most 17 digits followed by the zero byte, and Strtod of the digits at the returned decimal point is the magnitude.\<close>

theorem DoubleToAscii_shortest_roundtrip:
  assumes "finite_double v" "0 < uint v" "18 \<le> length buffer"
  shows "\<exists>buf len p. DoubleToAscii (if neg then double_neg v else v) SHORTEST requested buffer point = Some (buf, neg, len, p) \<and>
    1 \<le> len \<and> len \<le> 17 \<and> buf ! nat len = 0 \<and> digits (take (nat len) buf) \<and> Strtod (take (nat len) buf) (p - len) = Some v"
proof -
  have "ok (DoubleToAscii (with_sign neg v) SHORTEST requested buffer point) (\<lambda>(buf, sg, len, p). sg = neg \<and>
    1 \<le> len \<and> len \<le> 17 \<and> buf ! nat len = 0 \<and> digits (take (nat len) buf) \<and> Strtod (take (nat len) buf) (p - len) = Some v)"
  proof (rule ok_DoubleToAscii_shortest[OF assms], goal_cases)
    case (1 buf n p)
    then have l: "length (take n buf) = n" using assms(3) by simp
    note S = 1(5)[unfolded double_shortest_def shortest_decimal_def l]
    have m: "0 \<le> dec_val (take n buf)" using dec_val_bounds S by blast
    have "decimal_double (dec_val (take n buf)) (p - int n) = v" using reads_back_iff[OF assms(1,2) m, of "p - int n"] S by blast
    then have "ok (Strtod (take n buf) (p - int n)) (\<lambda>r. r = v)" by (intro ok_Strtod) (use S in auto)
    then show ?case using 1 S by (simp add: ok_def)
  qed
  then show ?thesis by (auto simp: ok_def with_sign_def)
qed

lemma DoubleToAscii_shortest_roundtrip_witness:
  "\<exists>buf len p. DoubleToAscii (if True then double_neg 0x4005BF0A8B145769 else 0x4005BF0A8B145769) SHORTEST 0 (replicate 18 0) 0 = Some (buf, True, len, p) \<and>
    1 \<le> len \<and> len \<le> 17 \<and> buf ! nat len = 0 \<and> digits (take (nat len) buf) \<and> Strtod (take (nat len) buf) (p - len) = Some 0x4005BF0A8B145769"
  by (rule DoubleToAscii_shortest_roundtrip) (simp_all add: finite_double_def)

end
