(* ===== verification/Print_Builder.thy ===== *)
theory Print_Builder
  imports Double_To_String Digits
begin

text \<open>The string builder: \<open>built\<close> relates it to the text it holds, with one rule per operation.\<close>


section \<open>The string builder\<close>

text \<open>The builder holds the text \<open>s\<close> in a buffer of size \<open>n\<close>.\<close>

definition built :: "string_builder \<Rightarrow> u8 list \<Rightarrow> nat \<Rightarrow> bool" where
  "built sb s n \<longleftrightarrow> sb_position sb = int (length s) \<and> length (sb_buffer sb) = n \<and> length s \<le> n \<and> take (length s) (sb_buffer sb) = s \<and> 0 \<notin> set s"

lemma built_start: "built (StringBuilder buf) [] (length buf)"
  by (simp add: built_def StringBuilder_def)

lemma ok_AddCharacter:
  assumes b: "built sb s n" and c: "c \<noteq> 0" "length s < n" and Q: "\<And>sb'. built sb' (s @ [c]) n \<Longrightarrow> Q sb'"
  shows "ok (AddCharacter c sb) Q"
proof -
  have "built \<lparr>sb_buffer = (sb_buffer sb)[length s := c], sb_position = sb_position sb + 1\<rparr> (s @ [c]) n"
    using b c by (auto simp: built_def take_Suc_conv_app_nth)
  then show ?thesis using b c by (simp add: AddCharacter_def wp is_finalized_def built_def Q)
qed

lemma ok_AddSubstring:
  assumes b: "built sb s n" and k: "k \<le> length t" "0 \<notin> set (take k t)" "length s + k < n" and Q: "\<And>sb'. built sb' (s @ take k t) n \<Longrightarrow> Q sb'"
  shows "ok (AddSubstring t (int k) sb) Q"
proof -
  note B = b[unfolded built_def]
  have L: "ok (for_up 0 (int k) (\<lambda>i buffer. do { c \<leftarrow> rd t i; wr buffer (sb_position sb + i) c }) (sb_buffer sb))
      (\<lambda>u. length u = n \<and> take (length s + k) u = s @ take k t)"
  proof (rule ok_for_up[where P = "\<lambda>i u. length u = n \<and> take (length s + nat i) u = s @ take (nat i) t"], goal_cases)
    case (3 i u)
    then have i: "0 \<le> i" "nat (i + 1) = Suc (nat i)" "nat i < k" by auto
    have p: "nat (sb_position sb + i) = length s + nat i" using B i by (simp add: nat_add_distrib)
    have l: "length s + nat i < length u" using 3 i k by simp
    have "take (Suc (length s + nat i)) (u[length s + nat i := t ! nat i]) = take (length s + nat i) u @ [t ! nat i]"
      using l by (simp add: take_Suc_conv_app_nth)
    then have "take (length s + nat (i + 1)) (u[length s + nat i := t ! nat i]) = s @ take (nat (i + 1)) t"
      using 3 i k by (simp add: take_Suc_conv_app_nth)
    then show ?case using 3 i k l p B by (simp add: wp)
  qed (use B in simp_all)
  have "ok (for_up 0 (int k) (\<lambda>i buffer. do { c \<leftarrow> rd t i; wr buffer (sb_position sb + i) c }) (sb_buffer sb))
      (\<lambda>u. Q \<lparr>sb_buffer = u, sb_position = sb_position sb + int k\<rparr>)"
    by (rule ok_mono[OF L], rule Q) (use B k in \<open>auto simp: built_def\<close>)
  then show ?thesis using B k by (simp add: AddSubstring_def wp is_finalized_def)
qed

lemma ok_AddString:
  assumes "built sb s n" "0 \<notin> set t" "length s + length t < n" "\<And>sb'. built sb' (s @ t) n \<Longrightarrow> Q sb'"
  shows "ok (AddString t sb) Q"
  unfolding AddString_def by (rule ok_AddSubstring) (use assms in auto)

lemma ok_AddPadding:
  assumes b: "built sb s n" and c: "c \<noteq> 0" "length s + nat k \<le> n" and Q: "\<And>sb'. built sb' (s @ replicate (nat k) c) n \<Longrightarrow> Q sb'"
  shows "ok (AddPadding c k sb) Q"
proof (cases "0 < k")
  case False
  then show ?thesis using Q[of sb] b by (simp add: AddPadding_def)
next
  case True
  have "ok (for_up 0 k (\<lambda>i. AddCharacter c) sb) Q"
  proof (rule ok_for_up[where P = "\<lambda>i sb. built sb (s @ replicate (nat i) c) n"], goal_cases)
    case (3 i t)
    then have i: "nat (i + 1) = Suc (nat i)" "nat i < nat k" by auto
    have l: "length (s @ replicate (nat i) c) < n" using i(2) c(2) unfolding length_append length_replicate by linarith
    show ?case by (rule ok_AddCharacter[OF 3(3) c(1) l]) (simp add: i(1) replicate_append_same)
  qed (use b True Q in auto)
  then show ?thesis using True by (simp add: AddPadding_def)
qed

text \<open>Finalize leaves a C string with exactly this text.\<close>

lemma ok_Finalize:
  assumes b: "built sb s n" and l: "length s < n"
    and Q: "\<And>sb'. is_finalized sb' \<Longrightarrow> length (sb_buffer sb') = n \<Longrightarrow> takeWhile (\<lambda>c. c \<noteq> 0) (sb_buffer sb') = s \<Longrightarrow> Q sb'"
  shows "ok (Finalize sb) Q"
proof -
  note B = b[unfolded built_def]
  let ?u = "(sb_buffer sb)[length s := 0]"
  have u: "?u = s @ 0 # drop (Suc (length s)) (sb_buffer sb)"
    using B l by (simp add: upd_conv_take_nth_drop)
  have tw: "takeWhile (\<lambda>c. c \<noteq> 0) ?u = s" unfolding u using B by (subst takeWhile_append2) auto
  have "Q \<lparr>sb_buffer = ?u, sb_position = -1\<rparr>" by (rule Q) (use B tw in \<open>simp_all add: is_finalized_def\<close>)
  then show ?thesis using B l tw by (simp add: Finalize_def wp is_finalized_def)
qed

end
