(* ===== verification/String_To_Double.thy ===== *)
theory String_To_Double
  imports Strtod
begin

text \<open>
  Parsing: the class \<open>StringToDoubleConverter\<close> (\<open>double-conversion.h\<close>,
  \<open>double-conversion.cc\<close>). Pointers into the input are indices; \<open>stop\<close> (the code's \<open>end\<close>) is its length.
\<close>

section \<open>Scanning\<close>

text \<open>The characters of a C string, with its terminating 0.\<close>

definition c_at :: "u8 list \<Rightarrow> int \<Rightarrow> u8 option" where
  "c_at s i = (if i = int (length s) then Some 0 else rd s i)"

text \<open>Returns whether the substring matches, and the new position.\<close>

definition ConsumeSubString :: "u8 list \<Rightarrow> int \<Rightarrow> int \<Rightarrow> u8 list \<Rightarrow> (bool \<times> int) option" where
  "ConsumeSubString str current stop substring = do {
     c \<leftarrow> rd str current;
     s \<leftarrow> c_at substring 0;
     ensure (c = s);
     (failed, current, _) \<leftarrow> while_do
       (\<lambda>(failed, current, i). if failed then Some False
          else do { s \<leftarrow> c_at substring i; Some (s \<noteq> 0) })
       (\<lambda>(failed, current, i). do {
          let current = current + 1;
          if current = stop then Some (True, current, i)
          else do {
            c \<leftarrow> rd str current;
            s \<leftarrow> c_at substring i;
            if c \<noteq> s then Some (True, current, i) else Some (False, current, i + 1) } })
       (False, current, 1);
     if failed then Some (False, current) else Some (True, current + 1) }"

definition kMaxSignificantDigits :: int where [simp]: "kMaxSignificantDigits = 772"

text \<open>Returns whether a non-space was found, and the new position.\<close>

definition AdvanceToNonspace :: "u8 list \<Rightarrow> int \<Rightarrow> int \<Rightarrow> (bool \<times> int) option" where
  "AdvanceToNonspace str current stop = do {
     current \<leftarrow> while_do
       (\<lambda>p. if p \<noteq> stop then do { c \<leftarrow> rd str p; Some (\<not> (c \<noteq> ch CHR '' '')) } else Some False)
       (\<lambda>p. Some (p + 1)) current;
     Some (current \<noteq> stop, current) }"

definition isDigit :: "u8 \<Rightarrow> int \<Rightarrow> bool" where
  "isDigit c radix =
     (let x = uint c
      in (x \<ge> uint (ch CHR ''0'') \<and> x \<le> uint (ch CHR ''9'') \<and> x < uint (ch CHR ''0'') + radix) \<or>
         (radix > 10 \<and> x \<ge> uint (ch CHR ''a'') \<and> x < uint (ch CHR ''a'') + radix - 10) \<or>
         (radix > 10 \<and> x \<ge> uint (ch CHR ''A'') \<and> x < uint (ch CHR ''A'') + radix - 10))"

definition SignedZero :: "bool \<Rightarrow> double" where
  "SignedZero sign = (if sign then double_neg 0 else 0)"

definition IsDecimalDigitForRadix :: "u8 \<Rightarrow> int \<Rightarrow> bool" where
  "IsDecimalDigitForRadix c radix \<longleftrightarrow>
     ch CHR ''0'' \<le> c \<and> c \<le> ch CHR ''9'' \<and> uint c - uint (ch CHR ''0'') < radix"

definition IsCharacterDigitForRadix :: "u8 \<Rightarrow> int \<Rightarrow> u8 \<Rightarrow> bool" where
  "IsCharacterDigitForRadix c radix a_character \<longleftrightarrow>
     radix > 10 \<and> c \<ge> a_character \<and> uint c < uint a_character + radix - 10"

section \<open>Integers in a power-of-two radix\<close>

definition radix_digit :: "u8 \<Rightarrow> int \<Rightarrow> int option" where
  "radix_digit c radix =
     (if IsDecimalDigitForRadix c radix then Some (uint c - uint (ch CHR ''0''))
      else if IsCharacterDigitForRadix c radix (ch CHR ''a'') then
        Some (uint c - uint (ch CHR ''a'') + 10)
      else if IsCharacterDigitForRadix c radix (ch CHR ''A'') then
        Some (uint c - uint (ch CHR ''A'') + 10)
      else None)"

text \<open>
  The part of the loop body that runs once the number has more than \<open>kSignificandSize\<close> bits:
  drop the excess bits, skip the remaining digits and round to even. Returns the position, the
  number and the exponent, or \<open>None\<close> when trailing junk makes the function return the junk value.
\<close>

definition radix_overflow ::
    "int \<Rightarrow> int \<Rightarrow> u8 list \<Rightarrow> int \<Rightarrow> bool \<Rightarrow> int \<Rightarrow> int \<Rightarrow> int \<Rightarrow> (int \<times> int \<times> int) option option" where
  "radix_overflow radix_log_2 kSignificandSize str stop allow_trailing_junk current number overflow = do {
     let radix = 2 ^ nat radix_log_2;
     (overflow_bits_count, _) \<leftarrow> while_do (\<lambda>(n, overflow). Some (overflow > 1))
       (\<lambda>(n, overflow). Some (n + 1, drop_bit 1 overflow)) (1 :: int, overflow);
     let dropped_bits_mask = push_bit (nat overflow_bits_count) 1 - 1;
     let dropped_bits = c_int (word_of_int number) AND dropped_bits_mask;
     let number = drop_bit (nat overflow_bits_count) number;
     (current, exponent, zero_tail, _) \<leftarrow> while_do
       (\<lambda>(current, exponent, zero_tail, break). Some (\<not> break))
       (\<lambda>(current, exponent, zero_tail, break). do {
          let current = current + 1;
          if current = stop then Some (current, exponent, zero_tail, True)
          else do {
            c \<leftarrow> rd str current;
            if \<not> isDigit c radix then Some (current, exponent, zero_tail, True)
            else Some (current, exponent + radix_log_2, zero_tail \<and> c = ch CHR ''0'', False) } })
       (current, overflow_bits_count, True, False);
     (junk, current) \<leftarrow>
       (if \<not> allow_trailing_junk then AdvanceToNonspace str current stop else Some (False, current));
     if junk then Some None
     else do {
       let middle_value = push_bit (nat (overflow_bits_count - 1)) 1;
       let number =
         (if dropped_bits > middle_value then number + 1
          else if dropped_bits = middle_value then
            (if number AND 1 \<noteq> 0 \<or> \<not> zero_tail then number + 1 else number)
          else number);
       let (exponent, number) =
         (if number AND push_bit (nat kSignificandSize) 1 \<noteq> 0 then (exponent + 1, drop_bit 1 number)
          else (exponent, number));
       Some (Some (current, number, exponent)) } }"

text \<open>
  The digit loop. Returns the position, the number and the exponent, or \<open>None\<close> for the early
  return of the junk value.
\<close>

partial_function (option) radix_digits ::
    "int \<Rightarrow> int \<Rightarrow> u8 list \<Rightarrow> int \<Rightarrow> bool \<Rightarrow> int \<Rightarrow> int \<Rightarrow> (int \<times> int \<times> int) option option" where
  [code]: "radix_digits radix_log_2 kSignificandSize str stop allow_trailing_junk current number = do {
     let radix = 2 ^ nat radix_log_2;
     c \<leftarrow> rd str current;
     case radix_digit c radix of
       None \<Rightarrow>
         (if allow_trailing_junk then Some (Some (current, number, 0))
          else do {
            (nonspace, current) \<leftarrow> AdvanceToNonspace str current stop;
            if \<not> nonspace then Some (Some (current, number, 0)) else Some None })
     | Some digit \<Rightarrow> do {
         let number = number * radix + digit;
         let overflow = c_int (word_of_int (drop_bit (nat kSignificandSize) number));
         if overflow \<noteq> 0 then
           radix_overflow radix_log_2 kSignificandSize str stop allow_trailing_junk current number overflow
         else do {
           let current = current + 1;
           if current \<noteq> stop
           then radix_digits radix_log_2 kSignificandSize str stop allow_trailing_junk current number
           else Some (Some (current, number, 0)) } } }"

text \<open>Returns the double and the trailing pointer, which junk leaves unassigned.\<close>

definition RadixStringToIeee ::
    "int \<Rightarrow> u8 list \<Rightarrow> int \<Rightarrow> int \<Rightarrow> bool \<Rightarrow> bool \<Rightarrow> double \<Rightarrow> bool \<Rightarrow> (double \<times> int option) option" where
  "RadixStringToIeee radix_log_2 str current stop sign allow_trailing_junk junk_string_value
      read_as_double = do {
     ensure (current \<noteq> stop);
     let kDoubleSize = kDoubleSignificandSize;
     let kSingleSize = kSingleSignificandSize;
     let kSignificandSize = (if read_as_double then kDoubleSize else kSingleSize);
     current \<leftarrow> while_do
       (\<lambda>p. if p = stop then Some False else do { c \<leftarrow> rd str p; Some (c = ch CHR ''0'') })
       (\<lambda>p. Some (p + 1)) current;
     if current = stop then Some (SignedZero sign, Some stop)
     else do {
       r \<leftarrow> radix_digits radix_log_2 kSignificandSize str stop allow_trailing_junk current 0;
       case r of
         None \<Rightarrow> Some (junk_string_value, None)
       | Some (current, number, exponent) \<Rightarrow> do {
           ensure (number < push_bit (nat kSignificandSize) 1);
           ensure (double_trunc (double_of_int number) = number);
           let trailing_pointer = Some current;
           if exponent = 0 then
             (if sign \<and> number = 0 then Some (double_neg 0, trailing_pointer)
              else do {
                let number = (if sign then - number else number);
                Some (double_of_int number, trailing_pointer) })
           else do {
             ensure (number \<noteq> 0);
             d \<leftarrow> DiyFpToUint64 (DiyFp (word_of_int number) exponent);
             Some (d, trailing_pointer) } } } }"

section \<open>The converter\<close>

definition ALLOW_HEX :: int where "ALLOW_HEX = 1"
definition ALLOW_OCTALS :: int where "ALLOW_OCTALS = 2"
definition ALLOW_TRAILING_JUNK :: int where "ALLOW_TRAILING_JUNK = 4"
definition ALLOW_LEADING_SPACES :: int where "ALLOW_LEADING_SPACES = 8"
definition ALLOW_TRAILING_SPACES :: int where "ALLOW_TRAILING_SPACES = 16"
definition ALLOW_SPACES_AFTER_SIGN :: int where "ALLOW_SPACES_AFTER_SIGN = 32"

record to_double_converter =
  s2d_flags :: int
  empty_string_value :: double
  junk_string_value :: double
  s2d_infinity_symbol :: "u8 list option"
  s2d_nan_symbol :: "u8 list option"

definition flag :: "to_double_converter \<Rightarrow> int \<Rightarrow> bool" where
  "flag conv f \<longleftrightarrow> s2d_flags conv AND f \<noteq> 0"

text \<open>
  \<open>StringToIeee\<close> is one long function with early returns and jumps to \<open>parsing_done\<close>. Its local
  variables are a record, and each section of its text is a function from that record to what
  the section ends with: a return (the value and \<open>*processed_characters_count\<close>), the jump, or
  falling through to the next section.
\<close>

record parse_state =
  current :: int
  sign :: bool
  buffer :: "u8 list"
  buffer_pos :: int
  exponent :: int
  significant_digits :: int
  insignificant_digits :: int
  nonzero_digit_dropped :: bool
  leading_zero :: bool
  octal :: bool

datatype flow = Return double int | Parsing_done parse_state | Next parse_state

fun and_then :: "flow option \<Rightarrow> (parse_state \<Rightarrow> flow option) \<Rightarrow> flow option" where
  "and_then None f = None"
| "and_then (Some (Return d n)) f = Some (Return d n)"
| "and_then (Some (Parsing_done s)) f = Some (Parsing_done s)"
| "and_then (Some (Next s)) f = f s"

definition kBufferSize :: int where [simp]: "kBufferSize = kMaxSignificantDigits + 10"

definition start_state :: parse_state where
  "start_state =
     \<lparr>current = 0, sign = False, buffer = replicate (nat kBufferSize) 0, buffer_pos = 0,
      exponent = 0, significant_digits = 0, insignificant_digits = 0,
      nonzero_digit_dropped = False, leading_zero = False, octal = False\<rparr>"

abbreviation junk :: "to_double_converter \<Rightarrow> flow option" where
  "junk conv \<equiv> Some (Return (junk_string_value conv) 0)"

definition parse_leading_spaces :: "to_double_converter \<Rightarrow> u8 list \<Rightarrow> parse_state \<Rightarrow> flow option" where
  "parse_leading_spaces conv input s =
     (let stop = int (length input) in
      if current s = stop then Some (Return (empty_string_value conv) 0)
      else if flag conv ALLOW_LEADING_SPACES \<or> flag conv ALLOW_TRAILING_SPACES then do {
        (nonspace, p) \<leftarrow> AdvanceToNonspace input (current s) stop;
        if \<not> nonspace then Some (Return (empty_string_value conv) p)
        else if \<not> flag conv ALLOW_LEADING_SPACES \<and> p \<noteq> 0 then junk conv
        else Some (Next (s\<lparr>current := p\<rparr>)) }
      else Some (Next s))"

definition parse_sign :: "to_double_converter \<Rightarrow> u8 list \<Rightarrow> parse_state \<Rightarrow> flow option" where
  "parse_sign conv input s = do {
     let stop = int (length input);
     c \<leftarrow> rd input (current s);
     if c = ch CHR ''+'' \<or> c = ch CHR ''-'' then do {
       let s = s\<lparr>sign := (c = ch CHR ''-''), current := current s + 1\<rparr>;
       (nonspace, next_non_space) \<leftarrow> AdvanceToNonspace input (current s) stop;
       if \<not> nonspace then junk conv
       else if \<not> flag conv ALLOW_SPACES_AFTER_SIGN \<and> current s \<noteq> next_non_space then junk conv
       else Some (Next (s\<lparr>current := next_non_space\<rparr>)) }
     else Some (Next s) }"

text \<open>The sections for the infinity symbol and the NaN symbol have the same text.\<close>

definition parse_symbol ::
    "u8 list option \<Rightarrow> double \<Rightarrow> to_double_converter \<Rightarrow> u8 list \<Rightarrow> parse_state \<Rightarrow> flow option" where
  "parse_symbol symbol value conv input s =
     (case symbol of
        None \<Rightarrow> Some (Next s)
      | Some symb \<Rightarrow> do {
          let stop = int (length input);
          c \<leftarrow> rd input (current s);
          first \<leftarrow> c_at symb 0;
          if c = first then do {
            (matched, p) \<leftarrow> ConsumeSubString input (current s) stop symb;
            if \<not> matched then junk conv
            else if \<not> (flag conv ALLOW_TRAILING_SPACES \<or> flag conv ALLOW_TRAILING_JUNK) \<and> p \<noteq> stop
            then junk conv
            else do {
              (nonspace, p) \<leftarrow>
                (if \<not> flag conv ALLOW_TRAILING_JUNK then AdvanceToNonspace input p stop
                 else Some (False, p));
              if nonspace then junk conv
              else do {
                ensure (buffer_pos s = 0);
                Some (Return (if sign s then double_neg value else value) p) } } }
          else Some (Next s) })"

definition parse_leading_zero :: "to_double_converter \<Rightarrow> bool \<Rightarrow> u8 list \<Rightarrow> parse_state \<Rightarrow> flow option" where
  "parse_leading_zero conv read_as_double input s = do {
     let stop = int (length input);
     c \<leftarrow> rd input (current s);
     if c = ch CHR ''0'' then do {
       let p = current s + 1;
       if p = stop then Some (Return (SignedZero (sign s)) p)
       else do {
         let s = s\<lparr>leading_zero := True\<rparr>;
         c \<leftarrow> rd input p;
         if flag conv ALLOW_HEX \<and> (c = ch CHR ''x'' \<or> c = ch CHR ''X'') then do {
           let p = p + 1;
           no_digit \<leftarrow> (if p = stop then Some True
                        else do { c \<leftarrow> rd input p; Some (\<not> isDigit c 16) });
           if no_digit then junk conv
           else do {
             (result, tail_pointer) \<leftarrow> RadixStringToIeee 4 input p stop (sign s)
               (flag conv ALLOW_TRAILING_JUNK) (junk_string_value conv) read_as_double;
             case tail_pointer of
               None \<Rightarrow> Some (Return result 0)
             | Some tail \<Rightarrow> do {
                 (_, tail) \<leftarrow> (if flag conv ALLOW_TRAILING_SPACES
                               then AdvanceToNonspace input tail stop else Some (False, tail));
                 Some (Return result tail) } } }
         else do {
           p \<leftarrow> while_do
             (\<lambda>p. if p = stop then Some False else do { c \<leftarrow> rd input p; Some (c = ch CHR ''0'') })
             (\<lambda>p. Some (p + 1)) p;
           if p = stop then Some (Return (SignedZero (sign s)) p)
           else Some (Next (s\<lparr>current := p\<rparr>)) } } }
     else Some (Next s) }"

text \<open>A digit goes to the buffer while there are fewer than \<open>kMaxSignificantDigits\<close>.\<close>

definition is_dec :: "u8 \<Rightarrow> bool" where
  "is_dec c \<longleftrightarrow> c \<ge> ch CHR ''0'' \<and> c \<le> ch CHR ''9''"

partial_function (option) integer_digits :: "u8 list \<Rightarrow> parse_state \<Rightarrow> flow option" where
  [code]: "integer_digits input s = do {
     c \<leftarrow> rd input (current s);
     if is_dec c then do {
       s \<leftarrow>
         (if significant_digits s < kMaxSignificantDigits then do {
            ensure (buffer_pos s < kBufferSize);
            b \<leftarrow> wr (buffer s) (buffer_pos s) c;
            Some (s\<lparr>buffer := b, buffer_pos := buffer_pos s + 1,
                    significant_digits := significant_digits s + 1\<rparr>) }
          else Some (s\<lparr>insignificant_digits := insignificant_digits s + 1,
                       nonzero_digit_dropped := nonzero_digit_dropped s \<or> c \<noteq> ch CHR ''0''\<rparr>));
       let s = s\<lparr>octal := octal s \<and> c < ch CHR ''8'', current := current s + 1\<rparr>;
       if current s = int (length input) then Some (Parsing_done s) else integer_digits input s }
     else Some (Next s) }"

definition parse_integer :: "to_double_converter \<Rightarrow> u8 list \<Rightarrow> parse_state \<Rightarrow> flow option" where
  "parse_integer conv input s =
     and_then (integer_digits input (s\<lparr>octal := leading_zero s \<and> flag conv ALLOW_OCTALS\<rparr>))
       (\<lambda>s. Some (Next (if significant_digits s = 0 then s\<lparr>octal := False\<rparr> else s)))"

partial_function (option) fraction_zeros :: "u8 list \<Rightarrow> parse_state \<Rightarrow> flow option" where
  [code]: "fraction_zeros input s = do {
     c \<leftarrow> rd input (current s);
     if c = ch CHR ''0'' then do {
       let s = s\<lparr>current := current s + 1\<rparr>;
       if current s = int (length input)
       then Some (Return (SignedZero (sign s)) (current s))
       else fraction_zeros input (s\<lparr>exponent := exponent s - 1\<rparr>) }
     else Some (Next s) }"

partial_function (option) fraction_digits :: "u8 list \<Rightarrow> parse_state \<Rightarrow> flow option" where
  [code]: "fraction_digits input s = do {
     c \<leftarrow> rd input (current s);
     if is_dec c then do {
       s \<leftarrow>
         (if significant_digits s < kMaxSignificantDigits then do {
            ensure (buffer_pos s < kBufferSize);
            b \<leftarrow> wr (buffer s) (buffer_pos s) c;
            Some (s\<lparr>buffer := b, buffer_pos := buffer_pos s + 1,
                    significant_digits := significant_digits s + 1,
                    exponent := exponent s - 1\<rparr>) }
          else Some (s\<lparr>nonzero_digit_dropped := nonzero_digit_dropped s \<or> c \<noteq> ch CHR ''0''\<rparr>));
       let s = s\<lparr>current := current s + 1\<rparr>;
       if current s = int (length input) then Some (Parsing_done s) else fraction_digits input s }
     else Some (Next s) }"

definition parse_fraction :: "to_double_converter \<Rightarrow> u8 list \<Rightarrow> parse_state \<Rightarrow> flow option" where
  "parse_fraction conv input s = do {
     c \<leftarrow> rd input (current s);
     and_then
       (if c = ch CHR ''.'' then
          (if octal s \<and> \<not> flag conv ALLOW_TRAILING_JUNK then junk conv
           else if octal s then Some (Parsing_done s)
           else do {
             let s = s\<lparr>current := current s + 1\<rparr>;
             if current s = int (length input) then
               (if significant_digits s = 0 \<and> \<not> leading_zero s then junk conv
                else Some (Parsing_done s))
             else and_then
               (if significant_digits s = 0 then fraction_zeros input s else Some (Next s))
               (fraction_digits input) })
        else Some (Next s))
       (\<lambda>s. if \<not> leading_zero s \<and> exponent s = 0 \<and> significant_digits s = 0 then junk conv
            else Some (Next s)) }"

definition max_exponent :: int where [simp]: "max_exponent = 1073741823"

definition exponent_digits :: "u8 list \<Rightarrow> int \<Rightarrow> (int \<times> int) option" where
  "exponent_digits input p = do {
     (num, p, _) \<leftarrow> while_do (\<lambda>(num, p, go). Some go)
       (\<lambda>(num, p, go). do {
          c \<leftarrow> rd input p;
          let digit = uint c - uint (ch CHR ''0'');
          let num = (if num \<ge> max_exponent sdiv 10 \<and>
                        \<not> (num = max_exponent sdiv 10 \<and> digit \<le> max_exponent smod 10)
                     then max_exponent else num * 10 + digit);
          let p = p + 1;
          go \<leftarrow> (if p = int (length input) then Some False
                 else do { c \<leftarrow> rd input p; Some (is_dec c) });
          Some (num, p, go) }) (0, p, True);
     Some (num, p) }"

definition parse_exponent :: "to_double_converter \<Rightarrow> u8 list \<Rightarrow> parse_state \<Rightarrow> flow option" where
  "parse_exponent conv input s = do {
     let stop = int (length input);
     let junk_or_done = (\<lambda>s. if flag conv ALLOW_TRAILING_JUNK then Some (Parsing_done s) else junk conv);
     c \<leftarrow> rd input (current s);
     if c = ch CHR ''e'' \<or> c = ch CHR ''E'' then
       (if octal s \<and> \<not> flag conv ALLOW_TRAILING_JUNK then junk conv
        else if octal s then Some (Parsing_done s)
        else do {
          let s = s\<lparr>current := current s + 1\<rparr>;
          if current s = stop then junk_or_done s
          else do {
            c \<leftarrow> rd input (current s);
            let has_sign = (c = ch CHR ''+'' \<or> c = ch CHR ''-'');
            let exponent_sign = (if has_sign then c else ch CHR ''+'');
            let s = (if has_sign then s\<lparr>current := current s + 1\<rparr> else s);
            if has_sign \<and> current s = stop then junk_or_done s
            else do {
              no_digit \<leftarrow> (if current s = stop then Some True
                           else do { c \<leftarrow> rd input (current s); Some (\<not> is_dec c) });
              if no_digit then junk_or_done s
              else do {
                ensure ((- max_exponent) sdiv 2 \<le> exponent s \<and> exponent s \<le> max_exponent sdiv 2);
                (num, p) \<leftarrow> exponent_digits input (current s);
                Some (Next (s\<lparr>current := p,
                     exponent := exponent s + (if exponent_sign = ch CHR ''-'' then - num else num)\<rparr>)) } } } })
     else Some (Next s) }"

definition parse_trailing :: "to_double_converter \<Rightarrow> u8 list \<Rightarrow> parse_state \<Rightarrow> flow option" where
  "parse_trailing conv input s = do {
     let stop = int (length input);
     if \<not> (flag conv ALLOW_TRAILING_SPACES \<or> flag conv ALLOW_TRAILING_JUNK) \<and> current s \<noteq> stop
     then junk conv
     else do {
       (nonspace, p) \<leftarrow>
         (if \<not> flag conv ALLOW_TRAILING_JUNK then AdvanceToNonspace input (current s) stop
          else Some (False, current s));
       if nonspace then junk conv
       else do {
         (_, p) \<leftarrow> (if flag conv ALLOW_TRAILING_SPACES then AdvanceToNonspace input p stop
                    else Some (False, p));
         Some (Next (s\<lparr>current := p\<rparr>)) } } }"

text \<open>The code after the label. Returns the value and \<open>*processed_characters_count\<close>.\<close>

definition parsing_done :: "to_double_converter \<Rightarrow> bool \<Rightarrow> parse_state \<Rightarrow> (double \<times> int) option" where
  "parsing_done conv read_as_double s = do {
     let exp = exponent s + insignificant_digits s;
     if octal s then do {
       (result, tail_pointer) \<leftarrow> RadixStringToIeee 3 (buffer s) 0 (buffer_pos s) (sign s)
         (flag conv ALLOW_TRAILING_JUNK) (junk_string_value conv) read_as_double;
       ensure (tail_pointer \<noteq> None);
       Some (result, current s) }
     else do {
       (buf, pos, exp) \<leftarrow>
         (if nonzero_digit_dropped s then do {
            b \<leftarrow> wr (buffer s) (buffer_pos s) (ch CHR ''1'');
            Some (b, buffer_pos s + 1, exp - 1) }
          else Some (buffer s, buffer_pos s, exp));
       ensure (pos < kBufferSize);
       buf \<leftarrow> wr buf pos 0;
       converted \<leftarrow>
         (if read_as_double then Strtod (take (nat pos) buf) exp
          else do { f \<leftarrow> Strtof (take (nat pos) buf) exp; Some (double_of_float f) });
       Some (if sign s then double_neg converted else converted, current s) } }"

definition StringToIeee :: "to_double_converter \<Rightarrow> u8 list \<Rightarrow> bool \<Rightarrow> (double \<times> int) option" where
  "StringToIeee conv input read_as_double = do {
     r \<leftarrow> and_then (and_then (and_then (and_then (and_then (and_then (and_then (and_then
       (parse_leading_spaces conv input start_state)
       (parse_sign conv input))
       (parse_symbol (s2d_infinity_symbol conv) kDoubleInfinity conv input))
       (parse_symbol (s2d_nan_symbol conv) kDoubleNaN conv input))
       (parse_leading_zero conv read_as_double input))
       (parse_integer conv input))
       (parse_fraction conv input))
       (parse_exponent conv input))
       (parse_trailing conv input);
     case r of
       Return d n \<Rightarrow> Some (d, n)
     | Parsing_done s \<Rightarrow> parsing_done conv read_as_double s
     | Next s \<Rightarrow> parsing_done conv read_as_double s }"

definition StringToDouble :: "to_double_converter \<Rightarrow> u8 list \<Rightarrow> (double \<times> int) option" where
  "StringToDouble conv input = StringToIeee conv input True"

definition StringToFloat :: "to_double_converter \<Rightarrow> u8 list \<Rightarrow> (float \<times> int) option" where
  "StringToFloat conv input = do {
     (d, n) \<leftarrow> StringToIeee conv input False;
     Some (float_of_double d, n) }"

end
