(* ===== verification/Parse_Digits.thy ===== *)
theory Parse_Digits
  imports Strtod_Exact String_To_Double
begin

text \<open>The digit buffer of \<open>StringToIeee\<close>: what it holds after any number of digits, the digit loops, and the conversion at the end, also when digits were dropped.\<close>


section \<open>The digits in the buffer\<close>

lemma is_dec_digit: "is_dec c \<longleftrightarrow> 0 \<le> digit_of c \<and> digit_of c \<le> 9"
proof -
  have "uint (ch CHR ''9'') = 57" by (simp add: ch_def of_char_def)
  then show ?thesis by (simp add: is_dec_def digit_of_def word_le_def)
qed

text \<open>
  The significant digits \<open>ds\<close> so far, of which the buffer keeps 772, and the number \<open>f\<close> of characters
  after the point.
\<close>

definition held :: "parse_state \<Rightarrow> u8 list \<Rightarrow> nat \<Rightarrow> bool" where
  "held s ds f \<longleftrightarrow> length (buffer s) = 782 \<and> significant_digits s = int (min 772 (length ds)) \<and> buffer_pos s = significant_digits s \<and>
     take (min 772 (length ds)) (buffer s) = take 772 ds \<and> nonzero_digit_dropped s = (\<exists>c\<in>set (drop 772 ds). c \<noteq> ch CHR ''0'') \<and>
     exponent s + insignificant_digits s = int (length ds - 772) - int f \<and> - int f \<le> exponent s \<and> exponent s \<le> 0 \<and> 0 \<le> insignificant_digits s"

lemma held_start: "held start_state [] 0"
  by (simp add: held_def start_state_def)

text \<open>What the scanning leaves alone.\<close>

definition same_frame :: "parse_state \<Rightarrow> parse_state \<Rightarrow> bool" where
  "same_frame s s' \<longleftrightarrow> sign s' = sign s \<and> leading_zero s' = leading_zero s"

lemma same_frame_trans: "same_frame s t \<Longrightarrow> same_frame t u \<Longrightarrow> same_frame s u"
  by (simp add: same_frame_def)

lemma held_keep:
  assumes h: "held s ds f" and n: "significant_digits s < 772"
  shows "buffer_pos s < 782" "wr (buffer s) (buffer_pos s) c = Some ((buffer s)[length ds := c])"
    "held (s\<lparr>buffer := (buffer s)[length ds := c], buffer_pos := buffer_pos s + 1, significant_digits := significant_digits s + 1\<rparr>) (ds @ [c]) f"
    "held (s\<lparr>buffer := (buffer s)[length ds := c], buffer_pos := buffer_pos s + 1, significant_digits := significant_digits s + 1,
       exponent := exponent s - 1\<rparr>) (ds @ [c]) (Suc f)"
proof -
  have l: "length ds < 772" using h n by (auto simp: held_def)
  have p: "buffer_pos s = int (length ds)" "length (buffer s) = 782" using h l by (simp_all add: held_def)
  show "buffer_pos s < 782" "wr (buffer s) (buffer_pos s) c = Some ((buffer s)[length ds := c])" using p l by (simp_all add: wr_def)
  have t: "take (Suc (length ds)) ((buffer s)[length ds := c]) = ds @ [c]"
  proof -
    have "take (length ds) (buffer s) = ds" using h l by (auto simp: held_def)
    then show ?thesis using l p by (simp add: take_Suc_conv_app_nth)
  qed
  have m: "min 772 (Suc (length ds)) = Suc (length ds)" using l by simp
  show "held (s\<lparr>buffer := (buffer s)[length ds := c], buffer_pos := buffer_pos s + 1, significant_digits := significant_digits s + 1\<rparr>) (ds @ [c]) f"
    "held (s\<lparr>buffer := (buffer s)[length ds := c], buffer_pos := buffer_pos s + 1, significant_digits := significant_digits s + 1,
       exponent := exponent s - 1\<rparr>) (ds @ [c]) (Suc f)"
    using h t l m by (auto simp: held_def)
qed

lemma held_drop:
  assumes h: "held s ds f" and n: "\<not> significant_digits s < 772"
  shows "held (s\<lparr>insignificant_digits := insignificant_digits s + 1, nonzero_digit_dropped := nonzero_digit_dropped s \<or> c \<noteq> ch CHR ''0''\<rparr>) (ds @ [c]) f"
    "held (s\<lparr>nonzero_digit_dropped := nonzero_digit_dropped s \<or> c \<noteq> ch CHR ''0''\<rparr>) (ds @ [c]) (Suc f)"
proof -
  have l: "772 \<le> length ds" using h n by (auto simp: held_def)
  show "held (s\<lparr>insignificant_digits := insignificant_digits s + 1, nonzero_digit_dropped := nonzero_digit_dropped s \<or> c \<noteq> ch CHR ''0''\<rparr>) (ds @ [c]) f"
    "held (s\<lparr>nonzero_digit_dropped := nonzero_digit_dropped s \<or> c \<noteq> ch CHR ''0''\<rparr>) (ds @ [c]) (Suc f)"
    using h l by (auto simp: held_def min_def)
qed

lemma held_frame:
  "held (s\<lparr>current := p\<rparr>) ds f = held s ds f" "held (s\<lparr>octal := b\<rparr>) ds f = held s ds f" "held (s\<lparr>leading_zero := b\<rparr>) ds f = held s ds f"
  "held (s\<lparr>sign := b\<rparr>) ds f = held s ds f"
  by (simp_all add: held_def)

section \<open>The digit loops\<close>

text \<open>The input around the position: what comes is \<open>cs\<close> and then \<open>post\<close>.\<close>

definition ahead :: "u8 list \<Rightarrow> parse_state \<Rightarrow> u8 list \<Rightarrow> bool" where
  "ahead input s rest \<longleftrightarrow> 0 \<le> current s \<and> current s \<le> int (length input) \<and> drop (nat (current s)) input = rest"

lemma ahead_Cons:
  assumes "ahead input s (c # rest)"
  shows "rd input (current s) = Some c" "current s < int (length input)" "ahead input (s\<lparr>current := current s + 1\<rparr>) rest"
    "current s + 1 = int (length input) \<longleftrightarrow> rest = []"
proof -
  have p: "0 \<le> current s" "drop (nat (current s)) input = c # rest" using assms by (simp_all add: ahead_def)
  have l: "nat (current s) < length input" using p(2) by (metis drop_eq_Nil linorder_not_less list.discI)
  then show lt: "current s < int (length input)" using p(1) by linarith
  have "input ! nat (current s) = c" using p(2) l by (metis hd_drop_conv_nth list.sel(1))
  then show "rd input (current s) = Some c" using p lt by (simp add: rd_def)
  have d: "drop (nat (current s + 1)) input = rest" using p by (simp add: nat_add_distrib drop_Suc tl_drop flip: drop_drop)
    (metis drop_Suc list.sel(3) tl_drop)
  then show "ahead input (s\<lparr>current := current s + 1\<rparr>) rest" using p lt by (simp add: ahead_def)
  show "current s + 1 = int (length input) \<longleftrightarrow> rest = []"
    using d p lt by (auto simp: nat_add_distrib)
qed

lemma ahead_Nil: "ahead input s [] \<Longrightarrow> current s = int (length input)"
  by (auto simp: ahead_def)

lemma ahead_frame: "current s' = current s \<Longrightarrow> ahead input s' r = ahead input s r"
  by (simp add: ahead_def)

definition stops :: "u8 list \<Rightarrow> bool" where
  "stops post \<longleftrightarrow> post = [] \<or> \<not> is_dec (hd post)"

lemma integer_digits_scan:
  assumes "ahead input s (cs @ post)" "cs @ post \<noteq> []" "digits cs" "stops post" "held s ds f"
  shows "\<exists>s'. integer_digits input s = Some (if post = [] then Parsing_done s' else Next s') \<and> held s' (ds @ cs) f \<and>
    ahead input s' post \<and> same_frame s s' \<and> octal s' = (octal s \<and> (\<forall>c\<in>set cs. c < ch CHR ''8'')) \<and> exponent s' = exponent s"
  using assms
proof (induction cs arbitrary: s ds)
  case Nil
  then obtain c rest where post: "post = c # rest" by (cases post) auto
  have "rd input (current s) = Some c" using ahead_Cons(1)[of input s c rest] Nil(1) post by simp
  moreover have "\<not> is_dec c" using Nil(4) post by (simp add: stops_def)
  ultimately have "integer_digits input s = Some (Next s)" by (subst integer_digits.simps) simp
  then show ?case using Nil post by (auto simp: same_frame_def)
next
  case (Cons c cs)
  note A = ahead_Cons[of input s c "cs @ post", OF Cons(2)[unfolded append_Cons]]
  have d: "is_dec c" "digits cs" using Cons(4) by (simp_all add: is_dec_digit)
  define t where "t = (if significant_digits s < 772
      then s\<lparr>buffer := (buffer s)[length ds := c], buffer_pos := buffer_pos s + 1, significant_digits := significant_digits s + 1\<rparr>
      else s\<lparr>insignificant_digits := insignificant_digits s + 1, nonzero_digit_dropped := nonzero_digit_dropped s \<or> c \<noteq> ch CHR ''0''\<rparr>)"
  define u where "u = t\<lparr>octal := octal t \<and> c < ch CHR ''8'', current := current t + 1\<rparr>"
  have t: "held t (ds @ [c]) f" "current t = current s" "same_frame s t" "octal t = octal s" "exponent t = exponent s"
    using held_keep(3)[OF Cons(6)] held_drop(1)[OF Cons(6)] by (auto simp: t_def same_frame_def)
  have u: "held u (ds @ [c]) f" "same_frame s u" "octal u = (octal s \<and> c < ch CHR ''8'')" "exponent u = exponent s"
    using t by (auto simp: u_def held_frame same_frame_def)
  have cu: "current u = current s + 1" using t by (simp add: u_def)
  have au: "ahead input u (cs @ post)" using A(3) cu by (simp add: ahead_def)
  have step: "integer_digits input s = (if current u = int (length input) then Some (Parsing_done u) else integer_digits input u)"
    using A(1) d(1) held_keep(1,2)[OF Cons(6)] by (subst integer_digits.simps) (simp add: t_def u_def ensure_def)
  show ?case
  proof (cases "cs @ post = []")
    case True
    then have "current u = int (length input)" using A(4) cu by simp
    then have "integer_digits input s = Some (Parsing_done u)" using step by simp
    then show ?thesis using True u au by auto
  next
    case False
    then have "current u \<noteq> int (length input)" using A(4) cu by simp
    then have "integer_digits input s = integer_digits input u" using step by simp
    moreover obtain s' where "integer_digits input u = Some (if post = [] then Parsing_done s' else Next s') \<and> held s' ((ds @ [c]) @ cs) f \<and>
      ahead input s' post \<and> same_frame u s' \<and> octal s' = (octal u \<and> (\<forall>c\<in>set cs. c < ch CHR ''8'')) \<and> exponent s' = exponent u"
      using Cons(1)[OF au False d(2) Cons(5) u(1)] by blast
    ultimately show ?thesis using u same_frame_trans[OF u(2)] by (intro exI[of _ s']) simp
  qed
qed


lemma fraction_zeros_scan:
  assumes "ahead input s (replicate n (ch CHR ''0'') @ post)" "0 < n \<or> post \<noteq> []" "post = [] \<or> hd post \<noteq> ch CHR ''0''" "held s [] f"
  shows "\<exists>s'. fraction_zeros input s = Some (if post = [] then Return (SignedZero (sign s)) (int (length input)) else Next s') \<and>
    (post \<noteq> [] \<longrightarrow> held s' [] (f + n) \<and> ahead input s' post \<and> same_frame s s' \<and> octal s' = octal s)"
  using assms
proof (induction n arbitrary: s f)
  case 0
  then obtain c rest where post: "post = c # rest" "c \<noteq> ch CHR ''0''" by (cases post) auto
  have "rd input (current s) = Some c" using ahead_Cons(1)[of input s c rest] 0(1) post by simp
  then have "fraction_zeros input s = Some (Next s)" using post by (subst fraction_zeros.simps) simp
  then show ?case using 0 post by (auto simp: same_frame_def)
next
  case (Suc n)
  define t where "t = s\<lparr>current := current s + 1\<rparr>"
  note A = ahead_Cons[of input s "ch CHR ''0''" "replicate n (ch CHR ''0'') @ post", OF Suc(2)[unfolded replicate_Suc append_Cons], folded t_def]
  define u where "u = t\<lparr>exponent := exponent t - 1\<rparr>"
  have u: "held u [] (Suc f)" "same_frame s u" "octal u = octal s" using Suc(5) by (simp_all add: held_def u_def t_def same_frame_def)
  have au: "ahead input u (replicate n (ch CHR ''0'') @ post)" using A(3) by (simp add: ahead_def u_def)
  have ct: "current t = current s + 1" by (simp add: t_def)
  have step: "fraction_zeros input s = (if current t = int (length input) then Some (Return (SignedZero (sign t)) (current t)) else fraction_zeros input u)"
    using A(1) by (subst fraction_zeros.simps) (simp add: u_def t_def)
  show ?case
  proof (cases "replicate n (ch CHR ''0'') @ post = []")
    case True
    then have "current t = int (length input)" using A(4) ct by simp
    then have "fraction_zeros input s = Some (Return (SignedZero (sign s)) (int (length input)))" using step by (simp add: t_def)
    then show ?thesis using True by simp
  next
    case False
    then have "current t \<noteq> int (length input)" using A(4) ct by simp
    then have e: "fraction_zeros input s = fraction_zeros input u" using step by simp
    have "0 < n \<or> post \<noteq> []" using False by auto
    then obtain s' where s': "fraction_zeros input u = Some (if post = [] then Return (SignedZero (sign u)) (int (length input)) else Next s')"
        "post \<noteq> [] \<longrightarrow> held s' [] (Suc f + n) \<and> ahead input s' post \<and> same_frame u s' \<and> octal s' = octal u"
      using Suc(1)[OF au _ Suc(4) u(1)] by blast
    then show ?thesis using u same_frame_trans[OF u(2), of s'] by (intro exI[of _ s']) (auto simp: e same_frame_def)
  qed
qed

lemma fraction_digits_scan:
  assumes "ahead input s (cs @ post)" "cs @ post \<noteq> []" "digits cs" "stops post" "held s ds f"
  shows "\<exists>s'. fraction_digits input s = Some (if post = [] then Parsing_done s' else Next s') \<and> held s' (ds @ cs) (f + length cs) \<and>
    ahead input s' post \<and> same_frame s s' \<and> octal s' = octal s"
  using assms
proof (induction cs arbitrary: s ds f)
  case Nil
  then obtain c rest where post: "post = c # rest" by (cases post) auto
  have "rd input (current s) = Some c" using ahead_Cons(1)[of input s c rest] Nil(1) post by simp
  moreover have "\<not> is_dec c" using Nil(4) post by (simp add: stops_def)
  ultimately have "fraction_digits input s = Some (Next s)" by (subst fraction_digits.simps) simp
  then show ?case using Nil post by (auto simp: same_frame_def)
next
  case (Cons c cs)
  note A = ahead_Cons[of input s c "cs @ post", OF Cons(2)[unfolded append_Cons]]
  have d: "is_dec c" "digits cs" using Cons(4) by (simp_all add: is_dec_digit)
  define t where "t = (if significant_digits s < 772
      then s\<lparr>buffer := (buffer s)[length ds := c], buffer_pos := buffer_pos s + 1, significant_digits := significant_digits s + 1, exponent := exponent s - 1\<rparr>
      else s\<lparr>nonzero_digit_dropped := nonzero_digit_dropped s \<or> c \<noteq> ch CHR ''0''\<rparr>)"
  define u where "u = t\<lparr>current := current t + 1\<rparr>"
  have t: "held t (ds @ [c]) (Suc f)" "current t = current s" "same_frame s t" "octal t = octal s"
    using held_keep(4)[OF Cons(6)] held_drop(2)[OF Cons(6)] by (auto simp: t_def same_frame_def)
  have u: "held u (ds @ [c]) (Suc f)" "same_frame s u" "octal u = octal s"
    using t by (auto simp: u_def held_frame same_frame_def)
  have cu: "current u = current s + 1" using t by (simp add: u_def)
  have au: "ahead input u (cs @ post)" using A(3) cu by (simp add: ahead_def)
  have step: "fraction_digits input s = (if current u = int (length input) then Some (Parsing_done u) else fraction_digits input u)"
    using A(1) d(1) held_keep(1,2)[OF Cons(6)] by (subst fraction_digits.simps) (simp add: t_def u_def ensure_def)
  show ?case
  proof (cases "cs @ post = []")
    case True
    then have "current u = int (length input)" using A(4) cu by simp
    then have "fraction_digits input s = Some (Parsing_done u)" using step by simp
    then show ?thesis using True u au by auto
  next
    case False
    then have "current u \<noteq> int (length input)" using A(4) cu by simp
    then have "fraction_digits input s = fraction_digits input u" using step by simp
    moreover obtain s' where "fraction_digits input u = Some (if post = [] then Parsing_done s' else Next s') \<and> held s' ((ds @ [c]) @ cs) (Suc f + length cs) \<and>
      ahead input s' post \<and> same_frame u s' \<and> octal s' = octal u"
      using Cons(1)[OF au False d(2) Cons(5) u(1)] by blast
    ultimately show ?thesis using u same_frame_trans[OF u(2)] by (intro exI[of _ s']) simp
  qed
qed

section \<open>The conversion at the end\<close>

definition stored :: "parse_state \<Rightarrow> u8 list \<Rightarrow> int \<Rightarrow> bool" where
  "stored s ds E \<longleftrightarrow> length (buffer s) = 782 \<and> buffer_pos s = int (min 772 (length ds)) \<and>
     take (min 772 (length ds)) (buffer s) = take 772 ds \<and> nonzero_digit_dropped s = (\<exists>c\<in>set (drop 772 ds). c \<noteq> ch CHR ''0'') \<and>
     exponent s + insignificant_digits s = int (length ds - 772) + E"

lemma held_stored: "held s ds f \<Longrightarrow> stored s ds (- int f)"
  by (simp add: held_def stored_def)

lemma dec_val_all_zero: "(\<forall>c\<in>set cs. c = ch CHR ''0'') \<Longrightarrow> dec_val cs = 0"
proof (induction cs)
  case (Cons c cs)
  have "dec_val ([c] @ cs) = dec_val [c] * 10 ^ length cs + dec_val cs" by (rule dec_val_append)
  then show ?case using Cons dec_val_snoc[of "[]" c] by (simp add: digit_of_def)
qed simp

lemma dec_val_nonzero:
  assumes "digits cs" "c \<in> set cs" "c \<noteq> ch CHR ''0''"
  shows "0 < dec_val cs"
  using assms
proof (induction cs)
  case (Cons d ds)
  have a: "dec_val ([d] @ ds) = dec_val [d] * 10 ^ length ds + dec_val ds" by (rule dec_val_append)
  have d: "dec_val [d] = digit_of d" using dec_val_snoc[of "[]" d] by simp
  have D: "0 \<le> digit_of d" "digits ds" using Cons(2) by simp_all
  have n: "0 \<le> dec_val ds" using dec_val_bounds[OF D(2)] by simp
  show ?case
  proof (cases "c \<in> set ds")
    case True
    then have "0 < dec_val ds" using Cons D by simp
    moreover have "0 \<le> digit_of d * 10 ^ length ds" using D by simp
    ultimately show ?thesis using a d by simp
  next
    case False
    then have "d \<noteq> ch CHR ''0''" using Cons by auto
    then have "digit_of d \<noteq> 0" by (simp add: digit_of_def word_uint_eq_iff)
    then have "0 < digit_of d * 10 ^ length ds" using D by simp
    then show ?thesis using a d n by simp
  qed
qed simp

lemma ok_parsing_done:
  assumes s: "stored s ds E" and d: "digits ds" "ds = [] \<or> hd ds \<noteq> ch CHR ''0''" and o: "\<not> octal s"
  shows "ok (parsing_done conv True s) (\<lambda>r. r = (if sign s then double_neg (decimal_double (dec_val ds) E) else decimal_double (dec_val ds) E, current s))"
proof -
  let ?n = "min 772 (length ds)"
  have S: "length (buffer s) = 782" "buffer_pos s = int ?n" "take ?n (buffer s) = take 772 ds"
    "exponent s + insignificant_digits s = int (length ds - 772) + E"
    and z: "nonzero_digit_dropped s = (\<exists>c\<in>set (drop 772 ds). c \<noteq> ch CHR ''0'')"
    using s by (simp_all add: stored_def)
  let ?J = "int (length ds - 772) + E"
  have dt: "digits (take 772 ds)" "digits (drop 772 ds)" using d(1) by (auto simp: digits_def dest: in_set_takeD in_set_dropD)
  have m: "0 \<le> dec_val ds" using dec_val_bounds[OF d(1)] by simp
  show ?thesis
  proof (cases "nonzero_digit_dropped s")
    case False
    have "dec_val (drop 772 ds) = 0" by (rule dec_val_all_zero) (use False z in blast)
    then have "dec_val ds = dec_val (take 772 ds) * 10 ^ (length ds - 772)"
      using dec_val_append[of "take 772 ds" "drop 772 ds"] by simp
    then have "of_int (dec_val ds) * 10 powi E = of_int (dec_val (take 772 ds)) * (10::real) powi ?J"
      by (simp add: power_int_add power_int_of_nat)
    then have e: "decimal_double (dec_val (take 772 ds)) ?J = decimal_double (dec_val ds) E"
      using near_decimal_double[OF m] decimal_double_near[of "dec_val (take 772 ds)" ?J] dec_val_bounds[OF dt(1)] by metis
    have t: "take ?n ((buffer s)[?n := 0]) = take 772 ds" using S(3) by simp
    have "ok (Strtod (take 772 ds) ?J) (\<lambda>r. r = decimal_double (dec_val ds) E)" by (rule ok_Strtod[OF dt(1)]) (rule e)
    then have "Strtod (take 772 ds) ?J = Some (decimal_double (dec_val ds) E)" by (simp add: ok_def)
    then show ?thesis unfolding parsing_done_def using False o S t by (simp add: wp Let_def)
  next
    case True
    then obtain c where c: "c \<in> set (drop 772 ds)" "c \<noteq> ch CHR ''0''" using z by blast
    then have l: "772 < length ds" by (cases "772 < length ds") auto
    then have n: "?n = 772" by simp
    let ?t = "take 772 ds @ [ch CHR ''1'']"
    have one: "digits [ch CHR ''1'']" by (simp add: digits_def digit_of_def ch_def of_char_def)
    have dd: "digits ?t" using dt one by simp
    have ne: "ds \<noteq> []" "hd ds \<noteq> ch CHR ''0''" using l d(2) by auto
    have "same_side (dec_real ds E) (dec_real ?t (E + int (length ds - 772) - 1))"
      by (rule cut_value_at[OF d(1) ne]) (use l dec_val_nonzero[OF dt(2) c] in simp_all)
    moreover have "near (units_of (dec_real ?t (E + int (length ds - 772) - 1))) (uint (decimal_double (dec_val ?t) (E + int (length ds - 772) - 1)))"
      unfolding dec_real_def by (rule decimal_double_near) (use dec_val_bounds[OF dd] in simp)
    ultimately have "near (units_of (dec_real ds E)) (uint (decimal_double (dec_val ?t) (E + int (length ds - 772) - 1)))"
      by (rule same_side_near)
    then have e: "decimal_double (dec_val ?t) (E + int (length ds - 772) - 1) = decimal_double (dec_val ds) E"
      unfolding dec_real_def by (rule near_decimal_double[OF m])
    have t: "take 773 ((buffer s)[772 := ch CHR ''1'', 773 := 0]) = ?t"
      using S(1,3) n by (simp add: take_Suc_conv_app_nth[of 772] eval_nat_numeral(3)[symmetric] numeral_eq_Suc[of "num.Bit1 _", symmetric])
        (simp add: upd_conv_take_nth_drop)
    have "ok (Strtod ?t (E + int (length ds - 772) - 1)) (\<lambda>r. r = decimal_double (dec_val ds) E)" by (rule ok_Strtod[OF dd]) (rule e)
    then have "Strtod ?t (E + int (length ds - 772) - 1) = Some (decimal_double (dec_val ds) E)" by (simp add: ok_def)
    moreover have "exponent s + insignificant_digits s - 1 = E + int (length ds - 772) - 1" using S(4) by simp
    ultimately have "Strtod ?t (exponent s + insignificant_digits s - 1) = Some (decimal_double (dec_val ds) E)" by (simp only:)
    then show ?thesis unfolding parsing_done_def using True o S(1,2) n t by (simp add: wp Let_def)
  qed
qed

end
