(* ===== verification/Parse_Sections.thy ===== *)
theory Parse_Sections
  imports Parse_Digits
begin

text \<open>The sections of \<open>StringToIeee\<close> for the exponent and the fraction.\<close>


section \<open>The sections of the scanner\<close>

lemma ok_and_then [wp]:
  "ok (and_then m f) Q \<longleftrightarrow> ok m (\<lambda>fl. case fl of Next s \<Rightarrow> ok (f s) Q | _ \<Rightarrow> Q fl)"
  by (cases m; simp; cases "the m"; simp)

lemma AdvanceToNonspace_stop: "AdvanceToNonspace input p p = Some (False, p)"
  unfolding AdvanceToNonspace_def by (subst while_do.simps) simp

lemma AdvanceToNonspace_here:
  assumes "rd input p = Some c" "c \<noteq> ch CHR '' ''" "p \<noteq> stop"
  shows "AdvanceToNonspace input p stop = Some (True, p)"
  unfolding AdvanceToNonspace_def using assms by (subst while_do.simps) simp

lemma parse_trailing_end: "current s = int (length input) \<Longrightarrow> parse_trailing conv input s = Some (Next s)"
  by (simp add: parse_trailing_def AdvanceToNonspace_stop Let_def)

lemma parse_symbol_other:
  assumes "rd input (current s) = Some c" "\<And>symb. symbol = Some symb \<Longrightarrow> c_at symb 0 \<noteq> Some c" "\<And>symb. symbol = Some symb \<Longrightarrow> c_at symb 0 \<noteq> None"
  shows "parse_symbol symbol value conv input s = Some (Next s)"
  using assms by (cases symbol) (auto simp: parse_symbol_def Let_def)

section \<open>The exponent\<close>

lemma ahead_pos: "ahead input s r \<Longrightarrow> current s = int (length input) - int (length r)"
  by (auto simp: ahead_def)

definition text_at :: "u8 list \<Rightarrow> int \<Rightarrow> u8 list \<Rightarrow> bool" where
  "text_at input p rest \<longleftrightarrow> 0 \<le> p \<and> p \<le> int (length input) \<and> drop (nat p) input = rest"

lemma ahead_text_at: "ahead input s r = text_at input (current s) r"
  by (simp add: ahead_def text_at_def)

lemma text_at_Cons:
  assumes "text_at input p (c # rest)"
  shows "rd input p = Some c" "text_at input (p + 1) rest" "p + 1 = int (length input) \<longleftrightarrow> rest = []"
  using ahead_Cons[of input "start_state\<lparr>current := p\<rparr>" c rest] assms by (simp_all add: ahead_text_at)

lemma ok_exponent_digits:
  assumes a: "text_at input p xs" and x: "digits xs" "xs \<noteq> []" "dec_val xs \<le> 1073741823"
  shows "exponent_digits input p = Some (dec_val xs, int (length input))"
proof -
  have step: "(c # ys) \<noteq> [] \<Longrightarrow> True" for c and ys :: "u8 list" by simp
  have "ok (exponent_digits input p) (\<lambda>r. r = (dec_val xs, int (length input)))"
    unfolding exponent_digits_def
  proof (subst ok_bind, rule ok_while_do[where P = "\<lambda>(num, q, go). \<exists>ys zs. xs = ys @ zs \<and> num = dec_val ys \<and> text_at input q zs \<and> go = (zs \<noteq> [])"
      and m = "\<lambda>(num, q, go). nat (int (length input) - q)"], goal_cases)
    case 1
    then show ?case unfolding prod.case by (intro exI[of _ "[]"] exI[of _ xs]) (use a x in simp)
  next
    case (2 t)
    obtain num q go where t: "t = (num, q, go)" by (cases t)
    obtain ys zs where z: "xs = ys @ zs" "num = dec_val ys" "text_at input q zs" "go = (zs \<noteq> [])" using 2 t by auto
    show ?case
    proof (cases zs)
      case Nil
      then show ?thesis using z t by (auto simp: text_at_def)
    next
      case (Cons c ws)
      note A = text_at_Cons[OF z(3)[unfolded Cons]]
      have D: "digits ys" "0 \<le> digit_of c" "digit_of c \<le> 9" "digits ws" using x(1) unfolding z(1) Cons by simp_all
      have n: "0 \<le> dec_val ys" using dec_val_bounds[OF D(1)] by simp
      have le: "10 * dec_val ys + digit_of c \<le> 1073741823"
      proof -
        have "xs = (ys @ [c]) @ ws" unfolding z(1) Cons by simp
        then have "dec_val xs = dec_val (ys @ [c]) * 10 ^ length ws + dec_val ws" by (simp only: dec_val_append)
        moreover have "0 \<le> dec_val ws" using dec_val_bounds[OF D(4)] by simp
        moreover have "dec_val (ys @ [c]) * 1 \<le> dec_val (ys @ [c]) * 10 ^ length ws"
          by (rule mult_left_mono) (use D n dec_val_snoc[of ys c] in simp_all)
        ultimately show ?thesis using x(3) unfolding dec_val_snoc by simp
      qed
      then have sat: "\<not> (dec_val ys \<ge> max_exponent sdiv 10 \<and> \<not> (dec_val ys = max_exponent sdiv 10 \<and> digit_of c \<le> max_exponent smod 10))"
        using D(2) by auto
      have num: "dec_val ys * 10 + digit_of c = dec_val (ys @ [c])" by (simp add: dec_val_snoc)
      have u: "uint c - uint (ch CHR ''0'') = digit_of c" by (simp add: digit_of_def)
      have q: "q < int (length input)" "0 \<le> q" using A(1) by (auto simp: rd_def split: if_splits)
      have go: "ok (if q + 1 = int (length input) then Some False else do { c \<leftarrow> rd input (q + 1); Some (is_dec c) }) (\<lambda>g. g = (ws \<noteq> []))"
      proof (cases ws)
        case Nil then show ?thesis using A(3) by simp
      next
        case (Cons d vs)
        have "rd input (q + 1) = Some d" using text_at_Cons(1) A(2) Cons by blast
        moreover have "is_dec d" using D(4) Cons by (simp add: is_dec_digit)
        ultimately show ?thesis using A(3) Cons by simp
      qed
      have inv: "(\<exists>ys' zs'. xs = ys' @ zs' \<and> dec_val (ys @ [c]) = dec_val ys' \<and> text_at input (q + 1) zs' \<and> (ws \<noteq> []) = (zs' \<noteq> []))"
        using A(2) z(1) Cons by (intro exI[of _ "ys @ [c]"] exI[of _ ws]) simp
      show ?thesis unfolding t prod.case z(2,4) Cons Let_def
      proof (simp only: ok_Some list.distinct simp_thms if_True A(1) bind.simps, subst ok_bind, rule ok_mono[OF go])
        fix g assume g: "g = (ws \<noteq> [])"
        show "ok (Some (if max_exponent sdiv 10 \<le> dec_val ys \<and> \<not> (dec_val ys = max_exponent sdiv 10 \<and> uint c - uint (ch CHR ''0'') \<le> max_exponent smod 10)
            then max_exponent else dec_val ys * 10 + (uint c - uint (ch CHR ''0'')), q + 1, g))
          (\<lambda>x. (case x of (num, q, go) \<Rightarrow> \<exists>ys zs. xs = ys @ zs \<and> num = dec_val ys \<and> text_at input q zs \<and> go = (zs \<noteq> [])) \<and>
            (case x of (num, q, go) \<Rightarrow> nat (int (length input) - q)) < nat (int (length input) - q))"
          unfolding u if_not_P[OF sat] num g ok_Some prod.case using inv q by simp
      qed
    qed
  qed
  then show ?thesis by (simp add: ok_def)
qed


definition exponent_val :: "u8 list \<Rightarrow> u8 list \<Rightarrow> int" where
  "exponent_val sg xs = (if sg = [ch CHR ''-''] then - dec_val xs else dec_val xs)"

definition exponent_chars :: "u8 \<Rightarrow> u8 list \<Rightarrow> u8 list \<Rightarrow> bool" where
  "exponent_chars e sg xs \<longleftrightarrow> (e = ch CHR ''e'' \<or> e = ch CHR ''E'') \<and> (sg = [] \<or> sg = [ch CHR ''+''] \<or> sg = [ch CHR ''-'']) \<and>
     digits xs \<and> xs \<noteq> [] \<and> dec_val xs \<le> 1073741823"

lemma signs_no_digit: "\<not> is_dec (ch CHR ''+'')" "\<not> is_dec (ch CHR ''-'')" "\<not> is_dec (ch CHR ''.'')" "\<not> is_dec (ch CHR ''e'')" "\<not> is_dec (ch CHR ''E'')"
    "ch CHR ''+'' \<noteq> ch CHR ''-''"
  by (simp_all add: is_dec_digit digit_of_def ch_def of_char_def)

lemma parse_exponent_scan:
  assumes a: "ahead input s (e # sg @ xs)" and x: "exponent_chars e sg xs" and o: "\<not> octal s"
    and b: "- 536870911 \<le> exponent s" "exponent s \<le> 536870911"
  shows "parse_exponent conv input s = Some (Next (s\<lparr>current := int (length input), exponent := exponent s + exponent_val sg xs\<rparr>))"
proof -
  note x = x[unfolded exponent_chars_def]
  note A = text_at_Cons[of input "current s" e "sg @ xs", OF a[unfolded ahead_text_at]]
  obtain d ys where d: "xs = d # ys" "is_dec d" using x by (cases xs) (auto simp: is_dec_digit)
  have nsg: "d \<noteq> ch CHR ''+''" "d \<noteq> ch CHR ''-''" using d(2) signs_no_digit by auto
  have M: "(- max_exponent) sdiv 2 = - 536870911" "max_exponent sdiv 2 = 536870911" by simp_all
  have go: "exponent_digits input p = Some (dec_val xs, int (length input))" if "text_at input p xs" for p
    by (rule ok_exponent_digits[OF that]) (use x in simp_all)
  consider "sg = []" | g where "sg = [g]" "g = ch CHR ''+'' \<or> g = ch CHR ''-''" using x by blast
  then show ?thesis
  proof cases
    case 1
    have A2: "text_at input (current s + 1) xs" using A(2) 1 by simp
    note B = text_at_Cons[OF A2[unfolded d(1)]]
    have n: "current s + 1 \<noteq> int (length input)" using A(3) 1 d by simp
    show ?thesis unfolding parse_exponent_def Let_def using A(1) x o n B(1) nsg d(2) go[OF A2] b 1 signs_no_digit(6)
      by (simp add: ensure_def M exponent_val_def del: max_exponent_def)
  next
    case 2
    have A2: "text_at input (current s + 1) (g # xs)" using A(2) 2 by simp
    note B = text_at_Cons[OF A2]
    have n: "current s + 1 \<noteq> int (length input)" using A(3) 2 by simp
    have n2: "current s + 1 + 1 \<noteq> int (length input)" using B(3) d by simp
    have B2: "text_at input (current s + 1 + 1) xs" by (rule B(2))
    note C = text_at_Cons[OF B2[unfolded d(1)]]
    have "ch CHR ''+'' \<noteq> ch CHR ''-''" by (rule signs_no_digit)
    then show ?thesis unfolding parse_exponent_def Let_def using A(1) x o n n2 B(1) C(1) nsg d(2) go[OF B2] b 2
      by (simp add: ensure_def M exponent_val_def del: max_exponent_def)
  qed
qed

section \<open>The fraction\<close>

lemma zeros_split: "\<exists>n ds. cs = replicate n (ch CHR ''0'') @ ds \<and> (ds = [] \<or> hd ds \<noteq> ch CHR ''0'')"
proof (induction cs)
  case Nil then show ?case by auto
next
  case (Cons c cs)
  then obtain n ds where I: "cs = replicate n (ch CHR ''0'') @ ds" "ds = [] \<or> hd ds \<noteq> ch CHR ''0''" by blast
  show ?case
  proof (cases "c = ch CHR ''0''")
    case True
    then show ?thesis using I by (intro exI[of _ "Suc n"] exI[of _ ds]) simp
  next
    case False
    then show ?thesis by (intro exI[of _ 0] exI[of _ "c # cs"]) simp
  qed
qed

text \<open>What may follow the digits: the end, an exponent, or junk.\<close>

definition number_stop :: "u8 list \<Rightarrow> bool" where
  "number_stop ex \<longleftrightarrow> ex = [] \<or> \<not> is_dec (hd ex) \<and> hd ex \<noteq> ch CHR ''.'' \<and> hd ex \<noteq> ch CHR ''x'' \<and> hd ex \<noteq> ch CHR ''X''"

lemma number_stop_stops: "number_stop ex \<Longrightarrow> stops ex"
  by (auto simp: number_stop_def stops_def)

lemma number_stop_hd: "number_stop ex \<Longrightarrow> ex \<noteq> [] \<Longrightarrow> hd ex \<noteq> ch CHR ''0'' \<and> hd ex \<noteq> ch CHR ''.''"
  by (auto simp: number_stop_def is_dec_digit digit_of_def)

text \<open>After the fraction: the digits are known, or the number is a zero that ends the input.\<close>

definition after_fraction :: "u8 list \<Rightarrow> parse_state \<Rightarrow> u8 list \<Rightarrow> u8 list \<Rightarrow> nat \<Rightarrow> flow \<Rightarrow> bool" where
  "after_fraction input s ds ex f fl \<longleftrightarrow>
     fl = Return (SignedZero (sign s)) (int (length input)) \<and> ex = [] \<and> dec_val ds = 0 \<or>
     (\<exists>s' es. fl = (if ex = [] then Parsing_done s' else Next s') \<and> held s' es f \<and> digits es \<and> (es = [] \<or> hd es \<noteq> ch CHR ''0'') \<and>
        dec_val es = dec_val ds \<and> ahead input s' ex \<and> same_frame s s' \<and> octal s' = octal s)"

lemma dec_val_lead: "dec_val (replicate n (ch CHR ''0'') @ ds) = dec_val ds"
  using dec_val_all_zero[of "replicate n (ch CHR ''0'')"] by (simp add: dec_val_append)

lemma fraction_loops:
  assumes a: "ahead input s (fs @ ex)" "fs @ ex \<noteq> []" and d: "digits fs" "digits ds" "ds = [] \<or> hd ds \<noteq> ch CHR ''0''" and ex: "number_stop ex" and h: "held s ds 0"
  shows "ok (and_then (if significant_digits s = 0 then fraction_zeros input s else Some (Next s)) (fraction_digits input))
    (after_fraction input s (ds @ fs) ex (length fs))"
proof (cases "ds = []")
  case True
  then have z: "significant_digits s = 0" using h by (simp add: held_def)
  obtain n es where fs: "fs = replicate n (ch CHR ''0'') @ es" "es = [] \<or> hd es \<noteq> ch CHR ''0''" using zeros_split by blast
  have D: "digits es" using d(1) unfolding fs(1) by simp
  have v: "dec_val (ds @ fs) = dec_val es" using True by (simp add: fs(1) dec_val_lead)
  have a': "ahead input s (replicate n (ch CHR ''0'') @ (es @ ex))" using a(1) fs by simp
  have hd: "es @ ex = [] \<or> hd (es @ ex) \<noteq> ch CHR ''0''" using fs(2) number_stop_hd[OF ex] by (cases es) auto
  have ne: "0 < n \<or> es @ ex \<noteq> []" using a(2) fs by auto
  obtain s1 where s1: "fraction_zeros input s = Some (if es @ ex = [] then Return (SignedZero (sign s)) (int (length input)) else Next s1)"
    "es @ ex \<noteq> [] \<Longrightarrow> held s1 [] n \<and> ahead input s1 (es @ ex) \<and> same_frame s s1 \<and> octal s1 = octal s"
    using fraction_zeros_scan[OF a' ne hd, of 0] h True by auto
  show ?thesis
  proof (cases "es @ ex = []")
    case True
    then show ?thesis using s1(1) z v by (simp add: after_fraction_def)
  next
    case False
    note S = s1(2)[OF False]
    obtain s2 where s2: "fraction_digits input s1 = Some (if ex = [] then Parsing_done s2 else Next s2)" "held s2 ([] @ es) (n + length es)"
      "ahead input s2 ex" "same_frame s1 s2" "octal s2 = octal s1"
      using fraction_digits_scan[of input s1 es ex "[]" n] S False D number_stop_stops[OF ex] by blast
    have "after_fraction input s (ds @ fs) ex (length fs) (if ex = [] then Parsing_done s2 else Next s2)"
      unfolding after_fraction_def
      by (intro disjI2 exI[of _ s2] exI[of _ es]) (use s2 S D fs v same_frame_trans[of s s1 s2] in auto)
    then show ?thesis using s1(1) s2(1) z False by (simp add: wp split: if_splits)
  qed
next
  case False
  then have z: "significant_digits s \<noteq> 0" using h by (simp add: held_def)
  obtain s2 where s2: "fraction_digits input s = Some (if ex = [] then Parsing_done s2 else Next s2)" "held s2 (ds @ fs) (0 + length fs)"
    "ahead input s2 ex" "same_frame s s2" "octal s2 = octal s"
    using fraction_digits_scan[OF a d(1) number_stop_stops[OF ex] h] by blast
  have "after_fraction input s (ds @ fs) ex (length fs) (if ex = [] then Parsing_done s2 else Next s2)"
    unfolding after_fraction_def
    by (intro disjI2 exI[of _ s2] exI[of _ "ds @ fs"]) (use s2 d False in auto)
  then show ?thesis using s2(1) z by (simp add: wp split: if_splits)
qed

lemma held_empty: "held s [] f \<Longrightarrow> exponent s = - int f"
  by (simp add: held_def)

lemma held_nonempty: "held s ds f \<Longrightarrow> significant_digits s = 0 \<longleftrightarrow> ds = []"
  by (auto simp: held_def)

lemma parse_fraction_scan:
  assumes a: "ahead input s ((if dot then ch CHR ''.'' # fs else []) @ ex)" "dot \<or> ex \<noteq> []" and d: "digits fs" "digits ds" "ds = [] \<or> hd ds \<noteq> ch CHR ''0''"
    and fs: "dot \<or> fs = []" and ex: "number_stop ex" and h: "held s ds 0" and o: "\<not> octal s" and ne: "ds \<noteq> [] \<or> leading_zero s \<or> fs \<noteq> []"
  shows "ok (parse_fraction conv input s) (after_fraction input s (ds @ fs) ex (length fs))"
proof (cases dot)
  case False
  then obtain c r where c: "ex = c # r" using a(2) by (cases ex) auto
  have A: "rd input (current s) = Some c" "c \<noteq> ch CHR ''.''" using text_at_Cons(1)[of input "current s" c r] a(1) False c number_stop_hd[OF ex] by (auto simp: ahead_text_at)
  have "after_fraction input s (ds @ fs) ex (length fs) (Next s)"
    unfolding after_fraction_def by (intro disjI2 exI[of _ s] exI[of _ ds]) (use a False c d fs h in \<open>auto simp: same_frame_def\<close>)
  moreover have "ds \<noteq> [] \<or> leading_zero s" using ne fs False by simp
  ultimately show ?thesis using A held_nonempty[OF h] by (auto simp: parse_fraction_def wp)
next
  case True
  have a: "ahead input s (ch CHR ''.'' # fs @ ex)" using a True by simp
  note A = ahead_Cons[OF a]
  define t where "t = s\<lparr>current := current s + 1\<rparr>"
  have t: "held t ds 0" "ahead input t (fs @ ex)" "sign t = sign s" "significant_digits t = significant_digits s" "leading_zero t = leading_zero s" "octal t = octal s"
    using h A(3) by (simp_all add: t_def held_frame)
  have af: "after_fraction input s x y z = after_fraction input t x y z" for x y z using t by (simp add: after_fraction_def same_frame_def fun_eq_iff)
  show ?thesis
  proof (cases "fs @ ex = []")
    case True
    then have e: "current s + 1 = int (length input)" using A(4) by simp
    have "after_fraction input s (ds @ fs) ex (length fs) (Parsing_done t)"
      unfolding after_fraction_def by (intro disjI2 exI[of _ t] exI[of _ ds]) (use t True d in \<open>auto simp: same_frame_def\<close>)
    then show ?thesis using A(1) e o held_nonempty[OF h] ne True by (auto simp: parse_fraction_def wp t_def Let_def)
  next
    case False
    then have e: "current s + 1 \<noteq> int (length input)" using A(4) by simp
    have L: "ok (and_then (if significant_digits t = 0 then fraction_zeros input t else Some (Next t)) (fraction_digits input))
        (after_fraction input t (ds @ fs) ex (length fs))"
      by (rule fraction_loops) (use t False d ex in auto)
    have chk: "\<not> (\<not> leading_zero s' \<and> exponent s' = 0 \<and> significant_digits s' = 0)"
      if "after_fraction input t (ds @ fs) ex (length fs) (Next s')" for s'
    proof
      assume c: "\<not> leading_zero s' \<and> exponent s' = 0 \<and> significant_digits s' = 0"
      have "\<exists>es. held s' es (length fs) \<and> dec_val es = dec_val (ds @ fs) \<and> same_frame t s'"
        using that unfolding after_fraction_def by (cases "ex = []") auto
      then obtain es where es: "held s' es (length fs)" "dec_val es = dec_val (ds @ fs)" "same_frame t s'" by blast
      have "es = []" using held_nonempty[OF es(1)] c by simp
      then have "fs = []" using held_empty[of s' "length fs"] es(1) c by simp
      moreover have "ds = []"
      proof (rule ccontr)
        assume n: "ds \<noteq> []"
        then have "0 < dec_val ds" using dec_val_nonzero[OF d(2), of "hd ds"] d(3) by simp
        then show False using es(2) \<open>es = []\<close> \<open>fs = []\<close> by simp
      qed
      ultimately show False using ne c es(3) t by (simp add: same_frame_def)
    qed
    have e': "parse_fraction conv input s = and_then (and_then (if significant_digits t = 0 then fraction_zeros input t else Some (Next t)) (fraction_digits input))
       (\<lambda>s. if \<not> leading_zero s \<and> exponent s = 0 \<and> significant_digits s = 0 then junk conv else Some (Next s))"
      using A(1) e o by (simp add: parse_fraction_def t_def Let_def)
    show ?thesis unfolding af e' by (subst ok_and_then, rule ok_mono[OF L]) (use chk in \<open>auto split: flow.splits\<close>)
  qed
qed

end
