(* ===== verification/Parse_Number.thy ===== *)
theory Parse_Number
  imports Parse_Sections
begin

text \<open>Leading zeros, the integer part, and the grammar of decimal numbers.\<close>


section \<open>Leading zeros and the integer\<close>

lemma skip_zeros:
  assumes "text_at input p (replicate m (ch CHR ''0'') @ rest)" "rest = [] \<or> hd rest \<noteq> ch CHR ''0''"
  shows "\<exists>q. while_do (\<lambda>p. if p = int (length input) then Some False else do { c \<leftarrow> rd input p; Some (c = ch CHR ''0'') }) (\<lambda>p. Some (p + 1)) p = Some q \<and>
    text_at input q rest"
  using assms
proof (induction m arbitrary: p)
  case 0
  show ?case
  proof (cases rest)
    case Nil
    then have "p = int (length input)" using 0 by (auto simp: text_at_def)
    then show ?thesis using 0 by (subst while_do.simps) simp
  next
    case (Cons c r)
    have "text_at input p (c # r)" using 0(1) Cons by simp
    note A = text_at_Cons(1)[OF this]
    have "p \<noteq> int (length input)" using A by (auto simp: rd_def split: if_splits)
    then show ?thesis using 0 A Cons by (subst while_do.simps) simp
  qed
next
  case (Suc m)
  note A = text_at_Cons[of input p "ch CHR ''0''" "replicate m (ch CHR ''0'') @ rest", OF Suc(2)[unfolded replicate_Suc append_Cons]]
  have "p \<noteq> int (length input)" using A(1) by (auto simp: rd_def split: if_splits)
  then show ?case using Suc(1)[OF A(2) Suc(3)] A(1) by (subst while_do.simps) simp
qed

definition number_end :: "u8 list \<Rightarrow> bool" where
  "number_end post \<longleftrightarrow> post = [] \<or> \<not> is_dec (hd post) \<and> hd post \<noteq> ch CHR ''x'' \<and> hd post \<noteq> ch CHR ''X''"

lemma number_end_hd:
  assumes "number_end post" "post \<noteq> []"
  shows "hd post \<noteq> ch CHR ''0''" "hd post \<noteq> ch CHR ''x''" "hd post \<noteq> ch CHR ''X''" "\<not> is_dec (hd post)"
  using assms by (auto simp: number_end_def is_dec_digit digit_of_def)

lemma digit_no_x: "is_dec c \<Longrightarrow> c \<noteq> ch CHR ''x'' \<and> c \<noteq> ch CHR ''X''"
  by (auto simp: is_dec_digit digit_of_def ch_def of_char_def)

lemma parse_leading_zero_scan:
  assumes a: "ahead input s (replicate n (ch CHR ''0'') @ es @ post)" "replicate n (ch CHR ''0'') @ es @ post \<noteq> []"
    and d: "digits es" "es = [] \<or> hd es \<noteq> ch CHR ''0''" and p: "number_end post" and h: "held s [] 0" and z: "\<not> leading_zero s"
  shows "\<exists>s'. parse_leading_zero conv True input s = Some (if es @ post = [] then Return (SignedZero (sign s)) (int (length input)) else Next s') \<and>
    (es @ post \<noteq> [] \<longrightarrow> ahead input s' (es @ post) \<and> held s' [] 0 \<and> sign s' = sign s \<and> leading_zero s' = (0 < n))"
proof -
  have hd: "es @ post = [] \<or> hd (es @ post) \<noteq> ch CHR ''0''" using d p number_end_hd by (cases es) auto
  show ?thesis
  proof (cases n)
    case 0
    then obtain c r where c: "es @ post = c # r" using a(2) by (cases "es @ post") auto
    have "c \<noteq> ch CHR ''0''" using hd c by simp
    moreover have "rd input (current s) = Some c" using text_at_Cons(1)[of input "current s" c r] a(1) 0 c by (simp add: ahead_text_at)
    ultimately have "parse_leading_zero conv True input s = Some (Next s)" by (simp add: parse_leading_zero_def Let_def)
    then show ?thesis using a(1) h z 0 c by (intro exI[of _ s]) simp
  next
    case (Suc m)
    note A = text_at_Cons[of input "current s" "ch CHR ''0''" "replicate m (ch CHR ''0'') @ es @ post",
        OF a(1)[unfolded Suc replicate_Suc append_Cons ahead_text_at]]
    show ?thesis
    proof (cases "replicate m (ch CHR ''0'') @ es @ post = []")
      case True
      then have "current s + 1 = int (length input)" using A(3) by simp
      then show ?thesis using A(1) True by (simp add: parse_leading_zero_def Let_def)
    next
      case False
      then have ne: "current s + 1 \<noteq> int (length input)" using A(3) by simp
      obtain c r where c: "replicate m (ch CHR ''0'') @ es @ post = c # r" using False by (cases "replicate m (ch CHR ''0'') @ es @ post") auto
      have c1: "rd input (current s + 1) = Some c" using text_at_Cons(1) A(2) c by metis
      have zero: "is_dec (ch CHR ''0'')" by (simp add: is_dec_digit digit_of_def)
      have cx: "c \<noteq> ch CHR ''x'' \<and> c \<noteq> ch CHR ''X''"
      proof (cases m)
        case 0
        show ?thesis
        proof (cases es)
          case Nil
          then have "c = hd post" "post \<noteq> []" using c 0 by (auto simp: neq_Nil_conv)
          then show ?thesis using number_end_hd[OF p] by simp
        next
          case (Cons e es')
          then have "c = e" using c 0 by simp
          then show ?thesis using d(1) Cons digit_no_x[of e] by (simp add: is_dec_digit)
        qed
      next
        case (Suc m')
        then have "c = ch CHR ''0''" using c by simp
        then show ?thesis using digit_no_x[OF zero] by simp
      qed
      obtain q where q: "while_do (\<lambda>p. if p = int (length input) then Some False else do { c \<leftarrow> rd input p; Some (c = ch CHR ''0'') }) (\<lambda>p. Some (p + 1)) (current s + 1) = Some q"
        "text_at input q (es @ post)" using skip_zeros[OF A(2) hd] by blast
      have e: "q = int (length input) \<longleftrightarrow> es @ post = []" using q(2) by (auto simp: text_at_def)
      have "parse_leading_zero conv True input s =
          Some (if q = int (length input) then Return (SignedZero (sign s)) q else Next (s\<lparr>leading_zero := True, current := q\<rparr>))"
        using A(1) ne c1 cx q(1) by (simp add: parse_leading_zero_def Let_def)
      then show ?thesis
        using e q(2) h Suc by (intro exI[of _ "s\<lparr>leading_zero := True, current := q\<rparr>"]) (auto simp: held_frame ahead_text_at)
    qed
  qed
qed

lemma parse_integer_scan:
  assumes a: "ahead input s (es @ post)" "es @ post \<noteq> []" and d: "digits es" and p: "number_end post" and h: "held s [] 0"
    and o: "\<not> flag conv ALLOW_OCTALS"
  shows "\<exists>s'. parse_integer conv input s = Some (if post = [] then Parsing_done s' else Next s') \<and> held s' es 0 \<and> ahead input s' post \<and>
    same_frame s s' \<and> \<not> octal s'"
proof -
  let ?t = "s\<lparr>octal := leading_zero s \<and> flag conv ALLOW_OCTALS\<rparr>"
  have st: "stops post" using number_end_hd(4)[OF p] by (auto simp: stops_def)
  have t: "ahead input ?t (es @ post)" "held ?t [] 0" using a h by (simp_all add: ahead_def held_frame)
  obtain s' where s': "integer_digits input ?t = Some (if post = [] then Parsing_done s' else Next s')" "held s' ([] @ es) 0"
    "ahead input s' post" "same_frame ?t s'" "octal s' \<longrightarrow> octal ?t"
    using integer_digits_scan[OF t(1) a(2) d st t(2)] by blast
  have oc: "\<not> octal s'" using s'(5) o by simp
  let ?u = "if significant_digits s' = 0 then s'\<lparr>octal := False\<rparr> else s'"
  have "parse_integer conv input s = Some (if post = [] then Parsing_done s' else Next ?u)" using s'(1) by (simp add: parse_integer_def)
  moreover have "?u = s'" using oc by simp
  ultimately show ?thesis using s' oc by (intro exI[of _ s']) (simp add: same_frame_def)
qed

section \<open>Decimal numbers\<close>

text \<open>The grammar: the text, whether it is negative, its digits and its exponent.\<close>

inductive sign_text :: "u8 list \<Rightarrow> bool \<Rightarrow> bool" where
  no_sign: "sign_text [] False"
| plus_sign: "sign_text [ch CHR ''+''] False"
| minus_sign: "sign_text [ch CHR ''-''] True"

inductive exponent_text :: "u8 list \<Rightarrow> int \<Rightarrow> bool" where
  no_exponent: "exponent_text [] 0"
| exponent: "e = ch CHR ''e'' \<or> e = ch CHR ''E'' \<Longrightarrow> sign_text sg neg \<Longrightarrow> digits xs \<Longrightarrow> xs \<noteq> [] \<Longrightarrow> dec_val xs \<le> 1073741823 \<Longrightarrow>
    exponent_text (e # sg @ xs) (if neg then - dec_val xs else dec_val xs)"

inductive decimal_number :: "u8 list \<Rightarrow> bool \<Rightarrow> u8 list \<Rightarrow> int \<Rightarrow> bool" where
  integer: "sign_text sg neg \<Longrightarrow> digits is \<Longrightarrow> is \<noteq> [] \<Longrightarrow> exponent_text ex k \<Longrightarrow> decimal_number (sg @ is @ ex) neg is k"
| fraction: "sign_text sg neg \<Longrightarrow> digits is \<Longrightarrow> digits fs \<Longrightarrow> is @ fs \<noteq> [] \<Longrightarrow> length fs \<le> 536870911 \<Longrightarrow> exponent_text ex k \<Longrightarrow>
    decimal_number (sg @ is @ ch CHR ''.'' # fs @ ex) neg (is @ fs) (k - int (length fs))"

definition plain_symbol :: "u8 list option \<Rightarrow> bool" where
  "plain_symbol sy \<longleftrightarrow> (\<forall>cs. sy = Some cs \<and> cs \<noteq> [] \<longrightarrow> \<not> is_dec (hd cs) \<and> hd cs \<noteq> ch CHR ''.'')"

lemma plain_symbolD:
  assumes "plain_symbol sy" "is_dec c \<or> c = ch CHR ''.''" "sy = Some cs"
  shows "c_at cs 0 \<noteq> Some c" "c_at cs 0 \<noteq> None"
proof -
  have "c \<noteq> 0" using assms(2) by (auto simp: is_dec_digit digit_of_def ch_def of_char_def)
  then show "c_at cs 0 \<noteq> Some c" using assms by (cases cs) (auto simp: c_at_def plain_symbol_def rd_def)
  show "c_at cs 0 \<noteq> None" by (cases cs) (auto simp: c_at_def rd_def)
qed

text \<open>The end of every path.\<close>

definition finished :: "u8 list \<Rightarrow> bool \<Rightarrow> int \<Rightarrow> int \<Rightarrow> flow \<Rightarrow> bool" where
  "finished input neg V E fl \<longleftrightarrow> (case fl of
      Return d n \<Rightarrow> d = SignedZero neg \<and> n = int (length input) \<and> V = 0
    | Parsing_done s \<Rightarrow> \<exists>ds. stored s ds E \<and> digits ds \<and> (ds = [] \<or> hd ds \<noteq> ch CHR ''0'') \<and> dec_val ds = V \<and> \<not> octal s \<and> sign s = neg \<and> current s = int (length input)
    | Next s \<Rightarrow> \<exists>ds. stored s ds E \<and> digits ds \<and> (ds = [] \<or> hd ds \<noteq> ch CHR ''0'') \<and> dec_val ds = V \<and> \<not> octal s \<and> sign s = neg \<and> current s = int (length input))"

lemma exponent_text_start: "exponent_text ex k \<Longrightarrow> number_stop ex"
  by (auto simp: number_stop_def is_dec_digit digit_of_def ch_def of_char_def elim: exponent_text.cases)

lemma exponent_text_chars:
  "exponent_text ex k \<Longrightarrow> ex \<noteq> [] \<Longrightarrow> \<exists>e sg xs. ex = e # sg @ xs \<and> exponent_chars e sg xs \<and> k = exponent_val sg xs"
proof (induction rule: exponent_text.induct)
  case no_exponent
  then show ?case by simp
next
  case (exponent e sg neg xs)
  have "sg = [] \<or> sg = [ch CHR ''+''] \<or> sg = [ch CHR ''-'']" "neg = (sg = [ch CHR ''-''])"
    using exponent(2) signs_no_digit(6) by (auto elim: sign_text.cases)
  then show ?case using exponent by (intro exI[of _ e] exI[of _ sg] exI[of _ xs]) (auto simp: exponent_chars_def exponent_val_def)
qed

text \<open>The mantissa is read: as \<open>after_fraction\<close>, from the start of the digits.\<close>

definition mantissa_read :: "u8 list \<Rightarrow> bool \<Rightarrow> u8 list \<Rightarrow> u8 list \<Rightarrow> nat \<Rightarrow> flow \<Rightarrow> bool" where
  "mantissa_read input neg ds ex f fl \<longleftrightarrow>
     fl = Return (SignedZero neg) (int (length input)) \<and> ex = [] \<and> dec_val ds = 0 \<or>
     (\<exists>s' es. fl = (if ex = [] then Parsing_done s' else Next s') \<and> held s' es f \<and> digits es \<and> (es = [] \<or> hd es \<noteq> ch CHR ''0'') \<and>
        dec_val es = dec_val ds \<and> ahead input s' ex \<and> sign s' = neg \<and> \<not> octal s')"

lemma after_fraction_read: "after_fraction input s ds ex f fl \<Longrightarrow> \<not> octal s \<Longrightarrow> mantissa_read input (sign s) ds ex f fl"
  by (auto simp: after_fraction_def mantissa_read_def same_frame_def)

lemma tail_finished:
  assumes a: "mantissa_read input neg ds ex f fl" and ex: "exponent_text ex k" and f: "f \<le> 536870911"
  shows "case fl of Next t \<Rightarrow> ok (and_then (parse_exponent conv input t) (parse_trailing conv input)) (finished input neg (dec_val ds) (k - int f))
    | _ \<Rightarrow> finished input neg (dec_val ds) (k - int f) fl"
proof -
  consider "fl = Return (SignedZero neg) (int (length input)) \<and> ex = [] \<and> dec_val ds = 0"
    | s' es where "fl = (if ex = [] then Parsing_done s' else Next s') \<and> held s' es f \<and> digits es \<and> (es = [] \<or> hd es \<noteq> ch CHR ''0'') \<and>
        dec_val es = dec_val ds \<and> ahead input s' ex \<and> sign s' = neg \<and> \<not> octal s'"
    using a unfolding mantissa_read_def by blast
  then show ?thesis
  proof cases
  case 1
  then show ?thesis by (simp add: finished_def)
next
  case (2 s' es)
  then have fl: "fl = (if ex = [] then Parsing_done s' else Next s')" and h: "held s' es f" and d: "digits es" "es = [] \<or> hd es \<noteq> ch CHR ''0''"
    and v: "dec_val es = dec_val ds" and a: "ahead input s' ex" and o: "sign s' = neg" "\<not> octal s'" by simp_all
  have st: "stored s' es (- int f)" by (rule held_stored[OF h])
  show ?thesis
  proof (cases "ex = []")
    case True
    then have "k = 0" using ex by (auto elim: exponent_text.cases)
    then show ?thesis using True fl st d v o ahead_Nil[of input s'] a by (auto simp: finished_def)
  next
    case False
    obtain e sg xs where x: "ex = e # sg @ xs" "exponent_chars e sg xs" "k = exponent_val sg xs" using exponent_text_chars[OF ex False] by blast
    have b: "- 536870911 \<le> exponent s'" "exponent s' \<le> 536870911" using h f by (auto simp: held_def)
    note P = parse_exponent_scan[OF a[unfolded x(1)] x(2) o(2) b, of conv]
    let ?u = "s'\<lparr>current := int (length input), exponent := exponent s' + exponent_val sg xs\<rparr>"
    have T: "parse_trailing conv input ?u = Some (Next ?u)" by (rule parse_trailing_end) simp
    have "stored ?u es (k - int f)" using st by (simp add: stored_def x(3))
    then have "finished input neg (dec_val ds) (k - int f) (Next ?u)" using d v o by (auto simp: finished_def)
    then show ?thesis using P T False fl by simp
  qed
  qed
qed

end
