(* ===== verification/Parse_Decimal.thy ===== *)
theory Parse_Decimal
  imports Parse_Number
begin

text \<open>The composition of the sections: \<open>StringToDouble\<close> on a decimal number.\<close>


section \<open>The whole scanner\<close>

lemma and_then_assoc: "and_then (and_then m f) g = and_then m (\<lambda>s. and_then (f s) g)"
  by (cases m; simp; cases "the m"; simp)

lemma parse_leading_spaces_none:
  assumes "rd input 0 = Some c" "c \<noteq> ch CHR '' ''"
  shows "parse_leading_spaces conv input start_state = Some (Next start_state)"
proof -
  have "input \<noteq> []" using assms(1) by (auto simp: rd_def)
  then show ?thesis using assms AdvanceToNonspace_here[OF assms, of "int (length input)"]
    by (simp add: parse_leading_spaces_def start_state_def Let_def)
qed

lemma parse_sign_scan:
  assumes "sign_text sg neg" "ahead input start_state (sg @ c # r)" "c \<noteq> ch CHR '' ''" "c \<noteq> ch CHR ''+''" "c \<noteq> ch CHR ''-''"
  shows "\<exists>s. parse_sign conv input start_state = Some (Next s) \<and> ahead input s (c # r) \<and> held s [] 0 \<and> sign s = neg \<and> \<not> leading_zero s"
proof -
  have z: "\<not> sign start_state" "\<not> leading_zero start_state" "current start_state = 0" by (simp_all add: start_state_def)
  consider "sg = []" "\<not> neg" | g where "sg = [g]" "g = ch CHR ''+'' \<or> g = ch CHR ''-''" "neg = (g = ch CHR ''-'')"
    using assms(1) signs_no_digit(6) by (auto elim: sign_text.cases)
  then show ?thesis
  proof cases
    case 1
    have "rd input (current start_state) = Some c" using ahead_Cons(1)[of input start_state c r] assms(2) 1 by simp
    then have "parse_sign conv input start_state = Some (Next start_state)" using assms by (simp add: parse_sign_def Let_def)
    then show ?thesis using assms(2) 1 z held_start by auto
  next
    case 2
    have a: "ahead input start_state (g # c # r)" using assms(2) 2 by simp
    note A = ahead_Cons[OF a]
    let ?s = "start_state\<lparr>sign := neg, current := 1\<rparr>"
    have s: "ahead input ?s (c # r)" using A(3) z by (simp add: ahead_def)
    note B = ahead_Cons(1,2)[OF s]
    have adv: "AdvanceToNonspace input 1 (int (length input)) = Some (True, 1)"
      by (rule AdvanceToNonspace_here) (use B assms in auto)
    have "parse_sign conv input start_state = Some (Next ?s)"
      using A(1) adv 2 z by (simp add: parse_sign_def Let_def)
    moreover have "held ?s [] 0" using held_start by (simp add: held_frame)
    ultimately show ?thesis using s z by auto
  qed
qed

lemma body_read:
  assumes a: "ahead input s (is @ (if dot then ch CHR ''.'' # fs else []) @ ex)" and d: "digits is" "digits fs" "is @ fs \<noteq> []" "dot \<or> fs = []"
    and ex: "number_stop ex" and h: "held s [] 0" "\<not> leading_zero s" and o: "\<not> flag conv ALLOW_OCTALS"
  shows "ok (and_then (parse_leading_zero conv True input s) (\<lambda>s. and_then (parse_integer conv input s) (parse_fraction conv input)))
    (mantissa_read input (sign s) (is @ fs) ex (length fs))"
proof -
  let ?post = "(if dot then ch CHR ''.'' # fs else []) @ ex"
  obtain n es where es: "is = replicate n (ch CHR ''0'') @ es" "es = [] \<or> hd es \<noteq> ch CHR ''0''" using zeros_split by blast
  have D: "digits es" using d(1) unfolding es(1) by simp
  have v: "dec_val (is @ fs) = dec_val (es @ fs)" unfolding es(1) append_assoc by (rule dec_val_lead)
  have "\<not> is_dec (ch CHR ''.'')" "ch CHR ''.'' \<noteq> ch CHR ''x''" "ch CHR ''.'' \<noteq> ch CHR ''X''"
    by (simp_all add: is_dec_digit digit_of_def ch_def of_char_def)
  then have ne: "number_end ?post" using ex by (auto simp: number_end_def number_stop_def)
  have "is @ ?post \<noteq> []" using d(3,4) by auto
  then have nil: "replicate n (ch CHR ''0'') @ es @ ?post \<noteq> []" unfolding es(1) by simp
  have a': "ahead input s (replicate n (ch CHR ''0'') @ es @ ?post)" using a unfolding es(1) by simp
  obtain s1 where s1: "parse_leading_zero conv True input s = Some (if es @ ?post = [] then Return (SignedZero (sign s)) (int (length input)) else Next s1)"
    "es @ ?post \<noteq> [] \<Longrightarrow> ahead input s1 (es @ ?post) \<and> held s1 [] 0 \<and> sign s1 = sign s \<and> leading_zero s1 = (0 < n)"
    using parse_leading_zero_scan[OF a' nil D es(2) ne h] by blast
  show ?thesis
  proof (cases "es @ ?post = []")
    case True
    then have "dec_val (es @ fs) = 0" "ex = []" using d(4) by (auto split: if_splits)
    then show ?thesis using s1(1) True v by (simp add: mantissa_read_def)
  next
    case False
    note S = s1(2)[OF False]
    obtain s2 where s2: "parse_integer conv input s1 = Some (if ?post = [] then Parsing_done s2 else Next s2)" "held s2 es 0" "ahead input s2 ?post"
      "same_frame s1 s2" "\<not> octal s2"
      using parse_integer_scan[of input s1 es ?post conv] S False D ne o by blast
    have sg: "sign s2 = sign s" "leading_zero s2 = (0 < n)" using s2(4) S by (simp_all add: same_frame_def)
    show ?thesis
    proof (cases "?post = []")
      case True
      then have "fs = []" "ex = []" using d(4) by (auto split: if_splits)
      then have "mantissa_read input (sign s) (is @ fs) ex (length fs) (Parsing_done s2)"
        unfolding mantissa_read_def by (intro disjI2 exI[of _ s2] exI[of _ es]) (use s2 D es(2) v sg True in simp)
      then show ?thesis using s1(1) s2(1) False True by (simp add: wp)
    next
      case p: False
      have pn: "dot \<or> ex \<noteq> []" using p by auto
      have lead: "es \<noteq> [] \<or> leading_zero s2 \<or> fs \<noteq> []" using d(3) sg(2) unfolding es(1) by auto
      have "ok (parse_fraction conv input s2) (after_fraction input s2 (es @ fs) ex (length fs))"
        by (rule parse_fraction_scan[OF s2(3) pn d(2) D es(2) d(4) ex s2(2,5) lead])
      then have "ok (parse_fraction conv input s2) (mantissa_read input (sign s2) (es @ fs) ex (length fs))"
        by (rule ok_mono) (rule after_fraction_read, assumption, rule s2(5))
      then have "ok (parse_fraction conv input s2) (mantissa_read input (sign s) (is @ fs) ex (length fs))"
        unfolding sg(1) mantissa_read_def v .
      then show ?thesis using s1(1) s2(1) False p by simp
    qed
  qed
qed

text \<open>Up to the digits.\<close>

lemma start_of_number:
  assumes t: "sign_text sg neg" and b: "input = sg @ c # r" and c: "is_dec c \<or> c = ch CHR ''.''"
    and sy: "plain_symbol (s2d_infinity_symbol conv)" "plain_symbol (s2d_nan_symbol conv)"
  shows "\<exists>s. and_then (and_then (and_then (parse_leading_spaces conv input start_state) (parse_sign conv input))
       (parse_symbol (s2d_infinity_symbol conv) v conv input)) (parse_symbol (s2d_nan_symbol conv) w conv input) = Some (Next s) \<and>
    ahead input s (c # r) \<and> held s [] 0 \<and> sign s = neg \<and> \<not> leading_zero s"
proof -
  have cn: "c \<noteq> ch CHR '' ''" "c \<noteq> ch CHR ''+''" "c \<noteq> ch CHR ''-''" using c by (auto simp: is_dec_digit digit_of_def ch_def of_char_def)
  have a0: "ahead input start_state (sg @ c # r)" unfolding b by (simp add: ahead_def start_state_def)
  obtain c0 r0 where c0: "sg @ c # r = c0 # r0" "c0 \<noteq> ch CHR '' ''"
    using t cn(1) by (auto elim!: sign_text.cases simp: ch_def of_char_def)
  have "rd input 0 = Some c0" using ahead_Cons(1)[of input start_state c0 r0] a0 c0 by (simp add: start_state_def)
  note P1 = parse_leading_spaces_none[OF this c0(2), of conv]
  obtain s where s: "parse_sign conv input start_state = Some (Next s)" "ahead input s (c # r)" "held s [] 0" "sign s = neg" "\<not> leading_zero s"
    using parse_sign_scan[OF t a0 cn] by blast
  have rd: "rd input (current s) = Some c" by (rule ahead_Cons(1)[OF s(2)])
  have P3: "parse_symbol (s2d_infinity_symbol conv) v conv input s = Some (Next s)"
    by (rule parse_symbol_other[OF rd]) (use plain_symbolD[OF sy(1) c] in blast)+
  have P4: "parse_symbol (s2d_nan_symbol conv) w conv input s = Some (Next s)"
    by (rule parse_symbol_other[OF rd]) (use plain_symbolD[OF sy(2) c] in blast)+
  show ?thesis using P1 s P3 P4 by simp
qed

lemma number_head:
  assumes "digits is" "is @ fs \<noteq> []" "dot \<or> fs = []"
  shows "\<exists>c r. is @ (if dot then ch CHR ''.'' # fs else []) @ ex = c # r \<and> (is_dec c \<or> c = ch CHR ''.'')"
  using assms by (cases "is") (auto simp: is_dec_digit)

lemma decimal_double_0: "decimal_double 0 E = 0"
proof -
  have f: "finite_double 0" by (simp add: finite_double_def)
  have "dunits 0 = 0" by (simp add: dunits_def)
  then have "rounds_to 0 1 0" using rounds_to_exact[OF f, of 1] by simp
  then have "0 = decimal_double 0 E" by (rule decimal_double_unique) simp_all
  then show ?thesis ..
qed

lemma SignedZero_value: "SignedZero neg = (if neg then double_neg (decimal_double 0 E) else decimal_double 0 E)"
  by (simp add: SignedZero_def decimal_double_0)

lemma ok_StringToDouble:
  assumes t: "sign_text sg neg" and b: "input = sg @ is @ (if dot then ch CHR ''.'' # fs else []) @ ex"
    and d: "digits is" "digits fs" "is @ fs \<noteq> []" "dot \<or> fs = []" "length fs \<le> 536870911" and ex: "exponent_text ex k"
    and o: "\<not> flag conv ALLOW_OCTALS" and sy: "plain_symbol (s2d_infinity_symbol conv)" "plain_symbol (s2d_nan_symbol conv)"
  shows "StringToDouble conv input = Some (if neg then double_neg (decimal_double (dec_val (is @ fs)) (k - int (length fs)))
    else decimal_double (dec_val (is @ fs)) (k - int (length fs)), int (length input))"
proof -
  let ?body = "is @ (if dot then ch CHR ''.'' # fs else []) @ ex"
  let ?E = "k - int (length fs)" and ?V = "dec_val (is @ fs)"
  obtain c r where c: "?body = c # r" "is_dec c \<or> c = ch CHR ''.''" using number_head[OF d(1,3,4)] by blast
  obtain s where s: "and_then (and_then (and_then (parse_leading_spaces conv input start_state) (parse_sign conv input))
       (parse_symbol (s2d_infinity_symbol conv) kDoubleInfinity conv input)) (parse_symbol (s2d_nan_symbol conv) kDoubleNaN conv input) = Some (Next s)"
    "ahead input s (c # r)" "held s [] 0" "sign s = neg" "\<not> leading_zero s"
    using start_of_number[OF t b[unfolded c(1)] c(2) sy] by blast
  have "ok (and_then (parse_leading_zero conv True input s) (\<lambda>s. and_then (parse_integer conv input s) (parse_fraction conv input)))
      (mantissa_read input (sign s) (is @ fs) ex (length fs))"
    by (rule body_read[OF _ d(1-4) exponent_text_start[OF ex] s(3,5) o]) (use s(2) c in simp)
  note M = this[unfolded s(4)]
  have B: "ok (and_then (and_then (parse_leading_zero conv True input s) (\<lambda>s. and_then (parse_integer conv input s) (parse_fraction conv input)))
     (\<lambda>s. and_then (parse_exponent conv input s) (parse_trailing conv input))) (finished input neg ?V ?E)"
    by (subst ok_and_then, rule ok_mono[OF M]) (drule tail_finished[OF _ ex d(5), of _ _ _ _ conv], auto split: flow.splits)
  let ?R = "(if neg then double_neg (decimal_double ?V ?E) else decimal_double ?V ?E, int (length input))"
  have F: "ok (case fl of Return d n \<Rightarrow> Some (d, n) | Parsing_done s \<Rightarrow> parsing_done conv True s | Next s \<Rightarrow> parsing_done conv True s) (\<lambda>r. r = ?R)"
    if f: "finished input neg ?V ?E fl" for fl
  proof (cases fl)
    case (Return dd n)
    then show ?thesis using f SignedZero_value[of neg ?E] by (simp add: finished_def)
  next
    case (Parsing_done u)
    then obtain ds where u: "stored u ds ?E" "digits ds" "ds = [] \<or> hd ds \<noteq> ch CHR ''0''" "dec_val ds = ?V" "\<not> octal u" "sign u = neg" "current u = int (length input)"
      using f by (auto simp: finished_def)
    show ?thesis using ok_parsing_done[OF u(1,2,3,5), of conv] unfolding Parsing_done flow.case u(4,6,7) .
  next
    case (Next u)
    then obtain ds where u: "stored u ds ?E" "digits ds" "ds = [] \<or> hd ds \<noteq> ch CHR ''0''" "dec_val ds = ?V" "\<not> octal u" "sign u = neg" "current u = int (length input)"
      using f by (auto simp: finished_def)
    show ?thesis using ok_parsing_done[OF u(1,2,3,5), of conv] unfolding Next flow.case u(4,6,7) .
  qed
  have "ok (StringToIeee conv input True) (\<lambda>r. r = ?R)"
    unfolding StringToIeee_def s(1)
    unfolding and_then.simps and_then_assoc by (subst ok_bind, rule ok_mono[OF B[unfolded and_then_assoc]]) (rule F)
  then show ?thesis by (simp add: StringToDouble_def ok_def)
qed

end
