(* ===== verification/Print_Decimal.thy ===== *)
theory Print_Decimal
  imports Print_Builder Parse_Decimal Grisu_Dtoa
begin

text \<open>The text that \<open>CreateDecimalRepresentation\<close> adds.\<close>


section \<open>The decimal representation\<close>

definition has_flag :: "to_string_converter \<Rightarrow> int \<Rightarrow> bool" where
  "has_flag conv f \<longleftrightarrow> flags conv AND f \<noteq> 0"

definition zeros :: "int \<Rightarrow> u8 list" where
  "zeros k = replicate (nat k) (ch CHR ''0'')"

definition trailing_chars :: "to_string_converter \<Rightarrow> u8 list" where
  "trailing_chars conv = (if has_flag conv EMIT_TRAILING_DECIMAL_POINT then [ch CHR ''.''] else []) @
     (if has_flag conv EMIT_TRAILING_ZERO_AFTER_POINT then [ch CHR ''0''] else [])"

definition decimal_repr :: "to_string_converter \<Rightarrow> u8 list \<Rightarrow> int \<Rightarrow> int \<Rightarrow> u8 list" where
  "decimal_repr conv ds p places =
     (if p \<le> 0 then ch CHR ''0'' # (if places > 0 then ch CHR ''.'' # zeros (- p) @ ds @ zeros (places + p - int (length ds)) else [])
      else if p \<ge> int (length ds) then ds @ zeros (p - int (length ds)) @ (if places > 0 then ch CHR ''.'' # zeros places else [])
      else take (nat p) ds @ ch CHR ''.'' # drop (nat p) ds @ zeros (places - (int (length ds) - p))) @
     (if places = 0 then trailing_chars conv else [])"

lemma char_nonzero: "ch CHR ''0'' \<noteq> 0" "ch CHR ''.'' \<noteq> 0" "ch CHR ''-'' \<noteq> 0" "ch CHR ''+'' \<noteq> 0"
  by (simp_all add: ch_def of_char_def)

lemma digits_nonzero: "digits ds \<Longrightarrow> 0 \<notin> set ds"
  by (auto simp: digits_def digit_of_def)

lemma ok_trailing:
  assumes b: "built sb s n" and l: "length s + 2 < n" and Q: "\<And>sb'. built sb' (s @ trailing_chars conv) n \<Longrightarrow> Q sb'"
  shows "ok (do { sb \<leftarrow> (if flags conv AND EMIT_TRAILING_DECIMAL_POINT \<noteq> 0 then AddCharacter (ch CHR ''.'') sb else Some sb);
       if flags conv AND EMIT_TRAILING_ZERO_AFTER_POINT \<noteq> 0 then AddCharacter (ch CHR ''0'') sb else Some sb }) Q"
proof -
  have 2: "ok (if flags conv AND EMIT_TRAILING_ZERO_AFTER_POINT \<noteq> 0 then AddCharacter (ch CHR ''0'') t else Some t) Q"
    if t: "built t (s @ (if has_flag conv EMIT_TRAILING_DECIMAL_POINT then [ch CHR ''.''] else [])) n" for t
  proof (cases "flags conv AND EMIT_TRAILING_ZERO_AFTER_POINT \<noteq> 0")
    case True
    then show ?thesis using ok_AddCharacter[OF t, of "ch CHR ''0''" Q] l Q char_nonzero by (simp add: trailing_chars_def has_flag_def)
  next
    case False
    then show ?thesis using Q[of t] t by (simp add: trailing_chars_def has_flag_def)
  qed
  show ?thesis
  proof (subst ok_bind, cases "flags conv AND EMIT_TRAILING_DECIMAL_POINT \<noteq> 0")
    case True
    show "ok (if flags conv AND EMIT_TRAILING_DECIMAL_POINT \<noteq> 0 then AddCharacter (ch CHR ''.'') sb else Some sb)
      (\<lambda>sb. ok (if flags conv AND EMIT_TRAILING_ZERO_AFTER_POINT \<noteq> 0 then AddCharacter (ch CHR ''0'') sb else Some sb) Q)"
      unfolding if_P[OF True] by (rule ok_AddCharacter[OF b]) (use True l char_nonzero in \<open>simp_all add: 2 has_flag_def\<close>)
  next
    case False
    show "ok (if flags conv AND EMIT_TRAILING_DECIMAL_POINT \<noteq> 0 then AddCharacter (ch CHR ''.'') sb else Some sb)
      (\<lambda>sb. ok (if flags conv AND EMIT_TRAILING_ZERO_AFTER_POINT \<noteq> 0 then AddCharacter (ch CHR ''0'') sb else Some sb) Q)"
      unfolding if_not_P[OF False] using False b by (simp add: 2 has_flag_def)
  qed
qed

text \<open>The number of places must leave room for the digits.\<close>

definition enough_places :: "nat \<Rightarrow> int \<Rightarrow> int \<Rightarrow> bool" where
  "enough_places k p places \<longleftrightarrow> 0 \<le> places \<and> (p \<le> 0 \<and> 0 < places \<longrightarrow> int k \<le> places + p) \<and> (0 < p \<and> p < int k \<longrightarrow> 0 < places \<and> int k - p \<le> places)"

lemma ok_CreateDecimalRepresentation:
  assumes b: "built sb s n" and k: "k \<le> length rep" "digits (take k rep)" and a: "enough_places k p places"
    and l: "length s + length (decimal_repr conv (take k rep) p places) + 2 < n"
    and Q: "\<And>sb'. built sb' (s @ decimal_repr conv (take k rep) p places) n \<Longrightarrow> Q sb'"
  shows "ok (CreateDecimalRepresentation conv rep (int k) p places sb) Q"
proof -
  let ?ds = "take k rep"
  have K: "length ?ds = k" using k by simp
  define body where "body = (if p \<le> 0 then ch CHR ''0'' # (if places > 0 then ch CHR ''.'' # zeros (- p) @ ?ds @ zeros (places + p - int k) else [])
      else if p \<ge> int k then ?ds @ zeros (p - int k) @ (if places > 0 then ch CHR ''.'' # zeros places else [])
      else take (nat p) ?ds @ ch CHR ''.'' # drop (nat p) ?ds @ zeros (places - (int k - p)))"
  have R: "decimal_repr conv ?ds p places = body @ (if places = 0 then trailing_chars conv else [])"
    unfolding decimal_repr_def body_def K ..
  have lb: "length s + length body + 2 < n" using l unfolding R by simp
  have nz: "0 \<notin> set ?ds" by (rule digits_nonzero[OF k(2)])
  have fin: "ok (if places = 0 then do {
       sb \<leftarrow> (if flags conv AND EMIT_TRAILING_DECIMAL_POINT \<noteq> 0 then AddCharacter (ch CHR ''.'') t else Some t);
       if flags conv AND EMIT_TRAILING_ZERO_AFTER_POINT \<noteq> 0 then AddCharacter (ch CHR ''0'') sb else Some sb } else Some t) Q"
    if t: "built t (s @ body) n" for t
  proof (cases "places = 0")
    case True
    show ?thesis unfolding if_P[OF True]
      by (rule ok_trailing[OF t]) (use lb Q R True in simp_all)
  next
    case False
    then show ?thesis using Q[of t] t R by simp
  qed
  note A = a[unfolded enough_places_def]
  note ch0 = char_nonzero
  have B: "ok (if p \<le> 0 then do {
          sb \<leftarrow> AddCharacter (ch CHR ''0'') sb;
          if places > 0 then do {
            sb \<leftarrow> AddCharacter (ch CHR ''.'') sb;
            sb \<leftarrow> AddPadding (ch CHR ''0'') (- p) sb;
            ensure (int k \<le> places - (- p));
            sb \<leftarrow> AddSubstring rep (int k) sb;
            let remaining_digits = places - (- p) - int k;
            AddPadding (ch CHR ''0'') remaining_digits sb }
          else Some sb }
        else if p \<ge> int k then do {
          sb \<leftarrow> AddSubstring rep (int k) sb;
          sb \<leftarrow> AddPadding (ch CHR ''0'') (p - int k) sb;
          if places > 0 then do {
            sb \<leftarrow> AddCharacter (ch CHR ''.'') sb;
            AddPadding (ch CHR ''0'') places sb }
          else Some sb }
        else do {
          ensure (places > 0);
          sb \<leftarrow> AddSubstring rep p sb;
          sb \<leftarrow> AddCharacter (ch CHR ''.'') sb;
          ensure (int k - p \<le> places);
          sb \<leftarrow> AddSubstring (drop (nat p) rep) (int k - p) sb;
          let remaining_digits = places - (int k - p);
          AddPadding (ch CHR ''0'') remaining_digits sb }) (\<lambda>t. built t (s @ body) n)"
  proof -
    consider (low) "p \<le> 0" | (high) "0 < p" "int k \<le> p" | (mid) "0 < p" "p < int k" by linarith
    then show ?thesis
    proof cases
      case low
      show ?thesis
      proof (cases "0 < places")
        case True
        then have e: "int k \<le> places - (- p)" "places - (- p) - int k = places + p - int k" using A low by simp_all
        have body: "body = ch CHR ''0'' # ch CHR ''.'' # zeros (- p) @ ?ds @ zeros (places + p - int k)" using low True by (simp add: body_def)
        have len: "length body = 2 + nat (- p) + k + nat (places + p - int k)" using K by (simp add: body zeros_def)
        show ?thesis unfolding if_P[OF low] if_P[OF True] Let_def e(2) ok_bind
          apply (rule ok_AddCharacter[OF b ch0(1)]) using lb apply simp
          apply (erule ok_AddCharacter[OF _ ch0(2)]) using lb len apply simp
          apply (erule ok_AddPadding[OF _ ch0(1)]) using lb len apply simp
          apply (simp only: ok_ensure e(1) simp_thms)
          apply (erule ok_AddSubstring[OF _ k(1) nz]) using lb len apply simp
          apply (erule ok_AddPadding[OF _ ch0(1)]) using lb len k apply simp
          apply (simp add: body zeros_def)
          done
      next
        case False
        then have "body = [ch CHR ''0'']" using low by (simp add: body_def)
        then show ?thesis unfolding if_P[OF low] if_not_P[OF False] ok_bind using lb by (intro ok_AddCharacter[OF b ch0(1)]) simp_all
      qed
    next
      case high
      then have p: "\<not> p \<le> 0" by simp
      have len: "length body = k + nat (p - int k) + (if places > 0 then 1 + nat places else 0)"
        and body: "body = ?ds @ zeros (p - int k) @ (if places > 0 then ch CHR ''.'' # zeros places else [])"
        using high K by (simp_all add: body_def zeros_def)
      show ?thesis unfolding if_not_P[OF p] if_P[OF high(2)] ok_bind
        apply (rule ok_AddSubstring[OF b k(1) nz]) using lb len apply simp
        apply (erule ok_AddPadding[OF _ ch0(1)]) using lb len k apply simp
        apply (cases "0 < places")
         apply (simp only: if_True ok_bind)
         apply (erule ok_AddCharacter[OF _ ch0(2)]) using lb len k apply simp
         apply (erule ok_AddPadding[OF _ ch0(1)]) using lb len k apply simp
         apply (simp_all add: body zeros_def)
        done
    next
      case mid
      then have p: "\<not> p \<le> 0" "\<not> int k \<le> p" "0 < places" "int k - p \<le> places" using A by simp_all
      have pn: "p = int (nat p)" "int k - p = int (k - nat p)" using mid by simp_all
      have body: "body = take (nat p) ?ds @ ch CHR ''.'' # drop (nat p) ?ds @ zeros (places - (int k - p))" using mid by (simp add: body_def)
      have tk: "take (nat p) ?ds = take (nat p) rep" "drop (nat p) ?ds = take (k - nat p) (drop (nat p) rep)" using mid by (simp_all add: drop_take)
      have len: "length body = k + 1 + nat (places - (int k - p))" using K mid by (simp add: body zeros_def)
      have n1: "0 \<notin> set (take (nat p) rep)" "0 \<notin> set (take (k - nat p) (drop (nat p) rep))"
      proof -
        show "0 \<notin> set (take (nat p) rep)" unfolding tk(1)[symmetric] using nz in_set_takeD by fast
        show "0 \<notin> set (take (k - nat p) (drop (nat p) rep))" unfolding tk(2)[symmetric] using nz in_set_dropD by fast
      qed
      have sub1: "ok (AddSubstring rep p sb) Q'" if "\<And>sb'. built sb' (s @ take (nat p) ?ds) n \<Longrightarrow> Q' sb'" for Q'
        by (subst pn(1), rule ok_AddSubstring[OF b _ n1(1)]) (use that tk mid k lb len in auto)
      have sub2: "ok (AddSubstring (drop (nat p) rep) (int k - p) t) Q'"
        if "built t (s @ take (nat p) ?ds @ [ch CHR ''.'']) n" "\<And>sb'. built sb' (s @ take (nat p) ?ds @ ch CHR ''.'' # drop (nat p) ?ds) n \<Longrightarrow> Q' sb'" for Q' t
        by (subst pn(2), rule ok_AddSubstring[OF that(1) _ n1(2)]) (use that tk mid k lb len in auto)
      show ?thesis unfolding if_not_P[OF p(1)] if_not_P[OF p(2)] Let_def ok_bind
        apply (simp only: ok_ensure p(3) simp_thms)
        apply (rule sub1)
        apply (erule ok_AddCharacter[OF _ ch0(2)]) using lb len mid apply simp
        apply (simp only: ok_ensure p(4) simp_thms append_assoc)
        apply (erule sub2)
        apply (erule ok_AddPadding[OF _ ch0(1)]) using lb len k mid apply simp
        apply (simp add: body zeros_def)
        done
    qed
  qed
  show ?thesis unfolding CreateDecimalRepresentation_def
    by (subst ok_bind, rule ok_mono[OF B]) (rule fin)
qed

end
