(* ===== verification/Print_Exponential.thy ===== *)
theory Print_Exponential
  imports Print_Decimal
begin

text \<open>The text that \<open>CreateExponentialRepresentation\<close> adds.\<close>


section \<open>The exponential representation\<close>

lemma digit_char:
  assumes "0 \<le> d" "d \<le> 9"
  shows "digit_of (ch CHR ''0'' + word_of_int d) = d" "ch CHR ''0'' + word_of_int d \<noteq> 0"
proof -
  have "ch CHR ''0'' + word_of_int d = word_of_int (uint (ch CHR ''0'') + d)" by (simp add: ch_def of_char_def)
  then show e: "digit_of (ch CHR ''0'' + word_of_int d) = d" using digit_of_int[OF assms] by simp
  show "ch CHR ''0'' + word_of_int d \<noteq> 0"
  proof
    assume "ch CHR ''0'' + word_of_int d = 0"
    then have "digit_of 0 = d" using e by simp
    then show False using assms by (simp add: digit_of_def)
  qed
qed

text \<open>The exponent's digits are written backwards into an array of six characters.\<close>

lemma ok_exponent_loop:
  assumes e: "0 < e" "e < 10000"
    and Q: "\<And>buf xs r. length buf = 6 \<Longrightarrow> xs \<noteq> [] \<Longrightarrow> length xs \<le> 5 \<Longrightarrow> digits xs \<Longrightarrow> dec_val xs = e \<Longrightarrow> take (length xs) (drop (5 - length xs) buf) = xs \<Longrightarrow>
      Q (buf, 5 - int (length xs), r)"
  shows "ok (while_do (\<lambda>(buffer, pos, exponent). Some (exponent > 0))
         (\<lambda>(buffer, pos, exponent). do {
            buffer \<leftarrow> wr buffer (pos - 1) (ch CHR ''0'' + word_of_int (exponent smod 10));
            Some (buffer, pos - 1, exponent sdiv 10) }) ((replicate 6 0)[5 := 0], 5, e)) Q"
proof (rule ok_while_do[where m = "\<lambda>(b, p, x). nat x"
      and P = "\<lambda>(b, p, x). \<exists>xs. length b = 6 \<and> p = 5 - int (length xs) \<and> length xs \<le> 5 \<and> digits xs \<and> 0 \<le> x \<and> (xs = [] \<longrightarrow> 0 < x) \<and>
        x * 10 ^ length xs + dec_val xs = e \<and> take (length xs) (drop (5 - length xs) b) = xs"], goal_cases)
  case 1
  then show ?case using e by (auto intro!: exI[of _ "[]"])
next
  case (2 t)
  obtain b p x where t: "t = (b, p, x)" by (cases t)
  obtain xs where I: "length b = 6" "p = 5 - int (length xs)" "length xs \<le> 5" "digits xs" "0 \<le> x" "xs = [] \<longrightarrow> 0 < x"
      "x * 10 ^ length xs + dec_val xs = e" "take (length xs) (drop (5 - length xs) b) = xs" using 2 t by auto
  show ?case
  proof (cases "0 < x")
    case False
    then have "x = 0" using I(5) by simp
    then show ?thesis using I t Q[of b xs 0] by (auto simp: I(2))
  next
    case True
    have v: "0 \<le> dec_val xs" using dec_val_bounds[OF I(4)] by simp
    have l: "length xs < 4"
    proof (rule ccontr)
      assume "\<not> length xs < 4"
      then have "(10::int) ^ 4 \<le> 10 ^ length xs" by (intro power_increasing) simp_all
      moreover have "1 * (10::int) ^ length xs \<le> x * 10 ^ length xs" by (rule mult_right_mono) (use True in simp_all)
      ultimately show False using I(7) v e by simp
    qed
    let ?d = "x mod 10" and ?c = "ch CHR ''0'' + word_of_int (x mod 10) :: u8"
    have d: "0 \<le> ?d" "?d \<le> 9" by simp_all
    have sm: "x smod 10 = ?d" "x sdiv 10 = x div 10" using True by (simp_all add: signed_modulo_int_def signed_divide_int_def)
    have cs: "take (Suc (length xs)) (drop (4 - length xs) (b[4 - length xs := ?c])) = ?c # xs"
    proof -
      have "drop (4 - length xs) (b[4 - length xs := ?c]) = ?c # drop (Suc (4 - length xs)) b"
        using I(1) l by (simp add: drop_update_swap Cons_nth_drop_Suc[symmetric])
      moreover have "Suc (4 - length xs) = 5 - length xs" using l by simp
      ultimately show ?thesis using I(8) by simp
    qed
    have "dec_val ([?c] @ xs) = dec_val [?c] * 10 ^ length xs + dec_val xs" by (rule dec_val_append)
    then have dv: "dec_val (?c # xs) = ?d * 10 ^ length xs + dec_val xs" using dec_val_snoc[of "[]" ?c] digit_char(1)[OF d] by simp
    have alg: "(10 * q + r) * 10 ^ l = q * 10 ^ Suc l + r * 10 ^ l" for q r :: int and l by (simp add: distrib_right)
    have "x * 10 ^ length xs = x div 10 * 10 ^ length (?c # xs) + ?d * 10 ^ length xs"
      using alg[of "x div 10" ?d "length xs"] by (simp only: mult_div_mod_eq length_Cons)
    then have e': "x div 10 * 10 ^ length (?c # xs) + dec_val (?c # xs) = e" using I(7) unfolding dv by linarith
    have dig: "digits (?c # xs)" using I(4) digit_char(1)[OF d] by simp
    have np: "nat (p - 1) = 4 - length xs" "0 \<le> p - 1" "p - 1 < int (length b)" using I(1,2) l by simp_all
    have inv: "\<exists>ys. length (b[4 - length xs := ?c]) = 6 \<and> p - 1 = 5 - int (length ys) \<and> length ys \<le> 5 \<and> digits ys \<and> 0 \<le> x div 10 \<and>
      (ys = [] \<longrightarrow> 0 < x div 10) \<and> x div 10 * 10 ^ length ys + dec_val ys = e \<and> take (length ys) (drop (5 - length ys) (b[4 - length xs := ?c])) = ys"
      by (rule exI[of _ "?c # xs"]) (use I(1,2,5) l dig e' cs in \<open>simp del: dec_val_append\<close>)
    have m: "nat (x div 10) < nat x" using True by simp
    show ?thesis unfolding t prod.case ok_Some if_P[OF True] using np inv m by (simp add: wp sm True)
  qed
qed

definition exponential_repr :: "to_string_converter \<Rightarrow> u8 list \<Rightarrow> int \<Rightarrow> u8 list \<Rightarrow> u8 list" where
  "exponential_repr conv ds e xs = hd ds # (if length ds = 1 then [] else ch CHR ''.'' # tl ds) @ exponent_character conv #
     (if e < 0 then [ch CHR ''-''] else if has_flag conv EMIT_POSITIVE_EXPONENT_SIGN then [ch CHR ''+''] else []) @ xs"

lemma ok_CreateExponentialRepresentation:
  assumes b: "built sb s n" and k: "0 < k" "k \<le> length rep" "digits (take k rep)" and e: "\<bar>e\<bar> < 10000" and c: "exponent_character conv \<noteq> 0"
    and l: "length s + k + 10 < n"
    and Q: "\<And>sb' xs. digits xs \<Longrightarrow> xs \<noteq> [] \<Longrightarrow> dec_val xs = \<bar>e\<bar> \<Longrightarrow> length xs \<le> 5 \<Longrightarrow> built sb' (s @ exponential_repr conv (take k rep) e xs) n \<Longrightarrow> Q sb'"
  shows "ok (CreateExponentialRepresentation conv rep (int k) e sb) Q"
proof -
  let ?ds = "take k rep"
  have K: "length ?ds = k" "?ds \<noteq> []" using k by auto
  have nz: "0 \<notin> set ?ds" by (rule digits_nonzero[OF k(3)])
  have hd: "rep ! 0 = hd ?ds" using k by (cases rep; cases k) simp_all
  have hd0: "hd ?ds \<noteq> 0" using nz K(2) by (metis list.set_sel(1))
  have tl: "take (k - 1) (drop 1 rep) = tl ?ds" by (simp add: tl_take drop_Suc)
  have tl0: "0 \<notin> set (tl ?ds)" using nz by (cases "take k rep") auto
  note ch0 = char_nonzero
  let ?m = "hd ?ds # (if k = 1 then [] else ch CHR ''.'' # tl ?ds)"
  let ?sg = "if e < 0 then [ch CHR ''-''] else if has_flag conv EMIT_POSITIVE_EXPONENT_SIGN then [ch CHR ''+''] else []"
  have lm: "length ?m \<le> k + 1" "length ?sg \<le> 1" using k by auto
  have mant: "ok (if int k \<noteq> 1 then do { sb \<leftarrow> AddCharacter (ch CHR ''.'') t; AddSubstring (drop 1 rep) (int k - 1) sb } else Some t)
      (\<lambda>t. built t (s @ ?m) n)" if t: "built t (s @ [hd ?ds]) n" for t
  proof (cases "k = 1")
    case True
    then show ?thesis using t by simp
  next
    case False
    have i: "int k \<noteq> 1" "int k - 1 = int (k - 1)" using False k by simp_all
    have "ok (AddSubstring (drop 1 rep) (int (k - 1)) u) (\<lambda>t. built t (s @ ?m) n)" if u: "built u ((s @ [hd ?ds]) @ [ch CHR ''.'']) n" for u
      by (rule ok_AddSubstring[OF u]) (use k tl tl0 l False in auto)
    then show ?thesis unfolding if_P[OF i(1)] i(2) ok_bind
      by (intro ok_AddCharacter[OF t ch0(2)]) (use l in auto)
  qed
  have sgn: "ok (if e < 0 then do { sb \<leftarrow> AddCharacter (ch CHR ''-'') t; Some (- e, sb) }
        else if flags conv AND EMIT_POSITIVE_EXPONENT_SIGN \<noteq> 0 then do { sb \<leftarrow> AddCharacter (ch CHR ''+'') t; Some (e, sb) }
        else Some (e, t)) (\<lambda>(x, t). x = \<bar>e\<bar> \<and> built t (u @ ?sg) n)" if t: "built t u n" "length u + 1 < n" for t u
  proof -
    have a: "ok (AddCharacter c t) (\<lambda>t. built t (u @ [c]) n)" if "c \<noteq> 0" for c
      by (rule ok_AddCharacter[OF t(1) that]) (use t(2) in simp_all)
    show ?thesis using a[OF ch0(3)] a[OF ch0(4)] t(1) by (simp add: ok_bind has_flag_def abs_if)
  qed
  have num: "ok (if x = 0 then AddCharacter (ch CHR ''0'') t
     else do {
       ensure (x < 10000);
       buffer \<leftarrow> wr (replicate (nat (kMaxExponentLength + 1)) 0) kMaxExponentLength 0;
       (buffer, first_char_pos, _) \<leftarrow> while_do (\<lambda>(buffer, pos, exponent). Some (exponent > 0))
         (\<lambda>(buffer, pos, exponent). do {
            buffer \<leftarrow> wr buffer (pos - 1) (ch CHR ''0'' + word_of_int (exponent smod 10));
            Some (buffer, pos - 1, exponent sdiv 10) }) (buffer, kMaxExponentLength, x);
       AddSubstring (drop (nat first_char_pos) buffer) (kMaxExponentLength - first_char_pos) t }) Q"
    if x: "x = \<bar>e\<bar>" and t: "built t (s @ ?m @ exponent_character conv # ?sg) n" for x t
  proof (cases "x = 0")
    case True
    have "ok (AddCharacter (ch CHR ''0'') t) Q"
    proof (rule ok_AddCharacter[OF t ch0(1)])
      show "length (s @ ?m @ exponent_character conv # ?sg) < n" using lm l by simp
      fix sb' assume b': "built sb' ((s @ ?m @ exponent_character conv # ?sg) @ [ch CHR ''0'']) n"
      show "Q sb'" by (rule Q[of "[ch CHR ''0'']"]) (use b' True x K in \<open>simp_all add: exponential_repr_def digit_of_def dec_val_all_zero\<close>)
    qed
    then show ?thesis unfolding if_P[OF True] .
  next
    case False
    then have x0: "0 < x" "x < 10000" using e x by simp_all
    have "ok (while_do (\<lambda>(buffer, pos, exponent). Some (exponent > 0))
         (\<lambda>(buffer, pos, exponent). do {
            buffer \<leftarrow> wr buffer (pos - 1) (ch CHR ''0'' + word_of_int (exponent smod 10));
            Some (buffer, pos - 1, exponent sdiv 10) }) ((replicate 6 0)[5 := 0], 5, x))
      (\<lambda>(buffer, first_char_pos, _). ok (AddSubstring (drop (nat first_char_pos) buffer) (5 - first_char_pos) t) Q)"
    proof (rule ok_exponent_loop[OF x0], unfold prod.case)
      fix buf xs
      assume X: "length buf = 6" "xs \<noteq> []" "length xs \<le> 5" "digits xs" "dec_val xs = x" "take (length xs) (drop (5 - length xs) buf) = xs"
      have i: "5 - (5 - int (length xs)) = int (length xs)" "nat (5 - int (length xs)) = 5 - length xs" using X(3) by simp_all
      show "ok (AddSubstring (drop (nat (5 - int (length xs))) buf) (5 - (5 - int (length xs))) t) Q"
        unfolding i
      proof (rule ok_AddSubstring[OF t])
        show "length xs \<le> length (drop (5 - length xs) buf)" using X by simp
        show "0 \<notin> set (take (length xs) (drop (5 - length xs) buf))" unfolding X(6) by (rule digits_nonzero[OF X(4)])
        show "length (s @ ?m @ exponent_character conv # ?sg) + length xs < n" using lm l X(3) by simp
        fix sb' assume "built sb' ((s @ ?m @ exponent_character conv # ?sg) @ take (length xs) (drop (5 - length xs) buf)) n"
        then show "Q sb'" unfolding X(6) by (intro Q[OF X(4,2)]) (use X(3,5) x K in \<open>simp_all add: exponential_repr_def\<close>)
      qed
    qed
    then show ?thesis unfolding if_not_P[OF False] using x0 by (simp add: ok_bind ok_ensure ok_wr split_def)
  qed
  have kz: "int k \<noteq> 0" "0 < length rep" using k by auto
  show ?thesis unfolding CreateExponentialRepresentation_def
    apply (simp only: ok_bind ok_ensure kz simp_thms ok_rd)
    apply (intro conjI)
      apply simp
     apply (use kz in simp)
    apply (simp only: nat_0 hd)
    apply (rule ok_AddCharacter[OF b hd0]) using l apply simp
    apply (rule ok_mono, erule mant)
    apply (erule ok_AddCharacter[OF _ c]) using lm l apply simp
    apply (rule ok_mono, erule sgn) using lm l apply simp
    apply (simp only: split_paired_all prod.case)
    apply (erule conjE)
    apply (rule num[OF refl])
    apply simp
    done
qed

end
