(* ===== verification/Print_Parse.thy ===== *)
theory Print_Parse
  imports Print_Exponential
begin

text \<open>What \<open>ToShortest\<close> prints is a decimal number of the grammar, with the value of the digits.\<close>


section \<open>Reading a decimal number\<close>

lemma StringToDouble_decimal:
  assumes n: "decimal_number input neg ds E" and o: "\<not> flag conv ALLOW_OCTALS"
    and sy: "plain_symbol (s2d_infinity_symbol conv)" "plain_symbol (s2d_nan_symbol conv)"
  shows "digits ds" "StringToDouble conv input = Some (if neg then double_neg (decimal_double (dec_val ds) E) else decimal_double (dec_val ds) E, int (length input))"
proof -
  show "digits ds" using n by cases simp_all
  show "StringToDouble conv input = Some (if neg then double_neg (decimal_double (dec_val ds) E) else decimal_double (dec_val ds) E, int (length input))"
    using n
  proof cases
    case (integer sg ex)
    have "input = sg @ ds @ (if False then ch CHR ''.'' # [] else []) @ ex" using integer(1) by simp
    from ok_StringToDouble[OF integer(2) this integer(3) _ _ _ _ integer(5) o sy] integer(4) show ?thesis by simp
  next
    case (fraction sg "is" fs ex k)
    have "input = sg @ is @ (if True then ch CHR ''.'' # fs else []) @ ex" using fraction(1) by simp
    from ok_StringToDouble[OF fraction(4) this fraction(5-7) _ fraction(8,9) o sy] show ?thesis unfolding fraction(2,3) by simp
  qed
qed

lemma decimal_double_cong:
  assumes "0 \<le> m" "0 \<le> m'" "of_int m * 10 powi e = (of_int m' * 10 powi e' :: real)"
  shows "decimal_double m e = decimal_double m' e'"
  by (rule near_decimal_double[OF assms(2)]) (use decimal_double_near[OF assms(1), of e] assms(3) in simp)

section \<open>What is printed is a decimal number\<close>

lemma zeros_digits [simp]: "digits (zeros k)" "length (zeros k) = nat k"
  by (simp_all add: zeros_def digits_def digit_of_def)

lemma dec_val_zeros_lead: "dec_val (zeros k @ ds) = dec_val ds" "dec_val (ch CHR ''0'' # ds) = dec_val ds"
  using dec_val_lead[of "nat k" ds] dec_val_lead[of 1 ds] by (simp_all add: zeros_def)

lemma dec_val_zeros_end: "dec_val (ds @ zeros k) = dec_val ds * 10 ^ nat k"
  using dec_val_all_zero[of "zeros k"] by (simp add: dec_val_append zeros_def)

lemma dec_zero_digit: "digits [ch CHR ''0'']"
  by (simp add: digits_def digit_of_def)

definition denotes :: "u8 list \<Rightarrow> bool \<Rightarrow> real \<Rightarrow> bool" where
  "denotes t neg x \<longleftrightarrow> (\<exists>ds E. decimal_number t neg ds E \<and> of_int (dec_val ds) * 10 powi E = x)"

lemma denotesI: "decimal_number t neg ds E \<Longrightarrow> of_int (dec_val ds) * 10 powi E = x \<Longrightarrow> denotes t neg x"
  by (auto simp: denotes_def)

lemma decimal_repr_number:
  assumes s: "sign_text sg neg" and d: "digits ds" "ds \<noteq> []" and p: "\<bar>p\<bar> \<le> 400" "length ds \<le> 1000"
    and f: "has_flag conv EMIT_TRAILING_DECIMAL_POINT \<or> \<not> has_flag conv EMIT_TRAILING_ZERO_AFTER_POINT"
  shows "denotes (sg @ decimal_repr conv ds p (max 0 (int (length ds) - p))) neg (of_int (dec_val ds) * 10 powi (p - int (length ds)))"
proof -
  let ?k = "int (length ds)"
  have k: "0 < ?k" using d(2) by simp
  consider (low) "p \<le> 0" | (high) "0 < p" "?k \<le> p" | (mid) "0 < p" "p < ?k" by linarith
  then show ?thesis
  proof cases
    case low
    let ?fs = "zeros (- p) @ ds"
    have m: "max 0 (?k - p) = ?k - p" "0 < ?k - p" using low k by linarith+
    have t: "decimal_repr conv ds p (max 0 (?k - p)) = [ch CHR ''0''] @ ch CHR ''.'' # ?fs @ []"
      unfolding m(1) decimal_repr_def using low m(2) by (simp add: zeros_def)
    show ?thesis unfolding t
    proof (rule denotesI[OF decimal_number.fraction[OF s dec_zero_digit _ _ _ no_exponent]])
      show "digits ?fs" using d by simp
      show "length ?fs \<le> 536870911" using p by simp
      have "int (length ?fs) = ?k - p" using low by simp
      then show "of_int (dec_val ([ch CHR ''0''] @ ?fs)) * 10 powi (0 - int (length ?fs)) = (of_int (dec_val ds) * 10 powi (p - ?k) :: real)"
        by (simp add: dec_val_zeros_lead)
    qed simp
  next
    case high
    have m: "max 0 (?k - p) = 0" using high by simp
    let ?is = "ds @ zeros (p - ?k)"
    have v: "of_int (dec_val ?is) = of_int (dec_val ds) * (10 :: real) powi (p - ?k)"
      using high by (simp add: dec_val_zeros_end power_int_def)
    have D: "digits ?is" "?is \<noteq> []" using d by simp_all
    have t: "decimal_repr conv ds p (max 0 (?k - p)) = ?is @ trailing_chars conv"
      unfolding m decimal_repr_def using high by simp
    show ?thesis
    proof (cases "has_flag conv EMIT_TRAILING_DECIMAL_POINT")
      case False
      then have "decimal_repr conv ds p (max 0 (?k - p)) = ?is @ []" using f t by (simp add: trailing_chars_def)
      then show ?thesis
        by (simp only:) (rule denotesI[OF decimal_number.integer[OF s D no_exponent]], simp only: v power_int_0_right mult_1_right)
    next
      case True
      let ?fs = "if has_flag conv EMIT_TRAILING_ZERO_AFTER_POINT then [ch CHR ''0''] else []"
      have e: "decimal_repr conv ds p (max 0 (?k - p)) = ?is @ ch CHR ''.'' # ?fs @ []" unfolding t trailing_chars_def using True by simp
      show ?thesis unfolding e
      proof (rule denotesI[OF decimal_number.fraction[OF s D(1) _ _ _ no_exponent]])
        show "digits ?fs" using dec_zero_digit by simp
        show "?is @ ?fs \<noteq> []" using d(2) by simp
        show "length ?fs \<le> 536870911" by simp
        have "dec_val (?is @ ?fs) = dec_val ?is * 10 ^ length ?fs" using dec_val_all_zero[of "?fs"] by (simp add: dec_val_append)
        then have "of_int (dec_val (?is @ ?fs)) = of_int (dec_val ?is) * (10 :: real) ^ length ?fs" by (simp only: of_int_mult of_int_power of_int_numeral)
        then show "of_int (dec_val (?is @ ?fs)) * 10 powi (0 - int (length ?fs)) = (of_int (dec_val ds) * 10 powi (p - ?k) :: real)"
          unfolding v[symmetric] by (simp add: power_int_minus power_int_of_nat)
      qed
    qed
  next
    case mid
    have m: "max 0 (?k - p) = ?k - p" "?k - p \<noteq> 0" using mid by simp_all
    let ?fs = "drop (nat p) ds"
    have t: "decimal_repr conv ds p (max 0 (?k - p)) = take (nat p) ds @ ch CHR ''.'' # ?fs @ []"
      unfolding m(1) decimal_repr_def using mid m(2) by (simp add: zeros_def)
    show ?thesis unfolding t
    proof (rule denotesI[OF decimal_number.fraction[OF s _ _ _ _ no_exponent]])
      show "digits (take (nat p) ds)" "digits ?fs" using d(1) by (auto simp: digits_def dest: in_set_takeD in_set_dropD)
      show "take (nat p) ds @ ?fs \<noteq> []" using d by simp
      show "length ?fs \<le> 536870911" using p by simp
      have "int (length ?fs) = ?k - p" using mid by simp
      then show "of_int (dec_val (take (nat p) ds @ ?fs)) * 10 powi (0 - int (length ?fs)) = (of_int (dec_val ds) * 10 powi (p - ?k) :: real)"
        by simp
    qed
  qed
qed

lemma exponential_repr_number:
  assumes s: "sign_text sg neg" and d: "digits ds" "ds \<noteq> []" "length ds \<le> 1000"
    and x: "digits xs" "xs \<noteq> []" "dec_val xs = \<bar>e\<bar>" "\<bar>e\<bar> < 10000" and c: "exponent_character conv = ch CHR ''e'' \<or> exponent_character conv = ch CHR ''E''"
  shows "denotes (sg @ exponential_repr conv ds e xs) neg (of_int (dec_val ds) * 10 powi (e + 1 - int (length ds)))"
proof -
  let ?sg = "if e < 0 then [ch CHR ''-''] else if has_flag conv EMIT_POSITIVE_EXPONENT_SIGN then [ch CHR ''+''] else []"
  have sg: "sign_text ?sg (e < 0)" by (auto intro: sign_text.intros)
  let ?ex = "exponent_character conv # ?sg @ xs"
  have "exponent_text ?ex (if e < 0 then - dec_val xs else dec_val xs)"
    by (rule exponent_text.exponent[OF c sg x(1,2)]) (use x in simp)
  then have ex: "exponent_text ?ex e" using x(3) by (simp split: if_splits)
  obtain c ds' where ds: "ds = c # ds'" using d(2) by (cases ds) auto
  show ?thesis
  proof (cases "ds' = []")
    case True
    have t: "exponential_repr conv ds e xs = [c] @ ?ex" using ds True by (simp add: exponential_repr_def)
    show ?thesis unfolding t
      by (rule denotesI[OF decimal_number.integer[OF s _ _ ex]]) (use d ds True in simp_all)
  next
    case False
    have t: "exponential_repr conv ds e xs = [c] @ ch CHR ''.'' # ds' @ ?ex" using ds False by (simp add: exponential_repr_def)
    show ?thesis unfolding t
      by (rule denotesI[OF decimal_number.fraction[OF s _ _ _ _ ex]]) (use d ds in simp_all)
  qed
qed

section \<open>The decimal point of a double\<close>

lemma point_bounds:
  fixes E :: int and lo hi :: real
  assumes E: "10 ^ (len - 1) \<le> E" "E < 10 ^ len" "1 \<le> len"
    and b: "lo \<le> of_int E * 10 powi (p - int len)" "of_int E * 10 powi (p - int len) \<le> hi" and lo: "1 / 2 ^ 1076 \<le> lo" and hi: "hi \<le> 2 ^ 1024"
  shows "\<bar>p\<bar> \<le> 400"
proof -
  have w: "(10::real) powi p = 10 ^ len * 10 powi (p - int len)" "(10::real) powi (p - 1) = 10 ^ (len - 1) * 10 powi (p - int len)"
  proof -
    have "p = int len + (p - int len)" by simp
    then show "(10::real) powi p = 10 ^ len * 10 powi (p - int len)" by (metis power_int_add power_int_of_nat zero_neq_numeral)
    have "p - 1 = int (len - 1) + (p - int len)" using E(3) by (simp add: of_nat_diff)
    then show "(10::real) powi (p - 1) = 10 ^ (len - 1) * 10 powi (p - int len)" by (metis power_int_add power_int_of_nat zero_neq_numeral)
  qed
  have "real_of_int E \<le> of_int (10 ^ len)" "real_of_int (10 ^ (len - 1)) \<le> of_int E" using E by (simp_all only: of_int_le_iff)
  then have "real_of_int E * 10 powi (p - int len) \<le> 10 powi p" "10 powi (p - 1) \<le> real_of_int E * 10 powi (p - int len)"
    unfolding w by (intro mult_right_mono; simp)+
  then have A: "1 / 2 ^ 1076 \<le> (10::real) powi p" and B: "(10::real) powi (p - 1) \<le> 2 ^ 1024" using b lo hi by linarith+
  have "p \<le> 400"
  proof (rule ccontr)
    assume "\<not> p \<le> 400"
    then have "(10::real) powi 400 \<le> 10 powi (p - 1)" by (intro power_int_increasing) simp_all
    moreover have "(2::real) ^ 1024 < 10 powi 400" by simp
    ultimately show False using B by linarith
  qed
  moreover have "- 400 \<le> p"
  proof (rule ccontr)
    assume "\<not> - 400 \<le> p"
    then have "(10::real) powi p \<le> 10 powi (- 400)" by (intro power_int_increasing) simp_all
    moreover have "(10::real) powi (- 400) < 1 / 2 ^ 1076" by (simp add: power_int_minus)
    ultimately show False using A by linarith
  qed
  ultimately show ?thesis by simp
qed

lemma double_shortest_point:
  assumes v: "finite_double v" "0 < uint v" and s: "double_shortest v cs p"
  shows "\<bar>p\<bar> \<le> 400"
proof -
  note F = finite_double_fields[OF v(1)]
  define f e c where "f = uint (DoubleSignificand v)" and "e = DoubleExponent v" and "c = DoubleLowerBoundaryIsCloser v"
  note S = s[unfolded double_shortest_def shortest_decimal_def, folded f_def e_def c_def]
  have f: "1 \<le> f" "f < 2 ^ 53" using DoubleSignificand_pos[OF v] F by (simp_all add: f_def)
  have e: "- 1074 \<le> e" "e \<le> 971" using F by (simp_all add: e_def)
  have fr: "1 \<le> real_of_int f" "real_of_int f \<le> 2 ^ 53 - 1"
  proof -
    show "1 \<le> real_of_int f" using f(1) by simp
    have "f \<le> 2 ^ 53 - 1" using f(2) by simp
    then have "real_of_int f \<le> of_int (2 ^ 53 - 1)" by (simp only: of_int_le_iff)
    then show "real_of_int f \<le> 2 ^ 53 - 1" by simp
  qed
  have lo: "1 / 2 ^ 1076 \<le> lo_bound c f e"
  proof -
    have "1 / 2 ^ 1076 \<le> (1 / 2) * (2::real) powi (- 1074)" by (simp add: power_int_minus)
    also have "\<dots> \<le> (of_int f - (if c then 1 / 4 else 1 / 2)) * 2 powi e"
      by (intro mult_mono power_int_increasing) (use fr e in \<open>auto\<close>)
    finally show ?thesis by (simp add: lo_bound_def)
  qed
  have hi: "hi_bound f e \<le> 2 ^ 1024"
  proof -
    have "(of_int f + 1 / 2) * (2::real) powi e \<le> 2 ^ 53 * 2 powi 971"
      by (intro mult_mono power_int_increasing) (use fr e in auto)
    also have "\<dots> = 2 ^ 1024" by simp
    finally show ?thesis by (simp add: hi_bound_def)
  qed
  have b: "lo_bound c f e \<le> of_int (dec_val cs) * 10 powi (p - int (length cs))" "of_int (dec_val cs) * 10 powi (p - int (length cs)) \<le> hi_bound f e"
    using S by (auto simp: between_def split: if_splits)
  show ?thesis by (rule point_bounds[OF _ _ _ b lo hi]) (use S in blast)+
qed


section \<open>ToShortest\<close>

lemma ok_DoubleToAscii_digits:
  assumes v: "finite_double v" and buf: "18 \<le> length buf"
  shows "ok (DoubleToAscii (with_sign neg v) SHORTEST req buf pt) (\<lambda>(buf', sg, len, p). sg = neg \<and>
    (\<exists>k. len = int k \<and> 1 \<le> k \<and> k \<le> 17 \<and> k \<le> length buf' \<and> digits (take k buf') \<and> \<bar>p\<bar> \<le> 400 \<and>
       decimal_double (dec_val (take k buf')) (p - int k) = v))"
proof (cases "0 < uint v")
  case True
  show ?thesis
  proof (rule ok_DoubleToAscii_shortest[OF v True buf], goal_cases)
    case (1 buf' n p)
    have l: "length (take n buf') = n" using 1 buf by simp
    note S = 1(5)[unfolded double_shortest_def shortest_decimal_def l]
    have m: "0 \<le> dec_val (take n buf')" using dec_val_bounds S by blast
    show ?case unfolding prod.case
      by (intro conjI refl exI[of _ n]) (use 1 buf S double_shortest_point[OF v True 1(5)] reads_back_iff[OF v True m, of "p - int n"] in simp_all)
  qed
next
  case False
  moreover have "0 \<le> uint v" by simp
  ultimately have "uint v = 0" by linarith
  then have v0: "v = 0" by (simp add: word_uint_eq_iff)
  let ?b = "buf[0 := ch CHR ''0'', 1 := 0]"
  have t: "take 1 ?b = [ch CHR ''0'']" using buf by (cases buf) simp_all
  have dv: "dec_val [ch CHR ''0''] = 0" by (rule dec_val_all_zero) simp
  have e: "DoubleToAscii (with_sign neg v) SHORTEST req buf pt = Some (?b, neg, 1, 1)"
    unfolding v0 by (rule ok_DoubleToAscii_zero) (use buf in simp_all)
  show ?thesis unfolding e ok_Some prod.case
    by (intro conjI refl exI[of _ 1]) (use buf t dv dec_zero_digit decimal_double_0 v0 in simp_all)
qed

lemma double_eq_with_sign: "finite_double v \<Longrightarrow> double_eq (with_sign neg v) 0 \<longleftrightarrow> v = 0"
proof -
  assume v: "finite_double v"
  then have lt: "uint v < 0x7FF0000000000000" by (simp add: finite_double_def)
  note u = uint_double_neg[OF v]
  have m: "mag64 (with_sign neg v) = uint v" using u lt by (simp add: mag64_def with_sign_def)
  have "\<not> double_is_nan (with_sign neg v)" "\<not> double_is_nan 0" using lt m by (simp_all add: double_is_nan_mag mag64_def)
  moreover have "double_rank (with_sign neg v) = (if neg then - uint v else uint v)" using lt u by (simp add: double_rank_mag with_sign_def)
  moreover have "double_rank 0 = 0" by (simp add: double_rank_mag)
  ultimately show ?thesis by (simp add: double_eq_def word_uint_eq_iff)
qed

definition printed_sign :: "to_string_converter \<Rightarrow> bool \<Rightarrow> double \<Rightarrow> bool" where
  "printed_sign conv neg v \<longleftrightarrow> neg \<and> (v \<noteq> 0 \<or> \<not> has_flag conv UNIQUE_ZERO)"

lemma ok_add_sign:
  assumes v: "finite_double v" and b: "built sb s n" "length s < n"
    and Q: "\<And>sb' sg. sign_text sg (printed_sign conv neg v) \<Longrightarrow> length sg \<le> 1 \<Longrightarrow> built sb' (s @ sg) n \<Longrightarrow> Q sb'"
  shows "ok (add_sign conv neg (with_sign neg v) sb) Q"
proof (cases "printed_sign conv neg v")
  case True
  have "ok (AddCharacter (ch CHR ''-'') sb) Q"
    by (rule ok_AddCharacter[OF b(1) char_nonzero(3) b(2)]) (rule Q, use True in \<open>simp_all add: minus_sign\<close>)
  then show ?thesis using True double_eq_with_sign[OF v] by (simp add: add_sign_def printed_sign_def has_flag_def)
next
  case False
  then have "Q sb" using Q[of "[]" sb] b by (simp add: no_sign)
  then show ?thesis using False double_eq_with_sign[OF v] by (auto simp: add_sign_def printed_sign_def has_flag_def)
qed

lemma decimal_repr_length:
  assumes "length ds \<le> 17" "ds \<noteq> []" "low \<le> p - 1" "p - 1 < high"
  shows "length (decimal_repr conv ds p (max 0 (int (length ds) - p))) \<le> 20 + nat (- low) + nat high"
proof -
  have t: "length (trailing_chars conv) \<le> 2" by (simp add: trailing_chars_def)
  have k: "0 < int (length ds)" using assms(2) by simp
  consider "p \<le> 0" | "0 < p" "int (length ds) \<le> p" | "0 < p" "p < int (length ds)" by linarith
  then show ?thesis
  proof cases
    case 1
    then have "0 < int (length ds) - p" using k by linarith
    then show ?thesis using 1 assms by (simp add: decimal_repr_def)
  next
    case 2
    then show ?thesis using assms t by (simp add: decimal_repr_def)
  next
    case 3
    then show ?thesis using assms by (simp add: decimal_repr_def)
  qed
qed

lemma ok_ToShortest:
  assumes v: "finite_double v" and b: "built sb s n"
    and c: "exponent_character conv = ch CHR ''e'' \<or> exponent_character conv = ch CHR ''E''"
      "has_flag conv EMIT_TRAILING_DECIMAL_POINT \<or> \<not> has_flag conv EMIT_TRAILING_ZERO_AFTER_POINT"
    and room: "length s + 30 + nat (- decimal_in_shortest_low conv) + nat (decimal_in_shortest_high conv) \<le> n"
    and Q: "\<And>sb' t ds E. decimal_number t (printed_sign conv neg v) ds E \<Longrightarrow> decimal_double (dec_val ds) E = v \<Longrightarrow> built sb' (s @ t) n \<Longrightarrow>
       length (s @ t) < n \<Longrightarrow> Q (True, sb')"
  shows "ok (ToShortest conv (with_sign neg v) sb) Q"
proof -
  let ?neg = "printed_sign conv neg v"
  let ?lo = "decimal_in_shortest_low conv" and ?hi = "decimal_in_shortest_high conv"
  have c0: "exponent_character conv \<noteq> 0" using c(1) by (auto simp: ch_def of_char_def)
  have sp: "\<not> DoubleIsSpecial (with_sign neg v)" by (rule with_sign_fields[OF v])
  have fin: "Q (True, sb')" if t: "denotes (sg @ t) ?neg (of_int (dec_val ds) * 10 powi (p - int (length ds)))" and d: "digits ds"
      and dd: "decimal_double (dec_val ds) (p - int (length ds)) = v" and b': "built sb' ((s @ sg) @ t) n" "length ((s @ sg) @ t) < n" for sb' sg t ds p
  proof -
    obtain es E where e: "decimal_number (sg @ t) ?neg es E" "of_int (dec_val es) * 10 powi E = (of_int (dec_val ds) * 10 powi (p - int (length ds)) :: real)"
      using t by (auto simp: denotes_def)
    have "digits es" using e(1) by cases simp_all
    then have "decimal_double (dec_val es) E = decimal_double (dec_val ds) (p - int (length ds))"
      by (intro decimal_double_cong e(2)) (use dec_val_bounds d in blast)+
    then show ?thesis by (intro Q[OF e(1)]) (use dd b' in simp_all)
  qed
  have print: "ok (if ?lo \<le> p - 1 \<and> p - 1 < ?hi then CreateDecimalRepresentation conv rep (int k) p (max 0 (int k - p)) t
          else CreateExponentialRepresentation conv rep (int k) (p - 1) t) (\<lambda>sb. Q (True, sb))"
    if k: "1 \<le> k" "k \<le> 17" "k \<le> length rep" "digits (take k rep)" and p: "\<bar>p\<bar> \<le> 400" and dd: "decimal_double (dec_val (take k rep)) (p - int k) = v"
      and sg: "sign_text sg ?neg" "length sg \<le> 1" and t: "built t (s @ sg) n" for rep k p sg t
  proof -
    let ?ds = "take k rep"
    have K: "length ?ds = k" "?ds \<noteq> []" using k by auto
    show ?thesis
    proof (cases "?lo \<le> p - 1 \<and> p - 1 < ?hi")
      case True
      let ?r = "decimal_repr conv ?ds p (max 0 (int k - p))"
      have l: "length ?r \<le> 20 + nat (- ?lo) + nat ?hi"
        using decimal_repr_length[of ?ds ?lo p ?hi conv] K k(2) True by simp
      have a: "enough_places k p (max 0 (int k - p))" by (auto simp: enough_places_def)
      have N: "denotes (sg @ ?r) ?neg (of_int (dec_val ?ds) * 10 powi (p - int (length ?ds)))"
        using decimal_repr_number[OF sg(1) k(4) K(2) p _ c(2)] K k(2) by simp
      have L: "length (s @ sg) + length ?r + 2 < n" using l room sg(2) by simp
      show ?thesis unfolding if_P[OF True]
        by (rule ok_CreateDecimalRepresentation[OF t k(3,4) a L]) (rule fin[OF N k(4)], use dd K L in simp_all)
    next
      case False
      have e: "\<bar>p - 1\<bar> < 10000" using p by simp
      have L: "length (s @ sg) + k + 10 < n" using room sg(2) k(2) by simp
      show ?thesis unfolding if_not_P[OF False]
      proof (rule ok_CreateExponentialRepresentation[OF t _ k(3,4) e c0 L])
        show "0 < k" using k by simp
        fix sb' xs
        assume x: "digits xs" "xs \<noteq> []" "dec_val xs = \<bar>p - 1\<bar>" and x5: "length xs \<le> 5" and b': "built sb' ((s @ sg) @ exponential_repr conv ?ds (p - 1) xs) n"
        have N: "denotes (sg @ exponential_repr conv ?ds (p - 1) xs) ?neg (of_int (dec_val ?ds) * 10 powi (p - int (length ?ds)))"
          using exponential_repr_number[OF sg(1) k(4) K(2) _ x e c(1)] K k(2) by simp
        show "Q (True, sb')"
          by (rule fin[OF N k(4) _ b']) (use dd K room sg(2) k(2) x5 in \<open>simp_all add: exponential_repr_def\<close>)
      qed
    qed
  qed
  show ?thesis
    unfolding ToShortest_def ToShortestIeeeNumber_def Let_def
    apply (simp only: ok_bind ok_ensure simp_thms if_not_P[OF sp] ok_Some)
    apply (rule ok_mono[OF ok_DoubleToAscii_digits[OF v]])
     apply (simp add: decimal_rep_def)
    apply (simp only: split_paired_all prod.case ok_bind)
    apply (elim conjE exE)
    apply (simp only:)
    apply (rule ok_add_sign[OF v b])
    using room apply simp
    apply (simp only: ok_Some)
    apply (rule print; assumption)
    done
qed

end
