(* ===== verification/Text_Errors.thy ===== *)
theory Text_Errors
  imports Print_Parse
begin

text \<open>Texts that \<open>StringToDouble\<close> rejects, and the values that the printing methods cannot print as numbers.\<close>


section \<open>Texts that are rejected\<close>

definition junk_char :: "u8 \<Rightarrow> bool" where
  "junk_char c \<longleftrightarrow> \<not> is_dec c \<and> c \<notin> set (map ch ''.eExX +-'')"

lemma junk_charD:
  assumes "junk_char c"
  shows "number_stop (c # rest)" "c \<noteq> ch CHR ''e''" "c \<noteq> ch CHR ''E''" "c \<noteq> ch CHR '' ''" "c \<noteq> ch CHR ''+''" "c \<noteq> ch CHR ''-''" "c \<noteq> ch CHR ''.''" "\<not> is_dec c"
  using assms by (auto simp: junk_char_def number_stop_def)

definition not_symbol :: "u8 \<Rightarrow> u8 list option \<Rightarrow> bool" where
  "not_symbol c sy \<longleftrightarrow> (\<forall>cs. sy = Some cs \<longrightarrow> cs \<noteq> [] \<and> hd cs \<noteq> c)"

lemma not_symbolD:
  assumes "not_symbol c sy" "sy = Some cs"
  shows "c_at cs 0 \<noteq> Some c" "c_at cs 0 \<noteq> None"
  using assms by (cases cs; auto simp: not_symbol_def c_at_def rd_def)+

lemma no_number_junk:
  assumes t: "sign_text sg neg" and b: "input = sg @ c # r" and c: "junk_char c"
    and sy: "not_symbol c (s2d_infinity_symbol conv)" "not_symbol c (s2d_nan_symbol conv)"
  shows "StringToDouble conv input = Some (junk_string_value conv, 0)"
proof -
  note C = junk_charD[OF c]
  have a0: "ahead input start_state (sg @ c # r)" unfolding b by (simp add: ahead_def start_state_def)
  obtain c0 r0 where c0: "sg @ c # r = c0 # r0" "c0 \<noteq> ch CHR '' ''"
    using t C(4) by (auto elim!: sign_text.cases simp: ch_def of_char_def)
  have "rd input 0 = Some c0" using ahead_Cons(1)[of input start_state c0 r0] a0 c0 by (simp add: start_state_def)
  note P1 = parse_leading_spaces_none[OF this c0(2), of conv]
  obtain s where s: "parse_sign conv input start_state = Some (Next s)" "ahead input s (c # r)" "held s [] 0" "sign s = neg" "\<not> leading_zero s"
    using parse_sign_scan[OF t a0 C(4-6)] by blast
  have rd: "rd input (current s) = Some c" by (rule ahead_Cons(1)[OF s(2)])
  have P3: "parse_symbol (s2d_infinity_symbol conv) v conv input s = Some (Next s)" for v
    by (rule parse_symbol_other[OF rd]) (use not_symbolD[OF sy(1)] in blast)+
  have P4: "parse_symbol (s2d_nan_symbol conv) v conv input s = Some (Next s)" for v
    by (rule parse_symbol_other[OF rd]) (use not_symbolD[OF sy(2)] in blast)+
  have c0': "c \<noteq> ch CHR ''0''" using C(8) by (auto simp: is_dec_digit digit_of_def)
  have P5: "parse_leading_zero conv True input s = Some (Next s)" using rd c0' by (simp add: parse_leading_zero_def Let_def)
  let ?t = "s\<lparr>octal := leading_zero s \<and> flag conv ALLOW_OCTALS\<rparr>"
  have z: "significant_digits s = 0" "exponent s = 0" using s(3) by (simp_all add: held_def)
  have oct: "?t = s\<lparr>octal := False\<rparr>" using s(5) by simp
  have "integer_digits input ?t = Some (Next ?t)" using rd C(8) by (subst integer_digits.simps) simp
  then have P6: "parse_integer conv input s = Some (Next (s\<lparr>octal := False\<rparr>))" using z oct by (simp add: parse_integer_def)
  have P7: "parse_fraction conv input (s\<lparr>octal := False\<rparr>) = junk conv" using rd C(7) z s(5) by (simp add: parse_fraction_def)
  show ?thesis
    unfolding StringToDouble_def StringToIeee_def P1 and_then.simps s(1) P3 P4 P5 P6 P7 by simp
qed

lemma trailing_junk:
  assumes t: "sign_text sg neg" and b: "input = sg @ is @ (if dot then ch CHR ''.'' # fs else []) @ c # r"
    and d: "digits is" "digits fs" "is @ fs \<noteq> []" "dot \<or> fs = []" and c: "junk_char c" and o: "\<not> flag conv ALLOW_OCTALS"
    and sy: "plain_symbol (s2d_infinity_symbol conv)" "plain_symbol (s2d_nan_symbol conv)"
    and f: "\<not> flag conv ALLOW_TRAILING_JUNK" "\<not> flag conv ALLOW_TRAILING_SPACES"
  shows "StringToDouble conv input = Some (junk_string_value conv, 0)"
proof -
  note C = junk_charD[OF c]
  obtain g q where g: "is @ (if dot then ch CHR ''.'' # fs else []) @ c # r = g # q" "is_dec g \<or> g = ch CHR ''.''"
    using number_head[OF d(1,3,4)] by blast
  obtain s where s: "and_then (and_then (and_then (parse_leading_spaces conv input start_state) (parse_sign conv input))
       (parse_symbol (s2d_infinity_symbol conv) kDoubleInfinity conv input)) (parse_symbol (s2d_nan_symbol conv) kDoubleNaN conv input) = Some (Next s)"
    "ahead input s (g # q)" "held s [] 0" "sign s = neg" "\<not> leading_zero s"
    using start_of_number[OF t b[unfolded g(1)] g(2) sy] by blast
  have M: "ok (and_then (parse_leading_zero conv True input s) (\<lambda>s. and_then (parse_integer conv input s) (parse_fraction conv input)))
      (mantissa_read input (sign s) (is @ fs) (c # r) (length fs))"
    by (rule body_read[OF _ d C(1) s(3,5) o]) (use s(2) g in simp)
  have tail: "case fl of Next t \<Rightarrow> ok (and_then (parse_exponent conv input t) (parse_trailing conv input)) (\<lambda>fl. fl = Return (junk_string_value conv) 0)
    | _ \<Rightarrow> fl = Return (junk_string_value conv) 0" if m: "mantissa_read input (sign s) (is @ fs) (c # r) (length fs) fl" for fl
  proof -
    obtain u where u: "fl = Next u" "ahead input u (c # r)" using m by (auto simp: mantissa_read_def)
    note A = ahead_Cons(1,2)[OF u(2)]
    have "parse_exponent conv input u = Some (Next u)" using A(1) C(2,3) by (simp add: parse_exponent_def Let_def)
    moreover have "parse_trailing conv input u = junk conv" using A(2) f by (simp add: parse_trailing_def Let_def)
    ultimately show ?thesis using u by simp
  qed
  have "ok (and_then (and_then (parse_leading_zero conv True input s) (\<lambda>s. and_then (parse_integer conv input s) (parse_fraction conv input)))
     (\<lambda>s. and_then (parse_exponent conv input s) (parse_trailing conv input))) (\<lambda>fl. fl = Return (junk_string_value conv) 0)"
    by (subst ok_and_then, rule ok_mono[OF M]) (rule tail)
  then have "ok (StringToIeee conv input True) (\<lambda>r. r = (junk_string_value conv, 0))"
    unfolding StringToIeee_def s(1) unfolding and_then.simps and_then_assoc by (subst ok_bind) (elim ok_mono, simp)
  then show ?thesis by (simp add: StringToDouble_def ok_def)
qed

section \<open>Special values\<close>

lemma special_values: "DoubleIsSpecial v \<Longrightarrow> \<not> DoubleIsInfinite v \<Longrightarrow> DoubleIsNan v"
  by (auto simp: DoubleIsSpecial_def DoubleIsInfinite_def DoubleIsNan_def)

lemma infinite_less_0: "DoubleIsInfinite v \<Longrightarrow> double_less v 0 \<longleftrightarrow> DoubleSign v < 0"
proof -
  assume i: "DoubleIsInfinite v"
  then have "DoubleIsSpecial v" by (simp add: DoubleIsInfinite_def DoubleIsSpecial_def)
  then have s: "9218868437227405312 \<le> mag64 v" by (simp add: Double_fields)
  have m: "mag64 v mod 2 ^ 52 = 0" using i unfolding DoubleIsInfinite_def zero_word_iff masks64 by simp
  have l: "mag64 v < 9223372036854775808" by (simp add: mag64_def)
  have "mag64 v = mag64 v div 2 ^ 52 * 2 ^ 52" using m div_mult_mod_eq[of "mag64 v" "2 ^ 52"] by simp
  moreover have "mag64 v div 2 ^ 52 < 2048" using l unfolding not_le[symmetric] by (subst le_zdiv) simp_all
  moreover have "2047 \<le> mag64 v div 2 ^ 52" using s by (subst le_zdiv) simp_all
  ultimately have e: "mag64 v = 9218868437227405312" by simp
  then have "\<not> double_is_nan v" "\<not> double_is_nan 0" by (simp_all add: double_is_nan_mag mag64_def)
  then show ?thesis using e by (simp add: double_less_def double_rank_mag Double_fields split: if_splits)
qed

definition special_symbol :: "to_string_converter \<Rightarrow> double \<Rightarrow> u8 list option" where
  "special_symbol conv v = (if DoubleIsInfinite v then infinity_symbol conv else nan_symbol conv)"

lemma ok_HandleSpecialValues:
  assumes v: "DoubleIsSpecial v" and b: "built sb s n"
    and sy: "\<And>cs. special_symbol conv v = Some cs \<Longrightarrow> 0 \<notin> set cs \<and> length s + length cs + 1 < n"
    and none: "special_symbol conv v = None \<Longrightarrow> Q (False, sb)"
    and some: "\<And>cs sb'. special_symbol conv v = Some cs \<Longrightarrow>
       built sb' (s @ (if DoubleIsInfinite v \<and> DoubleSign v < 0 then [ch CHR ''-''] else []) @ cs) n \<Longrightarrow> Q (True, sb')"
  shows "ok (HandleSpecialValues conv v sb) Q"
proof (cases "special_symbol conv v")
  case None
  then show ?thesis using none special_values[OF v] by (auto simp: HandleSpecialValues_def special_symbol_def)
next
  case (Some cs)
  note S = sy[OF Some]
  let ?sg = "if DoubleIsInfinite v \<and> DoubleSign v < 0 then [ch CHR ''-''] else []"
  have add: "ok (AddString cs t) (\<lambda>sb. Q (True, sb))" if t: "built t (s @ ?sg) n" for t
    by (rule ok_AddString[OF t]) (use S some[OF Some] in auto)
  show ?thesis
  proof (cases "DoubleIsInfinite v")
    case False
    have "ok (AddString cs sb) (\<lambda>sb. Q (True, sb))" by (rule add) (use b False in simp)
    then show ?thesis using Some False special_values[OF v] by (simp add: HandleSpecialValues_def special_symbol_def ok_bind)
  next
    case True
    have "ok (if double_less v 0 then AddCharacter (ch CHR ''-'') sb else Some sb) (\<lambda>t. ok (AddString cs t) (\<lambda>sb. Q (True, sb)))"
    proof (cases "DoubleSign v < 0")
      case s: True
      show ?thesis unfolding if_P[OF s[folded infinite_less_0[OF True]]]
        by (rule ok_AddCharacter[OF b char_nonzero(3)], use S in simp, rule add) (use True s in simp)
    next
      case s: False
      show ?thesis unfolding if_not_P[OF s[folded infinite_less_0[OF True]]] ok_Some by (rule add) (use b s in simp)
    qed
    then show ?thesis using Some True by (simp add: HandleSpecialValues_def special_symbol_def ok_bind)
  qed
qed

end
