(* ===== verification/Text_Correct.thy ===== *)
theory Text_Correct
  imports Text_Errors
begin

text \<open>The properties of reading and printing, and of their composition.\<close>


section \<open>Reading and printing\<close>



text \<open>C1: What ToShortest prints, StringToDouble reads back: for every finite double of either sign and every converter with an e as exponent character, printing into a builder with enough room succeeds, Finalize leaves a C string, and reading this string consumes all of it and returns the double; only the sign of a zero is lost, when UNIQUE_ZERO asks for it.\<close>

theorem ToShortest_StringToDouble_roundtrip:
  assumes "finite_double v" "DoubleToStringConverter fl infs nans e low high lead trail = Some conv" "e = ch CHR ''e'' \<or> e = ch CHR ''E''"
    and "30 + nat (- low) + nat high \<le> length buf"
    and "\<not> flag reader ALLOW_OCTALS" "plain_symbol (s2d_infinity_symbol reader)" "plain_symbol (s2d_nan_symbol reader)"
  shows "\<exists>sb sb'. ToShortest conv (if neg then double_neg v else v) (StringBuilder buf) = Some (True, sb) \<and> Finalize sb = Some sb' \<and>
    (let text = takeWhile (\<lambda>c. c \<noteq> 0) (sb_buffer sb') in
      StringToDouble reader text = Some (if neg \<and> (v \<noteq> 0 \<or> fl AND UNIQUE_ZERO = 0) then double_neg v else v, int (length text)))"
proof -
  have c: "flags conv = fl" "exponent_character conv = e" "decimal_in_shortest_low conv = low" "decimal_in_shortest_high conv = high"
    "fl AND EMIT_TRAILING_DECIMAL_POINT \<noteq> 0 \<or> \<not> (fl AND EMIT_TRAILING_ZERO_AFTER_POINT \<noteq> 0)"
    using assms(2) by (auto simp: DoubleToStringConverter_def ensure_def split: if_splits)
  have fp: "has_flag conv EMIT_TRAILING_DECIMAL_POINT \<or> \<not> has_flag conv EMIT_TRAILING_ZERO_AFTER_POINT" using c by (simp add: has_flag_def)
  have ec: "exponent_character conv = ch CHR ''e'' \<or> exponent_character conv = ch CHR ''E''" using c assms(3) by simp
  have sg: "printed_sign conv neg v = (neg \<and> (v \<noteq> 0 \<or> fl AND UNIQUE_ZERO = 0))" using c by (simp add: printed_sign_def has_flag_def)
  have "ok (ToShortest conv (with_sign neg v) (StringBuilder buf)) (\<lambda>(res, sb). res \<and> ok (Finalize sb)
      (\<lambda>sb'. let text = takeWhile (\<lambda>c. c \<noteq> 0) (sb_buffer sb') in
        StringToDouble reader text = Some (if printed_sign conv neg v then double_neg v else v, int (length text))))"
  proof (rule ok_ToShortest[OF assms(1) built_start ec fp])
    show "length [] + 30 + nat (- decimal_in_shortest_low conv) + nat (decimal_in_shortest_high conv) \<le> length buf" using assms(4) c by simp
    fix sb t ds E
    assume t: "decimal_number t (printed_sign conv neg v) ds E" "decimal_double (dec_val ds) E = v"
      and b: "built sb ([] @ t) (length buf)" "length ([] @ t) < length buf"
    note R = StringToDouble_decimal(2)[OF t(1) assms(5-7), unfolded t(2)]
    show "case (True, sb) of (res, sb) \<Rightarrow> res \<and> ok (Finalize sb) (\<lambda>sb'. let text = takeWhile (\<lambda>c. c \<noteq> 0) (sb_buffer sb') in
        StringToDouble reader text = Some (if printed_sign conv neg v then double_neg v else v, int (length text)))"
      unfolding prod.case by (intro conjI TrueI ok_Finalize[OF b]) (use R in simp)
  qed
  then show ?thesis unfolding sg with_sign_def by (auto simp: ok_def)
qed

lemma ToShortest_StringToDouble_roundtrip_witness:
  "\<exists>conv sb sb'. EcmaScriptConverter = Some conv \<and>
    ToShortest conv (if True then double_neg 0x3FB999999999999A else 0x3FB999999999999A) (StringBuilder (replicate 128 0)) = Some (True, sb) \<and> Finalize sb = Some sb' \<and>
    (let text = takeWhile (\<lambda>c. c \<noteq> 0) (sb_buffer sb') in
      StringToDouble \<lparr>s2d_flags = 0, empty_string_value = 0, junk_string_value = 0, s2d_infinity_symbol = None, s2d_nan_symbol = None\<rparr> text =
        Some (if True \<and> ((0x3FB999999999999A :: u64) \<noteq> 0 \<or> (UNIQUE_ZERO OR EMIT_POSITIVE_EXPONENT_SIGN) AND UNIQUE_ZERO = 0)
          then double_neg 0x3FB999999999999A else 0x3FB999999999999A, int (length text)))"
proof -
  have f: "finite_double 0x3FB999999999999A" by (simp add: finite_double_def)
  obtain conv where c: "EcmaScriptConverter = Some conv"
    by (simp add: EcmaScriptConverter_def DoubleToStringConverter_def ensure_def UNIQUE_ZERO_def EMIT_POSITIVE_EXPONENT_SIGN_def
        EMIT_TRAILING_DECIMAL_POINT_def EMIT_TRAILING_ZERO_AFTER_POINT_def)
  let ?r = "\<lparr>s2d_flags = 0, empty_string_value = 0, junk_string_value = 0, s2d_infinity_symbol = None, s2d_nan_symbol = None\<rparr>"
  have r: "\<not> flag ?r ALLOW_OCTALS" "plain_symbol (s2d_infinity_symbol ?r)" "plain_symbol (s2d_nan_symbol ?r)" by (simp_all add: flag_def plain_symbol_def)
  have l: "30 + nat (- (-6)) + nat 21 \<le> length (replicate 128 (0 :: u8))" by simp
  from ToShortest_StringToDouble_roundtrip[OF f c[unfolded EcmaScriptConverter_def] disjI1[OF refl] l r, of True] c show ?thesis by blast
qed


section \<open>Errors\<close>





section \<open>The string builder\<close>



end
