(* ===== verification/Radix_Number.thy ===== *)
theory Radix_Number
  imports Parse_Decimal
begin

text \<open>Numbers in a power-of-two radix, as \<open>RadixStringToIeee\<close> reads them: the digit loop, the rounding of a number with more bits than a significand, the double; and hexadecimal numbers in \<open>StringToDouble\<close>.\<close>


section \<open>Digits of a radix\<close>

text \<open>The value of a digit, in any radix up to 36.\<close>

definition hex_digit :: "u8 \<Rightarrow> int" where
  "hex_digit c = (if 97 \<le> uint c then uint c - 87 else if 65 \<le> uint c then uint c - 55 else uint c - 48)"

definition radix_text :: "nat \<Rightarrow> u8 list \<Rightarrow> bool" where
  "radix_text j cs \<longleftrightarrow> (\<forall>c\<in>set cs. isDigit c (2 ^ j))"

definition text_val :: "nat \<Rightarrow> u8 list \<Rightarrow> int" where
  "text_val j cs = radix_val (2 ^ j) (map hex_digit cs)"

lemma ch_codes: "uint (ch CHR ''9'') = 57" "uint (ch CHR ''a'') = 97" "uint (ch CHR ''A'') = 65"
  by (simp_all add: ch_def of_char_def)

lemma radix_digit_iff:
  assumes "j = 3 \<or> j = 4"
  shows "radix_digit c (2 ^ j) \<noteq> None \<longleftrightarrow> isDigit c (2 ^ j)"
  using assms by (auto simp: radix_digit_def isDigit_def IsDecimalDigitForRadix_def IsCharacterDigitForRadix_def word_le_def ch_codes Let_def)

lemma radix_digit_digit:
  assumes "j = 3 \<or> j = 4" "isDigit c (2 ^ j)"
  shows "radix_digit c (2 ^ j) = Some (hex_digit c)" "0 \<le> hex_digit c" "hex_digit c < 2 ^ j" "hex_digit c = 0 \<longleftrightarrow> c = ch CHR ''0''"
proof -
  show "radix_digit c (2 ^ j) = Some (hex_digit c)"
    using assms by (auto simp: radix_digit_def isDigit_def IsDecimalDigitForRadix_def IsCharacterDigitForRadix_def word_le_def ch_codes Let_def hex_digit_def)
  show "0 \<le> hex_digit c" "hex_digit c < 2 ^ j" "hex_digit c = 0 \<longleftrightarrow> c = ch CHR ''0''"
    using assms by (auto simp: isDigit_def ch_codes Let_def hex_digit_def word_uint_eq_iff)
qed

lemma text_val_simps [simp]: "text_val j [] = 0" "text_val j (c # cs) = hex_digit c * (2 ^ j) ^ length cs + text_val j cs"
  using radix_val_append[of "2 ^ j" "[hex_digit c]" "map hex_digit cs"] radix_val_snoc[of "2 ^ j" "[]" "hex_digit c"]
  by (simp_all add: text_val_def)

lemma text_val_bounds: "j = 3 \<or> j = 4 \<Longrightarrow> radix_text j cs \<Longrightarrow> 0 \<le> text_val j cs \<and> text_val j cs < (2 ^ j) ^ length cs"
  unfolding text_val_def using radix_val_bounds[of "map hex_digit cs" "2 ^ j"] radix_digit_digit[of j] by (auto simp: radix_text_def)

lemma text_val_zero:
  assumes "j = 3 \<or> j = 4" "radix_text j cs"
  shows "text_val j cs = 0 \<longleftrightarrow> (\<forall>c\<in>set cs. c = ch CHR ''0'')"
  using assms(2)
proof (induction cs)
  case (Cons c cs)
  have c: "isDigit c (2 ^ j)" "radix_text j cs" using Cons(2) by (simp_all add: radix_text_def)
  note D = radix_digit_digit[OF assms(1) c(1)]
  have b: "0 \<le> text_val j cs" using text_val_bounds[OF assms(1) c(2)] by simp
  have "0 \<le> hex_digit c * (2 ^ j) ^ length cs" using D by simp
  then have "text_val j (c # cs) = 0 \<longleftrightarrow> hex_digit c * (2 ^ j) ^ length cs = 0 \<and> text_val j cs = 0" using b by (simp only: text_val_simps) linarith
  then show ?case using D(4) Cons(1)[OF c(2)] by simp
qed simp

section \<open>Where the scan stands\<close>

text \<open>The input up to \<open>stop\<close>, seen from a position.\<close>

definition seen :: "u8 list \<Rightarrow> int \<Rightarrow> int \<Rightarrow> u8 list \<Rightarrow> bool" where
  "seen str stop p rest \<longleftrightarrow> 0 \<le> p \<and> p \<le> stop \<and> stop \<le> int (length str) \<and> drop (nat p) (take (nat stop) str) = rest"

lemma seen_pos: "seen str stop p rest \<Longrightarrow> p = stop - int (length rest)"
  by (auto simp: seen_def)

lemma seen_Cons:
  assumes "seen str stop p (c # rest)"
  shows "rd str p = Some c" "seen str stop (p + 1) rest" "p \<noteq> stop" "p + 1 = stop \<longleftrightarrow> rest = []"
proof -
  have p: "0 \<le> p" "stop \<le> int (length str)" and d: "drop (nat p) (take (nat stop) str) = c # rest" using assms by (auto simp: seen_def)
  have ps: "p = stop - int (length rest) - 1" using seen_pos[OF assms] by simp
  show "p \<noteq> stop" "p + 1 = stop \<longleftrightarrow> rest = []" using ps by auto
  have lt: "nat p < length (take (nat stop) str)" using d by (metis drop_eq_Nil linorder_not_less list.discI)
  have "c = take (nat stop) str ! nat p" using d lt by (metis Cons_nth_drop_Suc list.inject)
  then have "c = str ! nat p" "nat p < length str" using lt by simp_all
  then show "rd str p = Some c" using p by (simp add: rd_def)
  have "drop (Suc (nat p)) (take (nat stop) str) = rest" using d lt by (metis Cons_nth_drop_Suc list.inject)
  moreover have "nat (p + 1) = Suc (nat p)" "p + 1 \<le> stop" using p ps by simp_all
  ultimately show "seen str stop (p + 1) rest" using p unfolding seen_def by simp
qed

lemma seen_Nil: "seen str stop p [] \<Longrightarrow> p = stop"
  using seen_pos by fastforce

lemma seen_append: "seen str stop p (xs @ ys) \<Longrightarrow> seen str stop (p + int (length xs)) ys"
proof (induction xs arbitrary: p)
  case (Cons c xs)
  have "seen str stop (p + 1 + int (length xs)) ys" using Cons(1) seen_Cons(2)[of str stop p c "xs @ ys"] Cons(2) by simp
  then show ?case by (simp add: ac_simps)
qed simp

lemma AdvanceToNonspace_seen:
  assumes "seen str stop p rest"
  shows "\<exists>q. AdvanceToNonspace str p stop = Some (dropWhile (\<lambda>c. c = ch CHR '' '') rest \<noteq> [], q) \<and>
    seen str stop q (dropWhile (\<lambda>c. c = ch CHR '' '') rest)"
proof -
  have "\<exists>q. while_do (\<lambda>p. if p \<noteq> stop then do { c \<leftarrow> rd str p; Some (\<not> (c \<noteq> ch CHR '' '')) } else Some False) (\<lambda>p. Some (p + 1)) p = Some q \<and>
      seen str stop q (dropWhile (\<lambda>c. c = ch CHR '' '') rest)"
    using assms
  proof (induction rest arbitrary: p)
    case Nil
    then show ?case using seen_Nil[OF Nil] by (subst while_do.simps) simp
  next
    case (Cons c rest)
    note S = seen_Cons[OF Cons(2)]
    show ?case
    proof (cases "c = ch CHR '' ''")
      case True
      then show ?thesis using Cons(1)[OF S(2)] S(1,3) by (subst while_do.simps) simp
    next
      case False
      then show ?thesis using Cons(2) S(1,3) by (subst while_do.simps) simp
    qed
  qed
  then obtain q where q: "while_do (\<lambda>p. if p \<noteq> stop then do { c \<leftarrow> rd str p; Some (\<not> (c \<noteq> ch CHR '' '')) } else Some False) (\<lambda>p. Some (p + 1)) p = Some q"
      "seen str stop q (dropWhile (\<lambda>c. c = ch CHR '' '') rest)" by blast
  have "q \<noteq> stop \<longleftrightarrow> dropWhile (\<lambda>c. c = ch CHR '' '') rest \<noteq> []" using seen_pos[OF q(2)] by auto
  then show ?thesis using q by (simp add: AdvanceToNonspace_def)
qed


section \<open>More bits than a significand\<close>

text \<open>A significand and exponent that round the value to 53 bits, half to even.\<close>

definition rounded53 :: "int \<Rightarrow> int \<Rightarrow> int \<Rightarrow> bool" where
  "rounded53 V m e \<longleftrightarrow> V < 2 ^ 53 \<and> m = V \<and> e = 0 \<or>
     (\<exists>k. 1 \<le> k \<and> 2 ^ 52 * 2 ^ k \<le> V \<and> V < 2 ^ 53 * 2 ^ k \<and>
        (if round_even V (2 ^ k) = 2 ^ 53 then m = 2 ^ 52 \<and> e = int k + 1 else m = round_even V (2 ^ k) \<and> e = int k))"

lemma ok_overflow_bits:
  assumes "1 \<le> ov" "ov < 16"
    and Q: "\<And>b x. 1 \<le> b \<Longrightarrow> b \<le> 4 \<Longrightarrow> 2 ^ (b - 1) \<le> ov \<Longrightarrow> ov < 2 ^ b \<Longrightarrow> Q (int b, x)"
  shows "ok (while_do (\<lambda>(n, overflow). Some (overflow > (1::int))) (\<lambda>(n, overflow). Some (n + 1, drop_bit 1 overflow)) (1 :: int, ov)) Q"
proof (rule ok_while_do[where P = "\<lambda>(n, x). \<exists>i. n = int i + 1 \<and> x = ov div 2 ^ i \<and> 1 \<le> x" and m = "\<lambda>(n, x). nat x"], goal_cases)
  case 1
  show ?case using assms(1) by (auto intro!: exI[of _ 0])
next
  case (2 t)
  then obtain n x i where t: "t = (n, x)" "n = int i + 1" "x = ov div 2 ^ i" "1 \<le> x" by (cases t) auto
  show ?case
  proof (cases "1 < x")
    case True
    have "drop_bit 1 x = ov div 2 ^ Suc i" using t(3) by (simp add: drop_bit_eq_div zdiv_zmult2_eq[symmetric] mult.commute)
    moreover have "drop_bit 1 x = x div 2" by (simp add: drop_bit_eq_div)
    ultimately show ?thesis using True t(1,2) by (auto intro!: exI[of _ "Suc i"])
  next
    case False
    then have d: "ov div 2 ^ i = 1" using t(3,4) by simp
    have "ov = ov div 2 ^ i * 2 ^ i + ov mod 2 ^ i" by (rule div_mult_mod_eq[symmetric])
    moreover have "0 \<le> ov mod 2 ^ i" "ov mod 2 ^ i < 2 ^ i" by simp_all
    ultimately have "2 ^ i \<le> ov" "ov < 2 * 2 ^ i" unfolding d by linarith+
    then have b: "2 ^ i \<le> ov" "ov < 2 ^ (i + 1)" by simp_all
    have "i < 4"
    proof (rule ccontr)
      assume "\<not> i < 4"
      then have "(2::int) ^ 4 \<le> 2 ^ i" by (intro power_increasing) auto
      then show False using b(1) assms(2) by simp
    qed
    then have "Q (int (i + 1), x)" using b by (intro Q) auto
    then show ?thesis using False t by (simp add: add.commute)
  qed
qed

lemma dropped_bits:
  assumes "b \<le> 31" shows "c_int (word_of_int N) AND (push_bit b 1 - 1) = N mod 2 ^ b"
proof -
  have m: "push_bit b 1 - 1 = (mask b :: int)" by (simp add: mask_eq_exp_minus_1 push_bit_eq_mult)
  have "take_bit b (c_int (word_of_int N)) = take_bit b (take_bit 32 (take_bit 64 N))"
    using assms by (simp add: c_int_def sint_uint unsigned_ucast_eq uint_word_of_int_eq take_bit_signed_take_bit)
  also have "\<dots> = N mod 2 ^ b" using assms by (simp add: take_bit_take_bit take_bit_eq_mod[symmetric] min_def)
  finally show ?thesis unfolding m by (simp add: take_bit_eq_mask)
qed

lemma skip_digits:
  assumes "seen str stop p (c # cs @ post)" "radix_text j cs" "post = [] \<or> \<not> isDigit (hd post) (2 ^ j)"
  shows "while_do (\<lambda>(current, exponent, zero_tail, break). Some (\<not> break))
       (\<lambda>(current, exponent, zero_tail, break). do {
          let current = current + 1;
          if current = stop then Some (current, exponent, zero_tail, True)
          else do {
            c \<leftarrow> rd str current;
            if \<not> isDigit c (2 ^ j) then Some (current, exponent, zero_tail, True)
            else Some (current, exponent + int j, zero_tail \<and> c = ch CHR ''0'', False) } })
       (p, e, z, False) = Some (stop - int (length post), e + int j * int (length cs), z \<and> (\<forall>c\<in>set cs. c = ch CHR ''0''), True)"
    (is "while_do ?b ?c _ = _")
  using assms
proof (induction cs arbitrary: c p e z)
  case Nil
  note S = seen_Cons[of str stop p c "post", OF Nil(1)[unfolded append_Nil]]
  have stop: "while_do ?b ?c (x, e, z, True) = Some (x, e, z, True)" for x by (subst while_do.simps) simp
  show ?case
  proof (cases post)
    case Nil
    then have "p + 1 = stop" using S(4) by simp
    then show ?thesis using Nil stop by (subst while_do.simps) simp
  next
    case (Cons a as)
    note T = seen_Cons[of str stop "p + 1" a as, OF S(2)[unfolded Cons]]
    have "p + 1 = stop - int (length post)" using seen_pos[OF S(2)] by simp
    then show ?thesis using T(1,3) Nil(3) Cons stop by (subst while_do.simps) simp
  qed
next
  case (Cons a cs)
  note S = seen_Cons[of str stop p c "a # cs @ post", OF Cons(2)[unfolded append_Cons]]
  note T = seen_Cons[OF S(2)]
  have d: "isDigit a (2 ^ j)" "radix_text j cs" using Cons(3) by (simp_all add: radix_text_def)
  have "while_do ?b ?c (p, e, z, False) = while_do ?b ?c (p + 1, e + int j, z \<and> a = ch CHR ''0'', False)"
    using T(1,3) d(1) by (subst while_do.simps) simp
  also have "\<dots> = Some (stop - int (length post), e + int j + int j * int (length cs), (z \<and> a = ch CHR ''0'') \<and> (\<forall>c\<in>set cs. c = ch CHR ''0''), True)"
    by (rule Cons(1)[OF S(2) d(2) Cons(4)])
  finally show ?case by (simp add: algebra_simps)
qed

lemma round_even_split:
  fixes N W t :: int
  assumes b: "1 \<le> b" and t: "0 < t" and W: "0 \<le> W" "W < t"
  defines "n \<equiv> N div 2 ^ b" and "D \<equiv> N mod 2 ^ b"
  shows "round_even (N * t + W) (2 ^ b * t) =
    (if D > 2 ^ (b - 1) then n + 1 else if D = 2 ^ (b - 1) then (if odd n \<or> W \<noteq> 0 then n + 1 else n) else n)"
proof -
  define h :: int where "h = 2 ^ (b - 1)"
  have h: "2 ^ b = 2 * h" using b by (cases b) (simp_all add: h_def)
  have hh: "2 ^ (b - Suc 0) = h" by (simp add: h_def)
  have D: "0 \<le> D" "D < 2 ^ b" by (simp_all add: D_def)
  have N: "N = n * 2 ^ b + D" unfolding n_def D_def by (rule div_mult_mod_eq[symmetric])
  have r: "0 \<le> D * t + W" using D W t by simp
  have "(D + 1) * t \<le> 2 ^ b * t" using D t by (intro mult_right_mono) auto
  then have r2: "D * t + W < 2 ^ b * t" using W by (simp add: algebra_simps)
  have e: "N * t + W = (D * t + W) + n * (2 ^ b * t)" by (simp add: N algebra_simps)
  have q: "(N * t + W) div (2 ^ b * t) = n" "(N * t + W) mod (2 ^ b * t) = D * t + W"
    unfolding e using r r2 t by (simp_all add: div_pos_pos_trivial mod_pos_pos_trivial)
  consider "h + 1 \<le> D" | "D = h" | "D + 1 \<le> h" by linarith
  then show ?thesis
  proof cases
    case 1
    then have "(h + 1) * t \<le> D * t" using t by (intro mult_right_mono) auto
    then have "2 ^ b * t < 2 * (D * t + W)" using W t by (simp add: h algebra_simps)
    then show ?thesis using 1 q by (simp add: round_even_def hh Let_def)
  next
    case 2
    then have "2 * (D * t + W) = 2 ^ b * t + 2 * W" by (simp add: h algebra_simps)
    then have "2 ^ b * t < 2 * (D * t + W) \<longleftrightarrow> 0 < W" "2 * (D * t + W) = 2 ^ b * t \<longleftrightarrow> W = 0" by linarith+
    then have "round_even (N * t + W) (2 ^ b * t) = (if 0 < W \<or> W = 0 \<and> odd n then n + 1 else n)"
      unfolding round_even_def Let_def q by simp
    then show ?thesis using 2 W by (auto simp: hh)
  next
    case 3
    then have "(D + 1) * t \<le> h * t" using t by (intro mult_right_mono) auto
    then have "2 * (D * t + W) < 2 ^ b * t" using W by (simp add: h algebra_simps)
    then show ?thesis using 3 q by (simp add: round_even_def hh Let_def)
  qed
qed


section \<open>The digit loop\<close>

abbreviation blanks :: "u8 list \<Rightarrow> bool" where
  "blanks cs \<equiv> dropWhile (\<lambda>c. c = ch CHR '' '') cs = []"

text \<open>What \<open>radix_digits\<close> returns for a number of value \<open>V\<close> that is followed by \<open>post\<close>.\<close>

definition radix_read :: "int \<Rightarrow> bool \<Rightarrow> u8 list \<Rightarrow> int \<Rightarrow> (int \<times> int \<times> int) option \<Rightarrow> bool" where
  "radix_read stop allow post V r \<longleftrightarrow> (if \<not> allow \<and> \<not> blanks post then r = None
     else \<exists>m e. r = Some (if allow then stop - int (length post) else stop, m, e) \<and> rounded53 V m e)"

lemma le_div_int: fixes N :: int assumes "0 < d" shows "a \<le> N div d \<longleftrightarrow> a * d \<le> N"
proof
  assume "a \<le> N div d"
  then have "a * d \<le> N div d * d" using assms by (intro mult_right_mono) auto
  also have "\<dots> \<le> N" using assms by (metis div_mult_mod_eq le_add_same_cancel1 pos_mod_sign)
  finally show "a * d \<le> N" .
next
  assume "a * d \<le> N"
  from zdiv_mono1[OF this assms] show "a \<le> N div d" using assms by simp
qed

lemma div_less_int: fixes N :: int assumes "0 < d" shows "N div d < a \<longleftrightarrow> N < a * d"
  using le_div_int[OF assms, of a N] by linarith

lemma high_bit:
  assumes "0 \<le> m" "m \<le> 2 ^ 53" shows "m AND push_bit 53 1 \<noteq> 0 \<longleftrightarrow> m = (2 ^ 53 :: int)"
proof -
  have "m AND push_bit 53 1 \<noteq> 0 \<longleftrightarrow> odd (m div 2 ^ 53)"
    by (simp add: push_bit_eq_mult and_exp_eq_0_iff_not_bit[of m 53, simplified] bit_iff_odd)
  also have "\<dots> \<longleftrightarrow> m = 2 ^ 53" using assms by (cases "m = 2 ^ 53") auto
  finally show ?thesis .
qed

lemma ok_radix_overflow:
  assumes j: "j = 3 \<or> j = 4" and s: "seen str stop p (c # cs @ post)" "radix_text j cs" "post = [] \<or> \<not> isDigit (hd post) (2 ^ j)"
    and N: "2 ^ 53 \<le> N" "N < 2 ^ 57"
  shows "ok (radix_overflow (int j) 53 str stop allow p N (N div 2 ^ 53))
    (radix_read stop allow post (N * (2 ^ j) ^ length cs + text_val j cs))"
proof -
  have ov: "1 \<le> N div 2 ^ 53" "N div 2 ^ 53 < 16" using N by simp_all
  have post: "seen str stop (stop - int (length post)) post"
    using seen_append[of str stop p "c # cs" post] s(1) seen_pos[OF s(1)] by simp
  obtain q where q: "AdvanceToNonspace str (stop - int (length post)) stop = Some (\<not> blanks post, q)"
      "seen str stop q (dropWhile (\<lambda>c. c = ch CHR '' '') post)"
    using AdvanceToNonspace_seen[OF post] by auto
  have qs: "blanks post \<Longrightarrow> q = stop" using seen_pos[OF q(2)] by simp
  obtain b x where b: "while_do (\<lambda>(n, overflow). Some (overflow > (1::int))) (\<lambda>(n, overflow). Some (n + 1, drop_bit 1 overflow)) (1 :: int, N div 2 ^ 53) = Some (int b, x)"
      "1 \<le> b" "b \<le> 4" "2 ^ (b - 1) \<le> N div 2 ^ 53" "N div 2 ^ 53 < 2 ^ b"
    using ok_overflow_bits[OF ov, of "\<lambda>r. \<exists>b x. r = (int b, x) \<and> 1 \<le> b \<and> b \<le> 4 \<and> 2 ^ (b - 1) \<le> N div 2 ^ 53 \<and> N div 2 ^ 53 < 2 ^ b"]
    by (auto simp: ok_def)
  define k where "k = b + j * length cs"
  define V where "V = N * (2 ^ j) ^ length cs + text_val j cs"
  define R where "R = round_even V (2 ^ k)"
  define t :: int where "t = (2 ^ j) ^ length cs"
  have t: "0 < t" "(2::int) ^ k = 2 ^ b * t" by (simp_all add: t_def k_def power_add power_mult)
  have W: "0 \<le> text_val j cs" "text_val j cs < t" using text_val_bounds[OF j s(2)] by (simp_all add: t_def)
  have zt: "(\<forall>c\<in>set cs. c = ch CHR ''0'') \<longleftrightarrow> text_val j cs = 0" using text_val_zero[OF j s(2)] by simp
  have R: "R = (if N mod 2 ^ b > 2 ^ (b - 1) then N div 2 ^ b + 1 else if N mod 2 ^ b = 2 ^ (b - 1)
      then (if odd (N div 2 ^ b) \<or> text_val j cs \<noteq> 0 then N div 2 ^ b + 1 else N div 2 ^ b) else N div 2 ^ b)"
    unfolding R_def V_def t(2) t_def[symmetric] by (rule round_even_split[OF b(2) t(1) W])
    from b(4,5) have "2 ^ (b - 1) * 2 ^ 53 \<le> N" "N < 2 ^ b * 2 ^ 53"
    using le_div_int[of "2 ^ 53" "2 ^ (b - 1)" N] div_less_int[of "2 ^ 53" N "2 ^ b"] by simp_all
  then have Nb: "2 ^ 52 * 2 ^ b \<le> N" "N < 2 ^ 53 * 2 ^ b" using b(2) by (cases b; simp)+
  then have nb: "2 ^ 52 \<le> N div 2 ^ b" "N div 2 ^ b < 2 ^ 53"
    using le_div_int[of "2 ^ b" "2 ^ 52" N] div_less_int[of "2 ^ b" N "2 ^ 53"] by simp_all
  have number: "(if push_bit (nat (int b - 1)) 1 < N mod 2 ^ b then drop_bit b N + 1
      else if N mod 2 ^ b = push_bit (nat (int b - 1)) 1 then
        (if drop_bit b N AND 1 \<noteq> 0 \<or> \<not> (True \<and> (\<forall>c\<in>set cs. c = ch CHR ''0'')) then drop_bit b N + 1 else drop_bit b N)
      else drop_bit b N) = R"
    unfolding R using b(2) zt by (simp add: push_bit_eq_mult drop_bit_eq_div and_one_eq odd_iff_mod_2_eq_one nat_diff_distrib)
  have d: "c_int (word_of_int N) AND (push_bit b 1 - 1) = N mod 2 ^ b" using dropped_bits b(3) by simp
  have e: "int b + int j * int (length cs) = int k" by (simp add: k_def)
  define m where "m = (if R = 2 ^ 53 then 2 ^ 52 else R)"
  define f where "f = (if R = 2 ^ 53 then int k + 1 else int k)"
  have hb: "R AND push_bit (nat 53) 1 \<noteq> 0 \<longleftrightarrow> R = 2 ^ 53" using high_bit[of R] nb by (auto simp: R)
  have dv: "drop_bit 1 (2 ^ 53) = (2 ^ 52 :: int)" by (simp add: drop_bit_eq_div)
  have carry: "(if R AND push_bit (nat 53) 1 \<noteq> 0 then (int k + 1, drop_bit 1 R) else (int k, R)) = (f, m)"
    unfolding hb m_def f_def using dv by (cases "R = 2 ^ 53") (simp_all only: if_True if_False simp_thms)
  have "radix_overflow (int j) 53 str stop allow p N (N div 2 ^ 53) = do {
      (junk, current) \<leftarrow> (if \<not> allow then AdvanceToNonspace str (stop - int (length post)) stop else Some (False, stop - int (length post)));
      if junk then Some None else Some (Some (current, m, f)) }"
    unfolding radix_overflow_def Let_def nat_int b(1) bind.simps option.simps prod.case d skip_digits[OF s, unfolded Let_def] number e carry by (rule refl)
  moreover have "rounded53 V m f"
  proof -
    have "2 ^ 52 * 2 ^ b * t \<le> N * t" "(N + 1) * t \<le> 2 ^ 53 * 2 ^ b * t" using Nb t(1) by (intro mult_right_mono; simp)+
    moreover have "2 ^ 52 * 2 ^ b * t = 2 ^ 52 * 2 ^ k" "2 ^ 53 * 2 ^ b * t = 2 ^ 53 * 2 ^ k" "V = N * t + text_val j cs" by (simp_all add: t(2) V_def t_def)
    moreover have "(N + 1) * t = N * t + t" by (simp add: algebra_simps)
    ultimately have "2 ^ 52 * 2 ^ k \<le> V" "V < 2 ^ 53 * 2 ^ k" using W by linarith+
    moreover have "1 \<le> k" using b(2) by (simp add: k_def)
    ultimately show ?thesis unfolding rounded53_def m_def f_def R_def by (intro disjI2 exI[of _ k]) simp
  qed
  ultimately show ?thesis
    using q(1) qs unfolding V_def[symmetric] radix_read_def by (cases allow; cases "blanks post") simp_all
qed


lemma c_int_small: "0 \<le> x \<Longrightarrow> x < 16 \<Longrightarrow> c_int (word_of_int x) = x"
  by (simp add: c_int_def sint_uint unsigned_ucast_eq uint_word_of_int_eq take_bit_int_eq_self signed_take_bit_int_eq_self)

lemma ok_radix_digits:
  assumes j: "j = 3 \<or> j = 4" and s: "seen str stop p (cs @ post)" "cs @ post \<noteq> []" "radix_text j cs" "post = [] \<or> \<not> isDigit (hd post) (2 ^ j)"
    and n: "0 \<le> n" "n < 2 ^ 53"
  shows "ok (radix_digits (int j) 53 str stop allow p n) (radix_read stop allow post (n * (2 ^ j) ^ length cs + text_val j cs))"
  using s n
proof (induction cs arbitrary: p n)
  case Nil
  then obtain c r where c: "post = c # r" by (cases post) auto
  have s: "seen str stop p post" using Nil(1) by simp
  have "radix_digit c (2 ^ j) = None" using radix_digit_iff[OF j, of c] Nil(4) c by simp
  moreover have "rd str p = Some c" using seen_Cons(1) s c by blast
  moreover obtain q where q: "AdvanceToNonspace str p stop = Some (\<not> blanks post, q)" "seen str stop q (dropWhile (\<lambda>c. c = ch CHR '' '') post)"
    using AdvanceToNonspace_seen[OF s] by auto
  moreover have "rounded53 n n 0" using Nil by (simp add: rounded53_def)
  ultimately show ?case
    using seen_pos[OF s] seen_pos[OF q(2)] by (subst radix_digits.simps) (auto simp: radix_read_def)
next
  case (Cons c cs)
  note S = seen_Cons[OF Cons(2)[unfolded append_Cons]]
  have c: "isDigit c (2 ^ j)" "radix_text j cs" using Cons(4) by (simp_all add: radix_text_def)
  note D = radix_digit_digit[OF j c(1)]
  define N where "N = n * 2 ^ j + hex_digit c"
  have V: "n * (2 ^ j) ^ length (c # cs) + text_val j (c # cs) = N * (2 ^ j) ^ length cs + text_val j cs" by (simp add: N_def algebra_simps)
  have "n * 2 ^ j \<le> (2 ^ 53 - 1) * 2 ^ j" using Cons(7) by (intro mult_right_mono) auto
  moreover have "(2 ^ 53 - 1) * 2 ^ j + 2 ^ j \<le> (2 ^ 57 :: int)" using j by auto
  moreover have "0 \<le> n * 2 ^ j" using Cons(6) by simp
  ultimately have N: "0 \<le> N" "N < 2 ^ 57" using D(2,3) unfolding N_def by linarith+
  have ov: "c_int (word_of_int (drop_bit 53 N)) = N div 2 ^ 53"
    using N by (simp add: drop_bit_eq_div c_int_small)
  have step: "radix_digits (int j) 53 str stop allow p n = (if N div 2 ^ 53 \<noteq> 0
      then radix_overflow (int j) 53 str stop allow p N (N div 2 ^ 53)
      else if p + 1 \<noteq> stop then radix_digits (int j) 53 str stop allow (p + 1) N else Some (Some (p + 1, N, 0)))"
    using ov D(1) S(1) by (subst radix_digits.simps) (simp add: N_def Let_def)
  show ?case
  proof (cases "N < 2 ^ 53")
    case False
    then have "N div 2 ^ 53 \<noteq> 0" using N by (simp add: zdiv_eq_0_iff)
    then show ?thesis
      unfolding V step using ok_radix_overflow[OF j Cons(2)[unfolded append_Cons] c(2) Cons(5) _ N(2)] False by simp
  next
    case True
    then have z: "N div 2 ^ 53 = 0" using N by simp
    show ?thesis
    proof (cases "cs @ post = []")
      case empty: True
      moreover have "rounded53 N N 0" using True by (simp add: rounded53_def)
      ultimately show ?thesis unfolding V step using z S(4) by (simp add: radix_read_def)
    next
      case False
      then show ?thesis unfolding V step using z S(4) Cons(1)[OF S(2) False c(2) Cons(5) N(1) True] by simp
    qed
  qed
qed

section \<open>The double\<close>

lemma round_double_carry:
  assumes "1 \<le> k" "2 ^ 52 * 2 ^ k \<le> V" "V < 2 ^ 53 * 2 ^ k" and r: "uint r = min INFTY (round_even V (2 ^ k) + int (k + 1074) * 2 ^ 52)"
  shows "round_double V 1 = r"
proof -
  have V: "0 \<le> V" using assms(2) by (smt (verit) zero_le_mult_iff zero_le_power)
  have "nearest 52 INFTY (V * 2 ^ (k + 1074)) (2 ^ k) (min INFTY (round_even V (2 ^ k) + int (k + 1074) * 2 ^ 52))"
    by (rule nearest_round_even) (use assms V in auto)
  then have "rounds_to (V * 2 ^ (k + 1074)) (2 ^ k) r" by (simp add: rounds_to_def r)
  then have "rounds_to (V * 2 ^ 1074) 1 r" by (rule rounds_to_ratio) (simp_all add: power_add)
  then show ?thesis using V by (intro round_double_unique) auto
qed

lemma ok_radix_double:
  assumes m: "rounded53 V m e" "0 < e"
  shows "m < 2 ^ 53" "0 < m" "ok (DiyFpToUint64 (DiyFp (word_of_int m) e)) (\<lambda>d. d = round_double V 1)"
proof -
  obtain k where k: "1 \<le> k" "2 ^ 52 * 2 ^ k \<le> V" "V < 2 ^ 53 * 2 ^ k"
      and me: "if round_even V (2 ^ k) = 2 ^ 53 then m = 2 ^ 52 \<and> e = int k + 1 else m = round_even V (2 ^ k) \<and> e = int k"
    using m unfolding rounded53_def by auto
  have V: "0 \<le> V" using k(2) by (smt (verit) zero_le_mult_iff zero_le_power)
  have R: "2 ^ 52 \<le> round_even V (2 ^ k)" "round_even V (2 ^ k) \<le> 2 ^ 53"
    using round_even_bounds(5)[of "2 ^ k" V "2 ^ 52"] round_even_bounds(6)[of "2 ^ k" V "2 ^ 53"] k V by simp_all
  have mb: "2 ^ 52 \<le> m" "m < 2 ^ 53" using R me by (auto split: if_splits)
  then show "m < 2 ^ 53" "0 < m" by auto
  have q: "m + (e + 1074) * 2 ^ 52 = round_even V (2 ^ k) + int (k + 1074) * 2 ^ 52" using me by (auto split: if_splits)
  show "ok (DiyFpToUint64 (DiyFp (word_of_int m) e)) (\<lambda>d. d = round_double V 1)"
  proof (rule ok_DiyFpToUint64)
    fix i r assume r: "diy_to_double (DiyFp (word_of_int m) e) i r"
    have um: "uint (word_of_int m :: u64) = m" using mb by (simp add: uint_word_of_int_eq take_bit_int_eq_self)
    have i: "i = 0"
    proof (rule ccontr)
      assume "i \<noteq> 0"
      then have "2 ^ 52 \<le> m div 2 ^ i" using r by (simp add: diy_to_double_def um DiyFp_def)
      moreover have "m div 2 ^ i \<le> m div 2 ^ 1" using mb \<open>i \<noteq> 0\<close> by (intro zdiv_mono2 power_increasing) auto
      ultimately show False using mb by simp
    qed
    have "uint r = min INFTY (m + (e + 1074) * 2 ^ 52)"
    proof (cases "972 \<le> e")
      case True
      then have "r = kDoubleInfinity" using r i by (simp add: diy_to_double_def DiyFp_def)
      then show ?thesis using True mb by (simp add: min_def kDoubleInfinity_def)
    next
      case False
      then have f: "finite_double r" "fmt_units 52 (uint r) = m * 2 ^ nat (e + 1074)" using r i m(2) by (simp_all add: diy_to_double_def um DiyFp_def)
      have "fmt_units 52 (m + int (nat (e + 1074)) * 2 ^ 52) = m * 2 ^ nat (e + 1074)" by (rule fmt_encode(3)) (use mb in auto)
      then have "uint r = m + (e + 1074) * 2 ^ 52" using f m(2) mb fmt_units_inject[of "uint r" "m + int (nat (e + 1074)) * 2 ^ 52" 52] by simp
      then show ?thesis using False mb by (simp add: min_def)
    qed
    then show "r = round_double V 1" using round_double_carry[OF k, of r] q by simp
  qed
qed


lemma double_trunc_of_int:
  assumes "0 \<le> m" "m < 2 ^ 53" shows "double_trunc (double_of_int m) = m"
proof -
  note X = double_of_int_exact[OF assms]
  obtain n d where f: "double_frac (double_of_int m) = (n, d)" "0 \<le> n" "0 < d" "n * 2 ^ 1074 = dunits (double_of_int m) * d"
    using double_frac_finite[OF X(1)] by blast
  then have "n * 2 ^ 1074 = m * d * 2 ^ 1074" using X(2) by (simp only: mult_ac)
  then have "n = m * d" by simp
  then show ?thesis using f by (simp add: double_trunc_def)
qed

lemma skip_zeros_seen:
  assumes "seen str stop p (replicate n (ch CHR ''0'') @ rest)" "rest = [] \<or> hd rest \<noteq> ch CHR ''0''"
  shows "while_do (\<lambda>p. if p = stop then Some False else do { c \<leftarrow> rd str p; Some (c = ch CHR ''0'') }) (\<lambda>p. Some (p + 1)) p = Some (p + int n)"
  using assms
proof (induction n arbitrary: p)
  case 0
  show ?case
  proof (cases rest)
    case Nil
    then show ?thesis using seen_Nil[of str stop p] 0 by (subst while_do.simps) simp
  next
    case (Cons c r)
    then show ?thesis using seen_Cons(1,3)[of str stop p c r] 0 by (subst while_do.simps) simp
  qed
next
  case (Suc n)
  note S = seen_Cons[OF Suc(2)[unfolded replicate_Suc append_Cons]]
  have "while_do (\<lambda>p. if p = stop then Some False else do { c \<leftarrow> rd str p; Some (c = ch CHR ''0'') }) (\<lambda>p. Some (p + 1)) (p + 1) = Some (p + 1 + int n)"
    by (rule Suc(1)[OF S(2) Suc(3)])
  then show ?case using S(1,3) by (subst while_do.simps) (simp add: add.assoc)
qed

text \<open>The value that is read: a number of more than 53 bits loses its sign.\<close>

definition radix_double :: "bool \<Rightarrow> int \<Rightarrow> double" where
  "radix_double neg V = (if neg \<and> V < 2 ^ 53 then double_neg (round_double V 1) else round_double V 1)"

lemma round_double_0: "round_double 0 1 = 0"
  using decimal_double_0[of 0] by (simp add: decimal_double_def)

lemma RadixStringToIeee_value:
  assumes j: "j = 3 \<or> j = 4" and s: "seen str stop p (cs @ post)" "cs @ post \<noteq> []" "radix_text j cs" "post = [] \<or> \<not> isDigit (hd post) (2 ^ j)"
  shows "RadixStringToIeee (int j) str p stop neg allow jv True =
    Some (if \<not> allow \<and> \<not> blanks post then (jv, None) else (radix_double neg (text_val j cs), Some (if allow then stop - int (length post) else stop)))"
proof -
  obtain n ds where cs: "cs = replicate n (ch CHR ''0'') @ ds" "ds = [] \<or> hd ds \<noteq> ch CHR ''0''" using zeros_split by blast
  have zero: "isDigit (ch CHR ''0'') (2 ^ j)" using j by (auto simp: isDigit_def ch_codes)
  have hd: "ds @ post = [] \<or> hd (ds @ post) \<noteq> ch CHR ''0''" using cs(2) s(4) zero by (cases ds) auto
  have a: "seen str stop p (replicate n (ch CHR ''0'') @ ds @ post)" using s(1) cs(1) by simp
  have a': "seen str stop (p + int n) (ds @ post)" using seen_append[OF a] by simp
  have d: "radix_text j ds" using s(3) cs(1) by (simp add: radix_text_def)
  have val: "text_val j cs = text_val j ds"
  proof -
    have "text_val j (replicate i (ch CHR ''0'') @ ds) = text_val j ds" for i
      using radix_digit_digit(4)[OF j zero] by (induction i) simp_all
    then show ?thesis using cs(1) by simp
  qed
  have p: "p \<noteq> stop" using seen_pos[OF s(1)] s(2) by (cases "cs @ post") auto
  note skip = skip_zeros_seen[OF a hd]
  show ?thesis
  proof (cases "ds @ post = []")
    case True
    then have "p + int n = stop" using seen_Nil a' by simp
    then show ?thesis using True p skip val by (simp add: RadixStringToIeee_def ensure_def radix_double_def SignedZero_def round_double_0)
  next
    case False
    have ne: "p + int n \<noteq> stop" using seen_pos[OF a'] False by (cases "ds @ post") auto
    obtain r where r: "radix_digits (int j) 53 str stop allow (p + int n) 0 = Some r" "radix_read stop allow post (text_val j ds) r"
      using ok_radix_digits[OF j a' False d s(4), of 0 allow] by (auto simp: ok_def)
    show ?thesis
    proof (cases "\<not> allow \<and> \<not> blanks post")
      case True
      then show ?thesis using r p ne skip by (simp add: RadixStringToIeee_def ensure_def radix_read_def)
    next
      case F: False
      define V where "V = text_val j ds"
      obtain m e where me: "r = Some (if allow then stop - int (length post) else stop, m, e)" "rounded53 V m e"
        using r(2) F unfolding radix_read_def V_def by auto
      have V0: "0 \<le> V" using text_val_bounds[OF j d] by (simp add: V_def)
      show ?thesis
      proof (cases "e = 0")
        case True
        then have m: "m = V" "V < 2 ^ 53" using me(2) by (auto simp: rounded53_def split: if_splits)
        have "double_of_int (- V) = double_neg (round_double V 1)" if "V \<noteq> 0" using that V0 by (simp add: double_of_int_def double_round_signed_def)
        moreover have "double_of_int V = round_double V 1" using V0 by (simp add: double_of_int_def double_round_signed_def)
        ultimately show ?thesis
          using F r(1) me(1) True m V0 p ne skip val double_trunc_of_int[OF V0 m(2)]
          by (auto simp: Let_def RadixStringToIeee_def ensure_def radix_double_def push_bit_eq_mult V_def[symmetric] round_double_0)
      next
        case False
        then obtain k where k: "1 \<le> k" "2 ^ 52 * 2 ^ k \<le> V" "e = int k \<or> e = int k + 1"
          using me(2) unfolding rounded53_def by (auto split: if_splits)
        have "(2::int) ^ 52 * 2 ^ 1 \<le> 2 ^ 52 * 2 ^ k" using k(1) by (intro mult_left_mono power_increasing) auto
        then have e: "0 < e" "2 ^ 53 \<le> V" using k by auto
        note X = ok_radix_double[OF me(2) e(1)]
        have "DiyFpToUint64 (DiyFp (word_of_int m) e) = Some (round_double V 1)" using X(3) by (auto simp: ok_def)
        then show ?thesis
          using F r(1) me(1) False e X(1,2) p ne skip val double_trunc_of_int[of m]
          by (auto simp: Let_def RadixStringToIeee_def ensure_def radix_double_def push_bit_eq_mult V_def[symmetric])
      qed
    qed
  qed
qed


section \<open>Hexadecimal numbers\<close>

definition hex_char :: "u8 \<Rightarrow> bool" where
  "hex_char c \<longleftrightarrow> c \<in> set (map ch ''0123456789abcdefABCDEF'')"

definition hex_value :: "u8 list \<Rightarrow> int" where
  "hex_value cs = radix_val 16 (map hex_digit cs)"

lemma uint_between:
  fixes c :: u8
  shows "a \<le> uint c \<and> uint c \<le> b \<longleftrightarrow> uint c \<in> set [a..b]"
  by auto

lemma hex_char_digit: "hex_char c \<longleftrightarrow> isDigit c 16"
proof -
  have "isDigit c 16 \<longleftrightarrow> 48 \<le> uint c \<and> uint c \<le> 57 \<or> 97 \<le> uint c \<and> uint c \<le> 102 \<or> 65 \<le> uint c \<and> uint c \<le> 70"
    by (auto simp: isDigit_def Let_def ch_codes)
  also have "\<dots> \<longleftrightarrow> hex_char c"
    unfolding uint_between by (simp add: hex_char_def upto.simps ch_def of_char_def word_uint_eq_iff disj_commute disj_left_commute)
  finally show ?thesis by simp
qed

lemma hex_value_text: "hex_value cs = text_val 4 cs"
  by (simp add: hex_value_def text_val_def)

lemma ahead_seen: "ahead input s rest \<Longrightarrow> seen input (int (length input)) (current s) rest"
  by (auto simp: ahead_def seen_def)

lemma parse_leading_zero_hex:
  assumes a: "ahead input s (ch CHR ''0'' # x # hs @ post)" and x: "x = ch CHR ''x'' \<or> x = ch CHR ''X''"
    and h: "hs \<noteq> []" "\<forall>c\<in>set hs. hex_char c" "post = [] \<or> \<not> hex_char (hd post)" and f: "flag conv ALLOW_HEX"
  shows "parse_leading_zero conv True input s = Some (if flag conv ALLOW_TRAILING_JUNK \<or> blanks post
    then Return (radix_double (sign s) (hex_value hs)) (int (length input) - (if \<not> flag conv ALLOW_TRAILING_JUNK then 0
      else if flag conv ALLOW_TRAILING_SPACES then int (length (dropWhile (\<lambda>c. c = ch CHR '' '') post)) else int (length post)))
    else Return (junk_string_value conv) 0)"
proof -
  let ?n = "int (length input)" and ?p = "current s + 1 + 1"
  obtain g gs where g: "hs = g # gs" using h(1) by (cases hs) auto
  note S = seen_Cons[OF ahead_seen[OF a]]
  note T = seen_Cons[OF S(2)]
  have U: "rd input ?p = Some g" "?p \<noteq> ?n" using seen_Cons(1,3)[of input ?n ?p g "gs @ post"] T(2) g by simp_all
  have d: "isDigit g 16" using h(2) g hex_char_digit by simp
  have ht: "radix_text 4 hs" "post = [] \<or> \<not> isDigit (hd post) (2 ^ 4)" using h by (simp_all add: radix_text_def hex_char_digit)
  have R: "RadixStringToIeee 4 input ?p ?n (sign s) (flag conv ALLOW_TRAILING_JUNK) (junk_string_value conv) True =
    Some (if \<not> flag conv ALLOW_TRAILING_JUNK \<and> \<not> blanks post then (junk_string_value conv, None)
      else (radix_double (sign s) (hex_value hs), Some (if flag conv ALLOW_TRAILING_JUNK then ?n - int (length post) else ?n)))"
    using RadixStringToIeee_value[of 4, OF _ T(2) _ ht] h(1) by (simp add: hex_value_text)
  have post: "seen input ?n (?n - int (length post)) post"
    using seen_append[OF T(2)] seen_pos[OF T(2)] by simp
  obtain q where q: "AdvanceToNonspace input (?n - int (length post)) ?n = Some (\<not> blanks post, q)"
      "seen input ?n q (dropWhile (\<lambda>c. c = ch CHR '' '') post)"
    using AdvanceToNonspace_seen[OF post] by auto
  have q2: "q = ?n - int (length (dropWhile (\<lambda>c. c = ch CHR '' '') post))" by (rule seen_pos[OF q(2)])
  show ?thesis
    unfolding parse_leading_zero_def Let_def
    using S(1) S(4) T(1) x f U d R q(1) q2 AdvanceToNonspace_stop[of input ?n]
    by (cases "flag conv ALLOW_TRAILING_JUNK"; cases "blanks post"; cases "flag conv ALLOW_TRAILING_SPACES") (simp_all del: dropWhile_eq_Nil_conv)
qed

lemma StringToDouble_hex:
  assumes t: "sign_text sg neg" and b: "input = sg @ ch CHR ''0'' # x # hs @ post" and x: "x = ch CHR ''x'' \<or> x = ch CHR ''X''"
    and h: "hs \<noteq> []" "\<forall>c\<in>set hs. hex_char c" "post = [] \<or> \<not> hex_char (hd post)" and f: "flag conv ALLOW_HEX"
    and sy: "plain_symbol (s2d_infinity_symbol conv)" "plain_symbol (s2d_nan_symbol conv)"
  shows "StringToDouble conv input = Some (if flag conv ALLOW_TRAILING_JUNK \<or> blanks post
    then (radix_double neg (hex_value hs), int (length input) - (if \<not> flag conv ALLOW_TRAILING_JUNK then 0
      else if flag conv ALLOW_TRAILING_SPACES then int (length (dropWhile (\<lambda>c. c = ch CHR '' '') post)) else int (length post)))
    else (junk_string_value conv, 0))"
proof -
  have "is_dec (ch CHR ''0'')" by (simp add: is_dec_digit digit_of_def)
  then obtain s where s: "and_then (and_then (and_then (parse_leading_spaces conv input start_state) (parse_sign conv input))
       (parse_symbol (s2d_infinity_symbol conv) kDoubleInfinity conv input)) (parse_symbol (s2d_nan_symbol conv) kDoubleNaN conv input) = Some (Next s)"
      "ahead input s (ch CHR ''0'' # x # hs @ post)" "sign s = neg"
    using start_of_number[OF t b _ sy] by blast
  show ?thesis unfolding StringToDouble_def StringToIeee_def s(1) and_then.simps parse_leading_zero_hex[OF s(2) x h f] s(3)
    by (cases "flag conv ALLOW_TRAILING_JUNK \<or> blanks post") (simp_all del: dropWhile_eq_Nil_conv)
qed

end
