(* ===== verification/Parse_Returns.thy ===== *)
theory Parse_Returns
  imports Radix_Number
begin

text \<open>Every section of \<open>StringToIeee\<close> returns on every input: the state it leaves, and the composition.\<close>


section \<open>What every section leaves\<close>

definition headed :: "u8 list \<Rightarrow> bool" where
  "headed ds \<longleftrightarrow> digits ds \<and> (ds = [] \<or> hd ds \<noteq> ch CHR ''0'')"

definition octal_digits :: "u8 list \<Rightarrow> bool" where
  "octal_digits ds \<longleftrightarrow> ds \<noteq> [] \<and> (\<forall>c\<in>set ds. c < ch CHR ''8'')"

text \<open>The digits are complete.\<close>

definition scanned :: "u8 list \<Rightarrow> parse_state \<Rightarrow> bool" where
  "scanned input s \<longleftrightarrow> 0 \<le> current s \<and> current s \<le> int (length input) \<and>
     (\<exists>ds E. stored s ds E \<and> headed ds \<and> (octal s \<longrightarrow> octal_digits ds))"

text \<open>At a character of the input: before any digit, at the first digit that counts, and after some digits, at most \<open>m\<close> of them behind the point.\<close>

definition at_start :: "u8 list \<Rightarrow> parse_state \<Rightarrow> bool" where
  "at_start input s \<longleftrightarrow> (\<exists>c r. ahead input s (c # r)) \<and> held s [] 0 \<and> \<not> octal s"

definition at_number :: "u8 list \<Rightarrow> parse_state \<Rightarrow> bool" where
  "at_number input s \<longleftrightarrow> (\<exists>c r. ahead input s (c # r) \<and> c \<noteq> ch CHR ''0'') \<and> held s [] 0 \<and> \<not> octal s"

definition after_digits :: "u8 list \<Rightarrow> nat \<Rightarrow> parse_state \<Rightarrow> bool" where
  "after_digits input m s \<longleftrightarrow> (\<exists>c r. ahead input s (c # r)) \<and>
     (\<exists>ds f. held s ds f \<and> headed ds \<and> f \<le> m \<and> (octal s \<longrightarrow> octal_digits ds))"

definition flows :: "u8 list \<Rightarrow> (parse_state \<Rightarrow> bool) \<Rightarrow> flow \<Rightarrow> bool" where
  "flows input P fl \<longleftrightarrow> (case fl of Return d n \<Rightarrow> 0 \<le> n \<and> n \<le> int (length input) | Parsing_done s \<Rightarrow> scanned input s | Next s \<Rightarrow> P s)"

lemma flows_simps [simp]:
  "flows input P (Return d n) \<longleftrightarrow> 0 \<le> n \<and> n \<le> int (length input)"
  "flows input P (Parsing_done s) \<longleftrightarrow> scanned input s"
  "flows input P (Next s) \<longleftrightarrow> P s"
  by (simp_all add: flows_def)

lemma flows_and_then:
  assumes "ok m (flows input P)" "\<And>s. P s \<Longrightarrow> ok (f s) (flows input Q)"
  shows "ok (and_then m f) (flows input Q)"
  unfolding ok_and_then by (rule ok_mono[OF assms(1)]) (use assms(2) in \<open>auto split: flow.splits\<close>)

lemma held_scanned: "held s ds f \<Longrightarrow> headed ds \<Longrightarrow> 0 \<le> current s \<Longrightarrow> current s \<le> int (length input) \<Longrightarrow> (octal s \<longrightarrow> octal_digits ds) \<Longrightarrow> scanned input s"
  using held_stored unfolding scanned_def by blast

lemma ahead_iff_seen: "ahead input s rest = seen input (int (length input)) (current s) rest"
  by (auto simp: ahead_def seen_def)

lemma seen_range: "seen str stop p rest \<Longrightarrow> 0 \<le> p \<and> p \<le> stop"
  by (simp add: seen_def)

section \<open>Blanks, the sign and the symbols\<close>

lemma ok_Advance:
  assumes "0 \<le> p" "p \<le> int (length input)"
    and "\<And>q. p \<le> q \<Longrightarrow> q \<le> int (length input) \<Longrightarrow> Q (q \<noteq> int (length input), q)"
  shows "ok (AdvanceToNonspace input p (int (length input))) Q"
proof -
  have "seen input (int (length input)) p (drop (nat p) input)" using assms(1,2) by (simp add: seen_def)
  from AdvanceToNonspace_seen[OF this] obtain q where q: "AdvanceToNonspace input p (int (length input)) =
      Some (dropWhile (\<lambda>c. c = ch CHR '' '') (drop (nat p) input) \<noteq> [], q)"
    "seen input (int (length input)) q (dropWhile (\<lambda>c. c = ch CHR '' '') (drop (nat p) input))" by blast
  have "length (dropWhile (\<lambda>c. c = ch CHR '' '') (drop (nat p) input)) \<le> length (drop (nat p) input)" by (rule length_dropWhile_le)
  then have "p \<le> q" using seen_pos[OF q(2)] assms(1,2) by simp
  moreover have "dropWhile (\<lambda>c. c = ch CHR '' '') (drop (nat p) input) \<noteq> [] \<longleftrightarrow> q \<noteq> int (length input)" using seen_pos[OF q(2)] by auto
  ultimately show ?thesis using assms(3) seen_range[OF q(2)] q(1) by simp
qed

lemma ahead_current: "(\<exists>c r. ahead input s (c # r)) \<longleftrightarrow> 0 \<le> current s \<and> current s < int (length input)"
proof
  assume "\<exists>c r. ahead input s (c # r)"
  then obtain c r where "ahead input s (c # r)" by blast
  then show "0 \<le> current s \<and> current s < int (length input)" using seen_pos[of input "int (length input)" "current s" "c # r"] by (simp add: ahead_iff_seen seen_def)
next
  assume "0 \<le> current s \<and> current s < int (length input)"
  then have "ahead input s (input ! nat (current s) # drop (Suc (nat (current s))) input)" by (simp add: ahead_def Cons_nth_drop_Suc nat_less_iff)
  then show "\<exists>c r. ahead input s (c # r)" by blast
qed

lemma at_start_current: "at_start input (s\<lparr>current := p\<rparr>) \<longleftrightarrow> 0 \<le> p \<and> p < int (length input) \<and> held s [] 0 \<and> \<not> octal s"
  "at_start input s \<longleftrightarrow> 0 \<le> current s \<and> current s < int (length input) \<and> held s [] 0 \<and> \<not> octal s"
  by (auto simp: at_start_def ahead_current held_frame)

lemma ok_parse_leading_spaces: "ok (parse_leading_spaces conv input start_state) (flows input (at_start input))"
proof -
  have s: "held start_state [] 0" "\<not> octal start_state" "current start_state = 0" using held_start by (simp_all add: start_state_def)
  show ?thesis
    unfolding parse_leading_spaces_def Let_def wp s(3)
    by (auto intro!: ok_Advance simp: wp at_start_current held_frame s)
qed

lemma ok_parse_sign:
  assumes "at_start input s" shows "ok (parse_sign conv input s) (flows input (at_start input))"
  using assms unfolding parse_sign_def Let_def wp
  by (auto intro!: ok_Advance simp: wp at_start_current held_frame)

lemma ok_ConsumeSubString:
  assumes "0 \<le> p" "p < int (length input)" "symb \<noteq> []" "input ! nat p = hd symb"
    and "\<And>b q. 0 \<le> q \<Longrightarrow> q \<le> int (length input) \<Longrightarrow> Q (b, q)"
  shows "ok (ConsumeSubString input p (int (length input)) symb) Q"
proof -
  have c0: "c_at symb 0 = Some (hd symb)" using assms(3) by (simp add: c_at_def rd_def hd_conv_nth)
  have ci: "\<exists>c. c_at symb i = Some c \<and> (c \<noteq> 0 \<longrightarrow> i < int (length symb))" if "0 \<le> i" "i \<le> int (length symb)" for i
    using that by (auto simp: c_at_def rd_def)
  have "ok (while_do
       (\<lambda>(failed, current, i). if failed then Some False
          else do { s \<leftarrow> c_at symb i; Some (s \<noteq> 0) })
       (\<lambda>(failed, current, i). do {
          let current = current + 1;
          if current = int (length input) then Some (True, current, i)
          else do {
            c \<leftarrow> rd input current;
            s \<leftarrow> c_at symb i;
            if c \<noteq> s then Some (True, current, i) else Some (False, current, i + 1) } })
       (False, p, 1)) (\<lambda>(failed, q, i). 0 \<le> q \<and> (if failed then q \<le> int (length input) else q < int (length input)))"
  proof (rule ok_while_do[where P = "\<lambda>(failed, q, i). 0 \<le> q \<and> (if failed then q \<le> int (length input) else q < int (length input)) \<and> 0 \<le> i \<and> i \<le> int (length symb)"
        and m = "\<lambda>(failed, q, i). if failed then 0 else Suc (nat (int (length input) - q))"], goal_cases)
    case 1
    show ?case using assms by (cases symb) auto
  next
    case (2 t)
    obtain failed q i where t: "t = (failed, q, i)" by (cases t)
    show ?case
    proof (cases failed)
      case True
      then show ?thesis using 2 t by simp
    next
      case False
      then have b: "0 \<le> q" "q < int (length input)" "0 \<le> i" "i \<le> int (length symb)" using 2 t by simp_all
      obtain c where c: "c_at symb i = Some c" "c \<noteq> 0 \<longrightarrow> i < int (length symb)" using ci[OF b(3,4)] by blast
      show ?thesis using False t b c by (auto simp: Let_def wp)
    qed
  qed
  then show ?thesis
    unfolding ConsumeSubString_def Let_def c0 wp using assms by (auto elim!: ok_mono simp: wp)
qed

text \<open>A symbol, when there is one, has a first character.\<close>

definition proper_symbol :: "u8 list option \<Rightarrow> bool" where
  "proper_symbol sy \<longleftrightarrow> sy \<noteq> Some []"

lemma ok_parse_symbol:
  assumes s: "at_start input s" and sy: "proper_symbol sy"
  shows "ok (parse_symbol sy v conv input s) (flows input (at_start input))"
proof (cases sy)
  case None
  then show ?thesis using s by (simp add: parse_symbol_def)
next
  case (Some symb)
  then have ne: "symb \<noteq> []" using sy by (simp add: proper_symbol_def)
  then have c0: "c_at symb 0 = Some (hd symb)" by (simp add: c_at_def rd_def hd_conv_nth)
  have b: "buffer_pos s = 0" using s by (simp add: at_start_def held_def)
  show ?thesis
    unfolding parse_symbol_def Some Let_def c0 wp
    using s ne b c0 by (auto intro!: ok_Advance ok_ConsumeSubString simp: wp at_start_current)
qed


section \<open>Leading zeros\<close>

lemma ok_hex_value:
  assumes a: "seen input (int (length input)) p (c # r)" "isDigit c 16"
    and Q: "\<And>d t. (\<forall>q. t = Some q \<longrightarrow> 0 \<le> q \<and> q \<le> int (length input)) \<Longrightarrow> Q (d, t)"
  shows "ok (RadixStringToIeee 4 input p (int (length input)) neg allow jv True) Q"
proof -
  define cs post where "cs = takeWhile (\<lambda>c. isDigit c 16) (c # r)" and "post = dropWhile (\<lambda>c. isDigit c 16) (c # r)"
  have s: "seen input (int (length input)) p (cs @ post)" using a(1) by (simp add: cs_def post_def)
  have "post \<noteq> [] \<Longrightarrow> \<not> isDigit (hd post) 16" unfolding post_def by (rule hd_dropWhile)
  then have cs: "cs @ post \<noteq> []" "radix_text 4 cs" "post = [] \<or> \<not> isDigit (hd post) (2 ^ 4)"
    by (auto simp: cs_def radix_text_def a(2) dest: set_takeWhileD)
  have "int (length post) \<le> int (length input)"
    using seen_pos[OF s] a(1) by (simp add: seen_def)
  then show ?thesis using RadixStringToIeee_value[of 4, OF _ s cs] Q by (simp add: ok_def)
qed

lemma ok_parse_leading_zero:
  assumes "at_start input s"
  shows "ok (parse_leading_zero conv True input s) (flows input (at_number input))"
proof -
  let ?n = "int (length input)"
  obtain c r where a: "ahead input s (c # r)" and h: "held s [] 0" "\<not> octal s" using assms by (auto simp: at_start_def)
  note S = seen_Cons[OF ahead_seen[OF a]]
  note b = seen_range[OF S(2)]
  consider "c \<noteq> ch CHR ''0''" | "c = ch CHR ''0''" "r = []" | c1 r1 where "c = ch CHR ''0''" "r = c1 # r1" by (cases r) auto
  then show ?thesis
  proof cases
    case 1
    then show ?thesis using S(1) a h by (auto simp: parse_leading_zero_def Let_def at_number_def)
  next
    case 2
    then show ?thesis using S b by (simp add: parse_leading_zero_def Let_def)
  next
    case 3
    note T = seen_Cons[OF S(2)[unfolded 3(2)]]
    obtain n rest where z: "r = replicate n (ch CHR ''0'') @ rest" "rest = [] \<or> hd rest \<noteq> ch CHR ''0''" using zeros_split by blast
    note skip = skip_zeros_seen[OF S(2)[unfolded z(1)] z(2)]
    have q: "seen input ?n (current s + 1 + int n) rest" using seen_append[OF S(2)[unfolded z(1)]] by simp
    have forward: "at_number input (s\<lparr>leading_zero := True, current := current s + 1 + int n\<rparr>)" if ne: "current s + 1 + int n \<noteq> ?n"
    proof -
      obtain d r' where "rest = d # r'" using ne seen_Nil[of input ?n "current s + 1 + int n"] q by (cases rest) auto
      then show ?thesis using q z(2) h by (auto simp: at_number_def ahead_iff_seen held_frame)
    qed
    have zeros: "ok (do {
           p \<leftarrow> while_do
             (\<lambda>p. if p = ?n then Some False else do { c \<leftarrow> rd input p; Some (c = ch CHR ''0'') })
             (\<lambda>p. Some (p + 1)) (current s + 1);
           if p = ?n then Some (Return (SignedZero (sign (s\<lparr>leading_zero := True\<rparr>))) p)
           else Some (Next (s\<lparr>leading_zero := True, current := p\<rparr>)) }) (flows input (at_number input))"
      using skip forward by simp
    have hex: "ok (do {
           no_digit \<leftarrow> (if current s + 1 + 1 = ?n then Some True
                        else do { c \<leftarrow> rd input (current s + 1 + 1); Some (\<not> isDigit c 16) });
           if no_digit then junk conv
           else do {
             (result, tail_pointer) \<leftarrow> RadixStringToIeee 4 input (current s + 1 + 1) ?n (sign (s\<lparr>leading_zero := True\<rparr>))
               (flag conv ALLOW_TRAILING_JUNK) (junk_string_value conv) True;
             case tail_pointer of
               None \<Rightarrow> Some (Return result 0)
             | Some tail \<Rightarrow> do {
                 (_, tail) \<leftarrow> (if flag conv ALLOW_TRAILING_SPACES
                               then AdvanceToNonspace input tail ?n else Some (False, tail));
                 Some (Return result tail) } } }) (flows input (at_number input))"
    proof (cases r1)
      case Nil
      then show ?thesis using T(4) by simp
    next
      case (Cons d r2)
      note U = seen_Cons[OF T(2)[unfolded Cons]]
      show ?thesis
      proof (cases "isDigit d 16")
        case True
        have two: "current s + 1 + 1 = 2 + current s" by simp
        show ?thesis
          using U(1,3) True by (auto intro!: ok_hex_value[OF T(2)[unfolded Cons two] True] ok_Advance simp: wp split: option.splits)
      next
        case False
        then show ?thesis using U(1,3) by simp
      qed
    qed
    show ?thesis
      unfolding parse_leading_zero_def Let_def S(1) T(1) bind.simps
      using 3(1) S(4) 3(2) zeros hex by auto
  qed
qed


section \<open>The digits\<close>

lemma digits_split:
  obtains cs post where "xs = cs @ post" "digits cs" "stops post" "cs = [] \<or> hd cs = hd xs"
proof
  show "xs = takeWhile is_dec xs @ dropWhile is_dec xs" by simp
  show "digits (takeWhile is_dec xs)" by (auto simp: digits_def is_dec_digit dest!: set_takeWhileD)
  show "stops (dropWhile is_dec xs)" unfolding stops_def using hd_dropWhile[of is_dec xs] by blast
  show "takeWhile is_dec xs = [] \<or> hd (takeWhile is_dec xs) = hd xs" by (cases xs) simp_all
qed

lemma ahead_scanned:
  assumes "ahead input s []" "held s ds f" "headed ds" "octal s \<longrightarrow> octal_digits ds"
  shows "scanned input s"
  using held_scanned[OF assms(2,3) _ _ assms(4)] assms(1) by (simp add: ahead_def)

lemma ok_parse_integer:
  assumes "at_number input s"
  shows "ok (parse_integer conv input s) (flows input (after_digits input 0))"
proof -
  let ?t = "s\<lparr>octal := leading_zero s \<and> flag conv ALLOW_OCTALS\<rparr>"
  obtain c r where a: "ahead input s (c # r)" "c \<noteq> ch CHR ''0''" and h: "held s [] 0" using assms by (auto simp: at_number_def)
  obtain cs post where cs: "c # r = cs @ post" "digits cs" "stops post" "cs = [] \<or> hd cs = hd (c # r)" using digits_split by blast
  have t: "ahead input ?t (cs @ post)" "held ?t [] 0" using a h cs(1) by (simp_all add: ahead_def held_frame)
  have ne: "cs @ post \<noteq> []" using cs(1) by (metis list.discI)
  have l: "headed cs" using cs(2,4) a(2) by (auto simp: headed_def)
  obtain s' where s': "integer_digits input ?t = Some (if post = [] then Parsing_done s' else Next s')" "held s' cs 0"
    "ahead input s' post" "octal s' = (octal ?t \<and> (\<forall>c\<in>set cs. c < ch CHR ''8''))"
    using integer_digits_scan[OF t(1) ne cs(2,3) t(2)] by auto
  note n = held_nonempty[OF s'(2)]
  show ?thesis
  proof (cases post)
    case Nil
    have "octal s' \<longrightarrow> octal_digits cs" using s'(4) ne Nil by (auto simp: octal_digits_def)
    then have "scanned input s'" using ahead_scanned[OF _ s'(2) l] s'(3) Nil by simp
    then show ?thesis using s'(1) Nil by (simp add: parse_integer_def)
  next
    case (Cons d ps)
    have "after_digits input 0 (if significant_digits s' = 0 then s'\<lparr>octal := False\<rparr> else s')"
      using s' n l Cons by (auto simp: after_digits_def held_frame ahead_def octal_digits_def)
    then show ?thesis using s'(1) Cons by (simp add: parse_integer_def)
  qed
qed

lemma ok_fraction_digits:
  assumes a: "ahead input s (c # r)" and h: "held s ds f" "digits ds" "if ds = [] then c \<noteq> ch CHR ''0'' else hd ds \<noteq> ch CHR ''0''"
    and f: "f + length (c # r) \<le> length input" and o: "\<not> octal s"
  shows "ok (fraction_digits input s) (flows input (after_digits input (length input)))"
proof -
  obtain cs post where cs: "c # r = cs @ post" "digits cs" "stops post" "cs = [] \<or> hd cs = hd (c # r)" using digits_split by blast
  have ne: "cs @ post \<noteq> []" using cs(1) by (metis list.discI)
  have l: "headed (ds @ cs)" using cs(2,4) h(2,3) by (auto simp: headed_def hd_append split: if_splits)
  have len: "length (c # r) = length cs + length post" using cs(1) by simp
  obtain s' where s': "fraction_digits input s = Some (if post = [] then Parsing_done s' else Next s')" "held s' (ds @ cs) (f + length cs)"
    "ahead input s' post" "octal s' = octal s"
    using fraction_digits_scan[OF a[unfolded cs(1)] ne cs(2,3) h(1)] by auto
  show ?thesis
  proof (cases post)
    case Nil
    then have "scanned input s'" using ahead_scanned[OF _ s'(2) l] s'(3,4) o by simp
    then show ?thesis using s'(1) Nil by simp
  next
    case (Cons d ps)
    have "f + length cs \<le> length input" using f len by simp
    then have "after_digits input (length input) s'" using s' l o Cons unfolding after_digits_def by auto
    then show ?thesis using s'(1) Cons by simp
  qed
qed

lemma ok_parse_fraction:
  assumes "after_digits input 0 s"
  shows "ok (parse_fraction conv input s) (flows input (after_digits input (length input)))"
proof -
  obtain c r ds where a: "ahead input s (c # r)" and h: "held s ds 0" "headed ds" "octal s \<longrightarrow> octal_digits ds"
    using assms by (auto simp: after_digits_def)
  note S = seen_Cons[OF ahead_seen[OF a]]
  note A = ahead_Cons[OF a]
  let ?t = "s\<lparr>current := current s + 1\<rparr>"
  have t: "held ?t ds 0" "ahead input ?t r" "\<not> octal s \<Longrightarrow> \<not> octal ?t" using h A(3) by (simp_all add: held_frame)
  have len: "length (c # r) \<le> length input" using a by (metis ahead_def diff_le_self length_drop)
  have body: "ok (if c = ch CHR ''.'' then
          (if octal s \<and> \<not> flag conv ALLOW_TRAILING_JUNK then junk conv
           else if octal s then Some (Parsing_done s)
           else if current ?t = int (length input) then
               (if significant_digits ?t = 0 \<and> \<not> leading_zero ?t then junk conv
                else Some (Parsing_done ?t))
             else and_then
               (if significant_digits ?t = 0 then fraction_zeros input ?t else Some (Next ?t))
               (fraction_digits input))
        else Some (Next s)) (flows input (after_digits input (length input)))"
  proof (cases "c = ch CHR ''.'' \<and> \<not> octal s \<and> r \<noteq> []")
    case False
    have "scanned input s" using held_scanned[OF h(1,2) _ _ h(3)] a by (simp add: ahead_def)
    moreover have "scanned input ?t" if "\<not> octal s" "r = []" using ahead_scanned[OF _ t(1) h(2)] t(2) that by simp
    moreover have "after_digits input (length input) s" using a h unfolding after_digits_def by blast
    ultimately show ?thesis using False S(4) by auto
  next
    case True
    then have ne: "current ?t \<noteq> int (length input)" using S(4) by simp
    note n = held_nonempty[OF t(1)]
    show ?thesis
    proof (cases ds)
      case Nil
      obtain m rest where z: "r = replicate m (ch CHR ''0'') @ rest" "rest = [] \<or> hd rest \<noteq> ch CHR ''0''" using zeros_split by blast
      have "0 < m \<or> rest \<noteq> []" using True z(1) by auto
      then obtain s' where s': "fraction_zeros input ?t = Some (if rest = [] then Return (SignedZero (sign ?t)) (int (length input)) else Next s')"
          "rest \<noteq> [] \<longrightarrow> held s' [] m \<and> ahead input s' rest \<and> octal s' = octal ?t"
        using fraction_zeros_scan[OF t(2)[unfolded z(1)] _ z(2), of 0] t(1) Nil by auto
      show ?thesis
      proof (cases rest)
        case Nil': Nil
        then show ?thesis using True ne n Nil s'(1) by simp
      next
        case (Cons d ps)
        have "m + length (d # ps) \<le> length input" using len z(1) Cons by simp
        then have "ok (fraction_digits input s') (flows input (after_digits input (length input)))"
          using s'(2) z(2) Cons True by (intro ok_fraction_digits[of _ _ d ps "[]" m]) auto
        then show ?thesis using True ne n Nil s'(1) Cons by simp
      qed
    next
      case (Cons d ds')
      obtain e r' where r: "r = e # r'" using True by (cases r) auto
      have "ok (fraction_digits input ?t) (flows input (after_digits input (length input)))"
        using t h(2) r Cons True len by (intro ok_fraction_digits[of _ _ e r' ds 0]) (auto simp: headed_def)
      then show ?thesis using True ne n Cons by simp
    qed
  qed
  have "ok (parse_fraction conv input s) (flows input (after_digits input (length input))) \<longleftrightarrow> ok (and_then (if c = ch CHR ''.'' then
          (if octal s \<and> \<not> flag conv ALLOW_TRAILING_JUNK then junk conv
           else if octal s then Some (Parsing_done s)
           else if current ?t = int (length input) then
               (if significant_digits ?t = 0 \<and> \<not> leading_zero ?t then junk conv
                else Some (Parsing_done ?t))
             else and_then
               (if significant_digits ?t = 0 then fraction_zeros input ?t else Some (Next ?t))
               (fraction_digits input))
        else Some (Next s)) (\<lambda>s. if \<not> leading_zero s \<and> exponent s = 0 \<and> significant_digits s = 0 then junk conv
            else Some (Next s))) (flows input (after_digits input (length input)))"
    unfolding parse_fraction_def Let_def S(1) bind.simps ..
  also have "\<dots>" by (rule flows_and_then[OF body]) simp
  finally show ?thesis .
qed


section \<open>The exponent and the end\<close>

lemma ok_exponent_digits_returns:
  assumes "0 \<le> p" "p < int (length input)" and Q: "\<And>num q. 0 \<le> q \<Longrightarrow> q \<le> int (length input) \<Longrightarrow> Q (num, q)"
  shows "ok (exponent_digits input p) Q"
  unfolding exponent_digits_def wp
  by (rule ok_while_do[where P = "\<lambda>(num, q, go). 0 \<le> q \<and> (if go then q < int (length input) else q \<le> int (length input))"
      and m = "\<lambda>(num, q, go). nat (int (length input) - q)"])
    (use assms in \<open>auto simp: wp Let_def split: if_splits\<close>)

lemma held_set: "held s ds f \<Longrightarrow> headed ds \<Longrightarrow> 0 \<le> p \<Longrightarrow> p \<le> int (length input) \<Longrightarrow> (octal s \<longrightarrow> octal_digits ds) \<Longrightarrow>
    scanned input (s\<lparr>current := p, exponent := e\<rparr>) \<and> scanned input (s\<lparr>current := p\<rparr>)"
  unfolding scanned_def stored_def held_def
  by (intro conjI exI[of _ ds] exI[of _ "e + insignificant_digits s - int (length ds - 772)"] exI[of _ "- int f"]) simp_all

lemma ok_parse_exponent:
  assumes "after_digits input (length input) s" "length input \<le> 536870911"
  shows "ok (parse_exponent conv input s) (flows input (scanned input))"
proof -
  obtain ds f where p: "0 \<le> current s" "current s < int (length input)" and h: "held s ds f" "headed ds" "f \<le> length input" "octal s \<longrightarrow> octal_digits ds"
    using assms(1) unfolding after_digits_def ahead_current by blast
  have e: "- 536870911 \<le> exponent s" "exponent s \<le> 0" using h(1,3) assms(2) by (auto simp: held_def)
  note S = held_set[OF h(1,2) _ _ h(4)]
  have s: "scanned input s" using S[of "current s"] p by simp
  show ?thesis
    unfolding parse_exponent_def Let_def wp
    using p e s S by (auto intro!: ok_exponent_digits_returns simp: wp)
qed

lemma scanned_current: "scanned input s \<Longrightarrow> 0 \<le> p \<Longrightarrow> p \<le> int (length input) \<Longrightarrow> scanned input (s\<lparr>current := p\<rparr>)"
  unfolding scanned_def stored_def by simp

lemma ok_parse_trailing:
  assumes "scanned input s" shows "ok (parse_trailing conv input s) (flows input (scanned input))"
proof -
  have "0 \<le> current s" "current s \<le> int (length input)" using assms by (simp_all add: scanned_def)
  then show ?thesis
    unfolding parse_trailing_def Let_def wp
    using assms scanned_current[OF assms] by (auto intro!: ok_Advance simp: wp)
qed

lemma ok_parsing_done_returns:
  assumes "scanned input s"
  shows "ok (parsing_done conv True s) (\<lambda>(d, n). 0 \<le> n \<and> n \<le> int (length input))"
proof -
  obtain ds E where p: "0 \<le> current s" "current s \<le> int (length input)" and s: "stored s ds E" "headed ds" "octal s \<longrightarrow> octal_digits ds"
    using assms unfolding scanned_def by blast
  show ?thesis
  proof (cases "octal s")
    case False
    show ?thesis by (rule ok_mono[OF ok_parsing_done[OF s(1) _ _ False]]) (use s(2) p in \<open>auto simp: headed_def\<close>)
  next
    case True
    then have o: "ds \<noteq> []" "\<forall>c\<in>set ds. c < ch CHR ''8''" using s(3) by (simp_all add: octal_digits_def)
    have b: "length (buffer s) = 782" "buffer_pos s = int (min 772 (length ds))" "take (min 772 (length ds)) (buffer s) = take 772 ds"
      using s(1) by (simp_all add: stored_def)
    have seen: "seen (buffer s) (buffer_pos s) 0 (take 772 ds @ [])" using b by (simp add: seen_def)
    have "isDigit c 8" if "c \<in> set (take 772 ds)" for c
    proof -
      have "c \<in> set ds" using that by (rule in_set_takeD)
      then have "0 \<le> digit_of c" "c < ch CHR ''8''" using s(2) o(2) by (auto simp: headed_def digits_def)
      then show ?thesis by (auto simp: isDigit_def digit_of_def word_less_def ch_def of_char_def)
    qed
    then have r: "radix_text 3 (take 772 ds)" by (simp add: radix_text_def)
    have "RadixStringToIeee 3 (buffer s) 0 (buffer_pos s) (sign s) (flag conv ALLOW_TRAILING_JUNK) (junk_string_value conv) True =
        Some (radix_double (sign s) (text_val 3 (take 772 ds)), Some (buffer_pos s))"
      using RadixStringToIeee_value[of 3, OF _ seen _ r] o(1) by simp
    then show ?thesis using True p by (simp add: parsing_done_def wp ensure_def)
  qed
qed

lemma ok_StringToDouble_returns:
  assumes "length input \<le> 536870911" "s2d_infinity_symbol conv \<noteq> Some []" "s2d_nan_symbol conv \<noteq> Some []"
  shows "ok (StringToDouble conv input) (\<lambda>(d, n). 0 \<le> n \<and> n \<le> int (length input))"
proof -
  have sy: "proper_symbol (s2d_infinity_symbol conv)" "proper_symbol (s2d_nan_symbol conv)" using assms(2,3) by (simp_all add: proper_symbol_def)
  show ?thesis
    unfolding StringToDouble_def StringToIeee_def ok_bind
  proof (rule ok_mono)
    show "ok (and_then (and_then (and_then (and_then (and_then (and_then (and_then (and_then
       (parse_leading_spaces conv input start_state)
       (parse_sign conv input))
       (parse_symbol (s2d_infinity_symbol conv) kDoubleInfinity conv input))
       (parse_symbol (s2d_nan_symbol conv) kDoubleNaN conv input))
       (parse_leading_zero conv True input))
       (parse_integer conv input))
       (parse_fraction conv input))
       (parse_exponent conv input))
       (parse_trailing conv input)) (flows input (scanned input))"
      by (rule flows_and_then ok_parse_leading_spaces ok_parse_sign ok_parse_symbol ok_parse_leading_zero ok_parse_integer
          ok_parse_fraction ok_parse_exponent ok_parse_trailing sy assms(1) | assumption)+
  next
    fix fl assume "flows input (scanned input) fl"
    then show "ok (case fl of Return d n \<Rightarrow> Some (d, n) | Parsing_done s \<Rightarrow> parsing_done conv True s | Next s \<Rightarrow> parsing_done conv True s)
        (\<lambda>(d, n). 0 \<le> n \<and> n \<le> int (length input))"
      by (cases fl) (simp_all add: ok_parsing_done_returns)
  qed
qed

end
