(* ===== verification/Read_Correct.thy ===== *)
theory Read_Correct
  imports Parse_Returns Double_To_String
begin

text \<open>The properties of reading that hold for every input and for hexadecimal numbers.\<close>


section \<open>Reading always returns\<close>

text \<open>C3: StringToDouble always returns: on every input of at most 2^29 - 1 characters, whatever its bytes, the flags, and the symbols (which must not be empty), every loop ends, no assertion fails and no access leaves the input or the buffer; the number of processed characters is between 0 and the length of the input.\<close>

theorem StringToDouble_returns:
  assumes "length input \<le> 536870911" "s2d_infinity_symbol conv \<noteq> Some []" "s2d_nan_symbol conv \<noteq> Some []"
  shows "\<exists>d n. StringToDouble conv input = Some (d, n) \<and> 0 \<le> n \<and> n \<le> int (length input)"
  using ok_StringToDouble_returns[OF assms] by (auto simp: ok_def)

lemma StringToDouble_returns_witness:
  "\<exists>d n. StringToDouble \<lparr>s2d_flags = ALLOW_OCTALS OR ALLOW_TRAILING_JUNK, empty_string_value = 0, junk_string_value = kDoubleNaN,
      s2d_infinity_symbol = Some (c_string ''inf''), s2d_nan_symbol = None\<rparr> (c_string ''-0755e+x'') = Some (d, n) \<and> 0 \<le> n \<and> n \<le> 8"
  using StringToDouble_returns[of "c_string ''-0755e+x''" "\<lparr>s2d_flags = ALLOW_OCTALS OR ALLOW_TRAILING_JUNK, empty_string_value = 0, junk_string_value = kDoubleNaN,
      s2d_infinity_symbol = Some (c_string ''inf''), s2d_nan_symbol = None\<rparr>"]
  by (simp add: c_string_def)

section \<open>Hexadecimal numbers\<close>



end
