(* ===== verification/Divergences.thy ===== *)
theory Divergences
  imports Text_Correct Bignum_Correct
begin

text \<open>Inputs on which the code does not do what its comments say, evaluated on the model.\<close>


section \<open>Reading\<close>

definition hex_reader :: to_double_converter where
  "hex_reader = \<lparr>s2d_flags = ALLOW_HEX OR ALLOW_TRAILING_JUNK, empty_string_value = 0, junk_string_value = 0x7FF8000000000000,
     s2d_infinity_symbol = Some (c_string ''infinity''), s2d_nan_symbol = Some (c_string ''nan'')\<rparr>"

text \<open>A negative hexadecimal number of more than 53 bits is read as a positive one: minus 2 to the 68 as 2 to the 68, while minus 16 keeps its sign.\<close>

lemma radix_drops_sign:
  "StringToDouble hex_reader (c_string ''-0x100000000000000001'') = Some (0x4430000000000000, 21)"
  "StringToDouble hex_reader (c_string ''-0x10'') = Some (0xC030000000000000, 5)"
  by code_simp+

text \<open>The documented example \<open>+NaN\<close> for the symbol \<open>nan\<close> is junk: the comparison is case sensitive.\<close>

lemma nan_example_is_junk:
  "StringToDouble hex_reader (c_string ''+NaN'') = Some (junk_string_value hex_reader, 0)"
  "StringToDouble hex_reader (c_string ''+nan'') = Some (kDoubleNaN, 4)"
  by code_simp+

text \<open>Without any flag for trailing characters a hexadecimal number may end in spaces, a decimal number may not.\<close>

lemma radix_takes_trailing_spaces:
  "StringToDouble (hex_reader\<lparr>s2d_flags := ALLOW_HEX\<rparr>) (c_string ''0x12  '') = Some (0x4032000000000000, 6)"
  "StringToDouble (hex_reader\<lparr>s2d_flags := ALLOW_HEX\<rparr>) (c_string ''12  '') = Some (junk_string_value hex_reader, 0)"
  by code_simp+

section \<open>Printing\<close>

text \<open>\<open>FillFractionals\<close> shifts by minus one when every fractional bit has become a digit: 2251799813685248.5 with one place. It has no such problem without places.\<close>

lemma fill_fractionals_bad_shift: "FastFixedDtoa 0x4320000000000001 1 (replicate 40 0) = None"
  by code_simp

text \<open>With zero digits \<open>DoubleToAscii\<close> leaves the decimal point as it was.\<close>

lemma precision_0_leaves_point:
  assumes "finite_double v" "buf \<noteq> []"
  shows "DoubleToAscii (with_sign neg v) PRECISION 0 buf point = Some (buf[0 := 0], neg, 0, point)"
  using with_sign_fields[OF assms(1), of neg] assms(2) by (simp add: DoubleToAscii_def ensure_def wr_def)

section \<open>Bignums\<close>

text \<open>
  The documented precondition of \<open>DivideModuloIntBignum\<close> does not suffice: for 2 to the 56 divided by
  its predecessor, whose quotient is 1, the loop leaves the dividend shorter than the divisor and the
  assertion after it fails.
\<close>

lemma divide_assertion_fails:
  "Option.bind (AssignUInt64 (2 ^ 56) Bignum0) (\<lambda>this. Option.bind (AssignUInt64 (2 ^ 56 - 1) Bignum0) (\<lambda>other. DivideModuloIntBignum other this)) = None"
  by code_simp

end
