(* ===== verification/Spec2Isabelle.thy ===== *)
theory Spec2Isabelle
  imports Bignum_Correct Ieee_Correct Strtod_Correct Double_Real Dtoa_Correct Grisu_Correct Text_Correct Read_Correct Divergences Double_To_String String_To_Double
begin

text \<open>
  The conversion of numbers to and from text in the C++ library \<open>DoubleConversion\<close>, which the
  mobile application ships under \<open>src/frontend/ios/Pods/DoubleConversion/double-conversion/\<close>.
  Folly, which React Native's bridge is built on, prints and reads numbers with it.

  \<^bold>\<open>The program.\<close> \<open>StringToDoubleConverter\<close> (\<open>double-conversion.cc\<close>) scans a string (sign, digits,
  point, exponent, hexadecimal, junk, symbols) and hands a digit string with a decimal exponent to
  \<open>Strtod\<close> or \<open>Strtof\<close> (\<open>strtod.cc\<close>). \<open>Strtod\<close> trims the digits and tries three paths: exact
  arithmetic in doubles, 64-bit \<open>DiyFp\<close> arithmetic with a tracked error and a table of powers of
  ten (\<open>diy-fp\<close>, \<open>cached-powers\<close>), and an exact comparison with a \<open>Bignum\<close> (\<open>bignum.cc\<close>).
  \<open>DoubleToStringConverter\<close> goes the other way: \<open>DoubleToAscii\<close> asks Grisu3 (\<open>fast-dtoa.cc\<close>) or
  the fixed-point generator (\<open>fixed-dtoa.cc\<close>) for digits and falls back to the exact generator
  (\<open>bignum-dtoa.cc\<close>); a \<open>StringBuilder\<close> (\<open>utils.h\<close>) receives the text.

  \<^bold>\<open>The model.\<close> A statement is a step of the option monad (\<^theory_text>\<open>Prelude\<close>): \<open>None\<close> is a failed
  \<open>ASSERT\<close>, an access outside a \<open>Vector\<close>, an undefined shift or an endless loop, so every theorem
  \<open>f x = Some y\<close> also says that none of these happens. A C++ \<open>int\<close> is an unbounded \<open>int\<close>, the
  unsigned types are words of their width, a \<open>double\<close> and a \<open>float\<close> are their bit patterns and
  their arithmetic is exact arithmetic rounded to nearest even. Out-parameters are returned;
  objects that a method changes are passed and returned.

  \<^item> \<open>Prelude\<close>: the monad, its weakest preconditions (the collection \<open>wp\<close>), loops and loop rules.
  \<^item> \<open>Bignum\<close> models \<open>bignum.h/.cc\<close>: record \<open>bignum\<close> (128 chunks of 28 bits, the used count, the
    exponent in chunks). \<open>Bignum_Value\<close>, \<open>Bignum_Basic\<close>, \<open>Bignum_Mult\<close>, \<open>Bignum_Compare\<close>,
    \<open>Bignum_Add\<close>, \<open>Bignum_Div\<close>, \<open>Bignum_Power\<close>, \<open>Bignum_Text\<close>, \<open>Digits\<close>: the invariants \<open>wf\<close> and
    \<open>norm\<close>, the abstraction \<open>bval\<close> to an integer and one rule per operation, valid while the value
    stays below \<open>W 127\<close> (127 of the 128 chunks). \<open>Bignum_Correct\<close> holds the properties.
  \<^item> \<open>Diy_Fp\<close> models \<open>diy-fp.h/.cc\<close>, \<open>Ieee\<close> models \<open>ieee.h\<close>. \<open>Diy_Fp_Value\<close>, \<open>Ieee_Format\<close>,
    \<open>Ieee_Value\<close>: exact products, the value of a pattern in units of the smallest denormal
    (\<open>fmt_units\<close>), neighbours and midpoints; the locale \<open>ieee_view\<close> states once what both formats
    share and is interpreted for doubles and for floats. \<open>Ieee_Correct\<close> holds the properties.
  \<^item> \<open>Rounding\<close>, \<open>Double_Arith\<close>: the nearest pattern of a ratio is unique and the language's
    arithmetic returns it.
  \<^item> \<open>Cached_Powers\<close> models \<open>cached-powers.h/.cc\<close>; \<open>Cached_Powers_Value\<close> checks all 87 entries.
  \<^item> \<open>Strtod\<close> models \<open>strtod.h/.cc\<close>. \<open>Strtod_Fast\<close> (double arithmetic), \<open>Strtod_Compare\<close> (exact
    comparison), \<open>Strtod_Rounding\<close>, \<open>Strtod_Error\<close>, \<open>Strtod_Diy\<close> (64-bit path), \<open>Strtod_Guess\<close>
    (trimming, cutting to 780 digits), \<open>Strtod_Exact\<close> (the whole function); \<open>Strtod_Correct\<close> holds
    the properties.
  \<^item> \<open>Bignum_Dtoa\<close> models \<open>bignum-dtoa.h/.cc\<close>. \<open>Double_Real\<close> (the language's double arithmetic as
    reals), \<open>Log_Estimate\<close> (the estimate of the decimal exponent), \<open>Digit_Room\<close> (what shortest and
    closest digits are), \<open>Digit_Division\<close> (the locale \<open>digit_division\<close> every digit loop rests on,
    interpreted on the bignums), \<open>Dtoa_Shortest\<close> (the loop), \<open>Shortest_Decimal\<close> (the contract over
    the reals), \<open>Dtoa_Start\<close> (start values and the corrected estimate), \<open>Dtoa_Bignum\<close> (the shortest
    mode and reading back), \<open>Dtoa_Counted\<close> (a given number of digits or places); \<open>Dtoa_Correct\<close>
    holds the properties.
  \<^item> \<open>Fast_Dtoa\<close> models \<open>fast-dtoa.h/.cc\<close>. \<open>Grisu_Weed\<close> (\<open>RoundWeed\<close> accepts a last digit only when it is
    the closest for every value the error allows), \<open>Grisu_Digits\<close> (\<open>DigitGen\<close>), \<open>Grisu_Power\<close> (the
    cached power for a range of exponents, the error of the scaled numbers), \<open>Grisu_Shortest\<close> (accepted
    digits are the one shortest and closest decimal), \<open>Grisu_Double\<close> (\<open>Grisu3\<close>), \<open>Grisu_Dtoa\<close>
    (\<open>FastDtoa\<close> and \<open>DoubleToAscii\<close> in shortest mode); \<open>Grisu_Correct\<close> holds the properties.
  \<^item> \<open>Fixed_Dtoa\<close> models \<open>fixed-dtoa.h/.cc\<close>.
  \<^item> \<open>String_To_Double\<close> models \<open>StringToDoubleConverter\<close>: the long function \<open>StringToIeee\<close> is cut into
    its sections, functions on the record of its local variables. \<open>Parse_Digits\<close> (the digit buffer and
    the digits it drops), \<open>Parse_Sections\<close>, \<open>Parse_Number\<close> (the grammar \<open>decimal_number\<close>),
    \<open>Parse_Decimal\<close> (the composition), \<open>Radix_Number\<close> (\<open>RadixStringToIeee\<close> and hexadecimal
    numbers), \<open>Parse_Returns\<close> (the state every section leaves, on every input); \<open>Read_Correct\<close> holds
    the properties of all inputs and of hexadecimal ones.
  \<^item> \<open>Double_To_String\<close> models \<open>StringBuilder\<close> and \<open>DoubleToStringConverter\<close>. \<open>Print_Builder\<close> (the
    builder as the text it holds), \<open>Print_Decimal\<close>, \<open>Print_Exponential\<close> (the two representations),
    \<open>Print_Parse\<close> (what is printed is a number of the grammar); \<open>Text_Errors\<close> (rejected
    texts, special values); \<open>Text_Correct\<close> holds the properties of reading and printing.
  \<^item> \<open>Divergences\<close>: inputs on which the code does not do what its comments say, evaluated.

  \<^bold>\<open>Bounds.\<close> No fuel is used: loops are structural, have a measure, or are \<open>while_do\<close>, whose
  termination every rule proves. The exact comparison stays below \<open>2 ^ 64 * 5 ^ 1103 < W 127\<close>.

  \<^bold>\<open>Not modelled.\<close> Overflow of a C++ \<open>int\<close> (exponents near \<open>2 ^ 31\<close>). The code selected for
  processors without correct double arithmetic. Iostreams, locale symbols and everything outside
  the library: the back end, the application's screens and the other vendored pods.
\<close>

end
